(* ===== verification/Mesa_Prelude.thy ===== *)
theory Mesa_Prelude
  imports Main "HOL-Library.Word"
begin

text \<open>
  Shared vocabulary of the development: the names of the C integer types as words, the
  position of the lowest set bit of a word, the floor of the binary logarithm of a natural
  number, and the facts about words, lists and finite sets that several components use.
  Facts that rewrite bit tests of words are collected in \<open>word_bits\<close>; facts that move a word
  operation to natural numbers where no wrap-around happens are collected in \<open>no_wrap\<close>.
\<close>

unbundle bit_operations_syntax

section \<open>C types\<close>

type_synonym u8 = "8 word"
type_synonym u16 = "16 word"
type_synonym u32 = "32 word"
type_synonym u64 = "64 word"

text \<open>A pointer is its 64-bit address; \<open>NULL\<close> is the address 0.\<close>

type_synonym ptr = "64 word"

abbreviation NULL :: ptr where
  "NULL \<equiv> 0"

abbreviation UINT_MAX :: u32 where
  "UINT_MAX \<equiv> 0xffffffff"

named_theorems word_bits \<open>bit tests of compound words\<close>
named_theorems no_wrap \<open>word arithmetic read as arithmetic on natural numbers\<close>

section \<open>The lowest set bit\<close>

text \<open>Position \<open>p\<close> holds the least significant set bit of \<open>w\<close>.\<close>

definition lowest_bit :: "'a::len word \<Rightarrow> nat \<Rightarrow> bool" where
  "lowest_bit w p \<longleftrightarrow> bit w p \<and> (\<forall>k<p. \<not> bit w k)"

lemma lowest_bit_exists: "w \<noteq> 0 \<Longrightarrow> \<exists>p. lowest_bit w p"
  unfolding lowest_bit_def
  by (metis bit_eq_iff bit_0_eq bot_apply bot_bool_def exists_least_iff)

lemma lowest_bit_unique: "lowest_bit w p \<Longrightarrow> lowest_bit w q \<Longrightarrow> p = q"
  unfolding lowest_bit_def by (metis linorder_neqE_nat)

lemma lowest_bit_bound: "lowest_bit (w :: 'a::len word) p \<Longrightarrow> p < LENGTH('a)"
  unfolding lowest_bit_def by (auto dest: bit_imp_le_length)

lemma lowest_bit_nonzero: "lowest_bit w p \<Longrightarrow> w \<noteq> 0"
  by (auto simp: lowest_bit_def)

text \<open>Subtracting one borrows from the lowest set bit: everything above it is unchanged.\<close>

lemma minus_one_lowest_bit:
  fixes w :: "'a::len word"
  assumes "lowest_bit w p"
  shows "w - 1 = (w AND NOT (push_bit p 1)) OR mask p"
proof -
  let ?h = "w AND NOT (push_bit p 1)"
  have p: "bit w p" "\<And>k. k < p \<Longrightarrow> \<not> bit w k" and len: "p < LENGTH('a)"
    using assms lowest_bit_bound by (auto simp: lowest_bit_def)
  have "w = ?h OR push_bit p 1"
    by (rule bit_eqI) (use p in \<open>auto simp: bit_simps\<close>)
  also have "\<dots> = ?h + push_bit p 1"
    by (rule disjunctive_add_eq_or [symmetric]) (auto intro!: bit_eqI simp: bit_simps)
  finally have "w - 1 = ?h + (push_bit p 1 - 1)"
    by (metis add_diff_eq)
  also have "\<dots> = ?h + mask p"
    by (simp add: mask_eq_exp_minus_1 push_bit_eq_mult)
  also have "\<dots> = ?h OR mask p"
    by (rule disjunctive_add_eq_or) (use p in \<open>auto intro!: bit_eqI simp: bit_simps\<close>)
  finally show ?thesis .
qed

lemma clear_lowest_bit [word_bits]:
  fixes w :: "'a::len word"
  assumes "lowest_bit w p"
  shows "bit (w AND (w - 1)) k \<longleftrightarrow> bit w k \<and> k \<noteq> p"
  using assms lowest_bit_bound [OF assms]
  by (auto simp: minus_one_lowest_bit bit_simps lowest_bit_def not_less dest: bit_imp_le_length)

text \<open>The positions of the set bits of a word, in increasing order.\<close>

definition set_bit_list :: "'a::len word \<Rightarrow> nat list" where
  "set_bit_list w = filter (bit w) [0..<LENGTH('a)]"

lemma set_bit_list_0 [simp]: "set_bit_list 0 = []"
  by (simp add: set_bit_list_def)

lemma set_set_bit_list [simp]: "set (set_bit_list w) = {k. bit w k}"
  by (auto simp: set_bit_list_def dest: bit_imp_le_length)

lemma distinct_set_bit_list [simp]: "distinct (set_bit_list w)"
  by (simp add: set_bit_list_def)

lemma sorted_set_bit_list [simp]: "sorted (set_bit_list w)"
  by (simp add: set_bit_list_def sorted_wrt_filter)

lemma length_set_bit_list: "length (set_bit_list w) = card {k. bit w k}"
  using distinct_card [OF distinct_set_bit_list, of w] by simp

lemma length_set_bit_list_le: "length (set_bit_list (w :: 'a::len word)) \<le> LENGTH('a)"
  using length_filter_le [of "bit w" "[0..<LENGTH('a)]"] by (simp add: set_bit_list_def)

lemma set_bit_list_eq_Nil [simp]: "set_bit_list w = [] \<longleftrightarrow> w = 0"
  by (metis empty_iff list.set(1) lowest_bit_def lowest_bit_exists mem_Collect_eq set_bit_list_0 set_set_bit_list)

text \<open>A run of ones at the lowest set bit is a prefix of the list.\<close>

lemma set_bit_list_run:
  fixes w m :: "'a::len word"
  assumes "lowest_bit w p" "p + c \<le> LENGTH('a)" "\<And>k. p \<le> k \<Longrightarrow> k < p + c \<Longrightarrow> bit w k"
    and "\<And>k. bit m k \<longleftrightarrow> bit w k \<and> \<not> (p \<le> k \<and> k < p + c)"
  shows "set_bit_list w = [p..<p + c] @ set_bit_list m"
proof -
  let ?n = "LENGTH('a)"
  have split: "[0..<?n] = [0..<p] @ [p..<p + c] @ [p + c..<?n]"
    using assms(2) upt_add_eq_append [of 0 p "?n - p"] upt_add_eq_append [of p "p + c" "?n - (p + c)"] by simp
  have "filter (bit w) [0..<p] = []" "filter (bit m) [0..<p] = []"
    using assms(1,4) by (auto simp: lowest_bit_def filter_empty_conv)
  moreover have "filter (bit w) [p..<p + c] = [p..<p + c]" "filter (bit m) [p..<p + c] = []"
    using assms(3,4) by (auto simp: filter_id_conv filter_empty_conv)
  moreover have "filter (bit m) [p + c..<?n] = filter (bit w) [p + c..<?n]"
    by (rule filter_cong) (use assms(4) in auto)
  ultimately show ?thesis by (simp add: set_bit_list_def split)
qed

lemma set_bit_list_lowest:
  fixes w m :: "'a::len word"
  assumes "lowest_bit w p" "\<And>k. bit m k \<longleftrightarrow> bit w k \<and> k \<noteq> p"
  shows "set_bit_list w = p # set_bit_list m"
proof -
  have at: "p \<le> k \<and> k < p + 1 \<longleftrightarrow> k = p" for k by auto
  have "set_bit_list w = [p..<p + 1] @ set_bit_list m"
  proof (rule set_bit_list_run [OF assms(1)])
    show "p + 1 \<le> LENGTH('a)" using lowest_bit_bound [OF assms(1)] by simp
    show "bit w k" if "p \<le> k" "k < p + 1" for k
      using that assms(1) by (auto simp: lowest_bit_def less_Suc_eq)
    show "bit m k \<longleftrightarrow> bit w k \<and> \<not> (p \<le> k \<and> k < p + 1)" for k
      unfolding at by (rule assms(2))
  qed
  then show ?thesis by simp
qed

section \<open>Floor of the binary logarithm\<close>

definition floor_log2 :: "nat \<Rightarrow> nat \<Rightarrow> bool" where
  "floor_log2 x r \<longleftrightarrow> 2 ^ r \<le> x \<and> x < 2 ^ Suc r"

lemma floor_log2_unique: "floor_log2 x r \<Longrightarrow> floor_log2 x s \<Longrightarrow> r = s"
proof -
  assume "floor_log2 x r" "floor_log2 x s"
  then have "(2::nat) ^ r < 2 ^ Suc s" "(2::nat) ^ s < 2 ^ Suc r"
    unfolding floor_log2_def by linarith+
  then have "r < Suc s" "s < Suc r"
    by (simp_all only: power_strict_increasing_iff one_less_numeral_iff semiring_norm)
  then show "r = s" by simp
qed

lemma floor_log2_shift: "floor_log2 (x div 2 ^ s) r \<Longrightarrow> floor_log2 x (r + s)"
  unfolding floor_log2_def
  by (simp add: power_add less_eq_div_iff_mult_less_eq div_less_iff_less_mult mult.commute mult.left_commute)

lemma floor_log2_exists: "0 < x \<Longrightarrow> \<exists>r. floor_log2 x r"
proof (induction x rule: less_induct)
  case (less x)
  show ?case
  proof (cases "x = 1")
    case False
    with less.prems have "x div 2 < x" "0 < x div 2" by auto
    from less.IH [OF this] obtain r where "floor_log2 (x div 2 ^ 1) r" by auto
    then show ?thesis by (blast dest: floor_log2_shift)
  qed (auto simp: floor_log2_def intro: exI [of _ 0])
qed

lemma floor_log2_less: "floor_log2 x r \<Longrightarrow> x < 2 ^ n \<Longrightarrow> r < n"
proof -
  assume "floor_log2 x r" "x < 2 ^ n"
  then have "(2::nat) ^ r < 2 ^ n" unfolding floor_log2_def by linarith
  then show "r < n" by simp
qed

section \<open>Words as natural numbers\<close>

lemma unat_lt2p [iff]: "unat (w :: 'a::len word) < 2 ^ LENGTH('a)"
  by (rule unsigned_less)

lemma unat_power_lower [simp]: "k < LENGTH('a) \<Longrightarrow> unat (2 ^ k :: 'a::len word) = 2 ^ k"
  using unat_of_nat [where 'a = 'a, of "2 ^ k"] by (simp add: power_strict_increasing)

lemma unat_add_no_wrap [no_wrap]:
  fixes a b :: "'a::len word"
  shows "unat a + unat b < 2 ^ LENGTH('a) \<Longrightarrow> unat (a + b) = unat a + unat b"
  by (simp add: unat_word_ariths)

lemma unat_sub_no_wrap [no_wrap]:
  fixes a b :: "'a::len word"
  shows "unat b \<le> unat a \<Longrightarrow> unat (a - b) = unat a - unat b"
  by (simp add: unat_sub word_le_nat_alt)

lemma unat_mult_no_wrap [no_wrap]:
  fixes a b :: "'a::len word"
  shows "unat a * unat b < 2 ^ LENGTH('a) \<Longrightarrow> unat (a * b) = unat a * unat b"
  by (simp add: unat_word_ariths)

lemma unat_ucast_eq: "unat (ucast (w :: 'a::len word) :: 'b::len word) = unat w mod 2 ^ LENGTH('b)"
  by (simp add: unsigned_ucast_eq take_bit_eq_mod)

end
