(* ===== verification/Bitscan.thy ===== *)
theory Bitscan
  imports Mesa_Prelude
begin

text \<open>
  \<^verbatim>\<open>src/util/bitscan.c\<close> and \<^verbatim>\<open>src/util/bitscan.h\<close>: find-first-set, the destructive scan
  loops over the set bits of a mask, power-of-two tests, find-last-set and masks of
  consecutive bits. The portable branch of every \<^verbatim>\<open>#if\<close> is modelled; the compiler builtins
  it stands in for are not part of the sources. An \<^verbatim>\<open>int\<close> argument is the 32-bit word of its
  two's complement representation, so \<^verbatim>\<open>>>\<close> on it is \<open>signed_drop_bit\<close>. Where the C code
  would shift by a negative amount (an empty mask), the model returns \<open>None\<close>.
\<close>

section \<open>Find first set\<close>

text \<open>
  One test \<^verbatim>\<open>if (!(i & m)) { bit += k; i >>= k; }\<close> of the binary search, on the pair of \<^verbatim>\<open>bit\<close>
  and \<^verbatim>\<open>i\<close>. (The last test of \<^verbatim>\<open>ffs\<close> leaves \<^verbatim>\<open>i\<close> alone.)
\<close>

definition ffs_step :: "nat \<Rightarrow> u32 \<Rightarrow> nat \<times> u32 \<Rightarrow> nat \<times> u32" where
  "ffs_step k m = (\<lambda>(b, i). if i AND m = 0 then (b + k, signed_drop_bit k i) else (b, i))"

definition ffs :: "u32 \<Rightarrow> nat" where
  "ffs i =
     (if i = 0 then 0
      else let (b, i) = ffs_step 2 0x3 (ffs_step 4 0xf (ffs_step 8 0xff (ffs_step 16 0xffff (0, i))));
               b = (if i AND 0x1 = 0 then b + 1 else b)
           in b + 1)"

definition ffsll :: "u64 \<Rightarrow> nat" where
  "ffsll val =
     (let b = ffs (ucast (val AND 0xffffffff))
      in if b \<noteq> 0 then b
         else let b = ffs (ucast (signed_drop_bit 32 val))
              in if b \<noteq> 0 then 32 + b else 0)"

section \<open>Scanning the bits of a mask\<close>

definition u_bit_scan :: "u32 \<Rightarrow> (nat \<times> u32) option" where
  "u_bit_scan msk =
     (if ffs msk = 0 then None
      else let i = ffs msk - 1 in Some (i, msk XOR push_bit i 1))"

definition u_bit_scan64 :: "u64 \<Rightarrow> (nat \<times> u64) option" where
  "u_bit_scan64 msk =
     (if ffsll msk = 0 then None
      else let i = ffsll msk - 1 in Some (i, msk XOR push_bit i 1))"

definition u_bit_scan_consecutive_range :: "u32 \<Rightarrow> (nat \<times> nat \<times> u32) option" where
  "u_bit_scan_consecutive_range msk =
     (if msk = 0xffffffff then Some (0, 32, 0)
      else if ffs msk = 0 then None
      else let start = ffs msk - 1;
               count = ffs (NOT (drop_bit start msk)) - 1
           in Some (start, count, msk AND NOT (push_bit start (push_bit count 1 - 1))))"

definition u_bit_scan_consecutive_range64 :: "u64 \<Rightarrow> (nat \<times> nat \<times> u64) option" where
  "u_bit_scan_consecutive_range64 msk =
     (if msk = NOT 0 then Some (0, 64, 0)
      else if ffsll msk = 0 then None
      else let start = ffsll msk - 1;
               count = ffsll (NOT (drop_bit start msk)) - 1
           in Some (start, count, msk AND NOT (push_bit start (push_bit count 1 - 1))))"

section \<open>Powers of two, last set bit, consecutive bits\<close>

definition util_is_power_of_two_or_zero :: "u32 \<Rightarrow> bool" where
  "util_is_power_of_two_or_zero v \<longleftrightarrow> v AND (v - 1) = 0"

definition util_is_power_of_two_or_zero64 :: "u64 \<Rightarrow> bool" where
  "util_is_power_of_two_or_zero64 v \<longleftrightarrow> v AND (v - 1) = 0"

definition util_is_power_of_two_nonzero :: "u32 \<Rightarrow> bool" where
  "util_is_power_of_two_nonzero v \<longleftrightarrow> v \<noteq> 0 \<and> v AND (v - 1) = 0"

text \<open>The loop \<^verbatim>\<open>while (u) { r++; u >>= 1; }\<close>, at both widths.\<close>

function last_bit_loop :: "nat \<Rightarrow> 'a::len word \<Rightarrow> nat" where
  "last_bit_loop r u = (if u = 0 then r else last_bit_loop (r + 1) (drop_bit 1 u))"
  by pat_completeness auto
termination
  by (relation "measure (\<lambda>(r, u). unat u)")
    (auto simp: drop_bit_eq_div unat_div unat_gt_0 intro!: div_less_dividend)

declare last_bit_loop.simps [simp del]

definition util_last_bit :: "u32 \<Rightarrow> nat" where
  "util_last_bit u = last_bit_loop 0 u"

definition util_last_bit64 :: "u64 \<Rightarrow> nat" where
  "util_last_bit64 u = last_bit_loop 0 u"

definition util_last_bit_signed :: "u32 \<Rightarrow> nat" where
  "util_last_bit_signed i = (if 0 \<le>s i then util_last_bit i else util_last_bit (NOT i))"

text \<open>\<open>None\<close> is the failing assertion \<^verbatim>\<open>start + count <= 32\<close>, whose sum wraps, or a shift by the width of
  the type or more, which has no defined result.\<close>

definition u_bit_consecutive :: "u32 \<Rightarrow> u32 \<Rightarrow> u32 option" where
  "u_bit_consecutive start count =
     (if \<not> start + count \<le> 32 then None
      else if count = 32 then Some (NOT 0)
      else if count < 32 \<and> start < 32 then Some (push_bit (unat start) (push_bit (unat count) 1 - 1))
      else None)"

definition u_bit_consecutive64 :: "u32 \<Rightarrow> u32 \<Rightarrow> u64 option" where
  "u_bit_consecutive64 start count =
     (if \<not> start + count \<le> 64 then None
      else if count = 64 then Some (NOT 0)
      else if count < 64 \<and> start < 64 then Some (push_bit (unat start) (push_bit (unat count) 1 - 1))
      else None)"

section \<open>The scan loops\<close>

text \<open>
  The loops the comments of \<^verbatim>\<open>bitscan.h\<close> document:
  \<^verbatim>\<open>while (mask) { int i = u_bit_scan(&mask); ... }\<close> as the list of the \<open>i\<close> it visits, and
  \<^verbatim>\<open>while (mask) { u_bit_scan_consecutive_range(&mask, &start, &count); ... }\<close> as the list of
  the indices \<open>start + i\<close> it visits. The fuel bounds the number of iterations.
\<close>

fun bit_scan_loop :: "nat \<Rightarrow> u32 \<Rightarrow> nat list option" where
  "bit_scan_loop 0 msk = (if msk = 0 then Some [] else None)"
| "bit_scan_loop (Suc fuel) msk =
     (if msk = 0 then Some []
      else case u_bit_scan msk of
             None \<Rightarrow> None
           | Some (i, msk') \<Rightarrow> map_option (Cons i) (bit_scan_loop fuel msk'))"

fun bit_scan_range_loop :: "nat \<Rightarrow> u32 \<Rightarrow> nat list option" where
  "bit_scan_range_loop 0 msk = (if msk = 0 then Some [] else None)"
| "bit_scan_range_loop (Suc fuel) msk =
     (if msk = 0 then Some []
      else case u_bit_scan_consecutive_range msk of
             None \<Rightarrow> None
           | Some (start, count, msk') \<Rightarrow>
               map_option (append [start..<start + count]) (bit_scan_range_loop fuel msk'))"

section \<open>Find first set is correct\<close>

lemma and_mask_eq_0_lowest_bit:
  fixes w :: "'a::len word"
  assumes "lowest_bit w p" "k \<le> LENGTH('a)"
  shows "w AND mask k = 0 \<longleftrightarrow> k \<le> p"
proof
  assume eq: "w AND mask k = 0"
  show "k \<le> p"
  proof (rule ccontr)
    assume "\<not> k \<le> p"
    then have "bit (w AND mask k) p"
      using assms lowest_bit_bound [OF assms(1)] by (simp add: lowest_bit_def bit_simps)
    with eq show False by simp
  qed
next
  assume "k \<le> p"
  then show "w AND mask k = 0"
    using assms by (auto intro!: bit_eqI simp: lowest_bit_def bit_simps)
qed

lemma lowest_bit_signed_drop_bit:
  fixes w :: "'a::len word"
  assumes "lowest_bit w p" "k \<le> p"
  shows "lowest_bit (signed_drop_bit k w) (p - k)"
  using assms lowest_bit_bound [OF assms(1)]
  by (auto simp: lowest_bit_def bit_simps not_le less_diff_conv)

text \<open>One step of the binary search: the tested block is empty, or it holds the bit.\<close>

lemma ffs_step_lowest_bit:
  assumes "lowest_bit (snd s) p" "p < 2 * k" "k \<le> 32" "m = mask k"
  obtains p' where "lowest_bit (snd (ffs_step k m s)) p'" "p' < k" "fst (ffs_step k m s) + p' = fst s + p"
proof (cases "k \<le> p")
  case True
  with assms have "ffs_step k m s = (fst s + k, signed_drop_bit k (snd s))"
    using and_mask_eq_0_lowest_bit [OF assms(1), of k] by (simp add: ffs_step_def split_beta)
  with True assms lowest_bit_signed_drop_bit [OF assms(1) True] that [of "p - k"]
  show ?thesis by simp
next
  case False
  with assms have "ffs_step k m s = s"
    using and_mask_eq_0_lowest_bit [OF assms(1), of k] by (simp add: ffs_step_def split_beta)
  with False assms that [of p] show ?thesis by simp
qed

lemma ffs_lowest_bit:
  assumes "lowest_bit w p"
  shows "ffs w = Suc p"
proof -
  define s1 where "s1 = ffs_step 16 0xffff (0, w)"
  define s2 where "s2 = ffs_step 8 0xff s1"
  define s3 where "s3 = ffs_step 4 0xf s2"
  define s4 where "s4 = ffs_step 2 0x3 s3"
  have m: "0xffff = (mask 16 :: u32)" "0xff = (mask 8 :: u32)" "0xf = (mask 4 :: u32)" "0x3 = (mask 2 :: u32)"
    by (simp_all add: mask_eq_exp_minus_1)
  have p: "p < 2 * 16" and w: "lowest_bit (snd (0 :: nat, w)) p"
    using assms lowest_bit_bound [OF assms] by simp_all
  obtain p1 where 1: "lowest_bit (snd s1) p1" "p1 < 2 * 8" "fst s1 + p1 = p"
    using ffs_step_lowest_bit [OF w p _ m(1)] by (auto simp: s1_def)
  obtain p2 where 2: "lowest_bit (snd s2) p2" "p2 < 2 * 4" "fst s2 + p2 = p"
    using ffs_step_lowest_bit [OF 1(1,2) _ m(2)] 1(3) by (auto simp: s2_def)
  obtain p3 where 3: "lowest_bit (snd s3) p3" "p3 < 2 * 2" "fst s3 + p3 = p"
    using ffs_step_lowest_bit [OF 2(1,2) _ m(3)] 2(3) by (auto simp: s3_def)
  obtain p4 where 4: "lowest_bit (snd s4) p4" "p4 < 2" "fst s4 + p4 = p"
    using ffs_step_lowest_bit [OF 3(1,2) _ m(4)] 3(3) by (auto simp: s4_def)
  have last: "snd s4 AND 1 = 0 \<longleftrightarrow> p4 = 1"
    using and_mask_eq_0_lowest_bit [OF 4(1), of 1] 4(2) by (auto simp: mask_eq_exp_minus_1)
  have "ffs w = (if snd s4 AND 1 = 0 then fst s4 + 1 else fst s4) + 1"
    using lowest_bit_nonzero [OF assms]
    by (simp add: ffs_def Let_def split_beta s1_def s2_def s3_def s4_def)
  with last 4(2,3) show ?thesis by auto
qed

lemma ffs_0 [simp]: "ffs 0 = 0"
  by (simp add: ffs_def)

lemma ffs_eq_0_iff [simp]: "ffs w = 0 \<longleftrightarrow> w = 0"
  using lowest_bit_exists [of w] ffs_lowest_bit by force

lemma ffs_eq_Suc_iff: "ffs w = Suc p \<longleftrightarrow> lowest_bit w p"
  using lowest_bit_exists [of w] ffs_lowest_bit by (metis Suc_inject ffs_0 nat.distinct(1))

lemma ffsll_lowest_bit:
  assumes "lowest_bit val p"
  shows "ffsll val = Suc p"
proof (cases "p < 32")
  case True
  then have "lowest_bit (ucast (val AND mask 32) :: u32) p"
    using assms by (auto simp: lowest_bit_def bit_simps)
  then have "ffs (ucast (val AND 0xffffffff)) = Suc p"
    by (simp add: ffs_lowest_bit mask_eq_exp_minus_1)
  then show ?thesis by (simp add: ffsll_def)
next
  case False
  then have "(ucast (val AND mask 32) :: u32) = 0"
    using assms by (auto intro!: bit_eqI simp: lowest_bit_def bit_simps)
  then have low: "ffs (ucast (val AND 0xffffffff)) = 0"
    by (simp add: mask_eq_exp_minus_1)
  have "lowest_bit (signed_drop_bit 32 val) (p - 32)" and "p < 64"
    using False assms lowest_bit_bound [OF assms] by (auto intro: lowest_bit_signed_drop_bit)
  with False have "lowest_bit (ucast (signed_drop_bit 32 val) :: u32) (p - 32)"
    by (auto simp: lowest_bit_def bit_simps)
  then have "ffs (ucast (signed_drop_bit 32 val)) = Suc (p - 32)"
    by (rule ffs_lowest_bit)
  with low False show ?thesis by (simp add: ffsll_def)
qed

lemma ffsll_0 [simp]: "ffsll 0 = 0"
  by (simp add: ffsll_def)

lemma ffsll_eq_0_iff [simp]: "ffsll w = 0 \<longleftrightarrow> w = 0"
  using lowest_bit_exists [of w] ffsll_lowest_bit by force

section \<open>The scan loops visit exactly the set bits, in order\<close>

lemma u_bit_scan_eq:
  assumes "lowest_bit msk p"
  shows "u_bit_scan msk = Some (p, msk XOR push_bit p 1)"
  using assms by (simp add: u_bit_scan_def ffs_lowest_bit lowest_bit_nonzero)

lemma u_bit_scan64_eq:
  assumes "lowest_bit msk p"
  shows "u_bit_scan64 msk = Some (p, msk XOR push_bit p 1)"
  using assms by (simp add: u_bit_scan64_def ffsll_lowest_bit lowest_bit_nonzero)

lemma bit_flip_lowest [word_bits]:
  fixes w :: "'a::len word"
  assumes "lowest_bit w p"
  shows "bit (w XOR push_bit p 1) k \<longleftrightarrow> bit w k \<and> k \<noteq> p"
  using assms lowest_bit_bound [OF assms] by (auto simp: lowest_bit_def bit_simps)

lemma bit_scan_loop_eq:
  "length (set_bit_list msk) \<le> fuel \<Longrightarrow> bit_scan_loop fuel msk = Some (set_bit_list msk)"
proof (induction fuel arbitrary: msk)
  case 0
  then show ?case by simp
next
  case (Suc fuel)
  show ?case
  proof (cases "msk = 0")
    case False
    then obtain p where p: "lowest_bit msk p" using lowest_bit_exists by blast
    have "set_bit_list msk = p # set_bit_list (msk XOR push_bit p 1)"
      by (rule set_bit_list_lowest [OF p bit_flip_lowest [OF p]])
    with Suc show ?thesis
      using False by (simp add: u_bit_scan_eq [OF p])
  qed simp
qed

text \<open>A maximal run of ones starting at the lowest set bit.\<close>

lemma u_bit_scan_consecutive_range_eq:
  assumes "lowest_bit msk p"
  obtains c msk' where
    "u_bit_scan_consecutive_range msk = Some (p, c, msk')" "0 < c" "p + c \<le> 32"
    "\<And>k. p \<le> k \<Longrightarrow> k < p + c \<Longrightarrow> bit msk k" "\<not> bit msk (p + c)"
    "\<And>k. bit msk' k \<longleftrightarrow> bit msk k \<and> \<not> (p \<le> k \<and> k < p + c)"
proof (cases "msk = 0xffffffff")
  case True
  then have all: "bit msk k \<longleftrightarrow> k < 32" for k
    using bit_mask_iff [where 'a = u32, of 32 k] by (simp add: mask_eq_exp_minus_1)
  with assms have "p = 0" by (auto simp: lowest_bit_def)
  with all show ?thesis
    by (intro that [of 32 0]) (auto simp: u_bit_scan_consecutive_range_def True)
next
  case False
  let ?d = "NOT (drop_bit p msk)"
  have "?d \<noteq> 0"
  proof
    assume "?d = 0"
    then have "\<not> bit ?d k" for k by simp
    then have run: "bit msk (p + k)" if "k < 32" for k
      using that by (simp add: bit_simps)
    from this [of 31] have "p = 0" by (auto dest: bit_imp_le_length)
    then have "bit msk k" if "k < 32" for k
      using run [OF that] by simp
    then have "msk = mask 32" by (auto intro!: bit_eqI simp: bit_simps)
    with False show False by (simp add: mask_eq_exp_minus_1)
  qed
  then obtain c where c: "lowest_bit ?d c" using lowest_bit_exists by blast
  have len: "p < 32" "c < 32" using assms c lowest_bit_bound by fastforce+
  have run: "bit msk (p + k)" if "k < c" for k
    using c that len by (auto simp: lowest_bit_def bit_simps)
  have stop: "\<not> bit msk (p + c)"
    using c len by (auto simp: lowest_bit_def bit_simps)
  with assms have pos: "0 < c" by (auto simp: lowest_bit_def intro: gr0I)
  from pos have "bit msk (p + (c - 1))" by (intro run) simp
  with pos have le: "p + c \<le> 32" by (auto dest: bit_imp_le_length)
  show ?thesis
  proof (rule that)
    show "u_bit_scan_consecutive_range msk = Some (p, c, msk AND NOT (push_bit p (mask c)))"
      using False assms c
      by (simp add: u_bit_scan_consecutive_range_def ffs_lowest_bit lowest_bit_nonzero mask_eq_exp_minus_1)
    show "bit msk k" if "p \<le> k" "k < p + c" for k
      using run [of "k - p"] that by simp
    show "bit (msk AND NOT (push_bit p (mask c))) k \<longleftrightarrow> bit msk k \<and> \<not> (p \<le> k \<and> k < p + c)" for k
      using bit_imp_le_length [of msk k] by (auto simp: bit_simps)
    show "0 < c" "p + c \<le> 32" "\<not> bit msk (p + c)" by (fact pos, fact le, fact stop)
  qed
qed

lemma bit_scan_range_loop_eq:
  "length (set_bit_list msk) \<le> fuel \<Longrightarrow> bit_scan_range_loop fuel msk = Some (set_bit_list msk)"
proof (induction fuel arbitrary: msk)
  case 0
  then show ?case by simp
next
  case (Suc fuel)
  show ?case
  proof (cases "msk = 0")
    case False
    then obtain p where p: "lowest_bit msk p" using lowest_bit_exists by blast
    obtain c m where c: "u_bit_scan_consecutive_range msk = Some (p, c, m)" "0 < c" "p + c \<le> 32"
      "\<And>k. p \<le> k \<Longrightarrow> k < p + c \<Longrightarrow> bit msk k" "\<not> bit msk (p + c)"
      "\<And>k. bit m k \<longleftrightarrow> bit msk k \<and> \<not> (p \<le> k \<and> k < p + c)"
      by (rule u_bit_scan_consecutive_range_eq [OF p]) (rule that)
    have "set_bit_list msk = [p..<p + c] @ set_bit_list m"
      by (rule set_bit_list_run [OF p _ c(4,6)]) (use c(3) in simp)
    with Suc show ?thesis using False c(1,2) by simp
  qed simp
qed

section \<open>Powers of two, last set bit, consecutive bits\<close>

lemma lowest_bit_exp: "k < LENGTH('a) \<Longrightarrow> lowest_bit (2 ^ k :: 'a::len word) k"
  by (auto simp: lowest_bit_def bit_simps)

lemma and_minus_one_eq_0_iff:
  fixes v :: "'a::len word"
  shows "v AND (v - 1) = 0 \<longleftrightarrow> v = 0 \<or> (\<exists>k<LENGTH('a). v = 2 ^ k)"
proof (cases "v = 0")
  case False
  then obtain p where p: "lowest_bit v p" using lowest_bit_exists by blast
  have len: "p < LENGTH('a)" by (rule lowest_bit_bound [OF p])
  show ?thesis
  proof
    assume "v AND (v - 1) = 0"
    then have "bit v k \<longleftrightarrow> k = p" for k
      using clear_lowest_bit [OF p, of k] p by (auto simp: lowest_bit_def)
    with len have "v = 2 ^ p"
      by (intro bit_eqI) (simp add: bit_simps)
    with len show "v = 0 \<or> (\<exists>k<LENGTH('a). v = 2 ^ k)" by blast
  next
    assume "v = 0 \<or> (\<exists>k<LENGTH('a). v = 2 ^ k)"
    with False obtain k where k: "k < LENGTH('a)" "v = 2 ^ k" by blast
    then have "lowest_bit v k" by (simp add: lowest_bit_exp)
    from clear_lowest_bit [OF this] show "v AND (v - 1) = 0"
      by (intro bit_eqI) (simp add: k bit_simps)
  qed
qed simp

lemma util_is_power_of_two_or_zero_iff:
  "util_is_power_of_two_or_zero v \<longleftrightarrow> v = 0 \<or> (\<exists>k<32. v = 2 ^ k)"
  using and_minus_one_eq_0_iff [of v] by (simp add: util_is_power_of_two_or_zero_def)

lemma util_is_power_of_two_or_zero64_iff:
  "util_is_power_of_two_or_zero64 v \<longleftrightarrow> v = 0 \<or> (\<exists>k<64. v = 2 ^ k)"
  using and_minus_one_eq_0_iff [of v] by (simp add: util_is_power_of_two_or_zero64_def)

lemma util_is_power_of_two_nonzero_iff:
  "util_is_power_of_two_nonzero v \<longleftrightarrow> (\<exists>k<32. v = 2 ^ k)"
  using and_minus_one_eq_0_iff [of v] lowest_bit_exp [where 'a = 32]
  by (auto simp: util_is_power_of_two_nonzero_def dest: lowest_bit_nonzero)

lemma last_bit_loop_0 [simp]: "last_bit_loop r 0 = r"
  by (simp add: last_bit_loop.simps)

lemma last_bit_loop_eq:
  "floor_log2 (unat u) h \<Longrightarrow> last_bit_loop r u = r + Suc h"
proof (induction r u arbitrary: h rule: last_bit_loop.induct)
  case (1 r u)
  then have nz: "u \<noteq> 0" by (auto simp: floor_log2_def)
  have half: "unat (drop_bit 1 u) = unat u div 2 ^ 1"
    by (metis unat_drop_bit_eq drop_bit_eq_div)
  show ?case
  proof (cases "drop_bit 1 u = 0")
    case True
    with half have "unat u < 2" by simp
    with "1.prems" have "h = 0"
      using floor_log2_less [OF "1.prems", of 1] by simp
    with True nz show ?thesis by (simp add: last_bit_loop.simps [of r u])
  next
    case False
    then obtain h' where h': "floor_log2 (unat (drop_bit 1 u)) h'"
      using floor_log2_exists [of "unat (drop_bit 1 u)"] by (auto simp: unat_gt_0)
    with half have "floor_log2 (unat u) (h' + 1)"
      by (metis floor_log2_shift)
    with "1.prems" have "h = h' + 1" by (rule floor_log2_unique)
    moreover have "last_bit_loop (r + 1) (drop_bit 1 u) = r + 1 + Suc h'"
      using "1.IH" [OF nz h'] by simp
    ultimately show ?thesis using nz by (simp add: last_bit_loop.simps [of r u])
  qed
qed

text \<open>The result is the least number of bits the value fits in.\<close>

lemma last_bit_loop_bounds:
  fixes u :: "'a::len word"
  shows "unat u < 2 ^ last_bit_loop 0 u" "n < last_bit_loop 0 u \<Longrightarrow> 2 ^ n \<le> unat u"
proof (atomize (full), cases "u = 0")
  case False
  then obtain h where h: "floor_log2 (unat u) h"
    using floor_log2_exists [of "unat u"] by (auto simp: unat_gt_0)
  have "(2::nat) ^ n \<le> unat u" if "n < Suc h"
    using h that order_trans [OF power_increasing [of n h "2::nat"]] by (simp add: floor_log2_def)
  with h show "unat u < 2 ^ last_bit_loop 0 u \<and> (n < last_bit_loop 0 u \<longrightarrow> 2 ^ n \<le> unat u)"
    by (simp add: last_bit_loop_eq [OF h] floor_log2_def)
qed simp

lemma bit_push_bit_minus_one:
  fixes w :: "'a::len word"
  assumes "s + c \<le> LENGTH('a)"
  shows "bit (push_bit s (push_bit c 1 - 1) :: 'a word) k \<longleftrightarrow> s \<le> k \<and> k < s + c"
  using assms by (auto simp: bit_simps simp flip: mask_eq_exp_minus_1)

lemma u_bit_consecutive_bits:
  assumes "unat start < 32" "unat start + unat count \<le> 32"
  shows "\<exists>w. u_bit_consecutive start count = Some w \<and> (\<forall>k. bit w k \<longleftrightarrow> unat start \<le> k \<and> k < unat start + unat count)"
proof (cases "count = 32")
  case True
  then show ?thesis using assms by (auto simp: u_bit_consecutive_def bit_simps unat_eq_0)
next
  case False
  have s: "unat (start + count) = unat start + unat count" using assms(2) by (subst unat_add_no_wrap) simp_all
  have "unat count \<noteq> 32" using False by (simp add: word_unat_eq_iff)
  then show ?thesis using False assms bit_push_bit_minus_one [where 'a = 32, of "unat start" "unat count"]
    by (simp add: u_bit_consecutive_def word_le_nat_alt word_less_nat_alt s)
qed

lemma u_bit_consecutive64_bits:
  assumes "unat start < 64" "unat start + unat count \<le> 64"
  shows "\<exists>w. u_bit_consecutive64 start count = Some w \<and> (\<forall>k. bit w k \<longleftrightarrow> unat start \<le> k \<and> k < unat start + unat count)"
proof (cases "count = 64")
  case True
  then show ?thesis using assms by (auto simp: u_bit_consecutive64_def bit_simps unat_eq_0)
next
  case False
  have s: "unat (start + count) = unat start + unat count" using assms(2) by (subst unat_add_no_wrap) simp_all
  have "unat count \<noteq> 64" using False by (simp add: word_unat_eq_iff)
  then show ?thesis using False assms bit_push_bit_minus_one [where 'a = 64, of "unat start" "unat count"]
    by (simp add: u_bit_consecutive64_def word_le_nat_alt word_less_nat_alt s)
qed

section \<open>Properties\<close>

text \<open>
  Both scanning loops, \<^verbatim>\<open>while (mask) i = u_bit_scan(&mask)\<close> and the one over
  \<^verbatim>\<open>u_bit_scan_consecutive_range\<close>, end within 32 rounds and visit exactly the set bits, each once
  and in increasing order; the ranges cover the same bits.
\<close>

lemma bit_scan_loops_correct:
  "bit_scan_loop 32 msk = Some (filter (bit msk) [0..<32]) \<and>
   bit_scan_range_loop 32 msk = Some (filter (bit msk) [0..<32])"
  using bit_scan_loop_eq [of msk 32] bit_scan_range_loop_eq [of msk 32] length_set_bit_list_le [of msk]
  by (simp add: set_bit_list_def)

end
