(* ===== verification/Umath.thy ===== *)
theory Umath
  imports Bitscan
begin

text \<open>
  The integer and bit-pattern helpers of \<^verbatim>\<open>src/util/u_math.h\<close>: floor and ceiling of the binary
  logarithm, next power of two, bit count, bit and byte reversal, alignment, mip-level
  minification, and the classification of IEEE bit patterns. The portable branch of every
  \<^verbatim>\<open>#if\<close> is modelled. A \<^verbatim>\<open>float\<close> or \<^verbatim>\<open>double\<close> argument is the word the code reads through its
  union; floating-point arithmetic is not modelled.
\<close>

section \<open>Classification of IEEE bit patterns\<close>

definition util_is_inf_or_nan :: "u32 \<Rightarrow> bool" where
  "util_is_inf_or_nan ui \<longleftrightarrow> ui AND 0x7f800000 = 0x7f800000"

definition util_is_nan :: "u32 \<Rightarrow> bool" where
  "util_is_nan ui \<longleftrightarrow> ui AND 0x7fffffff > 0x7f800000"

text \<open>The comparison \<^verbatim>\<open>x < 0\<close> is made on an infinity only, where it is the sign bit.\<close>

definition util_inf_sign :: "u32 \<Rightarrow> int" where
  "util_inf_sign ui =
     (if ui AND 0x7fffffff \<noteq> 0x7f800000 then 0 else if bit ui 31 then - 1 else 1)"

definition util_is_double_inf_or_nan :: "u64 \<Rightarrow> bool" where
  "util_is_double_inf_or_nan ui \<longleftrightarrow> ui AND 0x7ff0000000000000 = 0x7ff0000000000000"

definition util_is_double_nan :: "u64 \<Rightarrow> bool" where
  "util_is_double_nan ui \<longleftrightarrow> ui AND 0x7fffffffffffffff > 0x7ff0000000000000"

definition util_double_inf_sign :: "u64 \<Rightarrow> int" where
  "util_double_inf_sign ui =
     (if ui AND 0x7fffffffffffffff \<noteq> 0x7ff0000000000000 then 0 else if bit ui 63 then - 1 else 1)"

definition util_is_half_inf_or_nan :: "u16 \<Rightarrow> bool" where
  "util_is_half_inf_or_nan x \<longleftrightarrow> x AND 0x7c00 = 0x7c00"

definition util_is_half_nan :: "u16 \<Rightarrow> bool" where
  "util_is_half_nan x \<longleftrightarrow> x AND 0x7fff > 0x7c00"

definition util_half_inf_sign :: "u16 \<Rightarrow> int" where
  "util_half_inf_sign x =
     (if x AND 0x7fff \<noteq> 0x7c00 then 0 else if x <s 0 then - 1 else 1)"

section \<open>Binary logarithms and powers of two\<close>

text \<open>
  One test \<^verbatim>\<open>if (n >= 1 << k) { n >>= k; pos += k; }\<close>, on the pair of \<^verbatim>\<open>n\<close> and \<^verbatim>\<open>pos\<close>. (The
  last test leaves \<^verbatim>\<open>n\<close> alone.)
\<close>

definition logbase2_step :: "nat \<Rightarrow> 'a::len word \<times> nat \<Rightarrow> 'a word \<times> nat" where
  "logbase2_step k =
     (\<lambda>(n, pos). if n \<ge> push_bit k 1 then (drop_bit k n, pos + k) else (n, pos))"

definition util_logbase2 :: "u32 \<Rightarrow> nat" where
  "util_logbase2 n =
     (let (n, pos) = logbase2_step 2 (logbase2_step 4 (logbase2_step 8 (logbase2_step 16 (n, 0))))
      in if n \<ge> push_bit 1 1 then pos + 1 else pos)"

definition util_logbase2_64 :: "u64 \<Rightarrow> nat" where
  "util_logbase2_64 n =
     (let (n, pos) = logbase2_step 2 (logbase2_step 4 (logbase2_step 8
                       (logbase2_step 16 (logbase2_step 32 (n, 0)))))
      in if n \<ge> push_bit 1 1 then pos + 1 else pos)"

definition util_logbase2_ceil :: "u32 \<Rightarrow> nat" where
  "util_logbase2_ceil n = (if n \<le> 1 then 0 else 1 + util_logbase2 (n - 1))"

definition util_logbase2_ceil64 :: "u64 \<Rightarrow> nat" where
  "util_logbase2_ceil64 n = (if n \<le> 1 then 0 else 1 + util_logbase2_64 (n - 1))"

text \<open>The statement \<^verbatim>\<open>val = (val >> k) | val\<close>.\<close>

definition smear :: "nat \<Rightarrow> 'a::len word \<Rightarrow> 'a word" where
  "smear k val = drop_bit k val OR val"

definition util_next_power_of_two :: "u32 \<Rightarrow> u32" where
  "util_next_power_of_two x =
     (if x \<le> 1 then 1
      else if util_is_power_of_two_or_zero x then x
      else smear 16 (smear 8 (smear 4 (smear 2 (smear 1 (x - 1))))) + 1)"

definition util_next_power_of_two64 :: "u64 \<Rightarrow> u64" where
  "util_next_power_of_two64 x =
     (if x \<le> 1 then 1
      else if util_is_power_of_two_or_zero64 x then x
      else smear 32 (smear 16 (smear 8 (smear 4 (smear 2 (smear 1 (x - 1)))))) + 1)"

section \<open>Bit count, bit and byte reversal\<close>

text \<open>The loop \<^verbatim>\<open>for (bits = 0; n; bits++) n &= n - 1;\<close>.\<close>

function bitcount_loop :: "nat \<Rightarrow> u32 \<Rightarrow> nat" where
  "bitcount_loop bits n = (if n = 0 then bits else bitcount_loop (bits + 1) (n AND (n - 1)))"
  by pat_completeness auto
termination
proof (relation "measure (\<lambda>(bits, n). length (set_bit_list n))")
  fix bits :: nat and n :: u32
  assume "n \<noteq> 0"
  then obtain p where p: "lowest_bit n p" using lowest_bit_exists by blast
  from set_bit_list_lowest [OF p clear_lowest_bit [OF p]]
  show "((bits + 1, n AND (n - 1)), bits, n) \<in> measure (\<lambda>(bits, n). length (set_bit_list n))"
    by simp
qed simp

declare bitcount_loop.simps [simp del]

definition util_bitcount :: "u32 \<Rightarrow> nat" where
  "util_bitcount n = bitcount_loop 0 n"

definition util_bitcount64 :: "u64 \<Rightarrow> nat" where
  "util_bitcount64 n = util_bitcount (ucast n) + util_bitcount (ucast (drop_bit 32 n))"

text \<open>The statement \<^verbatim>\<open>n = ((n >> k) & m) | ((n & m) << k)\<close>.\<close>

definition bitreverse_step :: "nat \<Rightarrow> u32 \<Rightarrow> u32 \<Rightarrow> u32" where
  "bitreverse_step k m n = (drop_bit k n AND m) OR push_bit k (n AND m)"

definition util_bitreverse :: "u32 \<Rightarrow> u32" where
  "util_bitreverse n =
     bitreverse_step 16 0xffff (bitreverse_step 8 0x00ff00ff (bitreverse_step 4 0x0f0f0f0f
       (bitreverse_step 2 0x33333333 (bitreverse_step 1 0x55555555 n))))"

definition util_bswap32 :: "u32 \<Rightarrow> u32" where
  "util_bswap32 n =
     drop_bit 24 n OR (drop_bit 8 n AND 0x0000ff00) OR (push_bit 8 n AND 0x00ff0000) OR push_bit 24 n"

definition util_bswap64 :: "u64 \<Rightarrow> u64" where
  "util_bswap64 n =
     push_bit 32 (ucast (util_bswap32 (ucast n))) OR ucast (util_bswap32 (ucast (drop_bit 32 n)))"

text \<open>Both shifts are made on the promoted \<^verbatim>\<open>int\<close>; the return value is truncated.\<close>

definition util_bswap16 :: "u16 \<Rightarrow> u16" where
  "util_bswap16 n = ucast (drop_bit 8 (ucast n :: u32) OR push_bit 8 (ucast n :: u32))"

section \<open>Alignment\<close>

definition align :: "u32 \<Rightarrow> u32 \<Rightarrow> u32" where
  "align value alignment = (value + alignment - 1) AND NOT (alignment - 1)"

definition align64 :: "u64 \<Rightarrow> u32 \<Rightarrow> u64" where
  "align64 value alignment = (value + ucast alignment - 1) AND NOT (ucast alignment - 1)"

text \<open>\<open>None\<close> is the division by zero of \<^verbatim>\<open>value % alignment\<close>.\<close>

definition util_align_npot :: "u64 \<Rightarrow> u64 \<Rightarrow> u64 option" where
  "util_align_npot value alignment =
     (if alignment = 0 then None
      else if value mod alignment \<noteq> 0 then Some (value + (alignment - value mod alignment))
      else Some value)"

definition u_minify :: "u32 \<Rightarrow> nat \<Rightarrow> u32" where
  "u_minify value levels = (if 1 > drop_bit levels value then 1 else drop_bit levels value)"

section \<open>Logarithms are correct\<close>

lemma logbase2_step_floor_log2:
  fixes s :: "'a::len word \<times> nat"
  assumes "floor_log2 (unat (fst s)) h" "h < 2 * k" "k < LENGTH('a)"
  obtains h' where "floor_log2 (unat (fst (logbase2_step k s))) h'" "h' < k"
    "snd (logbase2_step k s) + h' = snd s + h"
proof -
  obtain n pos where s: "s = (n, pos)" by fastforce
  have ge: "n \<ge> push_bit k 1 \<longleftrightarrow> 2 ^ k \<le> unat n"
    using assms(3) by (simp add: word_le_nat_alt)
  show thesis
  proof (cases "k \<le> h")
    case True
    then have "(2::nat) ^ k \<le> 2 ^ h" by simp
    with assms(1) have le: "2 ^ k \<le> unat n" unfolding floor_log2_def s fst_conv by linarith
    have half: "unat (drop_bit k n) = unat n div 2 ^ k"
      by (metis drop_bit_eq_div unat_drop_bit_eq)
    have "0 < unat n div 2 ^ k"
      using le by (simp add: div_greater_zero_iff)
    then obtain h' where h': "floor_log2 (unat n div 2 ^ k) h'"
      using floor_log2_exists by blast
    have "h = h' + k"
      using assms(1) by (intro floor_log2_unique [OF _ floor_log2_shift [OF h']]) (simp add: s)
    moreover have "logbase2_step k s = (drop_bit k n, pos + k)"
      using le ge by (simp add: logbase2_step_def s)
    ultimately show thesis
      using h' half assms(2) by (intro that [of h']) (simp_all add: s)
  next
    case False
    then have "(2::nat) ^ Suc h \<le> 2 ^ k"
      by (intro power_increasing) auto
    with assms(1) have "\<not> 2 ^ k \<le> unat n" unfolding floor_log2_def s fst_conv by linarith
    with ge have "logbase2_step k s = s" by (simp add: logbase2_step_def s)
    with False assms(1) show thesis by (intro that [of h]) simp_all
  qed
qed

text \<open>After the test for 2 the value is below 4 and one comparison decides.\<close>

lemma logbase2_last:
  fixes n :: "'a::len word"
  assumes "floor_log2 (unat n) h" "h < 2" "1 < LENGTH('a)"
  shows "n \<ge> push_bit 1 1 \<longleftrightarrow> h = 1"
proof -
  have "n \<ge> push_bit 1 1 \<longleftrightarrow> 2 \<le> unat n"
    using assms(3) unat_power_lower [where 'a = 'a, of 1] by (simp add: word_le_nat_alt)
  moreover have "h = 0 \<or> h = 1" using assms(2) by auto
  ultimately show ?thesis using assms(1) by (auto simp: floor_log2_def)
qed

lemma util_logbase2_eq:
  assumes "floor_log2 (unat n) h"
  shows "util_logbase2 n = h"
proof -
  define s1 where "s1 = logbase2_step 16 (n, 0)"
  define s2 where "s2 = logbase2_step 8 s1"
  define s3 where "s3 = logbase2_step 4 s2"
  define s4 where "s4 = logbase2_step 2 s3"
  have h: "h < 2 * 16" and n: "floor_log2 (unat (fst (n, 0 :: nat))) h"
    using assms floor_log2_less [OF assms, of 32] unat_lt2p [of n] by simp_all
  obtain h1 where 1: "floor_log2 (unat (fst s1)) h1" "h1 < 2 * 8" "snd s1 + h1 = h"
    using logbase2_step_floor_log2 [OF n h] by (auto simp: s1_def)
  obtain h2 where 2: "floor_log2 (unat (fst s2)) h2" "h2 < 2 * 4" "snd s2 + h2 = h"
    using logbase2_step_floor_log2 [OF 1(1,2)] 1(3) by (auto simp: s2_def)
  obtain h3 where 3: "floor_log2 (unat (fst s3)) h3" "h3 < 2 * 2" "snd s3 + h3 = h"
    using logbase2_step_floor_log2 [OF 2(1,2)] 2(3) by (auto simp: s3_def)
  obtain h4 where 4: "floor_log2 (unat (fst s4)) h4" "h4 < 2" "snd s4 + h4 = h"
    using logbase2_step_floor_log2 [OF 3(1,2)] 3(3) by (auto simp: s4_def)
  have "util_logbase2 n = (if fst s4 \<ge> push_bit 1 1 then snd s4 + 1 else snd s4)"
    by (simp add: util_logbase2_def split_beta s1_def s2_def s3_def s4_def)
  with logbase2_last [OF 4(1,2)] 4(2,3) show ?thesis by auto
qed

lemma util_logbase2_64_eq:
  assumes "floor_log2 (unat n) h"
  shows "util_logbase2_64 n = h"
proof -
  define s0 where "s0 = logbase2_step 32 (n, 0)"
  define s1 where "s1 = logbase2_step 16 s0"
  define s2 where "s2 = logbase2_step 8 s1"
  define s3 where "s3 = logbase2_step 4 s2"
  define s4 where "s4 = logbase2_step 2 s3"
  have h: "h < 2 * 32" and n: "floor_log2 (unat (fst (n, 0 :: nat))) h"
    using assms floor_log2_less [OF assms, of 64] unat_lt2p [of n] by simp_all
  obtain h0 where 0: "floor_log2 (unat (fst s0)) h0" "h0 < 2 * 16" "snd s0 + h0 = h"
    using logbase2_step_floor_log2 [OF n h] by (auto simp: s0_def)
  obtain h1 where 1: "floor_log2 (unat (fst s1)) h1" "h1 < 2 * 8" "snd s1 + h1 = h"
    using logbase2_step_floor_log2 [OF 0(1,2)] 0(3) by (auto simp: s1_def)
  obtain h2 where 2: "floor_log2 (unat (fst s2)) h2" "h2 < 2 * 4" "snd s2 + h2 = h"
    using logbase2_step_floor_log2 [OF 1(1,2)] 1(3) by (auto simp: s2_def)
  obtain h3 where 3: "floor_log2 (unat (fst s3)) h3" "h3 < 2 * 2" "snd s3 + h3 = h"
    using logbase2_step_floor_log2 [OF 2(1,2)] 2(3) by (auto simp: s3_def)
  obtain h4 where 4: "floor_log2 (unat (fst s4)) h4" "h4 < 2" "snd s4 + h4 = h"
    using logbase2_step_floor_log2 [OF 3(1,2)] 3(3) by (auto simp: s4_def)
  have "util_logbase2_64 n = (if fst s4 \<ge> push_bit 1 1 then snd s4 + 1 else snd s4)"
    by (simp add: util_logbase2_64_def split_beta s0_def s1_def s2_def s3_def s4_def)
  with logbase2_last [OF 4(1,2)] 4(2,3) show ?thesis by auto
qed

lemma util_logbase2_0 [simp]: "util_logbase2 0 = 0" "util_logbase2_64 0 = 0"
  by (simp_all add: util_logbase2_def util_logbase2_64_def logbase2_step_def)

text \<open>The ceiling: the least exponent whose power is not below the value.\<close>

lemma floor_log2_pred_ceil:
  assumes "1 < x" "floor_log2 (x - 1) h"
  shows "x \<le> 2 ^ e \<longleftrightarrow> Suc h \<le> e"
proof
  assume "x \<le> 2 ^ e"
  with assms have "x - 1 < 2 ^ e" by linarith
  with assms(2) show "Suc h \<le> e" using floor_log2_less by fastforce
next
  assume "Suc h \<le> e"
  then have "(2::nat) ^ Suc h \<le> 2 ^ e" by (intro power_increasing) auto
  with assms show "x \<le> 2 ^ e" unfolding floor_log2_def by linarith
qed

lemma util_logbase2_ceil_le_iff: "util_logbase2_ceil n \<le> e \<longleftrightarrow> unat n \<le> 2 ^ e"
proof (cases "n \<le> 1")
  case True
  then have "unat n \<le> 1" by (simp add: word_le_nat_alt)
  then have "unat n \<le> 2 ^ e" by (rule order_trans) simp
  with True show ?thesis by (simp add: util_logbase2_ceil_def)
next
  case False
  then have gt: "1 < unat n" and pred: "unat (n - 1) = unat n - 1"
    by (auto simp: word_le_nat_alt no_wrap)
  then obtain h where h: "floor_log2 (unat n - 1) h" using floor_log2_exists [of "unat n - 1"] by auto
  with pred have "util_logbase2 (n - 1) = h" by (simp add: util_logbase2_eq)
  with False show ?thesis
    using floor_log2_pred_ceil [OF gt h, of e] by (simp add: util_logbase2_ceil_def)
qed

lemma util_logbase2_ceil64_le_iff: "util_logbase2_ceil64 n \<le> e \<longleftrightarrow> unat n \<le> 2 ^ e"
proof (cases "n \<le> 1")
  case True
  then have "unat n \<le> 1" by (simp add: word_le_nat_alt)
  then have "unat n \<le> 2 ^ e" by (rule order_trans) simp
  with True show ?thesis by (simp add: util_logbase2_ceil64_def)
next
  case False
  then have gt: "1 < unat n" and pred: "unat (n - 1) = unat n - 1"
    by (auto simp: word_le_nat_alt no_wrap)
  then obtain h where h: "floor_log2 (unat n - 1) h" using floor_log2_exists [of "unat n - 1"] by auto
  with pred have "util_logbase2_64 (n - 1) = h" by (simp add: util_logbase2_64_eq)
  with False show ?thesis
    using floor_log2_pred_ceil [OF gt h, of e] by (simp add: util_logbase2_ceil64_def)
qed

section \<open>The next power of two\<close>

lemma smear_step:
  fixes v x :: "'a::len word"
  assumes "\<And>k. bit v k \<longleftrightarrow> (\<exists>j. k \<le> j \<and> j < k + s \<and> bit x j)" "t = 2 * s"
  shows "bit (smear s v) k \<longleftrightarrow> (\<exists>j. k \<le> j \<and> j < k + t \<and> bit x j)"
proof -
  have "bit (smear s v) k \<longleftrightarrow>
      (\<exists>j. s + k \<le> j \<and> j < s + k + s \<and> bit x j) \<or> (\<exists>j. k \<le> j \<and> j < k + s \<and> bit x j)"
    by (simp add: smear_def bit_simps assms(1))
  also have "\<dots> \<longleftrightarrow> (\<exists>j. (s + k \<le> j \<and> j < s + k + s \<or> k \<le> j \<and> j < k + s) \<and> bit x j)"
    by blast
  also have "\<dots> \<longleftrightarrow> (\<exists>j. k \<le> j \<and> j < k + t \<and> bit x j)"
    unfolding assms(2) by (intro arg_cong [where f = Ex] ext) auto
  finally show ?thesis .
qed

lemma floor_log2_bit:
  fixes x :: "'a::len word"
  assumes "floor_log2 (unat x) h"
  shows "(\<exists>j. k \<le> j \<and> j < k + LENGTH('a) \<and> bit x j) \<longleftrightarrow> k \<le> h"
proof -
  have odd: "bit x j \<longleftrightarrow> odd (unat x div 2 ^ j)" for j
    by (simp add: bit_unsigned_iff flip: bit_iff_odd)
  have top: "bit x h"
  proof -
    have "unat x div 2 ^ h = 1"
      using assms by (auto simp: floor_log2_def div_nat_eqI)
    then show ?thesis by (simp add: odd)
  qed
  have above: "\<not> bit x j" if "h < j" for j
  proof -
    have "(2::nat) ^ Suc h \<le> 2 ^ j" using that by (intro power_increasing) auto
    with assms have "unat x < 2 ^ j" unfolding floor_log2_def by linarith
    then show ?thesis by (simp add: odd)
  qed
  from bit_imp_le_length [OF top] have "h < k + LENGTH('a)" by simp
  with top above show ?thesis by (metis linorder_not_less order_trans)
qed

text \<open>Once the window is as wide as the word, smearing yields a mask up to the highest bit.\<close>

lemma smear_mask:
  fixes v x :: "'a::len word"
  assumes "floor_log2 (unat x) h"
    and "\<And>k. bit v k \<longleftrightarrow> (\<exists>j. k \<le> j \<and> j < k + LENGTH('a) \<and> bit x j)"
  shows "v + 1 = 2 ^ Suc h"
proof -
  have "h < LENGTH('a)" by (rule floor_log2_less [OF assms(1) unat_lt2p])
  then have "v = mask (Suc h)"
    using assms(2) floor_log2_bit [OF assms(1)] by (intro bit_eqI) (auto simp: bit_simps)
  then show ?thesis by (simp add: mask_eq_exp_minus_1 del: power_Suc)
qed

lemma smear_init: "bit x k \<longleftrightarrow> (\<exists>j. k \<le> j \<and> j < k + 1 \<and> bit x j)"
  by (metis Suc_eq_plus1 less_Suc_eq_le order_antisym order_refl)

lemma util_logbase2_ceil_exp: "k < 32 \<Longrightarrow> util_logbase2_ceil (2 ^ k) = k"
proof -
  assume "k < 32"
  then have "util_logbase2_ceil (2 ^ k) \<le> e \<longleftrightarrow> k \<le> e" for e
    by (simp add: util_logbase2_ceil_le_iff)
  then show ?thesis by (metis order_antisym order_refl)
qed

lemma util_logbase2_ceil64_exp: "k < 64 \<Longrightarrow> util_logbase2_ceil64 (2 ^ k) = k"
proof -
  assume "k < 64"
  then have "util_logbase2_ceil64 (2 ^ k) \<le> e \<longleftrightarrow> k \<le> e" for e
    by (simp add: util_logbase2_ceil64_le_iff)
  then show ?thesis by (metis order_antisym order_refl)
qed

lemma util_next_power_of_two_eq: "util_next_power_of_two x = 2 ^ util_logbase2_ceil x"
proof -
  consider "x \<le> 1" | "\<not> x \<le> 1" "util_is_power_of_two_or_zero x"
    | "\<not> x \<le> 1" "\<not> util_is_power_of_two_or_zero x" by blast
  then show ?thesis
  proof cases
    case 1
    then show ?thesis by (simp add: util_next_power_of_two_def util_logbase2_ceil_def)
  next
    case 2
    then obtain k where "k < 32" "x = 2 ^ k" by (auto simp: util_is_power_of_two_or_zero_iff)
    with 2 show ?thesis by (simp add: util_next_power_of_two_def util_logbase2_ceil_exp)
  next
    case 3
    define v0 where "v0 = x - 1"
    from 3 have "0 < unat v0" by (auto simp: v0_def word_le_nat_alt no_wrap)
    then obtain h where h: "floor_log2 (unat v0) h" using floor_log2_exists by blast
    define v1 where "v1 = smear 1 v0"
    define v2 where "v2 = smear 2 v1"
    define v3 where "v3 = smear 4 v2"
    define v4 where "v4 = smear 8 v3"
    define v5 where "v5 = smear 16 v4"
    have 1: "bit v1 k \<longleftrightarrow> (\<exists>j. k \<le> j \<and> j < k + 2 \<and> bit v0 j)" for k
      unfolding v1_def by (rule smear_step [OF smear_init]) simp
    have 2: "bit v2 k \<longleftrightarrow> (\<exists>j. k \<le> j \<and> j < k + 4 \<and> bit v0 j)" for k
      unfolding v2_def by (rule smear_step [OF 1]) simp
    have 3: "bit v3 k \<longleftrightarrow> (\<exists>j. k \<le> j \<and> j < k + 8 \<and> bit v0 j)" for k
      unfolding v3_def by (rule smear_step [OF 2]) simp
    have 4: "bit v4 k \<longleftrightarrow> (\<exists>j. k \<le> j \<and> j < k + 16 \<and> bit v0 j)" for k
      unfolding v4_def by (rule smear_step [OF 3]) simp
    have 5: "bit v5 k \<longleftrightarrow> (\<exists>j. k \<le> j \<and> j < k + LENGTH(32) \<and> bit v0 j)" for k
      unfolding v5_def by (rule smear_step [OF 4]) simp
    have "util_next_power_of_two x = v5 + 1"
      using \<open>\<not> x \<le> 1\<close> \<open>\<not> util_is_power_of_two_or_zero x\<close>
      by (simp add: util_next_power_of_two_def v0_def v1_def v2_def v3_def v4_def v5_def)
    also have "v5 + 1 = 2 ^ Suc h" by (rule smear_mask [OF h 5])
    finally show ?thesis
      using \<open>\<not> x \<le> 1\<close> util_logbase2_eq [OF h] by (simp add: util_logbase2_ceil_def v0_def)
  qed
qed

lemma util_next_power_of_two64_eq: "util_next_power_of_two64 x = 2 ^ util_logbase2_ceil64 x"
proof -
  consider "x \<le> 1" | "\<not> x \<le> 1" "util_is_power_of_two_or_zero64 x"
    | "\<not> x \<le> 1" "\<not> util_is_power_of_two_or_zero64 x" by blast
  then show ?thesis
  proof cases
    case 1
    then show ?thesis by (simp add: util_next_power_of_two64_def util_logbase2_ceil64_def)
  next
    case 2
    then obtain k where "k < 64" "x = 2 ^ k" by (auto simp: util_is_power_of_two_or_zero64_iff)
    with 2 show ?thesis by (simp add: util_next_power_of_two64_def util_logbase2_ceil64_exp)
  next
    case 3
    define v0 where "v0 = x - 1"
    from 3 have "0 < unat v0" by (auto simp: v0_def word_le_nat_alt no_wrap)
    then obtain h where h: "floor_log2 (unat v0) h" using floor_log2_exists by blast
    define v1 where "v1 = smear 1 v0"
    define v2 where "v2 = smear 2 v1"
    define v3 where "v3 = smear 4 v2"
    define v4 where "v4 = smear 8 v3"
    define v5 where "v5 = smear 16 v4"
    define v6 where "v6 = smear 32 v5"
    have 1: "bit v1 k \<longleftrightarrow> (\<exists>j. k \<le> j \<and> j < k + 2 \<and> bit v0 j)" for k
      unfolding v1_def by (rule smear_step [OF smear_init]) simp
    have 2: "bit v2 k \<longleftrightarrow> (\<exists>j. k \<le> j \<and> j < k + 4 \<and> bit v0 j)" for k
      unfolding v2_def by (rule smear_step [OF 1]) simp
    have 3: "bit v3 k \<longleftrightarrow> (\<exists>j. k \<le> j \<and> j < k + 8 \<and> bit v0 j)" for k
      unfolding v3_def by (rule smear_step [OF 2]) simp
    have 4: "bit v4 k \<longleftrightarrow> (\<exists>j. k \<le> j \<and> j < k + 16 \<and> bit v0 j)" for k
      unfolding v4_def by (rule smear_step [OF 3]) simp
    have 5: "bit v5 k \<longleftrightarrow> (\<exists>j. k \<le> j \<and> j < k + 32 \<and> bit v0 j)" for k
      unfolding v5_def by (rule smear_step [OF 4]) simp
    have 6: "bit v6 k \<longleftrightarrow> (\<exists>j. k \<le> j \<and> j < k + LENGTH(64) \<and> bit v0 j)" for k
      unfolding v6_def by (rule smear_step [OF 5]) simp
    have "util_next_power_of_two64 x = v6 + 1"
      using \<open>\<not> x \<le> 1\<close> \<open>\<not> util_is_power_of_two_or_zero64 x\<close>
      by (simp add: util_next_power_of_two64_def v0_def v1_def v2_def v3_def v4_def v5_def v6_def)
    also have "v6 + 1 = 2 ^ Suc h" by (rule smear_mask [OF h 6])
    finally show ?thesis
      using \<open>\<not> x \<le> 1\<close> util_logbase2_64_eq [OF h] by (simp add: util_logbase2_ceil64_def v0_def)
  qed
qed

section \<open>Bit count, bit and byte reversal\<close>

lemma bitcount_loop_eq: "bitcount_loop bits n = bits + card {k. bit n k}"
proof (induction bits n rule: bitcount_loop.induct)
  case (1 bits n)
  show ?case
  proof (cases "n = 0")
    case True
    then show ?thesis by (simp add: bitcount_loop.simps)
  next
    case False
    then obtain p where p: "lowest_bit n p" using lowest_bit_exists by blast
    have "card {k. bit n k} = Suc (card {k. bit (n AND (n - 1)) k})"
      using set_bit_list_lowest [OF p clear_lowest_bit [OF p]]
      by (metis length_Cons length_set_bit_list)
    with 1 [OF False] False show ?thesis by (simp add: bitcount_loop.simps [of bits n])
  qed
qed

lemma util_bitcount_eq: "util_bitcount n = card {k. bit n k}"
  by (simp add: util_bitcount_def bitcount_loop_eq)

lemma util_bitcount64_eq: "util_bitcount64 n = card {k. bit n k}"
proof -
  let ?lo = "{k. bit (ucast n :: u32) k}" and ?hi = "{k. bit (ucast (drop_bit 32 n) :: u32) k}"
  have "{k. bit n k} = ?lo \<union> (\<lambda>k. 32 + k) ` ?hi"
  proof (intro set_eqI)
    fix k
    have "bit n k \<Longrightarrow> k < 64" using bit_imp_le_length by fastforce
    moreover have "k \<in> (\<lambda>k. 32 + k) ` ?hi \<longleftrightarrow> 32 \<le> k \<and> k < 64 \<and> bit n k"
      by (auto simp: bit_simps image_iff intro!: exI [of _ "k - 32"])
    ultimately show "k \<in> {k. bit n k} \<longleftrightarrow> k \<in> ?lo \<union> (\<lambda>k. 32 + k) ` ?hi"
      by (auto simp: bit_simps)
  qed
  moreover have "?lo \<inter> (\<lambda>k. 32 + k) ` ?hi = {}"
    by (auto simp: bit_simps)
  moreover have "finite ?lo" "finite ?hi"
    using finite_set [of "set_bit_list (ucast n :: u32)"]
      finite_set [of "set_bit_list (ucast (drop_bit 32 n) :: u32)"] by simp_all
  ultimately show ?thesis
    by (simp add: util_bitcount64_def util_bitcount_eq card_Un_disjoint card_image)
qed

text \<open>Swapping adjacent blocks of \<open>s\<close> bits moves position \<open>k\<close> to \<open>flip s k\<close>.\<close>

definition flip :: "nat \<Rightarrow> nat \<Rightarrow> nat" where
  "flip s k = (if even (k div s) then k + s else k - s)"

lemma bitreverse_step_bit:
  assumes "\<And>j. j < 32 \<Longrightarrow> bit m j \<longleftrightarrow> even (j div s)" "0 < s" "k < 32"
  shows "bit (bitreverse_step s m n) k \<longleftrightarrow> bit n (flip s k)"
proof (cases "even (k div s)")
  case True
  then have "\<not> bit m (k - s)" if "s \<le> k"
    using that assms by (auto simp: div_if [of k s])
  with True assms show ?thesis
    by (auto simp: bitreverse_step_def flip_def bit_simps add.commute)
next
  case False
  then have "s \<le> k" by (metis div_less even_zero not_le)
  with False assms have "bit m (k - s)" by (auto simp: div_if [of k s])
  with False \<open>s \<le> k\<close> assms show ?thesis
    by (auto simp: bitreverse_step_def flip_def bit_simps)
qed

lemma bitreverse_masks:
  assumes "k < 32"
  shows "bit (0x55555555 :: u32) k \<longleftrightarrow> even (k div 1)"
    and "bit (0x33333333 :: u32) k \<longleftrightarrow> even (k div 2)"
    and "bit (0x0f0f0f0f :: u32) k \<longleftrightarrow> even (k div 4)"
    and "bit (0x00ff00ff :: u32) k \<longleftrightarrow> even (k div 8)"
    and "bit (0xffff :: u32) k \<longleftrightarrow> even (k div 16)"
proof -
  have "\<forall>k\<in>{..<32}. bit (0x55555555 :: u32) k \<longleftrightarrow> even (k div 1)"
    "\<forall>k\<in>{..<32}. bit (0x33333333 :: u32) k \<longleftrightarrow> even (k div 2)"
    "\<forall>k\<in>{..<32}. bit (0x0f0f0f0f :: u32) k \<longleftrightarrow> even (k div 4)"
    "\<forall>k\<in>{..<32}. bit (0x00ff00ff :: u32) k \<longleftrightarrow> even (k div 8)"
    "\<forall>k\<in>{..<32}. bit (0xffff :: u32) k \<longleftrightarrow> even (k div 16)"
    by (simp_all add: lessThan_nat_numeral lessThan_Suc)
  with assms show "bit (0x55555555 :: u32) k \<longleftrightarrow> even (k div 1)"
    "bit (0x33333333 :: u32) k \<longleftrightarrow> even (k div 2)"
    "bit (0x0f0f0f0f :: u32) k \<longleftrightarrow> even (k div 4)"
    "bit (0x00ff00ff :: u32) k \<longleftrightarrow> even (k div 8)"
    "bit (0xffff :: u32) k \<longleftrightarrow> even (k div 16)"
    by (metis lessThan_iff)+
qed

lemma flip_bound:
  assumes "k < 32" "s \<in> {1, 2, 4, 8, 16}"
  shows "flip s k < 32"
proof -
  have "\<forall>s\<in>{1, 2, 4, 8, 16}. \<forall>k\<in>{..<32}. flip s k < 32"
    by (simp add: lessThan_nat_numeral lessThan_Suc flip_def)
  with assms show ?thesis by (metis lessThan_iff)
qed

lemma flip_flip:
  assumes "k < 32"
  shows "flip 1 (flip 2 (flip 4 (flip 8 (flip 16 k)))) = 31 - k"
proof -
  have "\<forall>k\<in>{..<32}. flip 1 (flip 2 (flip 4 (flip 8 (flip 16 k)))) = 31 - k"
    by (simp add: lessThan_nat_numeral lessThan_Suc flip_def)
  with assms show ?thesis by (metis lessThan_iff)
qed

lemmas bitreverse_step_bits =
  bitreverse_step_bit [OF bitreverse_masks(1) zero_less_one]
  bitreverse_step_bit [OF bitreverse_masks(2) zero_less_numeral]
  bitreverse_step_bit [OF bitreverse_masks(3) zero_less_numeral]
  bitreverse_step_bit [OF bitreverse_masks(4) zero_less_numeral]
  bitreverse_step_bit [OF bitreverse_masks(5) zero_less_numeral]

lemma util_bitreverse_bit:
  assumes "k < 32"
  shows "bit (util_bitreverse n) k \<longleftrightarrow> bit n (31 - k)"
  using assms flip_flip [OF assms]
  by (simp add: util_bitreverse_def bitreverse_step_bits flip_bound del: One_nat_def)

lemma util_bitreverse_involution: "util_bitreverse (util_bitreverse n) = n"
  by (rule bit_eqI) (simp add: util_bitreverse_bit)

text \<open>Byte reversal: bit \<open>k\<close> of the result is the same bit of the mirrored byte.\<close>

lemma bswap32_masks: "(0x0000ff00 :: u32) = push_bit 8 (mask 8)" "(0x00ff0000 :: u32) = push_bit 16 (mask 8)"
  by (simp_all add: mask_eq_exp_minus_1 push_bit_eq_mult)

lemma util_bswap32_bit:
  assumes "k < 32"
  shows "bit (util_bswap32 n) k \<longleftrightarrow> bit n (8 * (3 - k div 8) + k mod 8)"
proof -
  consider "k < 8" | "8 \<le> k" "k < 16" | "16 \<le> k" "k < 24" | "24 \<le> k"
    by linarith
  then show ?thesis
  proof cases
    case 1
    then have "8 * (3 - k div 8) + k mod 8 = k + 24" by simp
    with 1 show ?thesis
      by (simp only: util_bswap32_def bswap32_masks) (simp add: bit_simps add.commute)
  next
    case 2
    then have "k div 8 = 1" by (intro div_nat_eqI) simp_all
    then have "8 * (3 - k div 8) + k mod 8 = k + 8" using 2 div_mult_mod_eq [of k 8] by simp
    with 2 show ?thesis
      using bit_imp_le_length [of n "24 + k"]
      by (simp only: util_bswap32_def bswap32_masks) (auto simp: bit_simps add.commute)
  next
    case 3
    then have "k div 8 = 2" by (intro div_nat_eqI) simp_all
    then have "8 * (3 - k div 8) + k mod 8 = k - 8" using 3 div_mult_mod_eq [of k 8] by simp
    with 3 show ?thesis
      using bit_imp_le_length [of n "24 + k"]
      by (simp only: util_bswap32_def bswap32_masks) (auto simp: bit_simps add.commute)
  next
    case 4
    with assms have "k div 8 = 3" by (intro div_nat_eqI) simp_all
    then have "8 * (3 - k div 8) + k mod 8 = k - 24" using 4 div_mult_mod_eq [of k 8] by simp
    with 4 assms show ?thesis
      using bit_imp_le_length [of n "24 + k"]
      by (simp only: util_bswap32_def bswap32_masks) (auto simp: bit_simps add.commute)
  qed
qed

lemma mirror_byte:
  fixes k :: nat
  assumes "k < 32"
  shows "8 * (3 - k div 8) + k mod 8 < 32" "(8 * (3 - k div 8) + k mod 8) div 8 = 3 - k div 8"
    "(8 * (3 - k div 8) + k mod 8) mod 8 = k mod 8" "8 * (3 - (3 - k div 8)) + k mod 8 = k"
proof -
  have q: "k div 8 \<le> 3" and r: "k mod 8 < 8" using assms by auto
  then have "3 - (3 - k div 8) = k div 8" by simp
  then show "8 * (3 - (3 - k div 8)) + k mod 8 = k" by simp
  show "8 * (3 - k div 8) + k mod 8 < 32" using r by linarith
qed simp_all

lemma util_bswap32_involution: "util_bswap32 (util_bswap32 n) = n"
  by (rule bit_eqI) (simp add: util_bswap32_bit mirror_byte)

lemma util_bswap64_parts:
  "ucast (util_bswap64 n) = util_bswap32 (ucast (drop_bit 32 n))"
  "ucast (drop_bit 32 (util_bswap64 n)) = util_bswap32 (ucast n)"
proof -
  show "ucast (util_bswap64 n) = util_bswap32 (ucast (drop_bit 32 n))"
    by (rule bit_eqI) (simp add: util_bswap64_def bit_simps)
  have "\<not> bit (util_bswap32 w) (32 + k)" for w k
    using bit_imp_le_length [of "util_bswap32 w" "32 + k"] by auto
  then show "ucast (drop_bit 32 (util_bswap64 n)) = util_bswap32 (ucast n)"
    by (intro bit_eqI) (simp add: util_bswap64_def bit_simps)
qed

lemma util_bswap64_involution: "util_bswap64 (util_bswap64 n) = n"
proof -
  have "util_bswap64 (util_bswap64 n) =
      push_bit 32 (ucast (ucast (drop_bit 32 n) :: u32)) OR ucast (ucast n :: u32)"
    by (subst util_bswap64_def) (simp add: util_bswap64_parts util_bswap32_involution)
  also have "\<dots> = n"
    by (rule bit_eqI) (auto simp: bit_simps)
  finally show ?thesis .
qed

lemma util_bswap16_bit: "k < 16 \<Longrightarrow> bit (util_bswap16 n) k \<longleftrightarrow> bit n (if k < 8 then k + 8 else k - 8)"
  using bit_imp_le_length [of n "8 + k"] by (auto simp: util_bswap16_def bit_simps add.commute)

lemma util_bswap16_involution: "util_bswap16 (util_bswap16 n) = n"
  by (rule bit_eqI) (auto simp: util_bswap16_bit)

section \<open>Alignment rounds up to the next multiple\<close>

lemma and_not_mask_unat:
  fixes x :: "'a::len word"
  assumes "k < LENGTH('a)"
  shows "unat (x AND NOT (2 ^ k - 1)) = (unat x div 2 ^ k) * 2 ^ k"
proof -
  have eq: "x AND NOT (2 ^ k - 1) = push_bit k (drop_bit k x)"
    using assms by (auto intro!: bit_eqI simp: bit_simps simp flip: mask_eq_exp_minus_1 dest: bit_imp_le_length)
  have d: "unat (drop_bit k x) = unat x div 2 ^ k"
    by (metis drop_bit_eq_div unat_drop_bit_eq)
  have "(unat x div 2 ^ k) * 2 ^ k \<le> unat x" by (rule div_times_less_eq_dividend)
  then have "unat (drop_bit k x) * unat (2 ^ k :: 'a word) < 2 ^ LENGTH('a)"
    unfolding d unat_power_lower [OF assms] by (rule order.strict_trans1) simp
  then show ?thesis
    using assms d by (simp add: eq push_bit_eq_mult unat_mult_no_wrap)
qed

text \<open>The rounded value is the least multiple of the alignment that is not below the value.\<close>

lemma round_up_least:
  fixes v a :: nat
  assumes "0 < a"
  shows "v \<le> (v + a - 1) div a * a" "a dvd (v + a - 1) div a * a"
    "\<lbrakk>a dvd m; v \<le> m\<rbrakk> \<Longrightarrow> (v + a - 1) div a * a \<le> m"
proof -
  have mod: "(v + a - 1) div a * a + (v + a - 1) mod a = v + a - 1" by simp
  have "(v + a - 1) mod a < a" using assms by simp
  with mod show "v \<le> (v + a - 1) div a * a" by linarith
  show "a dvd (v + a - 1) div a * a" by simp
  assume "a dvd m" "v \<le> m"
  then obtain q where m: "m = a * q" by blast
  with \<open>v \<le> m\<close> assms have "v + a - 1 < a * Suc q" by simp
  then have "(v + a - 1) div a < Suc q"
    by (simp add: div_less_iff_less_mult assms mult.commute)
  then show "(v + a - 1) div a * a \<le> m" by (simp add: m mult.commute)
qed

lemma align_unat:
  assumes "k < 32" "unat value + 2 ^ k - 1 < 2 ^ 32"
  shows "unat (align value (2 ^ k)) = (unat value + 2 ^ k - 1) div 2 ^ k * 2 ^ k"
proof -
  have "unat (value + 2 ^ k - 1) = unat value + 2 ^ k - 1"
  proof -
    have "unat (value + (2 ^ k - 1)) = unat value + unat (2 ^ k - 1 :: u32)"
      using assms by (intro unat_add_no_wrap) (simp add: no_wrap)
    with assms(1) show ?thesis by (simp add: no_wrap add_diff_eq)
  qed
  with assms(1) show ?thesis by (simp add: align_def and_not_mask_unat)
qed

lemma align64_unat:
  assumes "k < 32" "unat value + 2 ^ k - 1 < 2 ^ 64"
  shows "unat (align64 value (2 ^ k)) = (unat value + 2 ^ k - 1) div 2 ^ k * 2 ^ k"
proof -
  have cast: "(ucast (2 ^ k :: u32) :: u64) = 2 ^ k"
    using assms(1) by (auto intro!: bit_eqI simp: bit_simps)
  have "unat (value + 2 ^ k - 1) = unat value + 2 ^ k - 1"
  proof -
    have "unat (value + (2 ^ k - 1)) = unat value + unat (2 ^ k - 1 :: u64)"
      using assms by (intro unat_add_no_wrap) (simp add: no_wrap)
    with assms(1) show ?thesis by (simp add: no_wrap add_diff_eq)
  qed
  with assms(1) show ?thesis by (simp add: align64_def cast and_not_mask_unat)
qed

lemma util_align_npot_unat:
  assumes "util_align_npot value alignment = Some r" "unat value + unat alignment \<le> 2 ^ 64"
  shows "unat r = (unat value + unat alignment - 1) div unat alignment * unat alignment"
proof -
  let ?v = "unat value" and ?a = "unat alignment"
  have a: "0 < ?a" using assms(1) by (auto simp: util_align_npot_def unat_gt_0 split: if_splits)
  have decomp: "?v = ?a * (?v div ?a) + ?v mod ?a" by simp
  show ?thesis
  proof (cases "value mod alignment = 0")
    case True
    then have 0: "?v mod ?a = 0" by (metis unat_0 unat_mod)
    have "(?a * (?v div ?a) + (?a - 1)) div ?a = ?v div ?a + (?a - 1) div ?a"
      by (rule div_mult_self4) (use a in simp)
    also have "\<dots> = ?v div ?a" using a by simp
    finally have "(?a * (?v div ?a) + (?a - 1)) div ?a = ?v div ?a" .
    with 0 decomp a have "(?v + ?a - 1) div ?a * ?a = ?v"
      by (metis Nat.add_diff_assoc Suc_leI add.right_neutral mult.commute One_nat_def)
    with True assms(1) show ?thesis by (simp add: util_align_npot_def split: if_splits)
  next
    case False
    then have pos: "0 < ?v mod ?a" by (metis unat_eq_zero unat_mod gr0I)
    have lt: "?v mod ?a < ?a" using a by simp
    have r: "r = value + (alignment - value mod alignment)"
      using False assms(1) by (auto simp: util_align_npot_def split: if_splits)
    have sub: "unat (alignment - value mod alignment) = ?a - ?v mod ?a"
      using lt by (simp add: unat_sub_no_wrap unat_mod)
    have "unat r = ?v + (?a - ?v mod ?a)"
      using assms(2) lt pos unfolding r by (subst unat_add_no_wrap) (simp_all add: sub)
    also have "\<dots> = ?a * Suc (?v div ?a)"
      unfolding mult_Suc_right using decomp lt by linarith
    finally have "unat r = ?a * Suc (?v div ?a)" .
    moreover have "?v + ?a - 1 = ?a * Suc (?v div ?a) + (?v mod ?a - 1)"
      unfolding mult_Suc_right using decomp pos by linarith
    then have "(?v + ?a - 1) div ?a = Suc (?v div ?a) + (?v mod ?a - 1) div ?a"
      using a div_mult_self4 [of ?a "Suc (?v div ?a)" "?v mod ?a - 1"] by simp
    then have "(?v + ?a - 1) div ?a = Suc (?v div ?a)"
      using lt by (simp add: less_imp_diff_less)
    ultimately show ?thesis by (simp add: mult.commute)
  qed
qed

lemma u_minify_unat: "unat (u_minify value levels) = max 1 (unat value div 2 ^ levels)"
proof -
  have "unat (drop_bit levels value) = unat value div 2 ^ levels"
    by (metis drop_bit_eq_div unat_drop_bit_eq)
  then show ?thesis by (simp add: u_minify_def word_less_nat_alt max_def)
qed

section \<open>Properties\<close>

text \<open>
  For every value up to \<open>2 ^ 31\<close>, \<^verbatim>\<open>util_next_power_of_two\<close> returns a power of two, it is at
  least the value, and no smaller power of two is.
\<close>

lemma util_next_power_of_two_least:
  assumes "unat x \<le> 2 ^ 31"
  shows "\<exists>e. unat (util_next_power_of_two x) = 2 ^ e \<and> unat x \<le> 2 ^ e \<and> (\<forall>k. unat x \<le> 2 ^ k \<longrightarrow> e \<le> k)"
proof -
  define e where "e = util_logbase2_ceil x"
  have e: "e \<le> k \<longleftrightarrow> unat x \<le> 2 ^ k" for k by (simp add: e_def util_logbase2_ceil_le_iff)
  with assms have "e \<le> 31" by blast
  then have "e < 32" by simp
  then show ?thesis using e [of e] e by (intro exI [of _ e]) (simp add: util_next_power_of_two_eq flip: e_def)
qed

text \<open>
  \<^verbatim>\<open>align\<close> rounds up: for a power-of-two alignment, and while the sum stays in 32 bits, the
  result is the least multiple of the alignment that is not below the value.
\<close>

lemma align_least_multiple:
  assumes "k < 32" "unat value + 2 ^ k - 1 < 2 ^ 32"
  shows "2 ^ k dvd unat (align value (2 ^ k)) \<and> unat value \<le> unat (align value (2 ^ k)) \<and>
    (\<forall>m. 2 ^ k dvd m \<and> unat value \<le> m \<longrightarrow> unat (align value (2 ^ k)) \<le> m)"
proof -
  have pos: "(0::nat) < 2 ^ k" by simp
  show ?thesis unfolding align_unat [OF assms] using round_up_least [OF pos] by blast
qed


text \<open>
  \<^verbatim>\<open>util_bitreverse\<close> mirrors the 32 bits and \<^verbatim>\<open>util_bswap32\<close> mirrors the four bytes keeping
  the bits inside each; both are their own inverse.
\<close>

lemma util_bitreverse_bswap:
  "(\<forall>k. bit (util_bitreverse n) k = (k < 32 \<and> bit n (31 - k))) \<and>
   (\<forall>k. bit (util_bswap32 n) k = (k < 32 \<and> bit n (8 * (3 - k div 8) + k mod 8))) \<and>
   util_bitreverse (util_bitreverse n) = n \<and> util_bswap32 (util_bswap32 n) = n"
proof -
  have le: "\<not> k < 32 \<Longrightarrow> \<not> bit w k" for w :: u32 and k using bit_imp_le_length [of w k] by auto
  have "bit (util_bitreverse n) k = (k < 32 \<and> bit n (31 - k))" for k
    using util_bitreverse_bit [of k n] le [of k] by blast
  moreover have "bit (util_bswap32 n) k = (k < 32 \<and> bit n (8 * (3 - k div 8) + k mod 8))" for k
    using util_bswap32_bit [of k n] le [of k] by blast
  ultimately show ?thesis by (simp add: util_bitreverse_involution util_bswap32_involution)
qed

end
