(* ===== verification/Fast_Idiv.thy ===== *)
theory Fast_Idiv
  imports Umath "HOL-Library.Signed_Division"
begin

text \<open>
  \<^verbatim>\<open>src/util/fast_idiv_by_const.c\<close> and \<^verbatim>\<open>.h\<close>: division by a constant as a multiplication by a
  precomputed multiplier and shifts. \<open>util_compute_fast_udiv_info\<close> and
  \<open>util_compute_fast_sdiv_info\<close> compute the multiplier on 64-bit words with C's wrap-around;
  \<open>None\<close> is a failing assertion. \<open>util_fast_udiv32\<close> and its two variants are the run-time
  sequences. The main result is that the sequence computes the quotient for every divisor and
  every numerator of the declared width.
\<close>

section \<open>Unsigned magic numbers\<close>

record util_fast_udiv_info =
  multiplier :: u64
  pre_shift :: nat
  post_shift :: nat
  increment :: nat

text \<open>
  The loop over \<^verbatim>\<open>exponent\<close>: quotient and remainder of the next power of two, the exit test of
  the round-up method, and the first exponent that works for the round-down method
  (\<^verbatim>\<open>has_magic_down\<close>, \<^verbatim>\<open>down_multiplier\<close> and \<^verbatim>\<open>down_exponent\<close>, here an option).
\<close>

function udiv_loop ::
  "u64 \<Rightarrow> nat \<Rightarrow> nat \<Rightarrow> nat \<Rightarrow> u64 \<Rightarrow> u64 \<Rightarrow> (u64 \<times> nat) option \<Rightarrow> nat \<times> u64 \<times> (u64 \<times> nat) option"
where
  "udiv_loop D extra_shift ceil_log_2_D exponent quot rem down =
     (let (quot, rem) =
            (if rem \<ge> D - rem then (quot * 2 + 1, rem * 2 - D)
             else (quot * 2, rem * 2))
      in if exponent + extra_shift \<ge> ceil_log_2_D \<or>
            D - rem \<le> push_bit (exponent + extra_shift) 1
         then (exponent, quot, down)
         else udiv_loop D extra_shift ceil_log_2_D (exponent + 1) quot rem
                (if down = None \<and> rem \<le> push_bit (exponent + extra_shift) 1
                 then Some (quot, exponent) else down))"
  by pat_completeness auto
termination
  by (relation "measure (\<lambda>(D, x, L, e, q, r, down). L - e)") auto

declare udiv_loop.simps [simp del]

text \<open>The loop \<^verbatim>\<open>while ((shifted_D & 1) == 0)\<close>; it is entered with a nonzero divisor only.\<close>

function shift_even_loop :: "u64 \<Rightarrow> nat \<Rightarrow> u64 \<times> nat" where
  "shift_even_loop shifted_D sh =
     (if shifted_D \<noteq> 0 \<and> shifted_D AND 1 = 0
      then shift_even_loop (drop_bit 1 shifted_D) (sh + 1) else (shifted_D, sh))"
  by pat_completeness auto
termination
  by (relation "measure (\<lambda>(D, s). unat D)")
    (auto simp: drop_bit_eq_div unat_div unat_gt_0 intro!: div_less_dividend)

declare shift_even_loop.simps [simp del]

lemma even_word_halves:
  fixes D :: u64
  assumes "D \<noteq> 0" "D AND 1 = 0"
  shows "drop_bit 1 D \<noteq> 0" "unat D = 2 * unat (drop_bit 1 D)"
proof -
  have half: "unat (drop_bit 1 D) = unat D div 2" by (simp add: drop_bit_eq_div unat_div)
  have "unat D mod 2 = unat (D mod 2)" by (simp add: unat_mod)
  with assms(2) have "even (unat D)" by (simp add: and_one_eq even_iff_mod_2_eq_zero)
  then show *: "unat D = 2 * unat (drop_bit 1 D)" unfolding half by simp
  show "drop_bit 1 D \<noteq> 0"
  proof
    assume "drop_bit 1 D = 0"
    with * have "unat D = 0" by simp
    with assms(1) show False by (simp add: unat_eq_zero)
  qed
qed

text \<open>The loop divides out exactly the power of two in the divisor.\<close>

lemma shift_even_loop_eq:
  assumes "D \<noteq> 0"
  shows "\<exists>D' k. shift_even_loop D s = (D', s + k) \<and> unat D = 2 ^ k * unat D' \<and> D' \<noteq> 0 \<and> D' AND 1 \<noteq> 0"
  using assms
proof (induction D s rule: shift_even_loop.induct)
  case (1 D s)
  show ?case
  proof (cases "D AND 1 = 0")
    case True
    note halves = even_word_halves [OF "1.prems" True]
    from "1.IH" "1.prems" True halves(1) obtain D' k where
      IH: "shift_even_loop (drop_bit 1 D) (s + 1) = (D', s + 1 + k)"
        "unat (drop_bit 1 D) = 2 ^ k * unat D'" "D' \<noteq> 0" "D' AND 1 \<noteq> 0"
      by blast
    have "shift_even_loop D s = (D', s + Suc k)"
      using "1.prems" True IH(1) by (subst shift_even_loop.simps) simp
    moreover have "unat D = 2 ^ Suc k * unat D'" using halves(2) IH(2) by simp
    ultimately show ?thesis using IH(3,4) by blast
  next
    case False
    then have "shift_even_loop D s = (D, s + 0)" by (subst shift_even_loop.simps) simp
    with False "1.prems" show ?thesis by (metis mult_1 power_0)
  qed
qed

lemma shift_even_loop_less:
  assumes "D \<noteq> 0" "D AND 1 = 0"
  shows "unat (fst (shift_even_loop D s)) < unat D"
proof -
  obtain D' k where loop: "shift_even_loop D s = (D', s + k)" "unat D = 2 ^ k * unat D'"
    "D' \<noteq> 0" "D' AND 1 \<noteq> 0"
    using shift_even_loop_eq [OF assms(1)] by blast
  have "k \<noteq> 0"
  proof
    assume "k = 0"
    with loop(2) have "D = D'" by (simp add: word_unat_eq_iff)
    with loop(4) assms(2) show False by simp
  qed
  then have "(1::nat) < 2 ^ k" by (metis neq0_conv one_less_power one_less_numeral_iff semiring_norm(76))
  moreover have "0 < unat D'" using loop(3) by (simp add: unat_gt_0)
  ultimately show ?thesis using loop(1,2) by simp
qed

function util_compute_fast_udiv_info :: "u64 \<Rightarrow> nat \<Rightarrow> nat \<Rightarrow> util_fast_udiv_info option" where
  "util_compute_fast_udiv_info D num_bits UINT_BITS =
     (if \<not> (num_bits > 0 \<and> num_bits \<le> UINT_BITS) \<or> D = 0 then None
      else if util_is_power_of_two_or_zero64 D
      then let div_shift = util_logbase2_64 D
           in if div_shift \<noteq> 0
              then Some \<lparr>multiplier = push_bit (UINT_BITS - div_shift) 1,
                         pre_shift = 0, post_shift = 0, increment = 0\<rparr>
              else Some \<lparr>multiplier = (if UINT_BITS = 64 then 0xffffffffffffffff
                                        else push_bit UINT_BITS 1 - 1),
                         pre_shift = 0, post_shift = 0, increment = 1\<rparr>
      else let extra_shift = UINT_BITS - num_bits;
               initial_power_of_2 = push_bit (UINT_BITS - 1) 1;
               ceil_log_2_D = last_bit_loop 0 D;
               (exponent, quot, down) =
                 udiv_loop D extra_shift ceil_log_2_D 0
                   (initial_power_of_2 div D) (initial_power_of_2 mod D) None
           in if exponent < ceil_log_2_D
              then Some \<lparr>multiplier = quot + 1, pre_shift = 0, post_shift = exponent, increment = 0\<rparr>
              else if D AND 1 \<noteq> 0
              then case down of
                     None \<Rightarrow> None
                   | Some (down_multiplier, down_exponent) \<Rightarrow>
                       Some \<lparr>multiplier = down_multiplier, pre_shift = 0,
                             post_shift = down_exponent, increment = 1\<rparr>
              else let (shifted_D, shift) = shift_even_loop D 0
                   in case util_compute_fast_udiv_info shifted_D (num_bits - shift) UINT_BITS of
                        None \<Rightarrow> None
                      | Some result \<Rightarrow>
                          if increment result = 0 \<and> pre_shift result = 0
                          then Some (result\<lparr>pre_shift := shift\<rparr>) else None)"
  by pat_completeness auto
termination
proof (relation "measure (\<lambda>(D, n, U). unat D)", goal_cases)
  case 1
  then show ?case by simp
next
  case (2 D num_bits UINT_BITS)
  then have nz: "D \<noteq> 0" and even: "D AND 1 = 0" by auto
  from shift_even_loop_less [OF this, of 0] 2 show ?case
    by (metis fst_conv in_measure case_prod_conv)
qed

declare util_compute_fast_udiv_info.simps [simp del]

text \<open>
  The second of the two sequences the header documents for a division, on unbounded numbers. The first
  one, with a saturated increment, is not modelled.
\<close>

definition udiv_sequence :: "nat \<Rightarrow> util_fast_udiv_info \<Rightarrow> nat \<Rightarrow> nat" where
  "udiv_sequence UINT_BITS info n =
     (n div 2 ^ pre_shift info + increment info) * unat (multiplier info)
       div 2 ^ UINT_BITS div 2 ^ post_shift info"

text \<open>The three run-time versions on 32-bit numerators; \<open>None\<close> is a failing assertion.\<close>

definition util_fast_udiv32 :: "u32 \<Rightarrow> util_fast_udiv_info \<Rightarrow> u32" where
  "util_fast_udiv32 n info =
     (let n = drop_bit (pre_shift info) n;
          n = ucast (drop_bit 32 ((ucast n + of_nat (increment info)) * multiplier info)) :: u32
      in drop_bit (post_shift info) n)"

definition util_fast_udiv32_nuw :: "u32 \<Rightarrow> util_fast_udiv_info \<Rightarrow> u32 option" where
  "util_fast_udiv32_nuw n info =
     (if n = UINT_MAX then None
      else let n = drop_bit (pre_shift info) n;
               n = n + of_nat (increment info);
               n = ucast (drop_bit 32 (ucast n * multiplier info)) :: u32
           in Some (drop_bit (post_shift info) n))"

definition util_fast_udiv32_u31_d_not_one :: "u32 \<Rightarrow> util_fast_udiv_info \<Rightarrow> u32 option" where
  "util_fast_udiv32_u31_d_not_one n info =
     (if pre_shift info = 0 \<and> increment info = 0
      then let n = ucast (drop_bit 32 (ucast n * multiplier info)) :: u32
           in Some (drop_bit (post_shift info) n)
      else None)"

section \<open>The round-up and round-down multipliers\<close>

text \<open>\<open>P\<close> is the power of two that is divided by \<open>d\<close>.\<close>

lemma magic_up:
  fixes P d n :: nat
  assumes "0 < d" "n * (d - P mod d) < P"
  shows "n * (P div d + 1) div P = n div d"
proof (rule div_nat_eqI)
  define M where "M = P div d + 1"
  define \<delta> where "\<delta> = d - P mod d"
  have "M * d = P div d * d + d" by (simp add: M_def)
  also have "\<dots> = P - P mod d + d" by (metis minus_mod_eq_div_mult)
  also have "\<dots> = P + \<delta>" using assms(1) mod_less_divisor [OF assms(1), of P] mod_less_eq_dividend [of P d]
    unfolding \<delta>_def by linarith
  finally have Md: "n * M * d = n * P + n * \<delta>" by (metis distrib_left mult.assoc)
  have "P * (n div d) * d \<le> n * P"
    by (metis div_times_less_eq_dividend mult.assoc mult.commute mult_le_mono2)
  also have "\<dots> \<le> n * M * d" using Md by simp
  finally show "P * (n div d) \<le> n * M" using assms(1) by simp
  have "n * M * d < n * P + P" using Md assms(2) by (simp add: \<delta>_def)
  also have "\<dots> = (n + 1) * P" by simp
  also have "\<dots> \<le> (Suc (n div d) * d) * P"
    using dividend_less_div_times [OF assms(1), of n] by (intro mult_le_mono1) simp
  also have "\<dots> = P * Suc (n div d) * d" by (simp add: algebra_simps)
  finally show "n * M < P * Suc (n div d)" using assms(1) by simp
qed

lemma magic_down:
  fixes P d n :: nat
  assumes "0 < P mod d" "(n + 1) * (P mod d) \<le> P" "0 < d"
  shows "(n + 1) * (P div d) div P = n div d"
proof (rule div_nat_eqI)
  define M where "M = P div d"
  define r where "r = P mod d"
  have "M * d + r = P" by (simp add: M_def r_def)
  then have Md: "(n + 1) * M * d + (n + 1) * r = (n + 1) * P" by (metis distrib_left mult.assoc)
  have "P * (n div d) * d \<le> n * P"
    by (metis div_times_less_eq_dividend mult.assoc mult.commute mult_le_mono2)
  also have "\<dots> \<le> (n + 1) * M * d"
  proof -
    have "(n + 1) * P = n * P + P" by simp
    with Md assms(2) show ?thesis unfolding r_def by linarith
  qed
  finally show "P * (n div d) \<le> (n + 1) * M" using assms(3) by simp
  have "(n + 1) * M * d < (n + 1) * P" using Md assms(1) by (simp add: r_def)
  also have "\<dots> \<le> (Suc (n div d) * d) * P"
    using dividend_less_div_times [OF assms(3), of n] by (intro mult_le_mono1) simp
  also have "\<dots> = P * Suc (n div d) * d" by (simp add: algebra_simps)
  finally show "(n + 1) * M < P * Suc (n div d)" using assms(3) by simp
qed

text \<open>A multiplier for a divisor above \<open>2 ^ e\<close> fits in the word.\<close>

lemma magic_fits:
  fixes d :: nat
  assumes "2 ^ e < d" "d < 2 ^ U"
  shows "2 ^ (U + e) div d + 1 < (2::nat) ^ U"
proof (rule ccontr)
  assume "\<not> ?thesis"
  then have "2 ^ U - 1 \<le> 2 ^ (U + e) div d" by simp
  then have "(2 ^ U - 1) * d \<le> 2 ^ (U + e)" using assms(1)
    by (metis div_times_less_eq_dividend le_trans mult_le_mono1)
  then have "2 ^ U * d \<le> 2 ^ (U + e) + d" by (simp add: diff_mult_distrib)
  moreover have "2 ^ U * (2 ^ e + 1) \<le> 2 ^ U * d" using assms(1) by (intro mult_le_mono2) simp
  ultimately show False using assms(2) by (simp add: power_add)
qed

section \<open>The exponent loop\<close>

text \<open>One iteration doubles the power of two that is divided.\<close>

lemma double_divmod:
  fixes P d :: nat
  assumes "0 < d"
  shows "d - P mod d \<le> P mod d \<Longrightarrow> 2 * P div d = 2 * (P div d) + 1 \<and> 2 * P mod d = 2 * (P mod d) - d"
    and "P mod d < d - P mod d \<Longrightarrow> 2 * P div d = 2 * (P div d) \<and> 2 * P mod d = 2 * (P mod d)"
proof -
  have P2: "2 * P = d * (2 * (P div d)) + 2 * (P mod d)"
    using mult_div_mod_eq [of d P] by (metis distrib_left mult.left_commute)
  have r: "P mod d < d" using assms by simp
  show "2 * P div d = 2 * (P div d) + 1 \<and> 2 * P mod d = 2 * (P mod d) - d" if "d - P mod d \<le> P mod d"
  proof -
    have "2 * P = d * (2 * (P div d) + 1) + (2 * (P mod d) - d)" using P2 that r by simp
    moreover have "2 * (P mod d) - d < d" using r by simp
    ultimately show ?thesis by (metis div_mult_self4 div_less mod_mult_self4 mod_less add.right_neutral assms less_not_refl)
  qed
  show "2 * P div d = 2 * (P div d) \<and> 2 * P mod d = 2 * (P mod d)" if "P mod d < d - P mod d"
  proof -
    have "2 * (P mod d) < d" using that by simp
    with P2 show ?thesis by (metis div_mult_self4 div_less mod_mult_self4 mod_less add.right_neutral assms less_not_refl)
  qed
qed

lemma udiv_loop_divmod:
  fixes D q r :: u64
  assumes "D \<noteq> 0" "unat r = P mod unat D" "q = of_nat (P div unat D)"
  defines "qr \<equiv> if r \<ge> D - r then (q * 2 + 1, r * 2 - D) else (q * 2, r * 2)"
  shows "fst qr = of_nat (2 * P div unat D)" "unat (snd qr) = 2 * P mod unat D"
proof -
  have d: "0 < unat D" using assms(1) by (simp add: unat_gt_0)
  have rd: "unat r < unat D" using d assms(2) by simp
  have sub: "unat (D - r) = unat D - unat r" using rd by (simp add: unat_sub_no_wrap)
  have dbl: "unat D - unat r \<le> unat r \<Longrightarrow> unat (r * 2 - D) = 2 * unat r - unat D"
  proof -
    assume le: "unat D - unat r \<le> unat r"
    have "r * 2 - D = r - (D - r)" by simp
    also have "unat \<dots> = unat r - (unat D - unat r)"
      using le sub by (subst unat_sub_no_wrap) simp_all
    finally show "unat (r * 2 - D) = 2 * unat r - unat D" using rd by simp
  qed
  have dbl': "unat r < unat D - unat r \<Longrightarrow> unat (r * 2) = 2 * unat r"
  proof -
    assume "unat r < unat D - unat r"
    then have "unat r * unat (2 :: u64) < 2 ^ LENGTH(64)"
      using unat_lt2p [of D] by simp
    then show "unat (r * 2) = 2 * unat r" by (subst unat_mult_no_wrap) simp_all
  qed
  show "fst qr = of_nat (2 * P div unat D)" "unat (snd qr) = 2 * P mod unat D"
    using double_divmod [OF d, of P] dbl dbl' sub assms(2,3)
    by (auto simp: qr_def word_le_nat_alt mult.commute split: if_splits)
qed

text \<open>
  The exponents the loop accepts for rounding up and for rounding down, and what it knows of the
  round-down candidate when it reaches an exponent.
\<close>

definition up_ok :: "nat \<Rightarrow> nat \<Rightarrow> nat \<Rightarrow> nat \<Rightarrow> nat \<Rightarrow> bool" where
  "up_ok U d x L e \<longleftrightarrow> L \<le> e + x \<or> d - 2 ^ (U + e) mod d \<le> 2 ^ (e + x)"

definition down_ok :: "nat \<Rightarrow> nat \<Rightarrow> nat \<Rightarrow> nat \<Rightarrow> bool" where
  "down_ok U d x e \<longleftrightarrow> 2 ^ (U + e) mod d \<le> 2 ^ (e + x)"

definition down_inv :: "nat \<Rightarrow> nat \<Rightarrow> nat \<Rightarrow> nat \<Rightarrow> (u64 \<times> nat) option \<Rightarrow> bool" where
  "down_inv U d x e down \<longleftrightarrow>
     (case down of
        None \<Rightarrow> \<forall>e'<e. \<not> down_ok U d x e'
      | Some (m, e') \<Rightarrow> e' < e \<and> down_ok U d x e' \<and> m = of_nat (2 ^ (U + e') div d))"

lemma udiv_loop_spec:
  assumes "D \<noteq> 0" "L \<le> 64"
    and "unat r = 2 ^ (V + e) mod unat D" "q = of_nat (2 ^ (V + e) div unat D)"
    and "\<forall>e'<e. \<not> up_ok (Suc V) (unat D) x L e'" "down_inv (Suc V) (unat D) x e down"
  shows "\<exists>e2 down2. udiv_loop D x L e q r down = (e2, of_nat (2 ^ (Suc V + e2) div unat D), down2) \<and>
    up_ok (Suc V) (unat D) x L e2 \<and> (\<forall>e'<e2. \<not> up_ok (Suc V) (unat D) x L e') \<and>
    down_inv (Suc V) (unat D) x e2 down2"
  using assms
proof (induction D x L e q r down rule: udiv_loop.induct)
  case (1 D x L e q r down)
  define q' where "q' = fst (if r \<ge> D - r then (q * 2 + 1, r * 2 - D) else (q * 2, r * 2))"
  define r' where "r' = snd (if r \<ge> D - r then (q * 2 + 1, r * 2 - D) else (q * 2, r * 2))"
  have pair: "(if r \<ge> D - r then (q * 2 + 1, r * 2 - D) else (q * 2, r * 2)) = (q', r')"
    by (simp add: q'_def r'_def)
  have q': "q' = of_nat (2 ^ (Suc V + e) div unat D)" and r': "unat r' = 2 ^ (Suc V + e) mod unat D"
    using udiv_loop_divmod [OF "1.prems"(1,3,4)] unfolding q'_def r'_def by simp_all
  have "unat r' < unat D" using r' "1.prems"(1) by (simp add: unat_gt_0)
  then have sub: "unat (D - r') = unat D - unat r'" by (simp add: unat_sub_no_wrap)
  have pow: "unat (push_bit (e + x) (1::u64)) = 2 ^ (e + x)" if "e + x < L"
    using that "1.prems"(2) by (simp add: push_bit_eq_mult)
  have exit: "L \<le> e + x \<or> D - r' \<le> push_bit (e + x) 1 \<longleftrightarrow> up_ok (Suc V) (unat D) x L e"
    using pow sub r' by (cases "e + x < L") (simp_all add: up_ok_def word_le_nat_alt)
  define down' where "down' = (if down = None \<and> r' \<le> push_bit (e + x) 1 then Some (q', e) else down)"
  have step: "udiv_loop D x L e q r down =
    (if up_ok (Suc V) (unat D) x L e then (e, q', down) else udiv_loop D x L (e + 1) q' r' down')"
    unfolding udiv_loop.simps [of D x L e] pair Let_def prod.case exit down'_def ..
  show ?case
  proof (cases "up_ok (Suc V) (unat D) x L e")
    case True
    with step q' "1.prems"(5,6) show ?thesis by simp
  next
    case False
    then have lt: "e + x < L" by (simp add: up_ok_def)
    have "r' \<le> push_bit (e + x) 1 \<longleftrightarrow> down_ok (Suc V) (unat D) x e"
      using pow [OF lt] r' by (simp add: down_ok_def word_le_nat_alt)
    then have inv: "down_inv (Suc V) (unat D) x (e + 1) down'"
      using "1.prems"(6) q' unfolding down_inv_def down'_def
      by (auto simp: less_Suc_eq split: option.splits)
    have "\<forall>e'<e + 1. \<not> up_ok (Suc V) (unat D) x L e'"
      using "1.prems"(5) False by (simp add: less_Suc_eq)
    with "1.IH" [OF pair [symmetric] refl _ "1.prems"(1,2), folded down'_def]
    show ?thesis using False exit step q' r' inv by simp
  qed
qed

section \<open>Correctness of the magic numbers\<close>

lemma dvd_power_of_two:
  fixes d :: nat
  shows "d dvd 2 ^ k \<Longrightarrow> \<exists>j. d = 2 ^ j"
proof (induction k arbitrary: d)
  case 0
  then show ?case by (auto intro: exI [of _ 0])
next
  case (Suc k)
  show ?case
  proof (cases "even d")
    case True
    then obtain d' where d': "d = 2 * d'" by blast
    with Suc.prems have "d' dvd 2 ^ k" by simp
    with Suc.IH obtain j where "d' = 2 ^ j" by blast
    with d' have "d = 2 ^ Suc j" by simp
    then show ?thesis by blast
  next
    case False
    then have "coprime d (2 ^ Suc k)" by simp
    with Suc.prems have "d = 1" by (metis coprime_common_divisor_nat dvd_refl)
    then show ?thesis by (auto intro: exI [of _ 0])
  qed
qed

lemma not_power_of_two_mod:
  assumes "\<not> util_is_power_of_two_or_zero64 D"
  shows "0 < 2 ^ k mod unat D"
proof (rule ccontr)
  assume "\<not> ?thesis"
  then have "unat D dvd 2 ^ k" by (simp add: mod_eq_0_iff_dvd)
  then obtain j where j: "unat D = 2 ^ j" using dvd_power_of_two by blast
  have "j < 64"
    using power_less_imp_less_exp [of "2::nat" j 64] unat_lt2p [of D] unfolding j by simp
  with j have "D = 2 ^ j" by (simp add: word_unat_eq_iff)
  with \<open>j < 64\<close> assms show False by (auto simp: util_is_power_of_two_or_zero64_iff)
qed

text \<open>
  What a result promises for numerators below \<open>2 ^ N\<close>: the quotient, the two invariants of the
  header, and shift amounts that C defines.
\<close>

definition udiv_correct :: "nat \<Rightarrow> nat \<Rightarrow> nat \<Rightarrow> util_fast_udiv_info \<Rightarrow> bool" where
  "udiv_correct U N d info \<longleftrightarrow>
     (\<forall>n<2 ^ N. udiv_sequence U info n = n div d) \<and>
     (pre_shift info = 0 \<or> increment info = 0) \<and> increment info \<le> 1 \<and>
     0 < unat (multiplier info) \<and> unat (multiplier info) < 2 ^ U \<and>
     pre_shift info < U \<and> post_shift info < U"

lemma unat_of_nat_fits: "n < 2 ^ U \<Longrightarrow> U \<le> 64 \<Longrightarrow> unat (of_nat n :: u64) = n"
  using power_increasing [of U 64 "2::nat"] by (simp add: unat_of_nat)

lemma udiv_correct_up:
  fixes d :: nat
  assumes "N \<le> U" "U \<le> 64" "2 ^ e < d" "d < 2 ^ U" "d < 2 ^ L" "up_ok U d (U - N) L e"
  shows "udiv_correct U N d
    \<lparr>multiplier = of_nat (2 ^ (U + e) div d) + 1, pre_shift = 0, post_shift = e, increment = 0\<rparr>"
proof -
  have "(2::nat) ^ e < 2 ^ U" using assms(3,4) by linarith
  then have eU: "e < U" by simp
  have m: "unat (of_nat (2 ^ (U + e) div d) + 1 :: u64) = 2 ^ (U + e) div d + 1"
    using unat_of_nat_fits [OF magic_fits [OF assms(3,4)] assms(2)] by (simp add: add.commute)
  have \<delta>: "d - 2 ^ (U + e) mod d \<le> 2 ^ (e + (U - N))"
    using assms(6) unfolding up_ok_def
  proof
    assume "L \<le> e + (U - N)"
    then have "(2::nat) ^ L \<le> 2 ^ (e + (U - N))" by simp
    with assms(5) show ?thesis by linarith
  qed
  have "n * (2 ^ (U + e) div d + 1) div 2 ^ (U + e) = n div d" if "n < 2 ^ N" for n
  proof (rule magic_up)
    show "0 < d" using assms(3) by (metis gr0I not_less_zero)
    have "n * (d - 2 ^ (U + e) mod d) \<le> n * 2 ^ (e + (U - N))" using \<delta> by simp
    also have "\<dots> < 2 ^ N * 2 ^ (e + (U - N))" using that by simp
    also have "\<dots> = 2 ^ (U + e)" using assms(1) by (simp flip: power_add)
    finally show "n * (d - 2 ^ (U + e) mod d) < 2 ^ (U + e)" .
  qed
  with m magic_fits [OF assms(3,4)] eU show ?thesis
    by (simp add: udiv_correct_def udiv_sequence_def flip: div_mult2_eq power_add)
qed

lemma udiv_correct_down:
  fixes d :: nat
  assumes "N \<le> U" "U \<le> 64" "2 ^ e < d" "d < 2 ^ U"
    and "down_ok U d (U - N) e" "0 < 2 ^ (U + e) mod d"
  shows "udiv_correct U N d
    \<lparr>multiplier = of_nat (2 ^ (U + e) div d), pre_shift = 0, post_shift = e, increment = 1\<rparr>"
proof -
  have "(2::nat) ^ e < 2 ^ U" using assms(3,4) by linarith
  then have eU: "e < U" by simp
  have fits: "2 ^ (U + e) div d < 2 ^ U" using magic_fits [OF assms(3,4)] by linarith
  have d: "0 < d" using assms(3) by (metis gr0I not_less_zero)
  have "d \<le> 2 ^ (U + e)" using assms(4) power_increasing [of U "U + e" "2::nat"] by linarith
  then have pos: "0 < 2 ^ (U + e) div d" using d by (simp add: div_greater_zero_iff)
  have "(n + 1) * (2 ^ (U + e) div d) div 2 ^ (U + e) = n div d" if "n < 2 ^ N" for n
  proof (rule magic_down [OF assms(6) _ d])
    have "(n + 1) * (2 ^ (U + e) mod d) \<le> 2 ^ N * 2 ^ (e + (U - N))"
      using assms(5) that unfolding down_ok_def by (intro mult_le_mono) simp_all
    also have "\<dots> = 2 ^ (U + e)" using assms(1) by (simp flip: power_add)
    finally show "(n + 1) * (2 ^ (U + e) mod d) \<le> 2 ^ (U + e)" .
  qed
  with unat_of_nat_fits [OF fits assms(2)] fits pos eU show ?thesis
    by (simp add: udiv_correct_def udiv_sequence_def flip: div_mult2_eq power_add)
qed

text \<open>The exponent reaches the size of the divisor only if the numerator uses the whole word.\<close>

lemma exponent_bound:
  assumes "\<forall>e'<e. \<not> up_ok U d x L e'" "0 < L" "0 < x"
  shows "e < L"
proof (cases e)
  case (Suc e')
  with assms(1) have "\<not> up_ok U d x L e'" by simp
  with Suc assms(3) show ?thesis by (simp add: up_ok_def)
qed (use assms(2) in simp)

lemma exponent_at_end:
  assumes "\<forall>e'<e. \<not> up_ok U d x L e'" "0 < L" "L \<le> e"
  shows "x = 0" "e = L"
proof -
  show x: "x = 0" using exponent_bound [OF assms(1,2)] assms(3) by (cases x) auto
  show "e = L"
  proof (rule ccontr)
    assume "e \<noteq> L"
    with assms(1,3) have "\<not> up_ok U d x L L" by simp
    then show False by (simp add: up_ok_def)
  qed
qed

text \<open>At the last exponent one of the two methods works, so the round-down candidate exists.\<close>

lemma magic_down_set:
  fixes d :: nat
  assumes "\<forall>e'<L. \<not> up_ok U d 0 L e'" "0 < L" "d < 2 ^ L" "down_inv U d 0 L down"
  shows "\<exists>m e. down = Some (m, e) \<and> e < L \<and> down_ok U d 0 e \<and> m = of_nat (2 ^ (U + e) div d)"
proof (cases down)
  case None
  with assms(2,4) have "\<not> down_ok U d 0 (L - 1)" by (simp add: down_inv_def)
  moreover from assms(1,2) have "\<not> up_ok U d 0 L (L - 1)" by simp
  moreover have "(2::nat) ^ L = 2 * 2 ^ (L - 1)" using assms(2) by (cases L) simp_all
  ultimately have False using assms(3) unfolding up_ok_def down_ok_def add_0_right by linarith
  then show ?thesis ..
next
  case (Some p)
  with assms(4) show ?thesis by (cases p) (simp add: down_inv_def)
qed

lemma word_div_of_nat: "a div b = (of_nat (unat a div unat b) :: 'a::len word)"
proof -
  have "unat a div unat b < 2 ^ LENGTH('a)"
    by (rule le_less_trans [OF div_le_dividend]) simp
  then show ?thesis by (simp add: word_unat_eq_iff unat_div unat_of_nat)
qed

text \<open>The first run of the loop, from the power of two below the word size.\<close>

lemma udiv_loop_start:
  fixes D :: u64
  assumes "D \<noteq> 0" "0 < U" "U \<le> 64"
  defines "L \<equiv> last_bit_loop 0 D"
  shows "\<exists>e down. udiv_loop D x L 0 (push_bit (U - 1) 1 div D) (push_bit (U - 1) 1 mod D) None =
      (e, of_nat (2 ^ (U + e) div unat D), down) \<and>
    up_ok U (unat D) x L e \<and> (\<forall>e'<e. \<not> up_ok U (unat D) x L e') \<and> down_inv U (unat D) x e down"
proof -
  have pow: "unat (push_bit (U - 1) (1::u64)) = 2 ^ (U - 1)"
    using assms(2,3) by (simp add: push_bit_eq_mult)
  have "L \<le> 64"
  proof (rule ccontr)
    assume "\<not> L \<le> 64"
    then have "2 ^ 64 \<le> unat D" unfolding L_def by (intro last_bit_loop_bounds(2)) simp
    with unat_lt2p [of D] show False by simp
  qed
  moreover have "unat (push_bit (U - 1) 1 mod D) = 2 ^ (U - 1 + 0) mod unat D"
    by (simp only: unat_mod pow add_0_right)
  moreover have "push_bit (U - 1) 1 div D = of_nat (2 ^ (U - 1 + 0) div unat D)"
    by (simp only: word_div_of_nat pow add_0_right)
  ultimately show ?thesis
    using udiv_loop_spec [OF assms(1), of L _ "U - 1" 0 _ x None] assms(2)
    by (simp add: down_inv_def)
qed

lemma last_bit_loop_pos: "(u :: u64) \<noteq> 0 \<Longrightarrow> 0 < last_bit_loop 0 u"
  using last_bit_loop_bounds(1) [of u] by (cases "last_bit_loop 0 u") (auto simp: unat_eq_zero)

lemma power_of_two_less:
  assumes "\<not> util_is_power_of_two_or_zero64 D" "e < last_bit_loop 0 D"
  shows "2 ^ e < unat D"
proof -
  have "2 ^ e \<le> unat D" using assms(2) by (rule last_bit_loop_bounds(2))
  moreover have "2 ^ e \<noteq> unat D" using not_power_of_two_mod [OF assms(1), of e] by auto
  ultimately show ?thesis by simp
qed

lemma udiv_correct_power_of_two:
  assumes "0 < s" "s < U" "U \<le> 64" "N \<le> U"
  shows "udiv_correct U N (2 ^ s)
    \<lparr>multiplier = push_bit (U - s) 1, pre_shift = 0, post_shift = 0, increment = 0\<rparr>"
proof -
  have m: "unat (push_bit (U - s) (1::u64)) = 2 ^ (U - s)"
    using assms by (simp add: push_bit_eq_mult)
  have "n * 2 ^ (U - s) div 2 ^ U = n div 2 ^ s" for n :: nat
  proof -
    have "(2::nat) ^ U = 2 ^ (U - s) * 2 ^ s" using assms(2) by (simp flip: power_add)
    then show ?thesis by (simp add: mult.commute [of n])
  qed
  with m assms show ?thesis by (simp add: udiv_correct_def udiv_sequence_def del: push_bit_of_1)
qed

lemma udiv_correct_one:
  assumes "0 < U" "U \<le> 64" "N \<le> U"
  shows "udiv_correct U N 1
    \<lparr>multiplier = (if U = 64 then 0xffffffffffffffff else push_bit U 1 - 1),
     pre_shift = 0, post_shift = 0, increment = 1\<rparr>"
proof -
  have m: "unat (if U = 64 then 0xffffffffffffffff else push_bit U 1 - 1 :: u64) = 2 ^ U - 1"
  proof (cases "U = 64")
    case False
    with assms(2) have "U < 64" by simp
    then show ?thesis by (simp add: unat_sub_no_wrap word_le_nat_alt)
  qed simp
  have "(n + 1) * (2 ^ U - 1) div 2 ^ U = n" if "n < 2 ^ N" for n :: nat
  proof (rule div_nat_eqI)
    have "n < 2 ^ U" using that power_increasing [OF assms(3), of "2::nat"] by linarith
    then show "2 ^ U * n \<le> (n + 1) * (2 ^ U - 1)"
      by (simp add: diff_mult_distrib2 algebra_simps)
    show "(n + 1) * (2 ^ U - 1) < 2 ^ U * Suc n"
      by (simp add: diff_mult_distrib2 algebra_simps add_strict_increasing)
  qed
  moreover have "(1::nat) < 2 ^ U" using assms(1) by (metis one_less_power one_less_numeral_iff semiring_norm(76))
  ultimately show ?thesis using m assms(1) by (simp add: udiv_correct_def udiv_sequence_def)
qed

text \<open>
  A divisor that is not a power of two and whose numerator leaves a bit unused is handled by the
  round-up method: this is the recursive call for even divisors.
\<close>

lemma compute_udiv_up:
  assumes "\<not> util_is_power_of_two_or_zero64 D" "0 < N" "N < U" "U \<le> 64" "unat D < 2 ^ U"
  shows "\<exists>info. util_compute_fast_udiv_info D N U = Some info \<and> udiv_correct U N (unat D) info \<and>
    pre_shift info = 0 \<and> increment info = 0"
proof -
  have nz: "D \<noteq> 0" using assms(1) by (auto simp: util_is_power_of_two_or_zero64_iff)
  then have L: "0 < last_bit_loop 0 D" by (rule last_bit_loop_pos)
  obtain e down where loop: "udiv_loop D (U - N) (last_bit_loop 0 D) 0
      (push_bit (U - 1) 1 div D) (push_bit (U - 1) 1 mod D) None = (e, of_nat (2 ^ (U + e) div unat D), down)"
    and up: "up_ok U (unat D) (U - N) (last_bit_loop 0 D) e"
    and least: "\<forall>e'<e. \<not> up_ok U (unat D) (U - N) (last_bit_loop 0 D) e'"
    using udiv_loop_start [OF nz, of U "U - N"] assms(3,4) by auto
  have e: "e < last_bit_loop 0 D" using exponent_bound [OF least L] assms(3) by simp
  have "udiv_correct U N (unat D)
    \<lparr>multiplier = of_nat (2 ^ (U + e) div unat D) + 1, pre_shift = 0, post_shift = e, increment = 0\<rparr>"
    using assms(3,4,5) power_of_two_less [OF assms(1) e] last_bit_loop_bounds(1) up
    by (intro udiv_correct_up) simp_all
  then show ?thesis
    using assms nz loop e by (subst util_compute_fast_udiv_info.simps) (simp del: push_bit_of_1)
qed

lemma even_shift_facts:
  fixes D D' :: u64
  assumes "\<not> util_is_power_of_two_or_zero64 D" "D AND 1 = 0"
    and "unat D = 2 ^ s * unat D'" "D' \<noteq> 0" "D' AND 1 \<noteq> 0" "unat D < 2 ^ U"
  shows "\<not> util_is_power_of_two_or_zero64 D'" "0 < s" "s < U" "unat D' < 2 ^ U"
proof -
  have pos: "0 < unat D'" using assms(4) by (simp add: unat_gt_0)
  show "0 < s"
  proof (rule ccontr)
    assume "\<not> 0 < s"
    with assms(3) have "D = D'" by (simp add: word_unat_eq_iff)
    with assms(2,5) show False by simp
  qed
  have "2 ^ s * 1 \<le> unat D" unfolding assms(3) using pos by (intro mult_le_mono) simp_all
  with assms(6) have "(2::nat) ^ s < 2 ^ U" by linarith
  then show "s < U" by simp
  have "1 * unat D' \<le> unat D" unfolding assms(3) by (intro mult_le_mono) simp_all
  with assms(6) show "unat D' < 2 ^ U" by simp
  show "\<not> util_is_power_of_two_or_zero64 D'"
  proof
    assume "util_is_power_of_two_or_zero64 D'"
    with assms(4) obtain j where "j < 64" "D' = 2 ^ j" by (auto simp: util_is_power_of_two_or_zero64_iff)
    with assms(3) have "unat D dvd 2 ^ (s + j)" by (simp add: power_add)
    with not_power_of_two_mod [OF assms(1), of "s + j"] show False by (simp add: mod_eq_0_iff_dvd)
  qed
qed

lemma compute_udiv_power_of_two:
  assumes "util_is_power_of_two_or_zero64 D" "D \<noteq> 0" "0 < N" "N \<le> U" "U \<le> 64" "unat D < 2 ^ U"
  shows "\<exists>info. util_compute_fast_udiv_info D N U = Some info \<and> udiv_correct U N (unat D) info"
proof -
  obtain s where s: "s < 64" "D = 2 ^ s"
    using assms(1,2) by (auto simp: util_is_power_of_two_or_zero64_iff)
  then have d: "unat D = 2 ^ s" by simp
  then have log: "util_logbase2_64 D = s" by (intro util_logbase2_64_eq) (simp add: floor_log2_def)
  have "s < U" using assms(6) d by simp
  show ?thesis
  proof (cases "s = 0")
    case True
    then show ?thesis
      using assms log d udiv_correct_one [OF _ assms(5,4)]
      by (subst util_compute_fast_udiv_info.simps) (simp add: Let_def)
  next
    case False
    then show ?thesis
      using assms log d udiv_correct_power_of_two [OF _ \<open>s < U\<close> assms(5,4)]
      by (subst util_compute_fast_udiv_info.simps) (simp add: Let_def)
  qed
qed

lemma udiv_correct_pre_shift:
  assumes "udiv_correct U (N - s) d info" "pre_shift info = 0" "increment info = 0" "s \<le> N" "s < U"
  shows "udiv_correct U N (2 ^ s * d) (info\<lparr>pre_shift := s\<rparr>)"
proof -
  have "n div 2 ^ s < 2 ^ (N - s)" if "n < 2 ^ N" for n :: nat
    using that assms(4) by (simp add: div_less_iff_less_mult flip: power_add)
  with assms(1-3,5) show ?thesis
    by (auto simp: udiv_correct_def udiv_sequence_def div_mult2_eq)
qed

text \<open>The result exists (no assertion fails, including those of the recursive call) and is correct.\<close>

lemma compute_udiv_correct:
  assumes "D \<noteq> 0" "0 < N" "N \<le> U" "U \<le> 64" "unat D < 2 ^ U"
  shows "\<exists>info. util_compute_fast_udiv_info D N U = Some info \<and> udiv_correct U N (unat D) info"
proof (cases "util_is_power_of_two_or_zero64 D")
  case True
  then show ?thesis using assms by (rule compute_udiv_power_of_two)
next
  case np2: False
  define L where "L = last_bit_loop 0 D"
  have L: "0 < L" "unat D < 2 ^ L"
    unfolding L_def using last_bit_loop_pos [OF assms(1)] last_bit_loop_bounds(1) by auto
  obtain e down where loop: "udiv_loop D (U - N) L 0
      (push_bit (U - 1) 1 div D) (push_bit (U - 1) 1 mod D) None = (e, of_nat (2 ^ (U + e) div unat D), down)"
    and up: "up_ok U (unat D) (U - N) L e" and least: "\<forall>e'<e. \<not> up_ok U (unat D) (U - N) L e'"
    and down: "down_inv U (unat D) (U - N) e down"
    using udiv_loop_start [OF assms(1), of U "U - N"] assms(2-4) unfolding L_def by auto
  note run = util_compute_fast_udiv_info.simps [of D N U] np2 L_def assms(1-3)
  consider (up) "e < L" | (down) "L \<le> e" "D AND 1 \<noteq> 0" | (even) "L \<le> e" "D AND 1 = 0"
    by linarith
  then show ?thesis
  proof cases
    case up
    then have "udiv_correct U N (unat D)
      \<lparr>multiplier = of_nat (2 ^ (U + e) div unat D) + 1, pre_shift = 0, post_shift = e, increment = 0\<rparr>"
      using assms L power_of_two_less [OF np2] \<open>up_ok U (unat D) (U - N) L e\<close>
      by (intro udiv_correct_up) (simp_all add: L_def)
    then show ?thesis using up loop by (simp add: run del: push_bit_of_1)
  next
    case down
    note fin = exponent_at_end [OF least L(1) down(1)]
    from magic_down_set [of L U "unat D" down] least L fin \<open>down_inv U (unat D) (U - N) e down\<close>
    obtain m e' where m: "down = Some (m, e')" "e' < L" "down_ok U (unat D) 0 e'"
      "m = of_nat (2 ^ (U + e') div unat D)" by auto
    then have "udiv_correct U N (unat D)
      \<lparr>multiplier = m, pre_shift = 0, post_shift = e', increment = 1\<rparr>"
      using assms power_of_two_less [OF np2] not_power_of_two_mod [OF np2] fin(1)
      unfolding m(4) by (intro udiv_correct_down) (simp_all add: L_def)
    then show ?thesis using down m(1) loop by (simp add: run del: push_bit_of_1)
  next
    case even
    note fin = exponent_at_end [OF least L(1) even(1)]
    obtain D' s where s: "shift_even_loop D 0 = (D', s)" "unat D = 2 ^ s * unat D'" "D' \<noteq> 0" "D' AND 1 \<noteq> 0"
      using shift_even_loop_eq [OF assms(1), of 0] by auto
    have sub: "\<not> util_is_power_of_two_or_zero64 D'" "0 < s" "s < N" "unat D' < 2 ^ U"
      using even_shift_facts [OF np2 even(2) s(2-4) assms(5)] fin(1) assms(3) by auto
    have "N - s < U" using sub(2,3) assms(3) by linarith
    then obtain info where info: "util_compute_fast_udiv_info D' (N - s) U = Some info"
      "udiv_correct U (N - s) (unat D') info" "pre_shift info = 0" "increment info = 0"
      using compute_udiv_up [OF sub(1) _ _ assms(4) sub(4), of "N - s"] sub(2,3) assms(3) by auto
    have "udiv_correct U N (unat D) (info\<lparr>pre_shift := s\<rparr>)"
      unfolding s(2) using info(2-4) sub(3) assms(3) by (intro udiv_correct_pre_shift) simp_all
    then show ?thesis using even s(1) info(1,3,4) loop by (simp add: run del: push_bit_of_1)
  qed
qed

section \<open>The 32-bit run-time sequences\<close>

lemma unat_drop_bit: "unat (drop_bit k (w :: 'a::len word)) = unat w div 2 ^ k"
  by (metis drop_bit_eq_div unat_drop_bit_eq)

lemma mul_high:
  assumes "x * unat m < 2 ^ 64" "unat w = x"
  shows "unat (ucast (drop_bit 32 (w * m :: u64)) :: u32) = x * unat m div 2 ^ 32"
proof -
  have "unat (w * m) = x * unat m" using assms by (subst unat_mult_no_wrap) simp_all
  then have "unat (drop_bit 32 (w * m)) = x * unat m div 2 ^ 32"
    by (simp add: unat_drop_bit)
  moreover have "x * unat m div 2 ^ 32 < 2 ^ 32" using assms(1) by (simp add: div_less_iff_less_mult)
  ultimately show ?thesis by (simp add: unat_ucast_eq)
qed

lemma udiv_product_bound:
  assumes "n < 2 ^ 32" "increment info \<le> 1" "unat (multiplier info) < 2 ^ 32"
  shows "(n div 2 ^ pre_shift info + increment info) * unat (multiplier info) < 2 ^ 64"
proof -
  have "n div 2 ^ pre_shift info \<le> n" by simp
  then have "n div 2 ^ pre_shift info + increment info \<le> 2 ^ 32" using assms(1,2) by linarith
  then have "(n div 2 ^ pre_shift info + increment info) * unat (multiplier info)
      \<le> 2 ^ 32 * unat (multiplier info)" by (rule mult_le_mono1)
  also have "\<dots> < 2 ^ 64" using assms(3) by simp
  finally show ?thesis .
qed

lemma util_fast_udiv32_sequence:
  assumes "increment info \<le> 1" "unat (multiplier info) < 2 ^ 32"
  shows "unat (util_fast_udiv32 n info) = udiv_sequence 32 info (unat n)"
proof -
  define k where "k = unat n div 2 ^ pre_shift info"
  have k: "unat (drop_bit (pre_shift info) n) = k" by (simp add: k_def unat_drop_bit)
  have k32: "k < 2 ^ 32" using unat_lt2p [of "drop_bit (pre_shift info) n"] unfolding k by simp
  have uk: "unat (ucast (drop_bit (pre_shift info) n) :: u64) = k"
    using k k32 by (simp add: unat_ucast_eq)
  have "unat (ucast (drop_bit (pre_shift info) n) + of_nat (increment info) :: u64) = k + increment info"
    using uk k32 assms(1) by (subst unat_add_no_wrap) (simp_all add: unat_of_nat)
  from mul_high [OF _ this, of "multiplier info"] udiv_product_bound [OF _ assms, of "unat n"] unat_lt2p [of n]
  show ?thesis unfolding util_fast_udiv32_def udiv_sequence_def Let_def k_def
    by (simp add: unat_drop_bit)
qed

lemma util_fast_udiv32_nuw_sequence:
  assumes "increment info \<le> 1" "unat (multiplier info) < 2 ^ 32" "n \<noteq> UINT_MAX"
  shows "map_option unat (util_fast_udiv32_nuw n info) = Some (udiv_sequence 32 info (unat n))"
proof -
  define k where "k = unat n div 2 ^ pre_shift info"
  have k: "unat (drop_bit (pre_shift info) n) = k" by (simp add: k_def unat_drop_bit)
  have "unat n \<noteq> 2 ^ 32 - 1" using assms(3) by (auto simp: word_unat_eq_iff)
  then have "unat n < 2 ^ 32 - 1" using unat_lt2p [of n] by simp
  moreover have "k \<le> unat n" by (simp add: k_def)
  ultimately have k32: "k + increment info < 2 ^ 32" using assms(1) by linarith
  then have "unat (drop_bit (pre_shift info) n + of_nat (increment info)) = k + increment info"
    using k by (subst unat_add_no_wrap) (simp_all add: unat_of_nat)
  then have "unat (ucast (drop_bit (pre_shift info) n + of_nat (increment info)) :: u64) = k + increment info"
    using k32 by (simp add: unat_ucast_eq)
  from mul_high [OF _ this, of "multiplier info"] udiv_product_bound [OF _ assms(1,2), of "unat n"] unat_lt2p [of n]
  show ?thesis using assms(3) unfolding util_fast_udiv32_nuw_def udiv_sequence_def Let_def k_def
    by (simp add: unat_drop_bit)
qed

lemma util_fast_udiv32_u31_sequence:
  assumes "unat (multiplier info) < 2 ^ 32" "pre_shift info = 0" "increment info = 0"
  shows "map_option unat (util_fast_udiv32_u31_d_not_one n info) = Some (udiv_sequence 32 info (unat n))"
proof -
  have "unat (ucast n :: u64) = unat n" using unat_lt2p [of n] by (simp add: unat_ucast_eq)
  from mul_high [OF _ this, of "multiplier info"] udiv_product_bound [of "unat n" info] unat_lt2p [of n] assms
  show ?thesis unfolding util_fast_udiv32_u31_d_not_one_def udiv_sequence_def Let_def
    by (simp add: unat_drop_bit)
qed

section \<open>Signed magic numbers\<close>

text \<open>
  An \<^verbatim>\<open>int64_t\<close> is a 64-bit word read with \<open>sint\<close>. \<open>None\<close> is a failing assertion or a signed
  negation that overflows. The \<^verbatim>\<open>do ... while\<close> loop has no bound in the code, so it is a partial
  function; that it returns is part of the theorems.
\<close>

record util_fast_sdiv_info =
  smultiplier :: u64
  sshift :: nat

definition sign_extend :: "u64 \<Rightarrow> nat \<Rightarrow> u64" where
  "sign_extend x SINT_BITS = signed_drop_bit (64 - SINT_BITS) (push_bit (64 - SINT_BITS) x)"

definition sdiv_double :: "u64 \<Rightarrow> u64 \<times> u64 \<Rightarrow> u64 \<times> u64" where
  "sdiv_double den = (\<lambda>(q, r). let q = q * 2; r = r * 2
     in if r \<ge> den then (q + 1, r - den) else (q, r))"

partial_function (option) sdiv_loop ::
  "u64 \<Rightarrow> u64 \<Rightarrow> nat \<Rightarrow> u64 \<times> u64 \<Rightarrow> u64 \<times> u64 \<Rightarrow> (nat \<times> u64) option"
where
  "sdiv_loop abs_d abs_test_numer exponent qr1 qr2 =
     (let exponent = exponent + 1;
          qr1 = sdiv_double abs_test_numer qr1;
          qr2 = sdiv_double abs_d qr2;
          delta = abs_d - snd qr2
      in if fst qr1 < delta \<or> fst qr1 = delta \<and> snd qr1 = 0
         then sdiv_loop abs_d abs_test_numer exponent qr1 qr2
         else Some (exponent, fst qr2))"

definition neg_int64 :: "u64 \<Rightarrow> u64 option" where
  "neg_int64 x = (if x = push_bit 63 1 then None else Some (- x))"

definition util_compute_fast_sdiv_info :: "u64 \<Rightarrow> nat \<Rightarrow> util_fast_sdiv_info option" where
  "util_compute_fast_sdiv_info D SINT_BITS =
     (if D = 0 \<or> D = 1 \<or> D = -1 then None
      else case if D <s 0 then neg_int64 D else Some D of
        None \<Rightarrow> None
      | Some abs_d \<Rightarrow>
          let exponent = SINT_BITS - 1;
              initial_power_of_2 = push_bit exponent 1;
              tmp = initial_power_of_2 + (if D <s 0 then 1 else 0);
              abs_test_numer = tmp - 1 - tmp mod abs_d
          in case sdiv_loop abs_d abs_test_numer exponent
                    (initial_power_of_2 div abs_test_numer, initial_power_of_2 mod abs_test_numer)
                    (initial_power_of_2 div abs_d, initial_power_of_2 mod abs_d) of
               None \<Rightarrow> None
             | Some (exponent, quot2) \<Rightarrow>
                 let mult = sign_extend (quot2 + 1) SINT_BITS
                 in map_option (\<lambda>mult. \<lparr>smultiplier = mult, sshift = exponent - SINT_BITS\<rparr>)
                      (if D <s 0 then neg_int64 mult else Some mult))"

text \<open>The sequence the header emits, on unbounded integers; \<^verbatim>\<open>>>\<close> is the arithmetic shift.\<close>

definition sdiv_sequence :: "nat \<Rightarrow> int \<Rightarrow> util_fast_sdiv_info \<Rightarrow> int \<Rightarrow> int" where
  "sdiv_sequence SINT_BITS d m n =
     (let result = sint (smultiplier m) * n div 2 ^ SINT_BITS;
          result = (if d > 0 \<and> sint (smultiplier m) < 0 then result + n else result);
          result = (if d < 0 \<and> sint (smultiplier m) > 0 then result - n else result);
          result = result div 2 ^ sshift m
      in result + (if result < 0 then 1 else 0))"

subsection \<open>Warren's test numerator\<close>

text \<open>
  \<open>nc\<close> is the largest number below \<open>t\<close> that leaves remainder \<open>d - 1\<close>. If the multiplier is exact
  enough for \<open>nc\<close> it is so for every number below \<open>t\<close>.
\<close>

lemma warren_numerator:
  fixes P d t k \<delta> :: nat
  assumes "2 \<le> d" "d \<le> t" "(t - 1 - t mod d) * \<delta> < P" "k < t"
  shows "k * \<delta> < (d - k mod d) * P"
proof (cases "k \<le> t - 1 - t mod d")
  case True
  then have "k * \<delta> < P" using assms(3) by (meson le_less_trans mult_le_mono1)
  moreover have "1 * P \<le> (d - k mod d) * P" using assms(1) mod_less_divisor [of d k]
    by (intro mult_le_mono1) linarith
  ultimately show ?thesis by linarith
next
  case False
  define b where "b = d * (t div d)"
  have t: "t = b + t mod d" by (simp add: b_def)
  have b: "d * 1 \<le> b" unfolding b_def using assms(1,2) by (intro mult_le_mono2) (simp add: div_greater_zero_iff Suc_leI)
  have tm: "t mod d < d" using assms(1) by simp
  have kb: "b \<le> k" "k - b < t mod d" using False t assms(4) b by linarith+
  then have "k mod d = k - b"
    using tm by (metis b_def le_add_diff_inverse less_trans mod_less mod_mult_self4)
  then have two: "2 \<le> d - k mod d" using kb(2) tm by linarith
  have "k \<le> 2 * (t - 1 - t mod d)" using t b tm assms(4) assms(1) by linarith
  then have "k * \<delta> \<le> 2 * ((t - 1 - t mod d) * \<delta>)" by (metis mult.assoc mult_le_mono1)
  also have "\<dots> < 2 * P" using assms(3) by simp
  also have "\<dots> \<le> (d - k mod d) * P" using two by (rule mult_le_mono1)
  finally show ?thesis .
qed

lemma magic_product:
  fixes P d :: nat
  assumes "0 < d"
  shows "(P div d + 1) * d = P + (d - P mod d)"
proof -
  have "(P div d + 1) * d = P - P mod d + d" by (simp add: minus_mod_eq_div_mult)
  then show ?thesis using mod_less_divisor [OF assms, of P] mod_less_eq_dividend [of P d] by linarith
qed

lemma magic_product_le:
  fixes P d k :: nat
  assumes "0 < d" "k * (d - P mod d) \<le> (d - k mod d) * P"
  shows "k * (P div d + 1) \<le> P * Suc (k div d)"
    and "k * (d - P mod d) < (d - k mod d) * P \<Longrightarrow> k * (P div d + 1) < P * Suc (k div d)"
    and "P * (k div d) \<le> k * (P div d + 1)"
    and "0 < k \<Longrightarrow> P * (k div d) < k * (P div d + 1)"
proof -
  define M where "M = P div d + 1"
  define \<delta> where "\<delta> = d - P mod d"
  have Md: "k * M * d = k * P + k * \<delta>"
    using magic_product [OF assms(1), of P] by (metis M_def \<delta>_def distrib_left mult.assoc)
  have r: "k mod d < d" using assms(1) by simp
  have top: "P * Suc (k div d) * d = k * P + (d - k mod d) * P"
  proof -
    have "Suc (k div d) * d = k + (d - k mod d)" using magic_product [OF assms(1), of k] by simp
    then show ?thesis by (metis distrib_right mult.assoc mult.commute)
  qed
  have bot: "P * (k div d) * d + (k mod d) * P = k * P"
    by (metis div_mult_mod_eq distrib_right mult.assoc mult.commute)
  have pos: "0 < \<delta>" unfolding \<delta>_def using assms(1) by simp
  have "k * M * d \<le> P * Suc (k div d) * d" using Md top assms(2) unfolding \<delta>_def by linarith
  then show "k * M \<le> P * Suc (k div d)" using assms(1) by simp
  show "k * M < P * Suc (k div d)" if "k * (d - P mod d) < (d - k mod d) * P"
  proof -
    have "k * M * d < P * Suc (k div d) * d" using Md top that unfolding \<delta>_def by linarith
    then show ?thesis by simp
  qed
  have "P * (k div d) * d \<le> k * M * d" using Md bot by linarith
  then show "P * (k div d) \<le> k * M" using assms(1) by simp
  show "P * (k div d) < k * M" if "0 < k"
  proof -
    have "0 < k * \<delta>" using pos that by simp
    then have "P * (k div d) * d < k * M * d" using Md bot by linarith
    then show ?thesis by simp
  qed
qed

subsection \<open>The signed exponent loop\<close>

lemma sdiv_double_spec:
  fixes den :: u64
  assumes "0 < unat den" "unat den \<le> 2 ^ 63" "unat (snd qr) = P mod unat den" "fst qr = of_nat (P div unat den)"
  shows "fst (sdiv_double den qr) = of_nat (2 * P div unat den)"
    and "unat (snd (sdiv_double den qr)) = 2 * P mod unat den"
proof -
  obtain q r where qr: "qr = (q, r)" by (cases qr)
  have "P mod unat den < unat den" using assms(1) by simp
  then have r2: "unat (r * 2) = 2 * (P mod unat den)"
    using assms(2,3) qr by (subst unat_mult_no_wrap) simp_all
  have sub: "unat (r * 2 - den) = 2 * (P mod unat den) - unat den" if "unat den \<le> 2 * (P mod unat den)"
    using that r2 by (simp add: unat_sub_no_wrap)
  show "fst (sdiv_double den qr) = of_nat (2 * P div unat den)"
    "unat (snd (sdiv_double den qr)) = 2 * P mod unat den"
    using double_divmod [OF assms(1), of P] r2 sub assms(4) qr
    by (auto simp: sdiv_double_def Let_def word_le_nat_alt mult.commute)
qed

lemma sdiv_exit:
  fixes P nc \<delta> :: nat
  assumes "0 < nc"
  shows "P div nc < \<delta> \<or> P div nc = \<delta> \<and> P mod nc = 0 \<longleftrightarrow> P \<le> nc * \<delta>"
proof -
  have P: "P = nc * (P div nc) + P mod nc" by simp
  consider "P div nc < \<delta>" | "P div nc = \<delta>" | "\<delta> < P div nc" by linarith
  then show ?thesis
  proof cases
    case 1
    then have "nc * Suc (P div nc) \<le> nc * \<delta>" by (intro mult_le_mono2) simp
    moreover have "P mod nc < nc" using assms by simp
    moreover have "nc * Suc (P div nc) = nc + nc * (P div nc)" by simp
    ultimately have "P \<le> nc * \<delta>" using P by linarith
    with 1 show ?thesis by simp
  next
    case 2
    have "P \<le> nc * (P div nc) \<longleftrightarrow> P mod nc = 0" using P by linarith
    with 2 show ?thesis by simp
  next
    case 3
    then have "nc * Suc \<delta> \<le> nc * (P div nc)" by (intro mult_le_mono2) simp
    then have "nc * \<delta> < P" using P assms unfolding mult_Suc_right by linarith
    with 3 show ?thesis by simp
  qed
qed

lemma sdiv_loop_spec:
  fixes abs_d nc :: u64
  assumes nc: "0 < unat nc" "unat nc \<le> 2 ^ 63" and d: "0 < unat abs_d" "unat abs_d < 2 ^ 63"
    and B: "unat nc * unat abs_d \<le> 2 ^ B"
  shows "unat (snd qr1) = 2 ^ p mod unat nc \<Longrightarrow> fst qr1 = of_nat (2 ^ p div unat nc) \<Longrightarrow>
    2 ^ p div unat nc < 2 ^ 63 \<Longrightarrow>
    unat (snd qr2) = 2 ^ p mod unat abs_d \<Longrightarrow> fst qr2 = of_nat (2 ^ p div unat abs_d) \<Longrightarrow>
    \<exists>p'>p. sdiv_loop abs_d nc p qr1 qr2 = Some (p', of_nat (2 ^ p' div unat abs_d)) \<and>
      unat nc * (unat abs_d - 2 ^ p' mod unat abs_d) < 2 ^ p' \<and>
      (p' = Suc p \<or> 2 ^ (p' - 1) \<le> unat nc * (unat abs_d - 2 ^ (p' - 1) mod unat abs_d))"
proof (induction "Suc B - p" arbitrary: p qr1 qr2 rule: less_induct)
  case less
  define s1 where "s1 = sdiv_double nc qr1"
  define s2 where "s2 = sdiv_double abs_d qr2"
  define \<delta> where "\<delta> = unat abs_d - 2 ^ Suc p mod unat abs_d"
  have s1: "fst s1 = of_nat (2 ^ Suc p div unat nc)" "unat (snd s1) = 2 ^ Suc p mod unat nc"
    using sdiv_double_spec [OF nc less.prems(1,2)] by (simp_all add: s1_def)
  have s2: "fst s2 = of_nat (2 ^ Suc p div unat abs_d)" "unat (snd s2) = 2 ^ Suc p mod unat abs_d"
    using sdiv_double_spec [OF d(1) _ less.prems(4,5)] d(2) by (simp_all add: s2_def)
  have "2 ^ Suc p div unat nc \<le> 2 * (2 ^ p div unat nc) + 1"
    using double_divmod [OF nc(1), of "2 ^ p"] by (cases "unat nc - 2 ^ p mod unat nc \<le> 2 ^ p mod unat nc") simp_all
  then have q1: "unat (fst s1) = 2 ^ Suc p div unat nc"
    unfolding s1(1) using less.prems(3) by (simp add: unat_of_nat)
  have "2 ^ Suc p mod unat abs_d < unat abs_d" using d(1) by simp
  then have delta: "unat (abs_d - snd s2) = \<delta>" using s2(2) by (simp add: \<delta>_def unat_sub_no_wrap)
  have guard: "fst s1 < abs_d - snd s2 \<or> fst s1 = abs_d - snd s2 \<and> snd s1 = 0 \<longleftrightarrow> 2 ^ Suc p \<le> unat nc * \<delta>"
    unfolding word_less_nat_alt word_unat_eq_iff q1 delta s1(2) unat_0 by (rule sdiv_exit [OF nc(1)])
  have step: "sdiv_loop abs_d nc p qr1 qr2 =
    (if 2 ^ Suc p \<le> unat nc * \<delta> then sdiv_loop abs_d nc (Suc p) s1 s2 else Some (Suc p, fst s2))"
    by (subst sdiv_loop.simps) (simp add: Let_def guard [unfolded s1_def s2_def] s1_def s2_def)
  show ?case
  proof (cases "2 ^ Suc p \<le> unat nc * \<delta>")
    case False
    then show ?thesis using step s2(1) by (intro exI [of _ "Suc p"]) (simp add: \<delta>_def)
  next
    case True
    have "\<delta> \<le> unat abs_d" by (simp add: \<delta>_def)
    have "2 ^ Suc p \<le> unat nc * unat abs_d"
      using True mult_le_mono2 [OF \<open>\<delta> \<le> unat abs_d\<close>, of "unat nc"] by linarith
    with B have "(2::nat) ^ Suc p \<le> 2 ^ B" by linarith
    then have "Suc p \<le> B" by (rule power_le_imp_le_exp [rotated]) simp
    then have dec: "Suc B - Suc p < Suc B - p" by simp
    have "2 ^ Suc p div unat nc \<le> \<delta>" using sdiv_exit [OF nc(1), of "2 ^ Suc p" \<delta>] True by linarith
    then have "2 ^ Suc p div unat nc < 2 ^ 63" using \<open>\<delta> \<le> unat abs_d\<close> d(2) by linarith
    from less.hyps [OF dec s1(2,1) this s2(2,1)] obtain p' where p': "Suc p < p'"
      "sdiv_loop abs_d nc (Suc p) s1 s2 = Some (p', of_nat (2 ^ p' div unat abs_d))"
      "unat nc * (unat abs_d - 2 ^ p' mod unat abs_d) < 2 ^ p'"
      "p' = Suc (Suc p) \<or> 2 ^ (p' - 1) \<le> unat nc * (unat abs_d - 2 ^ (p' - 1) mod unat abs_d)" by blast
    moreover have "2 ^ (p' - 1) \<le> unat nc * (unat abs_d - 2 ^ (p' - 1) mod unat abs_d)"
      using p'(4) True by (auto simp: \<delta>_def)
    ultimately show ?thesis using True step by (intro exI [of _ p']) simp
  qed
qed

text \<open>The multiplier fits in the word, and is not the most negative number after sign extension.\<close>

lemma test_numer_bounds:
  fixes d t :: nat
  assumes "2 \<le> d" "d \<le> t"
  shows "d \<le> Suc (t - 1 - t mod d)" "Suc (t - 1 - t mod d) + t mod d = t"
    "t mod d < d" "d dvd Suc (t - 1 - t mod d)"
proof -
  show r: "t mod d < d" using assms(1) by simp
  have "d * 1 \<le> d * (t div d)" using assms by (intro mult_le_mono2) (simp add: div_greater_zero_iff Suc_leI)
  moreover have t: "d * (t div d) + t mod d = t" by simp
  ultimately have nc: "Suc (t - 1 - t mod d) = d * (t div d)" using assms(1) by linarith
  show "d \<le> Suc (t - 1 - t mod d)" "Suc (t - 1 - t mod d) + t mod d = t" "d dvd Suc (t - 1 - t mod d)"
    unfolding nc using \<open>d * 1 \<le> d * (t div d)\<close> t by simp_all
qed

lemma warren_fits:
  fixes d t p :: nat
  assumes "2 \<le> d" "d \<le> 2 ^ V" "t = 2 ^ V \<or> t = 2 ^ V + 1"
    and exit: "p = Suc V \<or> 2 ^ (p - 1) \<le> (t - 1 - t mod d) * (d - 2 ^ (p - 1) mod d)" "Suc V \<le> p"
  shows "2 ^ p div d + 1 < (2::nat) ^ Suc V"
  using exit(1)
proof
  assume p: "p = Suc V"
  have "V \<noteq> 0" using assms(1,2) by (cases V) auto
  then have V: "(2::nat) \<le> 2 ^ V" using power_increasing [of 1 V "2::nat"] by simp
  have "(2::nat) ^ p div d \<le> 2 ^ p div 2" using assms(1) by (intro div_le_mono2) simp_all
  with p V show ?thesis by simp
next
  define nc where "nc = t - 1 - t mod d"
  define \<delta> where "\<delta> = d - 2 ^ (p - 1) mod d"
  assume "2 ^ (p - 1) \<le> (t - 1 - t mod d) * (d - 2 ^ (p - 1) mod d)"
  then have le: "2 ^ (p - 1) \<le> nc * \<delta>" by (simp only: nc_def \<delta>_def)
  have p2: "(2::nat) ^ p = 2 * 2 ^ (p - 1)" using exit(2) by (cases p) simp_all
  have dt: "d \<le> t" using assms(2,3) by linarith
  note nc = test_numer_bounds [OF assms(1) dt, folded nc_def]
  have "\<delta> \<le> d" by (simp add: \<delta>_def)
  have "2 ^ p + d < 2 ^ Suc V * d"
  proof (cases "nc < 2 ^ V")
    case True
    have "nc * \<delta> \<le> (2 ^ V - 1) * d" using True \<open>\<delta> \<le> d\<close> by (intro mult_le_mono) simp_all
    also have "\<dots> = 2 ^ V * d - d" by (simp add: diff_mult_distrib)
    finally have "2 ^ (p - 1) + d \<le> 2 ^ V * d" using le by (simp add: le_diff_conv2)
    with p2 assms(1) show ?thesis by simp
  next
    case False
    then have t: "t = 2 ^ V + 1" "t mod d = 0" using nc(2) assms(3) by linarith+
    then have "d dvd 2 ^ V + 1" by (simp add: mod_eq_0_iff_dvd)
    have "V \<noteq> 0" using assms(1,2) by (cases V) auto
    have "odd d"
    proof
      assume "even d"
      with \<open>d dvd 2 ^ V + 1\<close> have "even ((2::nat) ^ V + 1)" using dvd_trans by blast
      with \<open>V \<noteq> 0\<close> show False by simp
    qed
    have "2 ^ (p - 1) mod d \<noteq> 0"
    proof
      assume "2 ^ (p - 1) mod d = 0"
      then obtain j where "d = 2 ^ j" using dvd_power_of_two by (auto simp: mod_eq_0_iff_dvd)
      with \<open>odd d\<close> assms(1) show False by (cases j) simp_all
    qed
    then have "\<delta> \<le> d - 1" using assms(1) by (simp add: \<delta>_def)
    moreover have "nc \<le> 2 ^ V" using nc(2) t by simp
    ultimately have "nc * \<delta> \<le> 2 ^ V * (d - 1)" by (intro mult_le_mono)
    then have "2 ^ (p - 1) + 2 ^ V \<le> 2 ^ V * d" using le assms(1) by (simp add: diff_mult_distrib2 le_diff_conv2)
    moreover have "2 ^ Suc V * d = 2 * (2 ^ V * d)" "(0::nat) < 2 ^ V" by simp_all
    ultimately show ?thesis using p2 assms(2) by linarith
  qed
  moreover have "(2 ^ p div d + 1) * d \<le> 2 ^ p + d" using magic_product [of d "2 ^ p"] assms(1) by simp
  ultimately have "(2 ^ p div d + 1) * d < 2 ^ Suc V * d" by linarith
  then show ?thesis using mult_less_cancel2 by blast
qed

lemma warren_not_min:
  fixes d p :: nat
  assumes "2 \<le> d" "d < 2 ^ V" "Suc V \<le> p"
  shows "2 ^ p div d + 1 \<noteq> (2::nat) ^ V"
proof
  define \<delta> where "\<delta> = d - 2 ^ p mod d"
  assume "2 ^ p div d + 1 = (2::nat) ^ V"
  then have "2 ^ V * d = 2 ^ p + \<delta>" using magic_product [of d "2 ^ p"] assms(1) by (simp add: \<delta>_def)
  moreover have "(2::nat) ^ V dvd 2 ^ p" using assms(3) by (simp add: le_imp_power_dvd)
  ultimately have "2 ^ V dvd \<delta>" by (metis dvd_add_right_iff dvd_triv_left)
  moreover have "0 < \<delta>" "\<delta> \<le> d" using assms(1) by (simp_all add: \<delta>_def)
  ultimately show False using assms(2) by (meson dvd_imp_le le_trans not_le)
qed

text \<open>The one numerator the test numerator does not cover: \<open>- 2 ^ V\<close> with a positive divisor.\<close>

lemma warren_extreme:
  fixes d p :: nat
  assumes "2 \<le> d" "d \<le> 2 ^ V" "V \<le> p"
    and "(2 ^ V - 1 - 2 ^ V mod d) * (d - 2 ^ p mod d) < 2 ^ p"
  shows "2 ^ V * (d - 2 ^ p mod d) \<le> (d - 2 ^ V mod d) * 2 ^ p"
proof -
  define nc where "nc = 2 ^ V - 1 - 2 ^ V mod d"
  define \<delta> where "\<delta> = d - 2 ^ p mod d"
  note nc = test_numer_bounds [OF assms(1,2), folded nc_def]
  have lt: "nc * \<delta> < 2 ^ p" using assms(4) by (simp only: nc_def \<delta>_def)
  have pos: "0 < \<delta>" "\<delta> \<le> d" using assms(1) by (simp_all add: \<delta>_def)
  have "2 ^ V * \<delta> \<le> (d - 2 ^ V mod d) * 2 ^ p"
  proof (cases "Suc (2 ^ V mod d) = d")
    case False
    then have "2 \<le> d - 2 ^ V mod d" "2 ^ V \<le> 2 * nc" using nc(1-3) by linarith+
    then have "2 ^ V * \<delta> \<le> 2 * (nc * \<delta>)" by (metis mult.assoc mult_le_mono1)
    also have "\<dots> \<le> 2 * 2 ^ p" using lt by simp
    also have "\<dots> \<le> (d - 2 ^ V mod d) * 2 ^ p"
      using \<open>2 \<le> d - 2 ^ V mod d\<close> by (rule mult_le_mono1)
    finally show ?thesis .
  next
    case True
    define j where "j = p - V"
    have p: "(2::nat) ^ p = 2 ^ V * 2 ^ j" using assms(3) by (simp add: j_def flip: power_add)
    have "d dvd 2 ^ V + 1"
    proof -
      have "2 ^ V + 1 = Suc nc + d" using nc(2) True by linarith
      then show ?thesis using nc(4) by (metis dvd_add dvd_refl)
    qed
    then have "d dvd (2 ^ V + 1) * 2 ^ j" by (rule dvd_mult2)
    then have dj: "d dvd 2 ^ p + 2 ^ j" by (metis distrib_right mult_1 p)
    have d\<delta>: "d dvd 2 ^ p + \<delta>"
      using magic_product [of d "2 ^ p"] assms(1) by (metis \<delta>_def dvd_triv_right gr0I not_numeral_le_zero)
    have "\<delta> \<le> 2 ^ j"
    proof (rule ccontr)
      assume less: "\<not> \<delta> \<le> 2 ^ j"
      from dvd_diff_nat [OF d\<delta> dj] have "d dvd \<delta> - 2 ^ j" by simp
      moreover have "0 < \<delta> - 2 ^ j" "\<delta> - 2 ^ j < d" using less pos zero_less_power [of "2::nat" j] by linarith+
      ultimately show False using nat_dvd_not_less by blast
    qed
    then have "2 ^ V * \<delta> \<le> 2 ^ p" unfolding p by (rule mult_le_mono2)
    moreover have "d - 2 ^ V mod d = 1" using True by linarith
    ultimately show ?thesis by simp
  qed
  then show ?thesis by (simp only: \<delta>_def)
qed

subsection \<open>Correctness of the signed sequence\<close>

lemma sint_sign_extend:
  assumes "m < 2 ^ Suc V" "Suc V \<le> 64"
  shows "sint (sign_extend (of_nat m) (Suc V)) = (if m < 2 ^ V then int m else int m - 2 ^ Suc V)"
proof -
  have "sint (sign_extend (of_nat m) (Suc V)) = signed_take_bit V (int m)"
  proof (rule bit_eqI)
    fix n
    have b: "bit (sint w) n = bit w (if n < 63 then n else 63)" for w :: u64 and n
      by (cases "n = 63") (auto simp: bit_sint_iff dest: bit_imp_le_length)
    show "bit (sint (sign_extend (of_nat m) (Suc V))) n = bit (signed_take_bit V (int m)) n"
      using assms(2)
      by (cases "n = V"; cases "V = 63") (auto simp: b sign_extend_def bit_signed_drop_bit_iff bit_push_bit_iff bit_of_nat_iff
          bit_signed_take_bit_iff min_def not_less)
  qed
  also have "\<dots> = (int m + 2 ^ V) mod 2 ^ Suc V - 2 ^ V"
    by (simp only: signed_take_bit_eq_take_bit_shift take_bit_eq_mod)
  also have "(int m + 2 ^ V) mod 2 ^ Suc V = (if m < 2 ^ V then int m + 2 ^ V else int m - 2 ^ V)"
  proof (cases "m < 2 ^ V")
    case True
    then have "int m < 2 ^ V" by (metis of_nat_less_iff of_nat_numeral of_nat_power)
    with True show ?thesis by simp
  next
    case False
    have "int m < 2 ^ Suc V" using assms(1) by (metis of_nat_less_iff of_nat_numeral of_nat_power)
    moreover have "2 ^ V \<le> int m" using False by (metis not_less of_nat_le_iff of_nat_numeral of_nat_power)
    ultimately show ?thesis using False by (subst mod_pos_geq) simp_all
  qed
  finally show ?thesis by simp
qed

text \<open>The sequence is one floor division by the power of two, corrected to round towards zero.\<close>

lemma int_div_power_add: "(x::int) div 2 ^ a div 2 ^ b = x div 2 ^ (a + b)"
  by (simp add: zdiv_zmult2_eq power_add)

definition round_to_zero :: "int \<Rightarrow> int" where
  "round_to_zero r = r + (if r < 0 then 1 else 0)"

lemma sdiv_sequence_pos:
  fixes n :: int
  assumes "0 < d" "sint (smultiplier info) = (if m < 2 ^ V then int m else int m - 2 ^ Suc V)" "m < 2 ^ Suc V"
  shows "sdiv_sequence (Suc V) d info n = round_to_zero (int m * n div 2 ^ (Suc V + sshift info))"
proof (cases "m < 2 ^ V")
  case True
  with assms(2) have s: "sint (smultiplier info) = int m" by simp
  have "\<not> int m < 0" "\<not> d < 0" using assms(1) by simp_all
  then show ?thesis
    unfolding sdiv_sequence_def Let_def s round_to_zero_def
    by (simp only: int_div_power_add simp_thms if_False)
next
  case False
  with assms(2) have s: "sint (smultiplier info) = int m - 2 ^ Suc V" by simp
  have "int m < 2 ^ Suc V" using assms(3) by (metis of_nat_less_iff of_nat_numeral of_nat_power)
  then have neg: "int m - 2 ^ Suc V < 0" "\<not> 0 < int m - 2 ^ Suc V" by linarith+
  have eq: "int m * n = (int m - 2 ^ Suc V) * n + n * 2 ^ Suc V" by (simp add: algebra_simps)
  have "(int m - 2 ^ Suc V) * n div 2 ^ Suc V + n = int m * n div 2 ^ Suc V"
    unfolding eq by (subst div_mult_self1) simp_all
  then show ?thesis using assms(1) neg
    unfolding sdiv_sequence_def Let_def s round_to_zero_def
    by (simp only: int_div_power_add simp_thms if_True if_False)
qed

lemma sdiv_sequence_neg:
  fixes n :: int
  assumes "d < 0" "sint (smultiplier info) = - (if m < 2 ^ V then int m else int m - 2 ^ Suc V)" "m < 2 ^ Suc V"
  shows "sdiv_sequence (Suc V) d info n = round_to_zero (- (int m * n) div 2 ^ (Suc V + sshift info))"
proof (cases "m < 2 ^ V")
  case True
  with assms(2) have s: "sint (smultiplier info) = - int m" by simp
  have "\<not> 0 < - int m" "\<not> 0 < d" using assms(1) by simp_all
  then show ?thesis
    unfolding sdiv_sequence_def Let_def s round_to_zero_def
    by (simp only: int_div_power_add simp_thms if_False mult_minus_left)
next
  case False
  with assms(2) have s: "sint (smultiplier info) = 2 ^ Suc V - int m" by simp
  have "int m < 2 ^ Suc V" using assms(3) by (metis of_nat_less_iff of_nat_numeral of_nat_power)
  then have pos: "0 < 2 ^ Suc V - int m" by linarith
  have d: "\<not> 0 < d" using assms(1) by simp
  have eq: "(2 ^ Suc V - int m) * n = - (int m * n) + n * 2 ^ Suc V" by (simp add: algebra_simps)
  have "(2 ^ Suc V - int m) * n div 2 ^ Suc V - n = - (int m * n) div 2 ^ Suc V"
    unfolding eq by (subst div_mult_self1) simp_all
  then show ?thesis using assms(1) pos d
    unfolding sdiv_sequence_def Let_def s round_to_zero_def
    by (simp only: int_div_power_add simp_thms if_True if_False)
qed

lemma floor_pos:
  assumes "k * m div P = (q::nat)"
  shows "round_to_zero (int k * int m div int P) = int q"
  using assms by (simp add: round_to_zero_def flip: of_nat_mult zdiv_int)

lemma floor_neg:
  assumes "P * q < k * m" "k * m \<le> P * Suc q" "0 < (P::nat)"
  shows "round_to_zero (- (int k * int m) div int P) = - int q"
proof -
  have "- (int k * int m) div int P = - int q - 1"
  proof (rule int_div_pos_eq)
    show "- (int k * int m) = int P * (- int q - 1) + int (P * Suc q - k * m)"
      using assms(2) by (simp add: of_nat_diff algebra_simps)
    have "P * Suc q - k * m < P" using assms by simp
    then show "int (P * Suc q - k * m) < int P" by simp
  qed simp
  then show ?thesis by (simp add: round_to_zero_def)
qed

text \<open>The loop started from the test numerator of the divisor.\<close>

lemma sdiv_loop_start:
  fixes abs_d tmp :: u64
  assumes d: "2 \<le> unat abs_d" "unat abs_d \<le> 2 ^ V" "unat abs_d < 2 ^ 63" and V: "V \<le> 63"
    and t: "unat tmp = 2 ^ V \<or> unat tmp = 2 ^ V + 1"
  defines "nc \<equiv> tmp - 1 - tmp mod abs_d"
  defines "nc' \<equiv> unat tmp - 1 - unat tmp mod unat abs_d"
  shows "\<exists>p>V. sdiv_loop abs_d nc V (push_bit V 1 div nc, push_bit V 1 mod nc)
      (push_bit V 1 div abs_d, push_bit V 1 mod abs_d) = Some (p, of_nat (2 ^ p div unat abs_d)) \<and>
    nc' * (unat abs_d - 2 ^ p mod unat abs_d) < 2 ^ p \<and>
    (p = Suc V \<or> 2 ^ (p - 1) \<le> nc' * (unat abs_d - 2 ^ (p - 1) mod unat abs_d))"
proof -
  have "unat abs_d \<le> unat tmp" using d(2) t by linarith
  note b = test_numer_bounds [OF d(1) this, folded nc'_def]
  have tpos: "0 < unat tmp" using t by auto
  then have t1: "unat (tmp - 1) = unat tmp - 1" by (subst unat_sub_no_wrap) simp_all
  have m: "unat (tmp mod abs_d) = unat tmp mod unat abs_d" by (rule unat_mod)
  have "unat (tmp mod abs_d) \<le> unat (tmp - 1)" using b(2) unfolding t1 m by linarith
  then have nc: "unat nc = nc'" unfolding nc_def nc'_def by (simp only: unat_sub_no_wrap t1 m)
  have pow: "unat (push_bit V (1::u64)) = 2 ^ V" using V by (simp add: push_bit_eq_mult)
  have "(2::nat) ^ V \<le> 2 ^ 63" using V by (intro power_increasing) simp_all
  have nc0: "0 < nc'" using b(1) d(1) by linarith
  have "nc' \<le> 2 ^ V" using b(2) t by linarith
  have q: "2 ^ V div nc' < 2 ^ 63"
  proof (cases "V = 63")
    case True
    have "2 ^ V \<le> 2 * nc' + 1" using b t by linarith
    moreover have "(2::nat) ^ 2 \<le> 2 ^ V" unfolding True by (intro power_increasing) simp_all
    ultimately have "2 \<le> nc'" by simp
    then have "2 ^ V div nc' \<le> 2 ^ V div 2" by (rule div_le_mono2 [rotated]) simp
    also have "\<dots> < 2 ^ V" by (rule div_less_dividend) simp_all
    finally show ?thesis unfolding True .
  next
    case False
    then have "(2::nat) ^ V < 2 ^ 63" using V by (intro power_strict_increasing) simp_all
    then show ?thesis by (rule le_less_trans [OF div_le_dividend])
  qed
  have B: "unat nc * unat abs_d \<le> 2 ^ (V + V)"
    unfolding nc power_add using \<open>nc' \<le> 2 ^ V\<close> d(2) by (rule mult_le_mono)
  have qr: "push_bit V 1 div w = of_nat (2 ^ V div unat w)" "unat (push_bit V 1 mod w) = 2 ^ V mod unat w"
    for w :: u64 by (simp_all only: word_div_of_nat unat_mod pow)
  have "0 < unat nc" "unat nc \<le> 2 ^ 63" "0 < unat abs_d"
    using nc nc0 \<open>nc' \<le> 2 ^ V\<close> \<open>(2::nat) ^ V \<le> 2 ^ 63\<close> d(1) by linarith+
  moreover have "2 ^ V div unat nc < 2 ^ 63" using q nc by simp
  ultimately have pre: "0 < unat nc" "unat nc \<le> 2 ^ 63" "0 < unat abs_d" "2 ^ V div unat nc < 2 ^ 63" .
  have qr': "unat (snd (push_bit V 1 div w, push_bit V 1 mod w)) = 2 ^ V mod unat w"
    "fst (push_bit V 1 div w, push_bit V 1 mod w) = of_nat (2 ^ V div unat w)" for w :: u64
    by (simp_all only: fst_conv snd_conv qr)
  show ?thesis unfolding nc [symmetric]
    by (rule sdiv_loop_spec [OF pre(1-3) d(3) B qr' pre(4) qr'])
qed

lemma warren_pos:
  fixes d t k p :: nat
  assumes "2 \<le> d" "d \<le> t" "(t - 1 - t mod d) * (d - 2 ^ p mod d) < 2 ^ p" "k < t"
  shows "round_to_zero (int k * int (2 ^ p div d + 1) div int (2 ^ p)) = int (k div d)"
proof (rule floor_pos, rule div_nat_eqI)
  note lt = warren_numerator [OF assms]
  show "2 ^ p * (k div d) \<le> k * (2 ^ p div d + 1)" "k * (2 ^ p div d + 1) < 2 ^ p * Suc (k div d)"
    using magic_product_le(2,3) [OF _ less_imp_le [OF lt]] lt assms(1) by simp_all
qed

lemma warren_neg:
  fixes d t k p :: nat
  assumes "2 \<le> d" "d \<le> t" "(t - 1 - t mod d) * (d - 2 ^ p mod d) < 2 ^ p"
    and "0 < k" "k < t \<or> k = 2 ^ V \<and> t = 2 ^ V \<and> V \<le> p"
  shows "round_to_zero (- (int k * int (2 ^ p div d + 1)) div int (2 ^ p)) = - int (k div d)"
proof (rule floor_neg)
  have le: "k * (d - 2 ^ p mod d) \<le> (d - k mod d) * 2 ^ p"
    using assms(5)
  proof
    assume "k < t"
    then show ?thesis by (rule less_imp_le [OF warren_numerator [OF assms(1-3)]])
  next
    assume "k = 2 ^ V \<and> t = 2 ^ V \<and> V \<le> p"
    with warren_extreme [of d V p] assms(1-3) show ?thesis by simp
  qed
  show "2 ^ p * (k div d) < k * (2 ^ p div d + 1)" "k * (2 ^ p div d + 1) \<le> 2 ^ p * Suc (k div d)"
    using magic_product_le(1,4) [OF _ le] assms(1,4) by simp_all
qed simp

text \<open>Absolute value and negation of an \<^verbatim>\<open>int64_t\<close>.\<close>

lemma sint_unat: "sint (w :: u64) = (if unat w < 2 ^ 63 then int (unat w) else int (unat w) - 2 ^ 64)"
proof -
  have "sign_extend w 64 = w" by (rule bit_word_eqI) (simp add: sign_extend_def bit_signed_drop_bit_iff)
  with sint_sign_extend [of "unat w" 63] unat_lt2p [of w] show ?thesis by simp
qed

lemma unat_uminus: "(w :: u64) \<noteq> 0 \<Longrightarrow> unat (- w) = 2 ^ 64 - unat w"
proof -
  assume "w \<noteq> 0"
  then have pos: "0 < unat w" by (simp add: unat_gt_0)
  have "(unat (- w) + unat w) mod 2 ^ 64 = 0"
    using unat_of_nat [where 'a = 64, of "unat (- w) + unat w"] by simp
  then obtain c where c: "unat (- w) + unat w = 2 ^ 64 * c" by (auto simp: mod_eq_0_iff_dvd)
  have "unat (- w) + unat w < 2 ^ 64 * 2" using unat_lt2p [of w] unat_lt2p [of "- w"] by simp
  with c have "c < 2" by simp
  moreover have "c \<noteq> 0" using c pos by (cases c) simp_all
  ultimately have "c = 1" by simp
  with c show ?thesis by simp
qed

lemma sint_neg_int64: "neg_int64 x = Some y \<Longrightarrow> sint y = - sint x"
proof -
  assume y: "neg_int64 x = Some y"
  then have "x \<noteq> push_bit 63 1" "y = - x" by (auto simp: neg_int64_def split: if_splits)
  then have "unat x \<noteq> 2 ^ 63" by (auto simp: word_unat_eq_iff)
  then show ?thesis using \<open>y = - x\<close> unat_lt2p [of x] unat_uminus [of x]
    by (cases "x = 0") (auto simp: sint_unat of_nat_diff)
qed

lemma neg_int64_defined: "neg_int64 x \<noteq> None \<longleftrightarrow> sint x \<noteq> - (2 ^ 63)"
proof -
  have "neg_int64 x = None \<longleftrightarrow> unat x = 2 ^ 63" by (auto simp: neg_int64_def word_unat_eq_iff)
  also have "\<dots> \<longleftrightarrow> sint x = - (2 ^ 63)" using unat_lt2p [of x] by (auto simp: sint_unat simp del: of_nat_unat)
  finally show ?thesis by simp
qed

lemma abs_int64:
  assumes "sint D \<noteq> - (2 ^ 63)"
  shows "\<exists>w. (if D <s 0 then neg_int64 D else Some D) = Some w \<and> int (unat w) = \<bar>sint D\<bar>"
proof (cases "D <s 0")
  case True
  then obtain w where w: "neg_int64 D = Some w" using assms neg_int64_defined by auto
  have "0 < sint w" using sint_neg_int64 [OF w] True by (simp add: word_sless_alt)
  then have "sint w = int (unat w)" using unat_lt2p [of w] by (auto simp: sint_unat simp del: of_nat_unat split: if_splits)
  with w True sint_neg_int64 [OF w] show ?thesis by (simp add: word_sless_alt)
next
  case False
  then have "0 \<le> sint D" by (simp add: word_sless_alt)
  then have "sint D = int (unat D)" using unat_lt2p [of D] by (auto simp: sint_unat simp del: of_nat_unat split: if_splits)
  with False \<open>0 \<le> sint D\<close> show ?thesis by simp
qed

lemma sint_nontrivial:
  fixes D :: u64
  assumes "D \<noteq> 0" "D \<noteq> 1" "D \<noteq> -1"
  shows "2 \<le> \<bar>sint D\<bar>"
proof (rule ccontr)
  assume "\<not> ?thesis"
  then have "sint D = sint (0::u64) \<or> sint D = sint (1::u64) \<or> sint D = sint (-1::u64)" by simp linarith
  with assms show False by (metis signed_word_eqI)
qed

lemma sign_extend_not_min:
  assumes "V \<le> 63" "m < 2 ^ Suc V" "(if m < 2 ^ V then int m else int m - 2 ^ Suc V) = - (2 ^ 63)"
  shows "V = 63" "m = 2 ^ 63"
proof -
  have ge: "\<not> m < 2 ^ V" "int m = 2 ^ Suc V - 2 ^ 63" using assms(3) by (auto split: if_splits)
  then have "int (2 ^ V) \<le> 2 ^ Suc V - 2 ^ 63" by (metis not_less of_nat_le_iff)
  then have "(2::int) ^ 63 \<le> 2 ^ V" by simp
  then have "63 \<le> V" by (rule power_le_imp_le_exp [rotated]) simp
  with assms(1) show "V = 63" by simp
  with ge(2) show "m = 2 ^ 63" by simp
qed

lemma sdiv_int_sign:
  fixes n di :: int
  assumes "\<bar>di\<bar> = int d" "\<bar>n\<bar> = int k" "0 < d"
  shows "n sdiv di = (if n < 0 \<longleftrightarrow> di < 0 then int (k div d) else - int (k div d))"
  using assms by (auto simp: signed_divide_int_def sgn_if zdiv_int)

lemma sdiv_sequence_correct:
  fixes n di :: int
  assumes d: "2 \<le> d" "d \<le> 2 ^ V" "\<bar>di\<bar> = int d"
    and t: "t = (if di < 0 then 2 ^ V + 1 else 2 ^ V)"
    and exit: "(t - 1 - t mod d) * (d - 2 ^ p mod d) < 2 ^ p" "Suc V \<le> p"
    and m: "m = 2 ^ p div d + 1" "m < 2 ^ Suc V"
    and info: "sint (smultiplier info) =
      (if di < 0 then - (if m < 2 ^ V then int m else int m - 2 ^ Suc V)
       else (if m < 2 ^ V then int m else int m - 2 ^ Suc V))" "sshift info = p - Suc V"
    and n: "- (2 ^ V) \<le> n" "n < 2 ^ V"
  shows "sdiv_sequence (Suc V) di info n = n sdiv di"
proof -
  define k where "k = nat \<bar>n\<bar>"
  have k: "\<bar>n\<bar> = int k" by (simp add: k_def)
  have dt: "d \<le> t" using d(2) t by simp
  have p: "Suc V + sshift info = p" using exit(2) info(2) by simp
  have P: "(2::int) ^ p = int (2 ^ p)" by simp
  have "int k \<le> 2 ^ V" using n k by linarith
  then have kV: "k \<le> 2 ^ V" by (metis of_nat_le_iff of_nat_numeral of_nat_power)
  have d0: "0 < d" using d(1) by simp
  note sd = sdiv_int_sign [OF d(3) k d0]
  note pos = warren_pos [OF d(1) dt exit(1), folded m(1)]
  note neg = warren_neg [OF d(1) dt exit(1), of k V, folded m(1)]
  show ?thesis
  proof (cases "di < 0")
    case True
    then have seq: "sdiv_sequence (Suc V) di info n = round_to_zero (- (int m * n) div int (2 ^ p))"
      using sdiv_sequence_neg [OF True _ m(2), of info n, unfolded p] info(1) by simp
    have kt: "k < t" using kV t True by simp
    show ?thesis
    proof (cases "0 < n")
      case True
      then have "n = int k" "0 < k" using k by simp_all
      then show ?thesis using seq neg kt sd \<open>di < 0\<close> by (simp add: mult.commute)
    next
      case False
      then have "n = - int k" using k by simp
      then show ?thesis using seq pos [OF kt] kt sd \<open>di < 0\<close> by (cases "k = 0") (simp_all add: mult.commute)
    qed
  next
    case False
    then have "0 < di" using d(1,3) by simp
    then have seq: "sdiv_sequence (Suc V) di info n = round_to_zero (int m * n div int (2 ^ p))"
      using sdiv_sequence_pos [OF _ _ m(2), of di info n, unfolded p] info(1) False by simp
    have t': "t = 2 ^ V" using t False by simp
    show ?thesis
    proof (cases "n < 0")
      case True
      then have "n = - int k" "0 < k" using k by simp_all
      moreover have "k < t \<or> k = 2 ^ V \<and> t = 2 ^ V \<and> V \<le> p" using kV t' exit(2) by auto
      ultimately show ?thesis using seq neg sd False by (simp add: mult.commute)
    next
      case nn: False
      then have nk: "n = int k" using k by simp
      have "int k < int (2 ^ V)" using n(2) nk by simp
      then have "k < t" unfolding t' by (simp only: of_nat_less_iff)
      then show ?thesis using seq pos sd False nk by (simp add: mult.commute)
    qed
  qed
qed

lemma compute_sdiv_correct:
  assumes V: "V \<le> 63" and D: "- (2 ^ V) \<le> sint D" "sint D < 2 ^ V"
    and nz: "D \<noteq> 0" "D \<noteq> 1" "D \<noteq> -1" and min: "sint D \<noteq> - (2 ^ 63)"
  shows "\<exists>info. util_compute_fast_sdiv_info D (Suc V) = Some info \<and>
    (\<forall>n. - (2 ^ V) \<le> n \<longrightarrow> n < 2 ^ V \<longrightarrow> sdiv_sequence (Suc V) (sint D) info n = n sdiv sint D)"
proof -
  obtain abs_d where abs_d: "(if D <s 0 then neg_int64 D else Some D) = Some abs_d"
    and abs: "int (unat abs_d) = \<bar>sint D\<bar>" using abs_int64 [OF min] by blast
  define d where "d = unat abs_d"
  have s0: "D <s 0 \<longleftrightarrow> sint D < 0" by (simp add: word_sless_alt)
  have d2: "2 \<le> d" using sint_nontrivial [OF nz] abs by (simp add: d_def del: of_nat_unat)
  have "int d \<le> int (2 ^ V)" using D abs by (simp add: d_def del: of_nat_unat)
  then have dV: "d \<le> 2 ^ V" by (simp only: of_nat_le_iff)
  have d63: "d < 2 ^ 63"
    using abs min sint_unat [of D] unat_lt2p [of D] by (auto simp: d_def simp del: of_nat_unat split: if_splits)
  define tmp :: u64 where "tmp = push_bit V 1 + (if D <s 0 then 1 else 0)"
  define t where "t = (if sint D < 0 then 2 ^ V + 1 else 2 ^ V :: nat)"
  have "(2::nat) ^ V \<le> 2 ^ 63" using V by (intro power_increasing) simp_all
  then have tmp: "unat tmp = t"
    using V s0 by (auto simp: tmp_def t_def push_bit_eq_mult unat_add_no_wrap)
  have tt: "t = 2 ^ V \<or> t = 2 ^ V + 1" by (simp add: t_def)
  obtain p where p: "V < p"
    and loop: "sdiv_loop abs_d (tmp - 1 - tmp mod abs_d) V
      (push_bit V 1 div (tmp - 1 - tmp mod abs_d), push_bit V 1 mod (tmp - 1 - tmp mod abs_d))
      (push_bit V 1 div abs_d, push_bit V 1 mod abs_d) = Some (p, of_nat (2 ^ p div d))"
    and exit: "(t - 1 - t mod d) * (d - 2 ^ p mod d) < 2 ^ p"
      "p = Suc V \<or> 2 ^ (p - 1) \<le> (t - 1 - t mod d) * (d - 2 ^ (p - 1) mod d)"
    using sdiv_loop_start [of abs_d V tmp, folded d_def, unfolded tmp, OF d2 dV d63 V tt] by blast
  define m where "m = 2 ^ p div d + 1"
  have m: "m < 2 ^ Suc V" unfolding m_def using warren_fits [OF d2 dV _ exit(2)] p by (simp add: t_def)
  have mult: "of_nat (2 ^ p div d) + 1 = (of_nat m :: u64)" by (simp add: m_def)
  define M where "M = sign_extend (of_nat m) (Suc V)"
  have sM: "sint M = (if m < 2 ^ V then int m else int m - 2 ^ Suc V)"
    unfolding M_def using sint_sign_extend [OF m] V by simp
  have "neg_int64 M \<noteq> None" unfolding neg_int64_defined
    using sign_extend_not_min [OF V m] warren_not_min [OF d2, of V p] d63 p sM by (auto simp: m_def)
  then obtain nM where nM: "neg_int64 M = Some nM" by blast
  define info where "info = \<lparr>smultiplier = (if D <s 0 then nM else M), sshift = p - Suc V\<rparr>"
  have run: "util_compute_fast_sdiv_info D (Suc V) = Some info"
    using nz abs_d loop nM
    unfolding util_compute_fast_sdiv_info_def info_def M_def tmp_def mult [symmetric] by (simp add: Let_def)
  have "sdiv_sequence (Suc V) (sint D) info n = n sdiv sint D" if "- (2 ^ V) \<le> n" "n < 2 ^ V" for n
    using sdiv_sequence_correct [OF d2 dV _ t_def exit(1) _ m_def m _ _ that, of info] abs p sM s0
      sint_neg_int64 [OF nM] by (simp add: info_def d_def del: of_nat_unat)
  with run show ?thesis by blast
qed

text \<open>With one spare bit, every divisor above one takes a path without pre-shift and increment.\<close>

lemma compute_udiv_31:
  fixes D :: u64
  assumes "1 < unat D" "unat D < 2 ^ 32"
  shows "\<exists>info. util_compute_fast_udiv_info D 31 32 = Some info \<and> udiv_correct 32 31 (unat D) info \<and>
    pre_shift info = 0 \<and> increment info = 0"
proof (cases "util_is_power_of_two_or_zero64 D")
  case False
  then show ?thesis using assms by (intro compute_udiv_up) simp_all
next
  case True
  have nz: "D \<noteq> 0" using assms(1) by auto
  then obtain s where s: "s < 64" "D = 2 ^ s" using True by (auto simp: util_is_power_of_two_or_zero64_iff)
  then have d: "unat D = 2 ^ s" by simp
  then have log: "util_logbase2_64 D = s" by (intro util_logbase2_64_eq) (simp add: floor_log2_def)
  have "s \<noteq> 0" using d assms(1) by (cases s) simp_all
  then obtain info where "util_compute_fast_udiv_info D 31 32 = Some info" "pre_shift info = 0" "increment info = 0"
    using True nz log by (subst (asm) util_compute_fast_udiv_info.simps) (simp add: Let_def)
  moreover obtain info' where "util_compute_fast_udiv_info D 31 32 = Some info'" "udiv_correct 32 31 (unat D) info'"
    using compute_udiv_power_of_two [OF True nz, of 31 32] assms(2) by auto
  ultimately show ?thesis by simp
qed

section \<open>Properties\<close>

text \<open>
  C26: for every divisor and every numerator width the unsigned magic numbers exist (no assertion
  fails, the recursive call for even divisors included), the emitted sequence computes the
  quotient of every numerator of that width, and the two invariants of the header hold: one of
  \<^verbatim>\<open>pre_shift\<close> and \<^verbatim>\<open>increment\<close> is zero and the multiplier is not.
\<close>

theorem util_compute_fast_udiv_info_correct:
  assumes "D \<noteq> 0" "0 < num_bits" "num_bits \<le> UINT_BITS" "UINT_BITS \<le> 64" "unat D < 2 ^ UINT_BITS"
  shows "\<exists>info. util_compute_fast_udiv_info D num_bits UINT_BITS = Some info \<and>
    (\<forall>n. n < 2 ^ num_bits \<longrightarrow> udiv_sequence UINT_BITS info n = n div unat D) \<and>
    (pre_shift info = 0 \<or> increment info = 0) \<and> multiplier info \<noteq> 0 \<and>
    unat (multiplier info) < 2 ^ UINT_BITS \<and> pre_shift info < UINT_BITS \<and> post_shift info < UINT_BITS"
  using compute_udiv_correct [OF assms] by (auto simp: udiv_correct_def unat_gt_0)

theorem util_compute_fast_udiv_info_correct_witness:
  "\<exists>info. util_compute_fast_udiv_info 7 32 32 = Some info \<and> udiv_sequence 32 info 100 = 14"
  using util_compute_fast_udiv_info_correct [of 7 32 32] by auto

text \<open>
  C28: \<^verbatim>\<open>util_fast_udiv32\<close> divides every 32-bit numerator by every nonzero 32-bit divisor, and
  \<^verbatim>\<open>util_fast_udiv32_nuw\<close> does so for every numerator its assertion admits.
\<close>

theorem util_fast_udiv32_correct:
  fixes d :: u32
  assumes "d \<noteq> 0"
  shows "\<exists>info. util_compute_fast_udiv_info (ucast d) 32 32 = Some info \<and>
    (\<forall>n. util_fast_udiv32 n info = n div d) \<and>
    (\<forall>n. n \<noteq> UINT_MAX \<longrightarrow> util_fast_udiv32_nuw n info = Some (n div d))"
proof -
  have d: "unat (ucast d :: u64) = unat d" using unat_lt2p [of d] by (simp add: unat_ucast_eq)
  have "0 < unat d" using assms by (simp add: unat_gt_0)
  then have nz: "(ucast d :: u64) \<noteq> 0" using d by auto
  obtain info where info: "util_compute_fast_udiv_info (ucast d) 32 32 = Some info"
    "udiv_correct 32 32 (unat d) info"
    using compute_udiv_correct [OF nz, of 32 32] unat_lt2p [of d] unfolding d by auto
  have seq: "udiv_sequence 32 info (unat n) = unat (n div d)" for n :: u32
    using info(2) unat_lt2p [of n] by (simp add: udiv_correct_def unat_div)
  have inc: "increment info \<le> 1" "unat (multiplier info) < 2 ^ 32"
    using info(2) by (simp_all add: udiv_correct_def)
  have "util_fast_udiv32 n info = n div d" for n
    using util_fast_udiv32_sequence [OF inc, of n] seq by (simp add: word_unat_eq_iff)
  moreover have "util_fast_udiv32_nuw n info = Some (n div d)" if "n \<noteq> UINT_MAX" for n
    using util_fast_udiv32_nuw_sequence [OF inc that] seq by (auto simp: word_unat_eq_iff)
  ultimately show ?thesis using info(1) by blast
qed

theorem util_fast_udiv32_correct_witness:
  "\<exists>info. util_compute_fast_udiv_info 641 32 32 = Some info \<and>
     util_fast_udiv32 UINT_MAX info = UINT_MAX div 641 \<and> util_fast_udiv32_nuw 1000 info = Some (1000 div 641)"
  using util_fast_udiv32_correct [of 641] by auto

text \<open>
  The 31-bit version needs neither a pre-shift nor an increment: with magic numbers computed
  for 31 bits and a divisor above one its assertions hold and it returns the quotient.
\<close>

lemma util_fast_udiv32_u31_correct:
  fixes d :: u32
  assumes "1 < d" "d < 2 ^ 31"
  shows "\<exists>info. util_compute_fast_udiv_info (ucast d) 31 32 = Some info \<and>
    (\<forall>n. n < 2 ^ 31 \<longrightarrow> util_fast_udiv32_u31_d_not_one n info = Some (n div d))"
proof -
  have d: "unat (ucast d :: u64) = unat d" using unat_lt2p [of d] by (simp add: unat_ucast_eq)
  have d1: "1 < unat d" using assms(1) by (simp add: word_less_nat_alt)
  have "\<exists>info. util_compute_fast_udiv_info (ucast d) 31 32 = Some info \<and>
    udiv_correct 32 31 (unat d) info \<and> pre_shift info = 0 \<and> increment info = 0"
    using compute_udiv_31 [of "ucast d"] d1 unat_lt2p [of d] unfolding d by simp
  then obtain info where info: "util_compute_fast_udiv_info (ucast d) 31 32 = Some info"
    "udiv_correct 32 31 (unat d) info" "pre_shift info = 0" "increment info = 0" by blast
  have "util_fast_udiv32_u31_d_not_one n info = Some (n div d)" if "n < 2 ^ 31" for n
  proof -
    have "unat n < 2 ^ 31" using that by (simp add: word_less_nat_alt)
    then have "udiv_sequence 32 info (unat n) = unat (n div d)"
      using info(2) by (simp add: udiv_correct_def unat_div)
    with util_fast_udiv32_u31_sequence [of info n] info(2-4) show ?thesis
      by (auto simp: udiv_correct_def word_unat_eq_iff)
  qed
  with info(1) show ?thesis by blast
qed

text \<open>
  C27: for every signed divisor except 0, 1 and -1 the search loop ends, no assertion fails and no
  signed negation overflows, and the emitted sequence divides every numerator of the word size
  rounding towards zero. The most negative 64-bit divisor is excluded, whose negation C leaves
  undefined.
\<close>

theorem util_compute_fast_sdiv_info_correct:
  assumes "0 < SINT_BITS" "SINT_BITS \<le> 64"
    and "- (2 ^ (SINT_BITS - 1)) \<le> sint D" "sint D < 2 ^ (SINT_BITS - 1)"
    and "D \<noteq> 0" "D \<noteq> 1" "D \<noteq> -1" "sint D \<noteq> - (2 ^ 63)"
  shows "\<exists>info. util_compute_fast_sdiv_info D SINT_BITS = Some info \<and>
    (\<forall>n. - (2 ^ (SINT_BITS - 1)) \<le> n \<and> n < 2 ^ (SINT_BITS - 1) \<longrightarrow>
       sdiv_sequence SINT_BITS (sint D) info n = n sdiv sint D)"
proof -
  have "SINT_BITS - 1 \<le> 63" "Suc (SINT_BITS - 1) = SINT_BITS" using assms(1,2) by simp_all
  with compute_sdiv_correct [OF this(1) assms(3-8)] show ?thesis by auto
qed

theorem util_compute_fast_sdiv_info_correct_witness:
  "\<exists>info. util_compute_fast_sdiv_info (-7) 32 = Some info \<and> sdiv_sequence 32 (-7) info (-100) = 14 \<and>
     sdiv_sequence 32 (-7) info 100 = -14"
  using util_compute_fast_sdiv_info_correct [of 32 "-7"] by (auto simp: signed_divide_int_def)

end
