(* ===== verification/Vma.thy ===== *)
theory Vma
  imports Mesa_Prelude
begin

text \<open>
  \<^verbatim>\<open>src/util/vma.c\<close>: the allocator of virtual address ranges. The heap is the list of its holes
  from the highest to the lowest; the intrusive \<^verbatim>\<open>list_head\<close> links are the list itself. \<open>None\<close>
  is a failing assertion; allocation of the small hole structures is taken to succeed. The locale
  \<open>range_allocator\<close> states the contract of the two operations over sets of addresses, with the
  client's view of live ranges derived from it, and is interpreted on the operations.
\<close>

section \<open>Holes and their validation\<close>

record util_vma_hole =
  hoffset :: u64
  hsize :: u64

type_synonym util_vma_heap = "util_vma_hole list"

fun util_vma_validate_rest :: "u64 \<Rightarrow> util_vma_heap \<Rightarrow> bool" where
  "util_vma_validate_rest prev_offset [] = True"
| "util_vma_validate_rest prev_offset (hole # holes) =
     (hoffset hole > 0 \<and> hsize hole > 0 \<and>
      hsize hole + hoffset hole > hoffset hole \<and> hsize hole + hoffset hole < prev_offset \<and>
      util_vma_validate_rest (hoffset hole) holes)"

fun util_vma_heap_validate :: "util_vma_heap \<Rightarrow> bool" where
  "util_vma_heap_validate [] = True"
| "util_vma_heap_validate (hole # holes) =
     (hoffset hole > 0 \<and> hsize hole > 0 \<and>
      (hsize hole + hoffset hole = 0 \<or> hsize hole + hoffset hole > hoffset hole) \<and>
      util_vma_validate_rest (hoffset hole) holes)"

section \<open>Allocation\<close>

text \<open>
  The loop over the holes: the offset (0 when no hole fits) and the holes afterwards.
\<close>

fun vma_alloc_loop :: "util_vma_heap \<Rightarrow> u64 \<Rightarrow> u64 \<Rightarrow> (u64 \<times> util_vma_heap) option" where
  "vma_alloc_loop [] sz alignment = Some (0, [])"
| "vma_alloc_loop (hole # holes) sz alignment =
     (let continue = map_option (\<lambda>(r, hs). (r, hole # hs)) (vma_alloc_loop holes sz alignment);
          offset = ((hsize hole - sz) + hoffset hole) div alignment * alignment
      in if sz > hsize hole then continue
         else if offset < hoffset hole then continue
         else if offset = hoffset hole \<and> sz = hsize hole then Some (offset, holes)
         else if \<not> offset - hoffset hole \<le> hsize hole - sz then None
         else let waste = (hsize hole - sz) - (offset - hoffset hole)
              in if waste = 0 then Some (offset, hole\<lparr>hsize := hsize hole - sz\<rparr> # holes)
                 else if offset = hoffset hole
                 then Some (offset, hole\<lparr>hoffset := hoffset hole + sz, hsize := hsize hole - sz\<rparr> # holes)
                 else Some (offset, \<lparr>hoffset = offset + sz, hsize = waste\<rparr> #
                                      hole\<lparr>hsize := offset - hoffset hole\<rparr> # holes))"

text \<open>
  The heap is validated on entry and before every successful return; when nothing fits it is the
  heap that was validated on entry.
\<close>

definition util_vma_heap_alloc :: "util_vma_heap \<Rightarrow> u64 \<Rightarrow> u64 \<Rightarrow> (u64 \<times> util_vma_heap) option" where
  "util_vma_heap_alloc heap sz alignment =
     (if \<not> (sz > 0 \<and> alignment > 0) \<or> \<not> util_vma_heap_validate heap then None
      else case vma_alloc_loop heap sz alignment of
             None \<Rightarrow> None
           | Some (offset, heap) \<Rightarrow> if util_vma_heap_validate heap then Some (offset, heap) else None)"

section \<open>Freeing\<close>

text \<open>
  The search loop stops at the first hole whose offset is not above the given one (\<^verbatim>\<open>low_hole\<close>);
  the hole before it is \<^verbatim>\<open>high_hole\<close>.
\<close>

definition vma_highs :: "u64 \<Rightarrow> util_vma_heap \<Rightarrow> util_vma_heap" where
  "vma_highs offset heap = takeWhile (\<lambda>hole. \<not> hoffset hole \<le> offset) heap"

definition vma_lows :: "u64 \<Rightarrow> util_vma_heap \<Rightarrow> util_vma_heap" where
  "vma_lows offset heap = dropWhile (\<lambda>hole. \<not> hoffset hole \<le> offset) heap"

text \<open>The new list of holes: merge with the adjacent ones, or add a hole between them.\<close>

definition vma_free_update :: "util_vma_heap \<Rightarrow> util_vma_heap \<Rightarrow> u64 \<Rightarrow> u64 \<Rightarrow> util_vma_heap" where
  "vma_free_update highs lows offset sz =
     (let high = last highs; low = hd lows;
          high_adjacent = (highs \<noteq> [] \<and> offset + sz = hoffset high);
          low_adjacent = (lows \<noteq> [] \<and> hoffset low + hsize low = offset)
      in if low_adjacent \<and> high_adjacent
         then butlast highs @ low\<lparr>hsize := hsize low + (sz + hsize high)\<rparr> # tl lows
         else if low_adjacent then highs @ low\<lparr>hsize := hsize low + sz\<rparr> # tl lows
         else if high_adjacent
         then butlast highs @ high\<lparr>hoffset := offset, hsize := hsize high + sz\<rparr> # lows
         else highs @ \<lparr>hoffset = offset, hsize = sz\<rparr> # lows)"

definition util_vma_heap_free :: "util_vma_heap \<Rightarrow> u64 \<Rightarrow> u64 \<Rightarrow> util_vma_heap option" where
  "util_vma_heap_free heap offset sz =
     (if \<not> (offset > 0 \<and> sz > 0 \<and> (offset + sz = 0 \<or> offset + sz > offset)) \<or>
         \<not> util_vma_heap_validate heap then None
      else
        let highs = vma_highs offset heap; lows = vma_lows offset heap;
            high = last highs; low = hd lows
        in if highs \<noteq> [] \<and> \<not> offset + sz \<le> hoffset high then None
           else if lows \<noteq> [] \<and> \<not> (hoffset low + hsize low > hoffset low \<and>
                                     hoffset low + hsize low \<le> offset) then None
           else let heap = vma_free_update highs lows offset sz
                in if util_vma_heap_validate heap then Some heap else None)"

definition util_vma_heap_init :: "u64 \<Rightarrow> u64 \<Rightarrow> util_vma_heap option" where
  "util_vma_heap_init start sz = util_vma_heap_free [] start sz"

section \<open>The invariant over numbers\<close>

definition lo :: "util_vma_hole \<Rightarrow> nat" where
  "lo h = unat (hoffset h)"

definition hi :: "util_vma_hole \<Rightarrow> nat" where
  "hi h = unat (hoffset h) + unat (hsize h)"

text \<open>Every hole lies below the given bound, with a gap to the hole above it.\<close>

fun vma_inv_below :: "nat \<Rightarrow> util_vma_heap \<Rightarrow> bool" where
  "vma_inv_below u [] = True"
| "vma_inv_below u (h # hs) = (0 < lo h \<and> lo h < hi h \<and> hi h < u \<and> vma_inv_below (lo h) hs)"

abbreviation vma_inv :: "util_vma_heap \<Rightarrow> bool" where
  "vma_inv \<equiv> vma_inv_below (2 ^ 64 + 1)"

fun space :: "util_vma_heap \<Rightarrow> nat set" where
  "space [] = {}"
| "space (h # hs) = {lo h..<hi h} \<union> space hs"

lemma range_end:
  fixes a s :: u64
  assumes "0 < s"
  shows "a < a + s \<longleftrightarrow> unat a + unat s < 2 ^ 64"
    and "a + s = 0 \<or> a < a + s \<longleftrightarrow> unat a + unat s \<le> 2 ^ 64"
    and "unat a + unat s < 2 ^ 64 \<Longrightarrow> unat (a + s) = unat a + unat s"
    and "unat a + unat s = 2 ^ 64 \<Longrightarrow> a + s = 0"
proof -
  have s: "0 < unat s" using assms by (simp add: word_less_nat_alt)
  have mod: "unat (a + s) = (unat a + unat s) mod 2 ^ 64"
    using unat_of_nat [where 'a = 64, of "unat a + unat s"] by simp
  have bound: "unat a < 2 ^ 64" "unat s < 2 ^ 64" using unat_lt2p [of a] unat_lt2p [of s] by simp_all
  have no_wrap: "unat (a + s) = unat a + unat s" if "unat a + unat s < 2 ^ 64" using mod that by simp
  have wrap: "unat (a + s) = unat a + unat s - 2 ^ 64" if "2 ^ 64 \<le> unat a + unat s"
    using mod that bound by (simp add: mod_if)
  show "unat a + unat s < 2 ^ 64 \<Longrightarrow> unat (a + s) = unat a + unat s" by (rule no_wrap)
  show "unat a + unat s = 2 ^ 64 \<Longrightarrow> a + s = 0" using wrap by (simp add: word_unat_eq_iff)
  show less: "a < a + s \<longleftrightarrow> unat a + unat s < 2 ^ 64"
    using no_wrap wrap s bound unfolding word_less_nat_alt by (cases "unat a + unat s < 2 ^ 64") auto
  have zero: "a + s = 0 \<longleftrightarrow> unat (a + s) = 0" by (simp add: unat_eq_zero)
  show "a + s = 0 \<or> a < a + s \<longleftrightarrow> unat a + unat s \<le> 2 ^ 64"
    unfolding less zero using no_wrap wrap s bound by (cases "unat a + unat s < 2 ^ 64") auto
qed

lemma validate_rest_iff: "util_vma_validate_rest p hs \<longleftrightarrow> vma_inv_below (unat p) hs"
proof (induction hs arbitrary: p)
  case (Cons h hs)
  have size: "hsize h > 0 \<longleftrightarrow> lo h < hi h" by (simp add: lo_def hi_def word_less_nat_alt)
  have off: "hoffset h > 0 \<longleftrightarrow> 0 < lo h" by (simp add: lo_def word_less_nat_alt)
  show ?case
  proof (cases "0 < hsize h")
    case True
    have p: "unat p < 2 ^ 64" using unat_lt2p [of p] by simp
    have sum: "hsize h + hoffset h = hoffset h + hsize h" by (rule add.commute)
    have "hsize h + hoffset h > hoffset h \<and> hsize h + hoffset h < p \<longleftrightarrow> hi h < unat p"
      using range_end [OF True, of "hoffset h"] p unfolding sum word_less_nat_alt [of _ p] hi_def
      by (cases "unat (hoffset h) + unat (hsize h) < 2 ^ 64") auto
    then show ?thesis using size off Cons.IH [of "hoffset h"] by (auto simp flip: lo_def)
  qed (use size in simp)
qed simp

lemma validate_iff: "util_vma_heap_validate hs \<longleftrightarrow> vma_inv hs"
proof (cases hs)
  case (Cons h hs')
  have size: "hsize h > 0 \<longleftrightarrow> lo h < hi h" by (simp add: lo_def hi_def word_less_nat_alt)
  have off: "hoffset h > 0 \<longleftrightarrow> 0 < lo h" by (simp add: lo_def word_less_nat_alt)
  show ?thesis
  proof (cases "0 < hsize h")
    case True
    have "hsize h + hoffset h = 0 \<or> hsize h + hoffset h > hoffset h \<longleftrightarrow> hi h < 2 ^ 64 + 1"
      using range_end(2) [OF True, of "hoffset h"] by (auto simp: hi_def add.commute)
    then show ?thesis using size off Cons validate_rest_iff [of "hoffset h" hs'] by (auto simp flip: lo_def)
  qed (use size Cons in simp)
qed simp

section \<open>The free space determines the holes\<close>

lemma space_below: "vma_inv_below u hs \<Longrightarrow> x \<in> space hs \<Longrightarrow> 0 < x \<and> Suc x < u"
proof (induction hs arbitrary: u)
  case (Cons h hs)
  then show ?case using Cons.IH [of "lo h"] by fastforce
qed simp

lemma vma_inv_below_mono: "vma_inv_below u hs \<Longrightarrow> u \<le> v \<Longrightarrow> vma_inv_below v hs"
  by (cases hs) auto

lemma space_append [simp]: "space (xs @ ys) = space xs \<union> space ys"
  by (induction xs) auto

lemma vma_inv_below_append:
  "vma_inv_below u (xs @ ys) \<longleftrightarrow>
     vma_inv_below u xs \<and> vma_inv_below (if xs = [] then u else lo (last xs)) ys"
  by (induction xs arbitrary: u) auto

lemma finite_space [simp]: "finite (space hs)"
  by (induction hs) auto

text \<open>A run of addresses in the free space lies in one hole.\<close>

lemma run_in_hole:
  assumes "{a..<a + n} \<subseteq> {l..<k} \<union> S" "0 < n" "\<forall>x\<in>S. Suc x < l"
  shows "{a..<a + n} \<subseteq> {l..<k} \<or> {a..<a + n} \<subseteq> S"
proof (cases "l \<le> a")
  case True
  have "x \<in> {l..<k}" if "x \<in> {a..<a + n}" for x
    using that assms(1,3) True by fastforce
  then show ?thesis by blast
next
  case False
  have a: "a \<in> S" using assms(1,2) False by fastforce
  have "a + n < l"
  proof (rule ccontr)
    assume "\<not> a + n < l"
    then have "l - 1 \<in> {a..<a + n}" using False by auto
    with assms(1) have "l - 1 \<in> {l..<k} \<or> l - 1 \<in> S" by blast
    with assms(3) False show False by auto
  qed
  then have "{a..<a + n} \<inter> {l..<k} = {}" by auto
  with assms(1) show ?thesis by blast
qed

text \<open>The highest hole is the topmost run of the free space.\<close>

lemma top_hole:
  assumes "vma_inv_below u (h # hs)"
  shows "\<forall>x\<in>space hs. Suc x < lo h" "\<forall>x\<in>space (h # hs). x < hi h" "lo h - 1 \<notin> space (h # hs)"
proof -
  have h: "0 < lo h" "lo h < hi h" and rest: "vma_inv_below (lo h) hs" using assms by simp_all
  show below: "\<forall>x\<in>space hs. Suc x < lo h" using space_below [OF rest] by blast
  show "\<forall>x\<in>space (h # hs). x < hi h" using below h by fastforce
  show "lo h - 1 \<notin> space (h # hs)" using below h by auto
qed

lemma top_hole_le:
  assumes "vma_inv_below u (h # hs)" "vma_inv_below u (k # ks)" "space (h # hs) = space (k # ks)"
  shows "hi h \<le> hi k" "hi h = hi k \<Longrightarrow> lo k \<le> lo h"
proof -
  have h: "lo h < hi h" and k: "lo k < hi k" using assms(1,2) by simp_all
  have "hi h - 1 \<in> space (h # hs)" using h by auto
  then have "hi h - 1 < hi k" using top_hole(2) [OF assms(2)] assms(3) by blast
  then show "hi h \<le> hi k" by simp
  show "lo k \<le> lo h" if "hi h = hi k"
  proof (rule ccontr)
    assume "\<not> lo k \<le> lo h"
    then have "lo k - 1 \<in> {lo h..<hi h}" using k that by auto
    then have "lo k - 1 \<in> space (k # ks)" unfolding assms(3) [symmetric] by simp
    with top_hole(3) [OF assms(2)] show False ..
  qed
qed

lemma space_unique:
  "vma_inv_below u hs \<Longrightarrow> vma_inv_below u ks \<Longrightarrow> space hs = space ks \<Longrightarrow> hs = ks"
proof (induction hs arbitrary: u ks)
  case Nil
  then show ?case by (cases ks) auto
next
  case (Cons h hs)
  then obtain k ks' where ks: "ks = k # ks'" by (cases ks) auto
  note inv = Cons.prems(1) Cons.prems(2) [unfolded ks]
  note sp = Cons.prems(3) [unfolded ks]
  have hi: "hi h = hi k" using top_hole_le(1) [OF inv sp] top_hole_le(1) [OF inv(2,1) sp [symmetric]] by simp
  then have lo: "lo h = lo k"
    using top_hole_le(2) [OF inv sp] top_hole_le(2) [OF inv(2,1) sp [symmetric]] by simp
  have "space hs = space (h # hs) \<inter> {x. Suc x < lo h}" using top_hole(1) [OF inv(1)] by auto
  also have "\<dots> = space (k # ks') \<inter> {x. Suc x < lo k}" by (simp only: sp lo)
  also have "\<dots> = space ks'" using top_hole(1) [OF inv(2)] by auto
  finally have "hs = ks'" using Cons.IH [of "lo h" ks'] inv lo by simp
  moreover have "h = k"
    using lo hi by (cases h; cases k) (simp add: lo_def hi_def word_unat_eq_iff)
  ultimately show ?case using ks by simp
qed

section \<open>Allocation is correct\<close>

text \<open>The highest aligned offset at which a block fits below the top of a hole.\<close>

definition fit :: "util_vma_hole \<Rightarrow> u64 \<Rightarrow> u64 \<Rightarrow> nat" where
  "fit h sz alignment = (hi h - unat sz) div unat alignment * unat alignment"

lemma fit_word:
  assumes "0 < sz" "sz \<le> hsize h" "hi h \<le> 2 ^ 64"
  shows "unat (((hsize h - sz) + hoffset h) div alignment * alignment) = fit h sz alignment"
proof -
  have s: "0 < unat sz" "unat sz \<le> unat (hsize h)"
    using assms(1,2) by (simp_all add: word_less_nat_alt word_le_nat_alt)
  then have d: "unat (hsize h - sz) = unat (hsize h) - unat sz" by (simp add: unat_sub_no_wrap)
  have top: "unat ((hsize h - sz) + hoffset h) = hi h - unat sz"
    using s assms(3) by (subst unat_add_no_wrap) (simp_all add: d hi_def)
  have le: "fit h sz alignment \<le> hi h - unat sz" by (simp add: fit_def)
  also have "\<dots> < 2 ^ 64" using s assms(3) by (simp add: hi_def)
  finally show ?thesis
    by (subst unat_mult_no_wrap) (simp_all add: unat_div top fit_def)
qed

lemma fit_greatest:
  assumes "unat alignment dvd a" "a + unat sz \<le> hi h"
  shows "a \<le> fit h sz alignment"
proof -
  obtain c where a: "a = unat alignment * c" using assms(1) by blast
  have "unat alignment * c div unat alignment \<le> (hi h - unat sz) div unat alignment"
    using assms(2) unfolding a by (intro div_le_mono) simp
  then have "c * unat alignment \<le> fit h sz alignment \<or> unat alignment = 0"
    unfolding fit_def by (metis mult_le_mono1 nonzero_mult_div_cancel_left)
  then show ?thesis using a by (auto simp: mult.commute)
qed

lemma run_in_one_hole:
  assumes "vma_inv_below u (h # hs)" "{a..<a + n} \<subseteq> space (h # hs)" "0 < n"
  shows "lo h \<le> a \<and> a + n \<le> hi h \<or> {a..<a + n} \<subseteq> space hs"
proof -
  have "{a..<a + n} \<subseteq> {lo h..<hi h} \<or> {a..<a + n} \<subseteq> space hs"
    using assms(2,3) top_hole(1) [OF assms(1)] by (intro run_in_hole) simp_all
  then show ?thesis using assms(3) by auto
qed

text \<open>Cutting the block out of a hole leaves at most two holes.\<close>

lemma vma_alloc_cut:
  assumes inv: "vma_inv_below u (h # hs)" "u \<le> 2 ^ 64 + 1" and sz: "0 < sz" "sz \<le> hsize h"
    and fits: "lo h \<le> fit h sz alignment"
  shows "\<exists>off new. vma_alloc_loop (h # hs) sz alignment = Some (off, new @ hs) \<and>
    unat off = fit h sz alignment \<and>
    space new = {lo h..<hi h} - {unat off..<unat off + unat sz} \<and>
    vma_inv_below u new \<and> (\<forall>g\<in>set new. lo h \<le> lo g)"
proof -
  define off where "off = ((hsize h - sz) + hoffset h) div alignment * alignment"
  define o' where "o' = fit h sz alignment"
  define n where "n = unat sz"
  have k: "hi h \<le> 2 ^ 64" "0 < lo h" "lo h < hi h" "hi h < u" using inv by simp_all
  have off: "unat off = o'" unfolding off_def o'_def using sz k(1) by (rule fit_word)
  have n: "0 < n" "n \<le> unat (hsize h)" using sz by (simp_all add: n_def word_less_nat_alt word_le_nat_alt)
  have l: "lo h \<le> o'" using fits by (simp add: o'_def)
  have "o' \<le> hi h - n" by (simp add: o'_def fit_def n_def)
  then have top: "o' + n \<le> hi h" using n by (simp add: hi_def)
  have hs: "unat (hsize h) = hi h - lo h" "unat (hoffset h) = lo h" by (simp_all add: hi_def lo_def)
  have d1: "unat (hsize h - sz) = hi h - lo h - n" using n hs by (simp add: unat_sub_no_wrap n_def)
  have d2: "unat (off - hoffset h) = o' - lo h" using l off hs by (simp add: unat_sub_no_wrap)
  have d3: "unat ((hsize h - sz) - (off - hoffset h)) = hi h - (o' + n)"
    using d1 d2 l top by (subst unat_sub_no_wrap) simp_all
  have guards: "\<not> sz > hsize h" "\<not> off < hoffset h" "off - hoffset h \<le> hsize h - sz"
    using sz l top d1 d2 off hs by (auto simp: word_less_nat_alt word_le_nat_alt)
  have tests: "off = hoffset h \<longleftrightarrow> o' = lo h" "sz = hsize h \<longleftrightarrow> n = hi h - lo h"
    "(hsize h - sz) - (off - hoffset h) = 0 \<longleftrightarrow> o' + n = hi h"
    using d3 off hs top by (auto simp: word_unat_eq_iff n_def)
  have off0: "off \<noteq> 0" using off l k(2) by auto
  have run: "vma_alloc_loop (h # hs) sz alignment =
    (if o' = lo h \<and> n = hi h - lo h then Some (off, hs)
     else if o' + n = hi h then Some (off, h\<lparr>hsize := hsize h - sz\<rparr> # hs)
     else if o' = lo h then Some (off, h\<lparr>hoffset := hoffset h + sz, hsize := hsize h - sz\<rparr> # hs)
     else Some (off, \<lparr>hoffset = off + sz, hsize = (hsize h - sz) - (off - hoffset h)\<rparr> #
                       h\<lparr>hsize := off - hoffset h\<rparr> # hs))"
    unfolding vma_alloc_loop.simps Let_def off_def [symmetric]
    by (simp only: guards tests if_True if_False not_True_eq_False)
  have no_wrap: "unat (off + sz) = o' + n" if "o' + n < hi h"
    using that k(1) off by (subst unat_add_no_wrap) (simp_all add: n_def)
  have no_wrap': "unat (hoffset h + sz) = lo h + n" if "lo h + n < hi h"
    using that k(1) hs by (subst unat_add_no_wrap) (simp_all add: n_def)
  consider (all) "o' = lo h" "o' + n = hi h" | (top) "o' \<noteq> lo h" "o' + n = hi h"
    | (bottom) "o' = lo h" "o' + n \<noteq> hi h" | (middle) "o' \<noteq> lo h" "o' + n \<noteq> hi h" by blast
  then have "\<exists>new. vma_alloc_loop (h # hs) sz alignment = Some (off, new @ hs) \<and>
    space new = {lo h..<hi h} - {o'..<o' + n} \<and> vma_inv_below u new \<and> (\<forall>g\<in>set new. lo h \<le> lo g)"
  proof cases
    case all
    then have "n = hi h - lo h" by simp
    with all have "vma_alloc_loop (h # hs) sz alignment = Some (off, [] @ hs)" by (simp only: run) simp
    moreover have "space [] = {lo h..<hi h} - {o'..<o' + n}" unfolding all(2) unfolding all(1) by simp
    ultimately show ?thesis by (intro exI [of _ "[]"]) simp
  next
    case top
    let ?b = "h\<lparr>hsize := hsize h - sz\<rparr>"
    have lohi: "lo ?b = lo h" "hi ?b = o'"
      using top d1 hs k l by (simp_all add: lo_def [of ?b] hi_def [of ?b])
    from top have "vma_alloc_loop (h # hs) sz alignment = Some (off, [?b] @ hs)" by (simp only: run) simp
    moreover have "space [?b] = {lo h..<hi h} - {o'..<o' + n}"
      unfolding top(2) space.simps lohi using l top by auto
    moreover have "vma_inv_below u [?b]" using lohi l top k \<open>o' + n \<le> hi h\<close> by simp
    ultimately show ?thesis using lohi by (intro exI [of _ "[?b]"]) simp
  next
    case bottom
    let ?g = "h\<lparr>hoffset := hoffset h + sz, hsize := hsize h - sz\<rparr>"
    have lt: "lo h + n < hi h" using bottom \<open>o' + n \<le> hi h\<close> by simp
    then have lohi: "lo ?g = lo h + n" "hi ?g = hi h"
      using d1 no_wrap' by (simp_all add: lo_def [of ?g] hi_def [of ?g])
    have "n \<noteq> hi h - lo h" using lt by simp
    with bottom have "vma_alloc_loop (h # hs) sz alignment = Some (off, [?g] @ hs)" by (simp only: run) simp
    moreover have "space [?g] = {lo h..<hi h} - {o'..<o' + n}"
      unfolding bottom(1) space.simps lohi by auto
    moreover have "vma_inv_below u [?g]" using lohi lt k by simp
    ultimately show ?thesis using lohi by (intro exI [of _ "[?g]"]) simp
  next
    case middle
    let ?g = "\<lparr>hoffset = off + sz, hsize = (hsize h - sz) - (off - hoffset h)\<rparr>"
    let ?b = "h\<lparr>hsize := off - hoffset h\<rparr>"
    have lt: "o' + n < hi h" using middle \<open>o' + n \<le> hi h\<close> by simp
    then have g: "lo ?g = o' + n" "hi ?g = hi h" using d3 no_wrap by (simp_all add: lo_def [of ?g] hi_def [of ?g])
    have b: "lo ?b = lo h" "hi ?b = o'" using d2 l hs by (simp_all add: lo_def [of ?b] hi_def [of ?b])
    from middle have "vma_alloc_loop (h # hs) sz alignment = Some (off, [?g, ?b] @ hs)" by (simp only: run) simp
    moreover have "space [?g, ?b] = {lo h..<hi h} - {o'..<o' + n}"
      unfolding space.simps g b using l lt by auto
    moreover have "vma_inv_below u [?g, ?b]" using g b lt l middle k n by simp
    ultimately show ?thesis using g b l by (intro exI [of _ "[?g, ?b]"]) simp
  qed
  moreover have "unat off = fit h sz alignment" using off by (simp add: o'_def)
  ultimately show ?thesis unfolding off [symmetric] n_def by blast
qed

text \<open>
  What an allocation promises over sets of addresses: nothing changes and no aligned block fits,
  or the highest aligned block of free addresses is taken out of the free space.
\<close>

definition alloc_post :: "nat set \<Rightarrow> nat \<Rightarrow> nat \<Rightarrow> nat \<Rightarrow> nat set \<Rightarrow> bool" where
  "alloc_post S n al off S' \<longleftrightarrow>
     (if off = 0 then S' = S \<and> (\<forall>a. al dvd a \<longrightarrow> \<not> {a..<a + n} \<subseteq> S)
      else al dvd off \<and> {off..<off + n} \<subseteq> S \<and> S' = S - {off..<off + n} \<and>
        (\<forall>a. al dvd a \<and> {a..<a + n} \<subseteq> S \<longrightarrow> a \<le> off))"

lemma alloc_post_skip:
  assumes "alloc_post S n al off S'" "H \<inter> S = {}" "0 < n"
    and "\<And>a. al dvd a \<Longrightarrow> {a..<a + n} \<subseteq> H \<union> S \<Longrightarrow> {a..<a + n} \<subseteq> S"
  shows "alloc_post (H \<union> S) n al off (H \<union> S')"
proof (cases "off = 0")
  case True
  then show ?thesis using assms(1,4) by (auto simp: alloc_post_def)
next
  case False
  then have post: "al dvd off" "{off..<off + n} \<subseteq> S" "S' = S - {off..<off + n}"
    "\<And>a. al dvd a \<Longrightarrow> {a..<a + n} \<subseteq> S \<Longrightarrow> a \<le> off"
    using assms(1) by (simp_all add: alloc_post_def)
  have "H \<union> S' = H \<union> S - {off..<off + n}" using post(2,3) assms(2) by blast
  then show ?thesis using False post(1,2,4) assms(4) unfolding alloc_post_def by auto
qed

text \<open>The first hole in which the block fits serves the request ...\<close>

lemma vma_alloc_hit:
  assumes inv: "vma_inv_below u (h # hs)" "u \<le> 2 ^ 64 + 1" and "0 < sz"
    and fits: "sz \<le> hsize h" "lo h \<le> fit h sz alignment"
  shows "\<exists>off hs'. vma_alloc_loop (h # hs) sz alignment = Some (off, hs') \<and> vma_inv_below u hs' \<and>
    off \<noteq> 0 \<and> alloc_post (space (h # hs)) (unat sz) (unat alignment) (unat off) (space hs')"
proof -
  have n: "0 < unat sz" "unat sz \<le> unat (hsize h)"
    using assms(3) fits(1) by (simp_all add: word_less_nat_alt word_le_nat_alt)
  have h: "0 < lo h" "lo h < hi h" "hi h < u" "vma_inv_below (lo h) hs" using inv by simp_all
  have H: "{lo h..<hi h} \<inter> space hs = {}" using top_hole(1) [OF inv(1)] by auto
  obtain off new where run: "vma_alloc_loop (h # hs) sz alignment = Some (off, new @ hs)"
    and off: "unat off = fit h sz alignment"
    and new: "space new = {lo h..<hi h} - {unat off..<unat off + unat sz}" "vma_inv_below u new"
      "\<forall>g\<in>set new. lo h \<le> lo g"
    using vma_alloc_cut [OF inv assms(3) fits] by blast
  have "vma_inv_below (if new = [] then u else lo (last new)) hs"
    using h(2-4) new(3) by (auto intro: vma_inv_below_mono)
  with new(2) have inv': "vma_inv_below u (new @ hs)" by (simp add: vma_inv_below_append)
  have "fit h sz alignment \<le> hi h - unat sz" by (simp add: fit_def)
  then have block: "{unat off..<unat off + unat sz} \<subseteq> {lo h..<hi h}"
    using fits(2) off n(2) by (auto simp: hi_def)
  have top: "a \<le> unat off" if a: "unat alignment dvd a" "{a..<a + unat sz} \<subseteq> space (h # hs)" for a
    using run_in_one_hole [OF inv(1) a(2) n(1)]
  proof
    assume "lo h \<le> a \<and> a + unat sz \<le> hi h"
    then show ?thesis using fit_greatest [OF a(1)] off by simp
  next
    assume "{a..<a + unat sz} \<subseteq> space hs"
    moreover have "a \<in> {a..<a + unat sz}" using n by simp
    ultimately have "a < lo h" using top_hole(1) [OF inv(1)] by fastforce
    then show ?thesis using fits(2) off by simp
  qed
  have off0: "unat off \<noteq> 0" using fits(2) off h(1) by simp
  have "space (new @ hs) = space (h # hs) - {unat off..<unat off + unat sz}"
    unfolding space_append space.simps new(1) using H block by blast
  moreover have "unat alignment dvd unat off" using off by (simp add: fit_def)
  moreover have "{unat off..<unat off + unat sz} \<subseteq> space (h # hs)" using block by auto
  ultimately have "alloc_post (space (h # hs)) (unat sz) (unat alignment) (unat off) (space (new @ hs))"
    unfolding alloc_post_def using top off0 by simp
  moreover have "off \<noteq> 0" using off0 by auto
  ultimately show ?thesis using run inv' by blast
qed

text \<open>... and the holes in which it does not fit are passed over.\<close>

lemma vma_alloc_miss:
  assumes inv: "vma_inv_below u (h # hs)" "u \<le> 2 ^ 64 + 1" and "0 < sz"
    and miss: "\<not> (sz \<le> hsize h \<and> lo h \<le> fit h sz alignment)"
  shows "vma_alloc_loop (h # hs) sz alignment =
      map_option (\<lambda>(r, hs). (r, h # hs)) (vma_alloc_loop hs sz alignment)"
    and "unat alignment dvd a \<Longrightarrow> {a..<a + unat sz} \<subseteq> {lo h..<hi h} \<union> space hs \<Longrightarrow>
      {a..<a + unat sz} \<subseteq> space hs"
proof -
  have n: "0 < unat sz" using assms(3) by (simp add: word_less_nat_alt)
  show "vma_alloc_loop (h # hs) sz alignment =
    map_option (\<lambda>(r, hs). (r, h # hs)) (vma_alloc_loop hs sz alignment)"
  proof (cases "sz \<le> hsize h")
    case True
    then have "((hsize h - sz) + hoffset h) div alignment * alignment < hoffset h"
      using miss fit_word [OF assms(3) True] inv by (simp add: word_less_nat_alt lo_def)
    then show ?thesis unfolding vma_alloc_loop.simps Let_def by (simp only: if_True if_cancel)
  next
    case False
    then have "hsize h < sz" by simp
    then show ?thesis unfolding vma_alloc_loop.simps Let_def by (simp only: if_True)
  qed
  assume a: "unat alignment dvd a" "{a..<a + unat sz} \<subseteq> {lo h..<hi h} \<union> space hs"
  have "\<not> (lo h \<le> a \<and> a + unat sz \<le> hi h)"
  proof
    assume fits: "lo h \<le> a \<and> a + unat sz \<le> hi h"
    then have "sz \<le> hsize h" by (simp add: word_le_nat_alt hi_def lo_def)
    with miss have "fit h sz alignment < lo h" by simp
    with fits fit_greatest [OF a(1), of sz h] show False by simp
  qed
  then show "{a..<a + unat sz} \<subseteq> space hs" using run_in_one_hole [OF inv(1) _ n, of a] a(2) by auto
qed

lemma vma_alloc_loop_spec:
  assumes "0 < sz"
  shows "vma_inv_below u hs \<Longrightarrow> u \<le> 2 ^ 64 + 1 \<Longrightarrow>
    \<exists>off hs'. vma_alloc_loop hs sz alignment = Some (off, hs') \<and> vma_inv_below u hs' \<and>
      (off = 0 \<longrightarrow> hs' = hs) \<and>
      alloc_post (space hs) (unat sz) (unat alignment) (unat off) (space hs')"
proof (induction hs arbitrary: u)
  case Nil
  have "0 < unat sz" using assms by (simp add: word_less_nat_alt)
  then show ?case by (simp add: alloc_post_def)
next
  case (Cons h hs)
  show ?case
  proof (cases "sz \<le> hsize h \<and> lo h \<le> fit h sz alignment")
    case True
    then show ?thesis using vma_alloc_hit [OF Cons.prems assms, of alignment] by blast
  next
    case False
    note miss = vma_alloc_miss [OF Cons.prems assms False]
    have n: "0 < unat sz" using assms by (simp add: word_less_nat_alt)
    have h: "0 < lo h" "lo h < hi h" "hi h < u" "vma_inv_below (lo h) hs" using Cons.prems by simp_all
    have H: "{lo h..<hi h} \<inter> space hs = {}" using top_hole(1) [OF Cons.prems(1)] by auto
    obtain off hs' where rec: "vma_alloc_loop hs sz alignment = Some (off, hs')"
      "vma_inv_below (lo h) hs'" "off = 0 \<longrightarrow> hs' = hs"
      "alloc_post (space hs) (unat sz) (unat alignment) (unat off) (space hs')"
      using Cons.IH [OF h(4)] h(2,3) Cons.prems(2) by fastforce
    then have "vma_alloc_loop (h # hs) sz alignment = Some (off, h # hs')" using miss(1) by simp
    moreover have "alloc_post (space (h # hs)) (unat sz) (unat alignment) (unat off) (space (h # hs'))"
      unfolding space.simps by (rule alloc_post_skip [OF rec(4) H n miss(2)])
    moreover have "vma_inv_below u (h # hs')" using h rec(2) by simp
    ultimately show ?thesis using rec(3) by blast
  qed
qed

lemma util_vma_heap_alloc_spec:
  assumes "vma_inv heap" "0 < sz" "0 < alignment"
  shows "\<exists>off heap'. util_vma_heap_alloc heap sz alignment = Some (off, heap') \<and> vma_inv heap' \<and>
    (off = 0 \<longrightarrow> heap' = heap) \<and>
    alloc_post (space heap) (unat sz) (unat alignment) (unat off) (space heap')"
proof -
  obtain off heap' where "vma_alloc_loop heap sz alignment = Some (off, heap')" "vma_inv heap'"
    "off = 0 \<longrightarrow> heap' = heap"
    "alloc_post (space heap) (unat sz) (unat alignment) (unat off) (space heap')"
    using vma_alloc_loop_spec [OF assms(2,1), of alignment] by auto
  then show ?thesis using assms by (simp add: util_vma_heap_alloc_def validate_iff)
qed

section \<open>Freeing is correct\<close>

lemma vma_split:
  "vma_highs offset heap @ vma_lows offset heap = heap"
  "h \<in> set (vma_highs offset heap) \<Longrightarrow> unat offset < lo h"
  "vma_lows offset heap \<noteq> [] \<Longrightarrow> lo (hd (vma_lows offset heap)) \<le> unat offset"
proof -
  show "vma_highs offset heap @ vma_lows offset heap = heap" by (simp add: vma_highs_def vma_lows_def)
  show "h \<in> set (vma_highs offset heap) \<Longrightarrow> unat offset < lo h"
    unfolding vma_highs_def by (auto dest!: set_takeWhileD simp: word_less_nat_alt lo_def not_le)
  show "vma_lows offset heap \<noteq> [] \<Longrightarrow> lo (hd (vma_lows offset heap)) \<le> unat offset"
    unfolding vma_lows_def using hd_dropWhile [of "\<lambda>h. \<not> hoffset h \<le> offset" heap]
    by (simp add: word_le_nat_alt lo_def)
qed

lemma last_in_space: "vma_inv_below u hs \<Longrightarrow> hs \<noteq> [] \<Longrightarrow> lo (last hs) \<in> space hs"
  by (induction hs arbitrary: u) auto

lemma last_lowest: "vma_inv_below u hs \<Longrightarrow> hs \<noteq> [] \<Longrightarrow> x \<in> space hs \<Longrightarrow> lo (last hs) \<le> x"
proof (induction hs arbitrary: u)
  case (Cons h hs)
  show ?case
  proof (cases "hs = []")
    case False
    have "lo (last hs) \<in> space hs" using Cons.prems(1) False by (auto intro: last_in_space)
    then have "lo (last hs) < lo h" using top_hole(1) [OF Cons.prems(1)] by fastforce
    then show ?thesis using False Cons by auto
  qed (use Cons.prems in simp)
qed simp

text \<open>A range is disjoint from the free space if the two neighbouring holes do not reach into it.\<close>

lemma free_disjoint_iff:
  assumes inv: "vma_inv_below u (highs @ lows)" and n: "0 < n"
    and highs: "\<And>h. h \<in> set highs \<Longrightarrow> a < lo h" and lows: "lows \<noteq> [] \<Longrightarrow> lo (hd lows) \<le> a"
  shows "{a..<a + n} \<inter> space (highs @ lows) = {} \<longleftrightarrow>
    (highs \<noteq> [] \<longrightarrow> a + n \<le> lo (last highs)) \<and> (lows \<noteq> [] \<longrightarrow> hi (hd lows) \<le> a)"
proof -
  have ih: "vma_inv_below u highs" and il: "vma_inv_below (if highs = [] then u else lo (last highs)) lows"
    using inv by (simp_all add: vma_inv_below_append)
  have h: "{a..<a + n} \<inter> space highs = {} \<longleftrightarrow> (highs \<noteq> [] \<longrightarrow> a + n \<le> lo (last highs))"
  proof (cases "highs = []")
    case False
    have "a + n \<le> lo (last highs)" if "{a..<a + n} \<inter> space highs = {}"
    proof (rule ccontr)
      assume "\<not> a + n \<le> lo (last highs)"
      then have "lo (last highs) \<in> {a..<a + n}" using highs [of "last highs"] False by simp
      with that last_in_space [OF ih False] show False by blast
    qed
    moreover have "a + n \<le> lo (last highs) \<Longrightarrow> {a..<a + n} \<inter> space highs = {}"
      using last_lowest [OF ih False] by fastforce
    ultimately show ?thesis using False by blast
  qed simp
  have l: "{a..<a + n} \<inter> space lows = {} \<longleftrightarrow> (lows \<noteq> [] \<longrightarrow> hi (hd lows) \<le> a)"
  proof (cases lows)
    case (Cons g gs)
    have "\<forall>x\<in>space lows. x < hi g" using top_hole(2) [of _ g gs] il Cons by blast
    then have "hi g \<le> a \<Longrightarrow> {a..<a + n} \<inter> space lows = {}" by fastforce
    moreover have "a \<in> space lows" if "\<not> hi g \<le> a" using that lows Cons by auto
    ultimately show ?thesis using n Cons by fastforce
  qed simp
  show ?thesis unfolding space_append using h l by blast
qed

text \<open>The end of a range that may touch the top of the address space, compared as a word.\<close>

lemma range_end_eq:
  fixes a s b :: u64
  assumes "0 < s" "unat a + unat s \<le> 2 ^ 64" "0 < b"
  shows "a + s = b \<longleftrightarrow> unat a + unat s = unat b"
proof (cases "unat a + unat s < 2 ^ 64")
  case True
  then show ?thesis using range_end(3) [OF assms(1)] by (simp add: word_unat_eq_iff)
next
  case False
  then have "unat a + unat s = 2 ^ 64" using assms(2) by simp
  moreover have "unat b < 2 ^ 64" using unat_lt2p [of b] by simp
  ultimately show ?thesis using range_end(4) [OF assms(1), of a] assms(3) by simp
qed

text \<open>
  The updated list is the old one with one hole \<open>x\<close> in place of the freed range and of the holes
  adjacent to it.
\<close>

lemma vma_free_update_eq:
  fixes offset sz :: u64
  defines "a \<equiv> unat offset" and "e \<equiv> unat offset + unat sz"
  assumes inv: "vma_inv_below u (highs @ lows)" "u \<le> 2 ^ 64 + 1"
    and range: "0 < offset" "0 < sz" "e \<le> 2 ^ 64"
    and low: "lows \<noteq> [] \<longrightarrow> hi (hd lows) \<le> a"
  defines "ha \<equiv> highs \<noteq> [] \<and> e = lo (last highs)" and "la \<equiv> lows \<noteq> [] \<and> hi (hd lows) = a"
  shows "\<exists>x. vma_free_update highs lows offset sz =
      (if ha then butlast highs else highs) @ x # (if la then tl lows else lows) \<and>
    lo x = (if la then lo (hd lows) else a) \<and> hi x = (if ha then hi (last highs) else e)"
proof -
  have high: "0 < lo (last highs)" "lo (last highs) < hi (last highs)" "hi (last highs) \<le> 2 ^ 64" if "highs \<noteq> []"
    using inv that by (induction highs arbitrary: u) (auto split: if_splits)
  have low': "0 < lo (hd lows)" "lo (hd lows) < hi (hd lows)" "0 < hsize (hd lows)" if "lows \<noteq> []"
    using inv(1) that by (cases lows; auto simp: vma_inv_below_append lo_def hi_def word_less_nat_alt)+
  have haw: "highs \<noteq> [] \<and> offset + sz = hoffset (last highs) \<longleftrightarrow> ha"
    using high(1) range range_end_eq [OF range(2), of offset "hoffset (last highs)"]
    by (auto simp: ha_def e_def lo_def word_less_nat_alt)
  have law: "lows \<noteq> [] \<and> hoffset (hd lows) + hsize (hd lows) = offset \<longleftrightarrow> la"
  proof -
    have "a < 2 ^ 64" using unat_lt2p [of offset] by (simp add: a_def)
    then show ?thesis using low' low range(1) range_end_eq [of "hsize (hd lows)" "hoffset (hd lows)" offset]
      by (auto simp: la_def a_def hi_def)
  qed
  have upd: "vma_free_update highs lows offset sz =
     (if la \<and> ha then butlast highs @ (hd lows)\<lparr>hsize := hsize (hd lows) + (sz + hsize (last highs))\<rparr> # tl lows
      else if la then highs @ (hd lows)\<lparr>hsize := hsize (hd lows) + sz\<rparr> # tl lows
      else if ha then butlast highs @ (last highs)\<lparr>hoffset := offset, hsize := hsize (last highs) + sz\<rparr> # lows
      else highs @ \<lparr>hoffset = offset, hsize = sz\<rparr> # lows)"
    unfolding vma_free_update_def Let_def haw law ..
  have ae: "a < e" using range(2) by (simp add: a_def e_def word_less_nat_alt)
  consider (both) ha la | (low) "\<not> ha" la | (high) ha "\<not> la" | (none) "\<not> ha" "\<not> la" by blast
  then show ?thesis
  proof cases
    case both
    let ?x = "(hd lows)\<lparr>hsize := hsize (hd lows) + (sz + hsize (last highs))\<rparr>"
    note h = high [OF conjunct1 [OF both(1) [unfolded ha_def]]] and l = low' [OF conjunct1 [OF both(2) [unfolded la_def]]]
    have "unat (hsize (hd lows)) + (unat sz + unat (hsize (last highs))) = hi (last highs) - lo (hd lows)"
      using both unfolding ha_def la_def e_def a_def hi_def lo_def by linarith
    moreover have "hi (last highs) - lo (hd lows) < 2 ^ 64"
      using h(3) l(1) zero_less_power [of "2::nat" 64] by linarith
    ultimately have "unat (hsize ?x) = hi (last highs) - lo (hd lows)" by (simp add: unat_add_no_wrap)
    moreover have "lo (hd lows) \<le> hi (last highs)" using both l(2) h(2) ae by (simp add: ha_def la_def)
    ultimately have "lo ?x = lo (hd lows)" "hi ?x = hi (last highs)"
      by (simp_all add: lo_def [of ?x] hi_def [of ?x] lo_def [of "hd lows"])
    then show ?thesis using both by (intro exI [of _ ?x]) (simp add: upd)
  next
    case low
    let ?x = "(hd lows)\<lparr>hsize := hsize (hd lows) + sz\<rparr>"
    note l = low' [OF conjunct1 [OF low(2) [unfolded la_def]]]
    have sum: "lo (hd lows) + (unat (hsize (hd lows)) + unat sz) = e"
      using low by (simp add: la_def e_def a_def hi_def lo_def)
    then have "unat (hsize ?x) = unat (hsize (hd lows)) + unat sz"
      using l(1) range(3) by (simp add: unat_add_no_wrap)
    then have "lo ?x = lo (hd lows)" "hi ?x = e"
      using sum by (simp_all add: lo_def [of ?x] hi_def [of ?x] lo_def [of "hd lows"])
    then show ?thesis using low by (intro exI [of _ ?x]) (simp add: upd)
  next
    case high
    let ?x = "(last highs)\<lparr>hoffset := offset, hsize := hsize (last highs) + sz\<rparr>"
    note h = \<open>highs \<noteq> [] \<Longrightarrow> hi (last highs) \<le> 2 ^ 64\<close> [OF conjunct1 [OF high(1) [unfolded ha_def]]]
    have sum: "a + (unat (hsize (last highs)) + unat sz) = hi (last highs)"
      using high by (simp add: ha_def e_def a_def hi_def lo_def)
    moreover have "0 < a" using range(1) by (simp add: a_def word_less_nat_alt)
    ultimately have "unat (hsize ?x) = unat (hsize (last highs)) + unat sz"
      using h by (simp add: unat_add_no_wrap)
    then have "lo ?x = a" "hi ?x = hi (last highs)"
      using sum by (simp_all add: lo_def [of ?x] hi_def [of ?x] a_def)
    then show ?thesis using high by (intro exI [of _ ?x]) (simp add: upd)
  next
    case none
    then show ?thesis
      by (intro exI [of _ "\<lparr>hoffset = offset, hsize = sz\<rparr>"]) (simp add: upd lo_def hi_def a_def e_def)
  qed
qed

lemma low_guard:
  assumes "lo h < hi h" "hi h \<le> 2 ^ 64"
  shows "hoffset h + hsize h > hoffset h \<and> hoffset h + hsize h \<le> offset \<longleftrightarrow> hi h \<le> unat offset"
proof -
  have s: "0 < hsize h" using assms(1) by (simp add: lo_def hi_def word_less_nat_alt)
  have "unat offset < 2 ^ 64" using unat_lt2p [of offset] by simp
  then show ?thesis using range_end(1,3) [OF s, of "hoffset h"] assms(2)
    by (auto simp: hi_def word_le_nat_alt)
qed

lemma vma_free_update_inv:
  fixes offset sz :: u64
  defines "a \<equiv> unat offset" and "e \<equiv> unat offset + unat sz"
  assumes inv: "vma_inv_below u (highs @ lows)" "u \<le> 2 ^ 64 + 1" "e < u"
    and range: "0 < offset" "0 < sz"
    and low: "lows \<noteq> [] \<longrightarrow> hi (hd lows) \<le> a"
  shows "highs \<noteq> [] \<longrightarrow> e \<le> lo (last highs) \<Longrightarrow> vma_inv_below u (vma_free_update highs lows offset sz)"
    and "highs \<noteq> [] \<longrightarrow> e \<le> lo (last highs) \<Longrightarrow>
      space (vma_free_update highs lows offset sz) = space (highs @ lows) \<union> {a..<e}"
    and "highs \<noteq> [] \<and> lo (last highs) < e \<Longrightarrow> \<not> vma_inv_below u (vma_free_update highs lows offset sz)"
proof -
  define ha where "ha \<longleftrightarrow> highs \<noteq> [] \<and> e = lo (last highs)"
  define la where "la \<longleftrightarrow> lows \<noteq> [] \<and> hi (hd lows) = a"
  have e64: "e \<le> 2 ^ 64" using inv(2,3) by linarith
  have ae: "0 < a" "a < e" using range by (simp_all add: a_def e_def word_less_nat_alt)
  obtain x where upd: "vma_free_update highs lows offset sz =
      (if ha then butlast highs else highs) @ x # (if la then tl lows else lows)"
    and x: "lo x = (if la then lo (hd lows) else a)" "hi x = (if ha then hi (last highs) else e)"
    using vma_free_update_eq [OF inv(1,2) range e64 [unfolded e_def] low [unfolded a_def]]
    unfolding ha_def la_def a_def e_def by blast
  note facts = inv low ae
  show "vma_inv_below u (vma_free_update highs lows offset sz)" if ok: "highs \<noteq> [] \<longrightarrow> e \<le> lo (last highs)"
    using facts ok unfolding upd
    by (cases highs rule: rev_cases; cases lows) (auto simp: x ha_def la_def vma_inv_below_append)
  show "space (vma_free_update highs lows offset sz) = space (highs @ lows) \<union> {a..<e}"
    if ok: "highs \<noteq> [] \<longrightarrow> e \<le> lo (last highs)"
    using facts ok unfolding upd
    by (cases highs rule: rev_cases; cases lows) (auto simp: x ha_def la_def vma_inv_below_append)
  show "\<not> vma_inv_below u (vma_free_update highs lows offset sz)" if bad: "highs \<noteq> [] \<and> lo (last highs) < e"
    using facts bad unfolding upd by (auto simp: x ha_def la_def vma_inv_below_append)
qed

text \<open>The guards over numbers: an end at the top of the address space escapes the first one.\<close>

lemma util_vma_heap_free_run:
  fixes offset sz :: u64
  defines "a \<equiv> unat offset" and "e \<equiv> unat offset + unat sz"
  assumes "vma_inv heap" "0 < offset" "0 < sz" "unat offset + unat sz \<le> 2 ^ 64"
  defines "highs \<equiv> vma_highs offset heap" and "lows \<equiv> vma_lows offset heap"
  shows "util_vma_heap_free heap offset sz =
    (if highs \<noteq> [] \<and> e \<noteq> 2 ^ 64 \<and> lo (last highs) < e then None
     else if \<not> (lows \<noteq> [] \<longrightarrow> hi (hd lows) \<le> a) then None
     else if vma_inv (vma_free_update highs lows offset sz) then Some (vma_free_update highs lows offset sz) else None)"
proof -
  have inv: "vma_inv (highs @ lows)" using assms(3) vma_split(1) by (simp add: highs_def lows_def)
  have eu: "e < 2 ^ 64 + 1" using assms(6) by (simp add: e_def)
  have lowg: "lows \<noteq> [] \<and> \<not> (hoffset (hd lows) + hsize (hd lows) > hoffset (hd lows) \<and>
      hoffset (hd lows) + hsize (hd lows) \<le> offset) \<longleftrightarrow> \<not> (lows \<noteq> [] \<longrightarrow> hi (hd lows) \<le> a)"
  proof (cases "lows = []")
    case False
    have "lo (last highs) < 2 ^ 64" using unat_lt2p [of "hoffset (last highs)"] by (simp add: lo_def)
    with inv False have "lo (hd lows) < hi (hd lows)" "hi (hd lows) \<le> 2 ^ 64"
      by (cases lows; auto simp: vma_inv_below_append split: if_splits)+
    then show ?thesis using low_guard [of "hd lows" offset] False by (simp add: a_def)
  qed simp
  have "e = 2 ^ 64 \<or> e < 2 ^ 64" using eu by linarith
  then have highg: "\<not> offset + sz \<le> hoffset (last highs) \<longleftrightarrow> e \<noteq> 2 ^ 64 \<and> lo (last highs) < e"
    using range_end(3,4) [OF assms(5), of offset] by (auto simp: e_def lo_def word_le_nat_alt)
  have pre: "\<not> (\<not> (offset > 0 \<and> sz > 0 \<and> (offset + sz = 0 \<or> offset + sz > offset)) \<or> \<not> util_vma_heap_validate heap)"
    using assms(3-6) range_end(2) [OF assms(5), of offset] by (simp add: validate_iff)
  show ?thesis
    unfolding util_vma_heap_free_def Let_def highs_def [symmetric] lows_def [symmetric] lowg highg validate_iff
    using pre by (simp only: if_False validate_iff)
qed

text \<open>
  Freeing succeeds exactly for ranges with no free address in them: the assertions and the final
  validation catch every double free.
\<close>

lemma util_vma_heap_free_spec:
  assumes "vma_inv heap" "0 < offset" "0 < sz" "unat offset + unat sz \<le> 2 ^ 64"
  shows "if {unat offset..<unat offset + unat sz} \<inter> space heap = {}
    then \<exists>heap'. util_vma_heap_free heap offset sz = Some heap' \<and> vma_inv heap' \<and>
      space heap' = space heap \<union> {unat offset..<unat offset + unat sz}
    else util_vma_heap_free heap offset sz = None"
proof -
  define highs where "highs = vma_highs offset heap"
  define lows where "lows = vma_lows offset heap"
  define a where "a = unat offset"
  define e where "e = unat offset + unat sz"
  have heap: "highs @ lows = heap" and h: "\<And>h. h \<in> set highs \<Longrightarrow> a < lo h" and l: "lows \<noteq> [] \<Longrightarrow> lo (hd lows) \<le> a"
    using vma_split [where offset = offset and heap = heap] by (simp_all add: highs_def lows_def a_def)
  have inv: "vma_inv (highs @ lows)" using assms(1) heap by simp
  have n: "0 < unat sz" using assms(3) by (simp add: word_less_nat_alt)
  have disj: "{a..<e} \<inter> space heap = {} \<longleftrightarrow>
    (highs \<noteq> [] \<longrightarrow> e \<le> lo (last highs)) \<and> (lows \<noteq> [] \<longrightarrow> hi (hd lows) \<le> a)"
    using free_disjoint_iff [OF inv n h l] by (simp add: heap a_def e_def)
  have eu: "e < 2 ^ 64 + 1" using assms(4) by (simp add: e_def)
  note run = util_vma_heap_free_run [OF assms, folded highs_def lows_def a_def e_def]
  note upd = vma_free_update_inv [OF inv order_refl eu [unfolded e_def] assms(2,3), folded a_def e_def, unfolded heap]
  have "if (highs \<noteq> [] \<longrightarrow> e \<le> lo (last highs)) \<and> (lows \<noteq> [] \<longrightarrow> hi (hd lows) \<le> a)
    then \<exists>heap'. util_vma_heap_free heap offset sz = Some heap' \<and> vma_inv heap' \<and>
      space heap' = space heap \<union> {a..<e}
    else util_vma_heap_free heap offset sz = None"
  proof (cases "lows \<noteq> [] \<longrightarrow> hi (hd lows) \<le> a")
    case False
    then show ?thesis unfolding run by simp
  next
    case low: True
    show ?thesis
    proof (cases "highs \<noteq> [] \<and> lo (last highs) < e")
      case True
      then have "util_vma_heap_free heap offset sz = None" using upd(3) [OF low True] low unfolding run by simp
      then show ?thesis using True by simp
    next
      case False
      then have ok: "highs \<noteq> [] \<longrightarrow> e \<le> lo (last highs)" by auto
      have "\<not> (highs \<noteq> [] \<and> e \<noteq> 2 ^ 64 \<and> lo (last highs) < e)" using False by blast
      then have "util_vma_heap_free heap offset sz = Some (vma_free_update highs lows offset sz)"
        using upd(1) [OF low ok] low unfolding run by (subst if_not_P) simp_all
      then show ?thesis using ok low upd(1,2) [OF low ok] by simp
    qed
  qed
  with disj show ?thesis unfolding e_def [symmetric] unfolding a_def [symmetric] by presburger
qed

section \<open>The contract of a range allocator\<close>

abbreviation block :: "u64 \<Rightarrow> u64 \<Rightarrow> nat set" where
  "block off sz \<equiv> {unat off..<unat off + unat sz}"

locale range_allocator =
  fixes inv :: "'h \<Rightarrow> bool" and avail :: "'h \<Rightarrow> nat set"
    and alloc :: "'h \<Rightarrow> u64 \<Rightarrow> u64 \<Rightarrow> (u64 \<times> 'h) option" and dealloc :: "'h \<Rightarrow> u64 \<Rightarrow> u64 \<Rightarrow> 'h option"
  assumes alloc_law: "inv h \<Longrightarrow> 0 < sz \<Longrightarrow> 0 < al \<Longrightarrow> \<exists>off h'. alloc h sz al = Some (off, h') \<and> inv h' \<and>
      (off = 0 \<longrightarrow> h' = h) \<and> alloc_post (avail h) (unat sz) (unat al) (unat off) (avail h')"
    and alloc_args: "alloc h sz al \<noteq> None \<Longrightarrow> inv h \<and> 0 < sz \<and> 0 < al"
    and dealloc_law: "inv h \<Longrightarrow> 0 < off \<Longrightarrow> 0 < sz \<Longrightarrow> unat off + unat sz \<le> 2 ^ 64 \<Longrightarrow>
      if block off sz \<inter> avail h = {}
      then \<exists>h'. dealloc h off sz = Some h' \<and> inv h' \<and> avail h' = avail h \<union> block off sz
      else dealloc h off sz = None"
    and canonical: "inv h \<Longrightarrow> inv h' \<Longrightarrow> avail h = avail h' \<Longrightarrow> h = h'"
    and avail_bound: "inv h \<Longrightarrow> avail h \<subseteq> {1..<2 ^ 64}"
begin

text \<open>What a successful allocation hands out.\<close>

lemma alloc_block:
  assumes "alloc h sz al = Some (off, h')" "off \<noteq> 0"
  shows "inv h" "inv h'" "0 < sz" "block off sz \<subseteq> avail h" "avail h' = avail h - block off sz"
    "unat off + unat sz \<le> 2 ^ 64"
proof -
  have args: "inv h \<and> 0 < sz \<and> 0 < al" using assms(1) alloc_args [of h sz al] by simp
  then show "inv h" "0 < sz" by simp_all
  have "unat off \<noteq> 0" using assms(2) by (simp add: unat_eq_zero)
  then show "inv h'" "block off sz \<subseteq> avail h" "avail h' = avail h - block off sz"
    using alloc_law [of h sz al] args assms(1) by (auto simp: alloc_post_def)
  then have "block off sz \<subseteq> {1..<2 ^ 64}" using avail_bound args by blast
  moreover have "0 < unat sz" using args by (simp add: word_less_nat_alt)
  ultimately show "unat off + unat sz \<le> 2 ^ 64" by auto
qed

lemma alloc_dealloc:
  assumes "alloc h sz al = Some (off, h')" "off \<noteq> 0"
  shows "dealloc h' off sz = Some h"
proof -
  note b = alloc_block [OF assms]
  have "0 < off" using assms(2) by (simp add: word_neq_0_conv)
  then obtain h'' where h'': "dealloc h' off sz = Some h''" "inv h''" "avail h'' = avail h' \<union> block off sz"
    using dealloc_law [OF b(2) _ b(3,6)] b(5) by auto
  have "avail h'' = avail h" using h''(3) b(4,5) by blast
  then have "h'' = h" using canonical b(1) h''(2) by blast
  with h''(1) show ?thesis by simp
qed

text \<open>The live blocks of a client: valid, disjoint from each other and from what is available.\<close>

fun live_ok :: "nat set \<Rightarrow> (u64 \<times> u64) list \<Rightarrow> bool" where
  "live_ok S [] = True"
| "live_ok S ((off, sz) # L) \<longleftrightarrow> 0 < off \<and> 0 < sz \<and> unat off + unat sz \<le> 2 ^ 64 \<and>
     block off sz \<inter> S = {} \<and> live_ok (S \<union> block off sz) L"

lemma live_ok_mem:
  "live_ok S L \<Longrightarrow> (off, sz) \<in> set L \<Longrightarrow>
     0 < off \<and> 0 < sz \<and> unat off + unat sz \<le> 2 ^ 64 \<and> block off sz \<inter> S = {} \<and>
     live_ok (S \<union> block off sz) (remove1 (off, sz) L)"
proof (induction L arbitrary: S)
  case (Cons b L)
  obtain o' s' where b: "b = (o', s')" by (cases b)
  show ?case
  proof (cases "(off, sz) = b")
    case False
    then have "(off, sz) \<in> set L" using Cons.prems(2) by simp
    from Cons.IH [OF _ this, of "S \<union> block o' s'"] Cons.prems(1) b have "0 < off \<and> 0 < sz \<and> unat off + unat sz \<le> 2 ^ 64 \<and> block off sz \<inter> (S \<union> block o' s') = {} \<and>
      live_ok (S \<union> block o' s' \<union> block off sz) (remove1 (off, sz) L)" by simp
    then show ?thesis using Cons.prems(1) b False by (auto simp: Un_ac)
  qed (use Cons.prems b in auto)
qed simp

lemma live_ok_disjoint:
  "live_ok S L \<Longrightarrow> i < j \<Longrightarrow> j < length L \<Longrightarrow>
     block (fst (L ! i)) (snd (L ! i)) \<inter> block (fst (L ! j)) (snd (L ! j)) = {}"
proof (induction L arbitrary: S i j)
  case (Cons b L)
  obtain o' s' where b: "b = (o', s')" by (cases b)
  obtain j' where j: "j = Suc j'" using Cons.prems(2) by (cases j) auto
  show ?case
  proof (cases i)
    case 0
    have "L ! j' \<in> set L" using Cons.prems(3) j by simp
    then have "block (fst (L ! j')) (snd (L ! j')) \<inter> (S \<union> block o' s') = {}"
      using live_ok_mem [of "S \<union> block o' s'" L "fst (L ! j')" "snd (L ! j')"] Cons.prems(1) b by simp
    then have "block o' s' \<inter> block (fst (L ! j')) (snd (L ! j')) = {}" by blast
    then show ?thesis using 0 j b by simp
  next
    case (Suc i')
    then show ?thesis using Cons.IH [of "S \<union> block o' s'" i' j'] Cons.prems j b by simp
  qed
qed simp

lemma live_ok_alloc:
  assumes "alloc h sz al = Some (off, h')" "off \<noteq> 0" "live_ok (avail h) L"
  shows "live_ok (avail h') ((off, sz) # L)"
proof -
  note b = alloc_block [OF assms(1,2)]
  have "avail h' \<union> block off sz = avail h" using b(4,5) by blast
  moreover have "0 < off" using assms(2) by (simp add: word_neq_0_conv)
  ultimately show ?thesis using b(3,5,6) assms(3) by auto
qed

lemma live_ok_dealloc:
  assumes "inv h" "live_ok (avail h) L" "(off, sz) \<in> set L"
  shows "\<exists>h'. dealloc h off sz = Some h' \<and> inv h' \<and> avail h' = avail h \<union> block off sz \<and>
    live_ok (avail h') (remove1 (off, sz) L)"
  using live_ok_mem [OF assms(2,3)] dealloc_law [OF assms(1), of off sz] by auto

end

interpretation vma: range_allocator vma_inv space util_vma_heap_alloc util_vma_heap_free
proof unfold_locales
  show "\<exists>off h'. util_vma_heap_alloc h sz al = Some (off, h') \<and> vma_inv h' \<and> (off = 0 \<longrightarrow> h' = h) \<and>
      alloc_post (space h) (unat sz) (unat al) (unat off) (space h')"
    if "vma_inv h" "0 < sz" "0 < al" for h sz al
    using that by (rule util_vma_heap_alloc_spec)
  show "vma_inv h \<and> 0 < sz \<and> 0 < al" if "util_vma_heap_alloc h sz al \<noteq> None" for h sz al
    using that by (auto simp: util_vma_heap_alloc_def validate_iff split: if_splits)
  show "if block off sz \<inter> space h = {}
      then \<exists>h'. util_vma_heap_free h off sz = Some h' \<and> vma_inv h' \<and> space h' = space h \<union> block off sz
      else util_vma_heap_free h off sz = None"
    if "vma_inv h" "0 < off" "0 < sz" "unat off + unat sz \<le> 2 ^ 64" for h off sz
    using that by (rule util_vma_heap_free_spec)
  show "h = h'" if "vma_inv h" "vma_inv h'" "space h = space h'" for h h'
    using that by (rule space_unique)
  show "space h \<subseteq> {1..<2 ^ 64}" if "vma_inv h" for h
    using space_below [OF that] by fastforce
qed

section \<open>A client of the heap\<close>

text \<open>
  The states a client reaches: the heap and the blocks it holds. It allocates, has an allocation
  refused, or gives back a block it holds.
\<close>

inductive vma_step :: "util_vma_heap \<times> (u64 \<times> u64) list \<Rightarrow> util_vma_heap \<times> (u64 \<times> u64) list \<Rightarrow> bool" where
  step_alloc: "util_vma_heap_alloc heap sz alignment = Some (off, heap') \<Longrightarrow> off \<noteq> 0 \<Longrightarrow>
    vma_step (heap, live) (heap', (off, sz) # live)"
| step_full: "util_vma_heap_alloc heap sz alignment = Some (0, heap') \<Longrightarrow>
    vma_step (heap, live) (heap', live)"
| step_free: "(off, sz) \<in> set live \<Longrightarrow> util_vma_heap_free heap off sz = Some heap' \<Longrightarrow>
    vma_step (heap, live) (heap', remove1 (off, sz) live)"

definition held :: "(u64 \<times> u64) list \<Rightarrow> nat set" where
  "held live = (\<Union>(off, sz)\<in>set live. block off sz)"

definition client_inv :: "nat set \<Rightarrow> util_vma_heap \<times> (u64 \<times> u64) list \<Rightarrow> bool" where
  "client_inv arena = (\<lambda>(heap, live).
     vma_inv heap \<and> vma.live_ok (space heap) live \<and> space heap \<union> held live = arena)"

lemma held_remove1: "(off, sz) \<in> set live \<Longrightarrow> held live = block off sz \<union> held (remove1 (off, sz) live)"
proof -
  assume "(off, sz) \<in> set live"
  then have "set live = insert (off, sz) (set (remove1 (off, sz) live))"
    using in_set_remove1 set_remove1_subset by fastforce
  then show ?thesis by (simp add: held_def)
qed

lemma client_inv_step: "vma_step s s' \<Longrightarrow> client_inv arena s \<Longrightarrow> client_inv arena s'"
proof (induction rule: vma_step.induct)
  case (step_alloc heap sz alignment off heap' live)
  note b = vma.alloc_block [OF step_alloc(1,2)]
  have "space heap = space heap' \<union> block off sz" using b(4,5) by blast
  then have "space heap' \<union> held ((off, sz) # live) = space heap \<union> held live"
    by (auto simp: held_def)
  with vma.live_ok_alloc [OF step_alloc(1,2), of live] b(2) step_alloc(3) show ?case
    by (simp add: client_inv_def del: vma.live_ok.simps)
next
  case (step_full heap sz alignment heap' live)
  have "heap' = heap"
    using util_vma_heap_alloc_spec [of heap sz alignment] vma.alloc_args [of heap sz alignment] step_full(1) by auto
  with step_full(2) show ?case by simp
next
  case (step_free off sz live heap heap')
  then have inv: "vma_inv heap" "vma.live_ok (space heap) live" "space heap \<union> held live = arena"
    by (simp_all add: client_inv_def)
  from vma.live_ok_dealloc [OF inv(1,2) step_free(1)] step_free(2)
  have "vma_inv heap'" "space heap' = space heap \<union> block off sz"
    "vma.live_ok (space heap') (remove1 (off, sz) live)" by auto
  with inv(3) held_remove1 [OF step_free(1)] show ?case by (simp add: client_inv_def Un_assoc)
qed

lemma client_inv_reach: "vma_step\<^sup>*\<^sup>* s s' \<Longrightarrow> client_inv arena s \<Longrightarrow> client_inv arena s'"
  by (induction rule: rtranclp_induct) (auto intro: client_inv_step)

lemma util_vma_heap_init_spec:
  "util_vma_heap_init start sz = Some heap \<Longrightarrow> vma_inv heap \<and> space heap = block start sz"
proof -
  assume init: "util_vma_heap_init start sz = Some heap"
  then have "0 < start" "0 < sz" "start + sz = 0 \<or> start + sz > start"
    by (auto simp: util_vma_heap_init_def util_vma_heap_free_def split: if_splits)
  then show ?thesis
    using init util_vma_heap_free_spec [of "[]" start sz] range_end(2) [of sz start]
    by (auto simp: util_vma_heap_init_def)
qed

section \<open>Properties\<close>

text \<open>
  C15: an allocation from a valid heap never fails an assertion and leaves a valid heap. It
  returns 0 exactly when no aligned block of the size consists of free addresses, and then the
  heap is unchanged; otherwise it returns the highest such block and takes exactly its addresses
  out of the free space.
\<close>

theorem util_vma_heap_alloc_correct:
  assumes "util_vma_heap_validate heap" "0 < sz" "0 < alignment"
  shows "\<exists>off heap'. util_vma_heap_alloc heap sz alignment = Some (off, heap') \<and>
    util_vma_heap_validate heap' \<and>
    (if off = 0 then heap' = heap \<and> (\<forall>a. unat alignment dvd a \<longrightarrow> \<not> {a..<a + unat sz} \<subseteq> space heap)
     else unat alignment dvd unat off \<and> block off sz \<subseteq> space heap \<and>
       space heap' = space heap - block off sz \<and>
       (\<forall>a. unat alignment dvd a \<and> {a..<a + unat sz} \<subseteq> space heap \<longrightarrow> a \<le> unat off))"
proof -
  obtain off heap' where run: "util_vma_heap_alloc heap sz alignment = Some (off, heap')" "vma_inv heap'"
    "off = 0 \<longrightarrow> heap' = heap" "alloc_post (space heap) (unat sz) (unat alignment) (unat off) (space heap')"
    using util_vma_heap_alloc_spec assms unfolding validate_iff by blast
  have "off = 0 \<longleftrightarrow> unat off = 0" by (simp add: unat_eq_zero)
  then show ?thesis using run unfolding validate_iff alloc_post_def by (intro exI [of _ off] exI [of _ heap']) auto
qed

theorem util_vma_heap_alloc_correct_witness:
  "util_vma_heap_validate [\<lparr>hoffset = 4096, hsize = 8192\<rparr>] \<and>
   (\<exists>off heap'. util_vma_heap_alloc [\<lparr>hoffset = 4096, hsize = 8192\<rparr>] 100 4096 = Some (off, heap') \<and>
      util_vma_heap_validate heap')"
proof -
  have ok: "util_vma_heap_validate [\<lparr>hoffset = 4096, hsize = 8192\<rparr>]" by simp
  from util_vma_heap_alloc_correct [OF ok, of 100 4096] ok show ?thesis by auto
qed

text \<open>
  C16: giving back a range succeeds exactly when it is not empty, does not start at address 0, ends
  within the address space and contains no address that is free already; then exactly the range
  becomes free. In every other case, a double free also of a range that wraps to the top of the
  address space included, an assertion fails.
\<close>

theorem util_vma_heap_free_correct:
  assumes "util_vma_heap_validate heap"
  shows "if 0 < offset \<and> 0 < sz \<and> unat offset + unat sz \<le> 2 ^ 64 \<and> block offset sz \<inter> space heap = {}
    then \<exists>heap'. util_vma_heap_free heap offset sz = Some heap' \<and> util_vma_heap_validate heap' \<and>
      space heap' = space heap \<union> block offset sz
    else util_vma_heap_free heap offset sz = None"
proof (cases "0 < offset \<and> 0 < sz \<and> unat offset + unat sz \<le> 2 ^ 64")
  case True
  then show ?thesis using util_vma_heap_free_spec [of heap offset sz] assms unfolding validate_iff by auto
next
  case False
  then have "\<not> (0 < offset \<and> 0 < sz \<and> (offset + sz = 0 \<or> offset < offset + sz))"
    using range_end(2) [of sz offset] by blast
  then show ?thesis using False by (auto simp: util_vma_heap_free_def)
qed

theorem util_vma_heap_free_correct_witness:
  "util_vma_heap_free [\<lparr>hoffset = 4096, hsize = 4096\<rparr>] 4096 16 = None \<and>
   util_vma_heap_free [\<lparr>hoffset = 4096, hsize = 4096\<rparr>] 0 16 = None \<and>
   util_vma_heap_free [\<lparr>hoffset = 4096, hsize = 4096\<rparr>] 8192 16 \<noteq> None"
proof -
  have ok: "util_vma_heap_validate [\<lparr>hoffset = 4096, hsize = 4096\<rparr>]" by simp
  show ?thesis
    using util_vma_heap_free_correct [OF ok, of 4096 16] util_vma_heap_free_correct [OF ok, of 0 16]
      util_vma_heap_free_correct [OF ok, of 8192 16]
    by (auto simp: lo_def hi_def split: if_splits)
qed

text \<open>
  C17: freeing the block an allocation returned restores the heap, hole by hole: nothing is left
  fragmented.
\<close>

theorem util_vma_alloc_free_roundtrip:
  assumes "util_vma_heap_alloc heap sz alignment = Some (off, heap')" "off \<noteq> 0"
  shows "util_vma_heap_free heap' off sz = Some heap"
  by (rule vma.alloc_dealloc [OF assms])

theorem util_vma_alloc_free_roundtrip_witness:
  "\<exists>heap'. util_vma_heap_alloc [\<lparr>hoffset = 4096, hsize = 8192\<rparr>] 100 4096 = Some (8192, heap') \<and>
     util_vma_heap_free heap' 8192 100 = Some [\<lparr>hoffset = 4096, hsize = 8192\<rparr>]"
proof -
  have "util_vma_heap_alloc [\<lparr>hoffset = 4096, hsize = 8192\<rparr>] 100 4096 =
    Some (8192, [\<lparr>hoffset = 8292, hsize = 3996\<rparr>, \<lparr>hoffset = 4096, hsize = 4096\<rparr>])"
    by code_simp
  with util_vma_alloc_free_roundtrip [OF this] show ?thesis by simp
qed

text \<open>
  C2: for every sequence of allocations and frees of a client of a freshly initialised heap, the
  blocks it holds are pairwise disjoint, they and the free addresses make up exactly the initial
  range, and no further request can fail an assertion: every block held can be given back and
  every allocation with a positive size and alignment returns.
\<close>

theorem vma_client_safe:
  assumes "util_vma_heap_init start len = Some heap0" "vma_step\<^sup>*\<^sup>* (heap0, []) (heap, live)"
  shows "space heap \<union> (\<Union>(off, sz)\<in>set live. block off sz) = block start len \<and>
    (\<forall>i j. i < j \<and> j < length live \<longrightarrow>
      block (fst (live ! i)) (snd (live ! i)) \<inter> block (fst (live ! j)) (snd (live ! j)) = {}) \<and>
    (\<forall>(off, sz)\<in>set live. block off sz \<inter> space heap = {} \<and> util_vma_heap_free heap off sz \<noteq> None) \<and>
    (\<forall>sz alignment. 0 < sz \<and> 0 < alignment \<longrightarrow> util_vma_heap_alloc heap sz alignment \<noteq> None)"
proof -
  have "client_inv (block start len) (heap0, [])"
    using util_vma_heap_init_spec [OF assms(1)] by (simp add: client_inv_def held_def)
  then have inv: "vma_inv heap" "vma.live_ok (space heap) live" "space heap \<union> held live = block start len"
    using client_inv_reach [OF assms(2)] by (auto simp: client_inv_def)
  have "\<forall>i j. i < j \<and> j < length live \<longrightarrow>
      block (fst (live ! i)) (snd (live ! i)) \<inter> block (fst (live ! j)) (snd (live ! j)) = {}"
    using vma.live_ok_disjoint [OF inv(2)] by blast
  moreover have "\<forall>(off, sz)\<in>set live. block off sz \<inter> space heap = {} \<and> util_vma_heap_free heap off sz \<noteq> None"
    using vma.live_ok_mem [OF inv(2)] vma.live_ok_dealloc [OF inv(1,2)] by fastforce
  moreover have "\<forall>sz alignment. 0 < sz \<and> 0 < alignment \<longrightarrow> util_vma_heap_alloc heap sz alignment \<noteq> None"
    using util_vma_heap_alloc_spec [OF inv(1)] by blast
  ultimately show ?thesis using inv(3) unfolding held_def by blast
qed

theorem vma_client_safe_witness:
  "\<exists>heap0 heap. util_vma_heap_init 4096 8192 = Some heap0 \<and> vma_step\<^sup>*\<^sup>* (heap0, []) (heap, [(8192, 100)]) \<and>
     space heap \<union> block 8192 100 = block 4096 8192 \<and> util_vma_heap_free heap 8192 100 \<noteq> None"
proof -
  have init: "util_vma_heap_init 4096 8192 = Some [\<lparr>hoffset = 4096, hsize = 8192\<rparr>]" by code_simp
  have "util_vma_heap_alloc [\<lparr>hoffset = 4096, hsize = 8192\<rparr>] 100 4096 =
    Some (8192, [\<lparr>hoffset = 8292, hsize = 3996\<rparr>, \<lparr>hoffset = 4096, hsize = 4096\<rparr>])" by code_simp
  then have "vma_step ([\<lparr>hoffset = 4096, hsize = 8192\<rparr>], [])
    ([\<lparr>hoffset = 8292, hsize = 3996\<rparr>, \<lparr>hoffset = 4096, hsize = 4096\<rparr>], [(8192, 100)])"
    by (rule step_alloc) simp
  then have reach: "vma_step\<^sup>*\<^sup>* ([\<lparr>hoffset = 4096, hsize = 8192\<rparr>], [])
    ([\<lparr>hoffset = 8292, hsize = 3996\<rparr>, \<lparr>hoffset = 4096, hsize = 4096\<rparr>], [(8192, 100)])" by blast
  show ?thesis
    using init reach vma_client_safe [OF init reach] by auto
qed

end
