(* ===== verification/Probing.thy ===== *)
theory Probing
  imports Mesa_Prelude
begin

text \<open>
  Open addressing, shared by \<^verbatim>\<open>src/util/hash_table.c\<close> and \<^verbatim>\<open>src/util/set.c\<close>. \<open>do_probe\<close> is the
  \<^verbatim>\<open>do ... while (hash_address != start_hash_address)\<close> loop of both files; it has no bound in the
  code, so it is a partial function, and \<open>do_probe_walk\<close> shows that it returns. The locale \<open>keys\<close>
  is the contract of the two callbacks of a table, and \<open>slot_table\<close> extends it with the view of an
  entry; its lemmas say what the loops find and what the updates of the tables keep.
\<close>

section \<open>The probe loop\<close>

text \<open>
  \<open>visit\<close> is the loop body at an address: \<open>Inl\<close> leaves the loop, \<open>Inr\<close> goes on with a new state.
\<close>

partial_function (option) do_probe ::
  "('a \<Rightarrow> 's \<Rightarrow> 'r + 's) \<Rightarrow> ('a \<Rightarrow> 'a) \<Rightarrow> 'a \<Rightarrow> 'a \<Rightarrow> 's \<Rightarrow> ('r + 's) option"
where
  "do_probe visit step start addr s =
     (case visit addr s of
        Inl r \<Rightarrow> Some (Inl r)
      | Inr s \<Rightarrow> let addr = step addr
                 in if addr \<noteq> start then do_probe visit step start addr s else Some (Inr s))"

text \<open>The same over the list of the addresses it visits.\<close>

fun walk :: "('a \<Rightarrow> 's \<Rightarrow> 'r + 's) \<Rightarrow> 'a list \<Rightarrow> 's \<Rightarrow> 'r + 's" where
  "walk visit [] s = Inr s"
| "walk visit (a # as) s = (case visit a s of Inl r \<Rightarrow> Inl r | Inr s \<Rightarrow> walk visit as s)"

lemma walk_map: "walk visit (map f as) s = walk (\<lambda>a. visit (f a)) as s"
  by (induction as arbitrary: s) (auto split: sum.split)

lemma do_probe_walk:
  assumes step: "\<And>j. step (f j) = f (Suc j)" and period: "f T = f 0"
    and before: "\<And>j. 0 < j \<Longrightarrow> j < T \<Longrightarrow> f j \<noteq> f 0"
  shows "j < T \<Longrightarrow> do_probe visit step (f 0) (f j) s = Some (walk visit (map f [j..<T]) s)"
proof (induction "T - j" arbitrary: j s rule: less_induct)
  case less
  have up: "[j..<T] = j # [Suc j..<T]" using less.prems by (simp add: upt_conv_Cons)
  show ?case
  proof (cases "visit (f j) s")
    case (Inl r)
    then show ?thesis by (subst do_probe.simps) (simp add: up)
  next
    case (Inr s')
    show ?thesis
    proof (cases "Suc j = T")
      case True
      then have "f (Suc j) = f 0" using period by simp
      then show ?thesis using True Inr by (subst do_probe.simps) (simp add: step up)
    next
      case False
      then have "f (Suc j) \<noteq> f 0" using before [of "Suc j"] less.prems by simp
      moreover have "do_probe visit step (f 0) (f (Suc j)) s' = Some (walk visit (map f [Suc j..<T]) s')"
        using less.hyps [of "Suc j"] False less.prems by simp
      ultimately show ?thesis using Inr by (subst do_probe.simps) (simp add: step up)
    qed
  qed
qed

lemma walk_cong:
  assumes "\<And>a s. a \<in> set as \<Longrightarrow> visit a s = visit' a s"
  shows "walk visit as s = walk visit' as s"
  using assms by (induction as arbitrary: s) (auto split: sum.split)

text \<open>The loop only depends on what the body does at the addresses it can reach.\<close>

lemma do_probe_transfer:
  assumes "do_probe visit step start a s = Some r" "\<And>a s. Q a \<Longrightarrow> visit a s = visit' a s" "\<And>a. Q (step a)" "Q a"
  shows "do_probe visit' step start a s = Some r"
proof -
  let ?P = "\<lambda>visit2 step2 start2 a s r.
    visit2 = visit \<longrightarrow> step2 = step \<longrightarrow> start2 = start \<longrightarrow> Q a \<longrightarrow> do_probe visit' step start a s = Some r"
  have "?P visit step start a s r"
  proof (rule do_probe.raw_induct [OF _ assms(1), of ?P], intro impI)
    fix f visit2 step2 start2 a s r
    assume IH: "\<And>visit2 step2 start2 a s r. f visit2 step2 start2 a s = Some r \<Longrightarrow> ?P visit2 step2 start2 a s r"
      and body: "(case visit2 a s of Inl r \<Rightarrow> Some (Inl r) | Inr s \<Rightarrow>
          let addr = step2 a in if addr \<noteq> start2 then f visit2 step2 start2 addr s else Some (Inr s)) = Some r"
      and e: "visit2 = visit" "step2 = step" "start2 = start" "Q a"
    show "do_probe visit' step start a s = Some r"
    proof (cases "visit a s")
      case (Inl x)
      then have "visit' a s = Inl x" "r = Inl x" using body e assms(2) [OF e(4)] by simp_all
      then show ?thesis by (subst do_probe.simps) simp
    next
      case (Inr s')
      show ?thesis
      proof (cases "step a = start")
        case True
        then have "visit' a s = Inr s'" "r = Inr s'" using body e assms(2) [OF e(4)] Inr by simp_all
        then show ?thesis using True by (subst do_probe.simps) simp
      next
        case False
        then have "do_probe visit' step start (step a) s' = Some r" using body e Inr IH assms(3) by simp
        moreover have "visit' a s = Inr s'" using assms(2) [OF e(4)] Inr by simp
        ultimately show ?thesis using False by (subst do_probe.simps) simp
      qed
    qed
  qed
  then show ?thesis using assms(4) by simp
qed

lemma do_probe_cong:
  assumes "\<And>a s. Q a \<Longrightarrow> visit a s = visit' a s" "\<And>a. Q (step a)" "Q a"
  shows "do_probe visit step start a s = do_probe visit' step start a s"
proof -
  have "do_probe visit' step start a s = Some r \<longleftrightarrow> do_probe visit step start a s = Some r" for r
    using do_probe_transfer [of visit step start a s r Q visit'] do_probe_transfer [of visit' step start a s r Q visit] assms
    by metis
  then show ?thesis by (metis option.exhaust)
qed

text \<open>What holds of the state after every round holds of the result.\<close>

lemma do_probe_post:
  assumes "do_probe visit step start a s = Some r"
    and "\<And>a s. Q a \<Longrightarrow> R s \<Longrightarrow> case visit a s of Inl x \<Rightarrow> P (Inl x) | Inr s \<Rightarrow> R s" "\<And>s. R s \<Longrightarrow> P (Inr s)"
    and "\<And>a. Q (step a)" "Q a" "R s"
  shows "P r"
proof -
  let ?P = "\<lambda>visit2 step2 start2 a s r. visit2 = visit \<longrightarrow> step2 = step \<longrightarrow> start2 = start \<longrightarrow> Q a \<longrightarrow> R s \<longrightarrow> P r"
  have "?P visit step start a s r"
  proof (rule do_probe.raw_induct [OF _ assms(1), of ?P], intro impI)
    fix f visit2 step2 start2 a s r
    assume IH: "\<And>visit2 step2 start2 a s r. f visit2 step2 start2 a s = Some r \<Longrightarrow> ?P visit2 step2 start2 a s r"
      and body: "(case visit2 a s of Inl r \<Rightarrow> Some (Inl r) | Inr s \<Rightarrow>
          let addr = step2 a in if addr \<noteq> start2 then f visit2 step2 start2 addr s else Some (Inr s)) = Some r"
      and e: "visit2 = visit" "step2 = step" "start2 = start" "Q a" "R s"
    show "P r"
    proof (cases "visit a s")
      case (Inl x)
      then have "r = Inl x" using body e by simp
      moreover have "P (Inl x)" using assms(2) [OF e(4,5)] Inl by simp
      ultimately show ?thesis by simp
    next
      case (Inr s')
      then have s': "R s'" using assms(2) [OF e(4,5)] by simp
      show ?thesis
      proof (cases "step a = start")
        case True
        then have "r = Inr s'" using body e Inr by simp
        then show ?thesis using assms(3) [OF s'] by simp
      next
        case False
        then have "f visit step start (step a) s' = Some r" using body e Inr by simp
        then show ?thesis using IH assms(4) s' by blast
      qed
    qed
  qed
  then show ?thesis using assms(5,6) by simp
qed

section \<open>Double hashing\<close>

definition probe :: "nat \<Rightarrow> nat \<Rightarrow> nat \<Rightarrow> nat \<Rightarrow> nat" where
  "probe n d s j = (s + j * d) mod n"

definition period :: "nat \<Rightarrow> nat \<Rightarrow> nat" where
  "period n d = (LEAST j. 0 < j \<and> n dvd j * d)"

lemma period:
  assumes "0 < n"
  shows "0 < period n d" "n dvd period n d * d" "0 < j \<Longrightarrow> j < period n d \<Longrightarrow> \<not> n dvd j * d"
proof -
  have ex: "0 < n \<and> n dvd n * d" using assms by simp
  from LeastI [of "\<lambda>j. 0 < j \<and> n dvd j * d", OF ex]
  show "0 < period n d" "n dvd period n d * d" unfolding period_def by simp_all
  show "0 < j \<Longrightarrow> j < period n d \<Longrightarrow> \<not> n dvd j * d"
    using not_less_Least [of j "\<lambda>j. 0 < j \<and> n dvd j * d"] unfolding period_def by blast
qed

lemma period_coprime:
  assumes "0 < n" "coprime d n"
  shows "period n d = n"
proof -
  have "n dvd period n d" using period(2) [OF assms(1), of d] assms(2)
    by (metis coprime_commute coprime_dvd_mult_left_iff)
  then have "n \<le> period n d" using period(1) [OF assms(1)] by (rule dvd_imp_le)
  moreover have "\<not> n < period n d" using period(3) [OF assms(1), of n d] assms(1) by auto
  ultimately show ?thesis by simp
qed

lemma probe_Suc: "(probe n d s j + d) mod n = probe n d s (Suc j)"
  unfolding probe_def mod_add_left_eq by (simp add: add.commute add.left_commute)

lemma probe_eq:
  assumes "i \<le> j"
  shows "probe n d s i = probe n d s j \<longleftrightarrow> n dvd (j - i) * d"
proof -
  have "s + j * d = (s + i * d) + (j - i) * d"
    using assms by (metis add.assoc add_mult_distrib le_add_diff_inverse)
  then have "probe n d s j = ((s + i * d) + (j - i) * d) mod n" unfolding probe_def by (simp only:)
  then show ?thesis unfolding probe_def by (metis mod_eq_dvd_iff_nat add_diff_cancel_left' le_add1)
qed

definition probes :: "nat \<Rightarrow> nat \<Rightarrow> nat \<Rightarrow> nat list" where
  "probes n d s = map (probe n d s) [0..<period n d]"

lemma distinct_probes:
  assumes "0 < n"
  shows "distinct (probes n d s)"
proof -
  have "probe n d s i \<noteq> probe n d s j" if "i < j" "j < period n d" for i j
    using that period(3) [OF assms, of "j - i" d] probe_eq [of i j n d s] by simp
  then have "inj_on (probe n d s) {0..<period n d}"
    by (auto intro!: linorder_inj_onI')
  then show ?thesis by (simp add: probes_def distinct_map)
qed

lemma probes_bound: "0 < n \<Longrightarrow> set (probes n d s) \<subseteq> {..<n}"
  by (auto simp: probes_def probe_def)

lemma probes_cover:
  assumes "0 < n" "coprime d n"
  shows "set (probes n d s) = {..<n}"
proof (rule card_subset_eq)
  show "card (set (probes n d s)) = card {..<n}"
    using distinct_card [OF distinct_probes [OF assms(1), of d s]] period_coprime [OF assms]
    by (simp add: probes_def)
qed (simp_all add: probes_bound [OF assms(1)])

section \<open>Lists\<close>

lemma length_filter_update:
  "i < length t \<Longrightarrow> length (filter P (t[i := e])) + of_bool (P (t ! i)) = length (filter P t) + of_bool (P e)"
proof (induction t arbitrary: i)
  case (Cons x t)
  then show ?case by (cases i) auto
qed simp

lemma filter_upt_find:
  "filter P [s..<n] = (case List.find P [s..<n] of None \<Rightarrow> [] | Some i \<Rightarrow> i # filter P [Suc i..<n])"
proof (induction "n - s" arbitrary: s)
  case (Suc m)
  then have up: "[s..<n] = s # [Suc s..<n]" by (simp add: upt_conv_Cons)
  then show ?case using Suc by (cases "P s") simp_all
qed simp

section \<open>Keys\<close>

text \<open>
  What a table relies on: its equality callback is an equivalence, and equal keys have the same
  hash.
\<close>

locale keys =
  fixes H :: "'k \<Rightarrow> u32" and eq :: "'k \<Rightarrow> 'k \<Rightarrow> bool"
  assumes eq_refl [simp]: "eq k k"
    and eq_sym: "eq k l \<Longrightarrow> eq l k"
    and eq_trans: "eq k l \<Longrightarrow> eq l m \<Longrightarrow> eq k m"
    and hash_eq: "eq k l \<Longrightarrow> H k = H l"

section \<open>Tables of slots\<close>

text \<open>
  A slot is free, present, or a tombstone. A route is the list of slots visited for a hash. The
  invariant: a present entry is stored under its hash, on the route of that hash with no free
  slot before it, and no two present entries have equal keys.
\<close>

locale slot_table = keys H eq for H :: "'k \<Rightarrow> u32" and eq :: "'k \<Rightarrow> 'k \<Rightarrow> bool" +
  fixes free present :: "'e \<Rightarrow> bool" and key :: "'e \<Rightarrow> 'k" and hash :: "'e \<Rightarrow> u32"
  assumes free_not_present: "free e \<Longrightarrow> \<not> present e"
begin

definition reach :: "nat list \<Rightarrow> 'e list \<Rightarrow> nat \<Rightarrow> bool" where
  "reach as t i \<longleftrightarrow> (\<exists>xs ys. as = xs @ i # ys \<and> (\<forall>a\<in>set xs. \<not> free (t ! a)))"

definition mem :: "'e list \<Rightarrow> 'k \<Rightarrow> nat \<Rightarrow> bool" where
  "mem t k i \<longleftrightarrow> i < length t \<and> present (t ! i) \<and> eq k (key (t ! i))"

definition tinv :: "(u32 \<Rightarrow> nat list) \<Rightarrow> 'e list \<Rightarrow> bool" where
  "tinv route t \<longleftrightarrow>
     (\<forall>i<length t. present (t ! i) \<longrightarrow> hash (t ! i) = H (key (t ! i)) \<and> reach (route (hash (t ! i))) t i) \<and>
     (\<forall>i<length t. \<forall>j<length t. present (t ! i) \<and> present (t ! j) \<and> eq (key (t ! i)) (key (t ! j)) \<longrightarrow> i = j)"

definition routes :: "(u32 \<Rightarrow> nat list) \<Rightarrow> nat \<Rightarrow> bool" where
  "routes route n \<longleftrightarrow> (\<forall>h. distinct (route h) \<and> set (route h) \<subseteq> {..<n})"

lemma mem_unique: "tinv route t \<Longrightarrow> mem t k i \<Longrightarrow> mem t k j \<Longrightarrow> i = j"
  unfolding tinv_def mem_def by (meson eq_sym eq_trans)

lemma mem_hash: "tinv route t \<Longrightarrow> mem t k i \<Longrightarrow> hash (t ! i) = H k \<and> reach (route (H k)) t i"
  unfolding tinv_def mem_def using hash_eq by metis

text \<open>The body of the search loop and of the insertion loop.\<close>

definition find_visit :: "'e list \<Rightarrow> u32 \<Rightarrow> 'k \<Rightarrow> nat \<Rightarrow> unit \<Rightarrow> nat option + unit" where
  "find_visit t h k a _ =
     (if free (t ! a) then Inl None
      else if present (t ! a) \<and> hash (t ! a) = h \<and> eq k (key (t ! a)) then Inl (Some a) else Inr ())"

definition ins_visit :: "'e list \<Rightarrow> u32 \<Rightarrow> 'k \<Rightarrow> nat \<Rightarrow> nat option \<Rightarrow> (nat + nat option) + nat option" where
  "ins_visit t h k a av =
     (let av = (if \<not> present (t ! a) \<and> av = None then Some a else av)
      in if free (t ! a) then Inl (Inr av)
         else if present (t ! a) \<and> hash (t ! a) = h \<and> eq k (key (t ! a)) then Inl (Inl a) else Inr av)"

lemma walk_find_hit:
  assumes "mem t k i" "hash (t ! i) = h" "\<forall>a\<in>set xs. \<not> free (t ! a) \<and> \<not> mem t k a" "set xs \<subseteq> {..<length t}"
  shows "walk (find_visit t h k) (xs @ i # ys) s = Inl (Some i)"
  using assms(3,4)
proof (induction xs)
  case Nil
  then show ?case using assms(1,2) free_not_present by (auto simp: find_visit_def mem_def)
next
  case (Cons a xs)
  then have "find_visit t h k a s = Inr ()" by (auto simp: find_visit_def mem_def)
  then show ?case using Cons by simp
qed

lemma walk_find_miss:
  assumes "\<forall>a\<in>set as. \<not> mem t k a" "set as \<subseteq> {..<length t}"
  shows "walk (find_visit t h k) as s \<in> {Inl None, Inr ()}"
  using assms
proof (induction as)
  case (Cons a as)
  then have "find_visit t h k a s \<in> {Inl None, Inr ()}" by (auto simp: find_visit_def mem_def)
  then show ?case using Cons by auto
qed simp

lemma search_walk:
  assumes "tinv route t" "routes route (length t)"
  shows "mem t k i \<Longrightarrow> walk (find_visit t (H k) k) (route (H k)) s = Inl (Some i)"
    and "\<nexists>i. mem t k i \<Longrightarrow> walk (find_visit t (H k) k) (route (H k)) s \<in> {Inl None, Inr ()}"
proof -
  have r: "distinct (route (H k))" "set (route (H k)) \<subseteq> {..<length t}" using assms(2) by (auto simp: routes_def)
  show "walk (find_visit t (H k) k) (route (H k)) s = Inl (Some i)" if m: "mem t k i"
  proof -
    obtain xs ys where xs: "route (H k) = xs @ i # ys" "\<forall>a\<in>set xs. \<not> free (t ! a)"
      using mem_hash [OF assms(1) m] by (auto simp: reach_def)
    have "\<forall>a\<in>set xs. \<not> mem t k a" using mem_unique [OF assms(1) m] r(1) xs(1) by auto
    then show ?thesis using xs r(2) mem_hash [OF assms(1) m] by (simp add: walk_find_hit [OF m])
  qed
  show "walk (find_visit t (H k) k) (route (H k)) s \<in> {Inl None, Inr ()}" if "\<nexists>i. mem t k i"
    using that r(2) by (intro walk_find_miss) auto
qed

text \<open>The insertion loop finds an equal entry, or remembers the first slot that is not present.\<close>

lemma walk_ins_hit:
  assumes "mem t k i" "hash (t ! i) = h" "\<forall>a\<in>set xs. \<not> free (t ! a) \<and> \<not> mem t k a" "set xs \<subseteq> {..<length t}"
  shows "walk (ins_visit t h k) (xs @ i # ys) av = Inl (Inl i)"
  using assms(3,4)
proof (induction xs arbitrary: av)
  case Nil
  then show ?case using assms(1,2) free_not_present by (auto simp: ins_visit_def mem_def Let_def)
next
  case (Cons a xs)
  then obtain av' where "ins_visit t h k a av = Inr av'" by (auto simp: ins_visit_def mem_def Let_def)
  then show ?case using Cons by simp
qed

definition the_avail :: "(nat + nat option) + nat option \<Rightarrow> nat option" where
  "the_avail r = (case r of Inl (Inl _) \<Rightarrow> None | Inl (Inr av) \<Rightarrow> av | Inr av \<Rightarrow> av)"

lemma walk_ins_miss:
  assumes "\<forall>a\<in>set as. \<not> mem t k a" "set as \<subseteq> {..<length t}"
  shows "(\<nexists>i. walk (ins_visit t h k) as av = Inl (Inl i)) \<and>
    the_avail (walk (ins_visit t h k) as av) =
      (case av of Some a \<Rightarrow> Some a | None \<Rightarrow> List.find (\<lambda>a. \<not> present (t ! a)) as)"
  using assms
proof (induction as arbitrary: av)
  case Nil
  then show ?case by (cases av) (simp_all add: the_avail_def)
next
  case (Cons a as)
  have nm: "\<not> (present (t ! a) \<and> eq k (key (t ! a)))" using Cons.prems by (auto simp: mem_def)
  show ?case
  proof (cases "free (t ! a)")
    case True
    then show ?thesis using free_not_present [OF True]
      by (cases av) (auto simp: ins_visit_def the_avail_def Let_def)
  next
    case False
    then have "ins_visit t h k a av = Inr (if \<not> present (t ! a) \<and> av = None then Some a else av)"
      using nm by (auto simp: ins_visit_def Let_def)
    then show ?thesis using Cons by (cases av) auto
  qed
qed

text \<open>Updating a slot that is not present, replacing an equal entry, and leaving a tombstone.\<close>

lemma tinvI:
  assumes "\<And>i. i < length t \<Longrightarrow> present (t ! i) \<Longrightarrow> hash (t ! i) = H (key (t ! i)) \<and> reach (route (hash (t ! i))) t i"
    and "\<And>i j. i < length t \<Longrightarrow> j < length t \<Longrightarrow> present (t ! i) \<Longrightarrow> present (t ! j) \<Longrightarrow>
      eq (key (t ! i)) (key (t ! j)) \<Longrightarrow> i = j"
  shows "tinv route t"
  using assms unfolding tinv_def by blast

lemma reach_update:
  assumes "reach as t i" "\<not> free e"
  shows "reach as (t[a := e]) i"
proof -
  have "\<not> free (t[a := e] ! b)" if "\<not> free (t ! b)" for b
    using that assms(2) by (cases "a < length t"; cases "a = b") (auto simp: list_update_beyond)
  then show ?thesis using assms(1) unfolding reach_def by blast
qed

lemma tinv_keep:
  assumes "tinv route t" "i < length t" "present (t ! i)" "\<not> free e"
  shows "hash (t ! i) = H (key (t ! i)) \<and> reach (route (hash (t ! i))) (t[a := e]) i"
proof -
  have "hash (t ! i) = H (key (t ! i))" "reach (route (hash (t ! i))) t i"
    using assms(1-3) unfolding tinv_def by blast+
  with reach_update [OF this(2) assms(4)] show ?thesis by blast
qed

lemma tinv_unique:
  "tinv route t \<Longrightarrow> i < length t \<Longrightarrow> j < length t \<Longrightarrow> present (t ! i) \<Longrightarrow> present (t ! j) \<Longrightarrow>
    eq (key (t ! i)) (key (t ! j)) \<Longrightarrow> i = j"
  unfolding tinv_def by blast

lemma tinv_insert:
  assumes inv: "tinv route t" and miss: "\<nexists>i. mem t k i"
    and a: "a < length t" "\<not> present (t ! a)" "reach (route (H k)) t a"
    and e: "present e" "key e = k" "hash e = H k"
  shows "tinv route (t[a := e])" "mem (t[a := e]) l j \<longleftrightarrow> (if eq l k then j = a else mem t l j)"
proof -
  have nf: "\<not> free e" using e(1) free_not_present by blast
  have nth: "t[a := e] ! i = (if i = a then e else t ! i)" for i using a(1) by simp
  have other: "\<not> eq (key (t ! i)) k" if "i < length t" "present (t ! i)" for i
    using miss that eq_sym unfolding mem_def by blast
  show "tinv route (t[a := e])"
  proof (rule tinvI)
    fix i assume i: "i < length (t[a := e])" "present (t[a := e] ! i)"
    show "hash (t[a := e] ! i) = H (key (t[a := e] ! i)) \<and> reach (route (hash (t[a := e] ! i))) (t[a := e]) i"
    proof (cases "i = a")
      case True
      then show ?thesis using a e reach_update [OF a(3) nf, of a] by (simp add: nth)
    next
      case False
      then show ?thesis using i tinv_keep [OF inv _ _ nf, of i a] by (auto simp: nth)
    qed
  next
    fix i j
    assume "i < length (t[a := e])" "j < length (t[a := e])" "present (t[a := e] ! i)" "present (t[a := e] ! j)"
      "eq (key (t[a := e] ! i)) (key (t[a := e] ! j))"
    then show "i = j" using tinv_unique [OF inv, of i j] other [of i] other [of j] e(2) eq_sym [of k "key (t ! j)"]
      by (cases "i = a"; cases "j = a") (simp_all add: nth)
  qed
  show "mem (t[a := e]) l j \<longleftrightarrow> (if eq l k then j = a else mem t l j)"
  proof (cases "j = a")
    case True
    then show ?thesis using a e by (auto simp: mem_def nth)
  next
    case False
    have "\<not> eq l k" if "mem t l j"
      using that other [of j] eq_sym [of l "key (t ! j)"] eq_trans [of "key (t ! j)" l k] by (auto simp: mem_def)
    then show ?thesis using False by (auto simp: mem_def nth)
  qed
qed

lemma tinv_replace:
  assumes inv: "tinv route t" and m: "mem t k i" and e: "present e" "key e = k" "hash e = H k"
  shows "tinv route (t[i := e])" "mem (t[i := e]) l j \<longleftrightarrow> mem t l j"
proof -
  have i: "i < length t" "present (t ! i)" "eq k (key (t ! i))" using m by (simp_all add: mem_def)
  have nf: "\<not> free e" using e(1) free_not_present by blast
  have nth: "t[i := e] ! j = (if j = i then e else t ! j)" for j using i(1) by simp
  have same: "eq l k \<longleftrightarrow> eq l (key (t ! i))" "eq k l \<longleftrightarrow> eq (key (t ! i)) l" for l
    using i(3) eq_sym eq_trans by blast+
  show "tinv route (t[i := e])"
  proof (rule tinvI)
    fix j assume j: "j < length (t[i := e])" "present (t[i := e] ! j)"
    show "hash (t[i := e] ! j) = H (key (t[i := e] ! j)) \<and> reach (route (hash (t[i := e] ! j))) (t[i := e]) j"
    proof (cases "j = i")
      case True
      then show ?thesis using e i mem_hash [OF inv m] reach_update [OF _ nf] by (simp add: nth)
    next
      case False
      then show ?thesis using j tinv_keep [OF inv _ _ nf, of j i] by (auto simp: nth)
    qed
  next
    fix j j'
    assume "j < length (t[i := e])" "j' < length (t[i := e])" "present (t[i := e] ! j)" "present (t[i := e] ! j')"
      "eq (key (t[i := e] ! j)) (key (t[i := e] ! j'))"
    then show "j = j'" using tinv_unique [OF inv, of j j'] i e(2) same [of "key (t ! j)"] same [of "key (t ! j')"]
      by (cases "j = i"; cases "j' = i") (simp_all add: nth)
  qed
  show "mem (t[i := e]) l j \<longleftrightarrow> mem t l j"
    using i e same [of l] by (cases "j = i") (simp_all add: mem_def nth)
qed

lemma tinv_remove:
  assumes inv: "tinv route t" and i: "i < length t" and e: "\<not> present e" "\<not> free e"
  shows "tinv route (t[i := e])" "mem (t[i := e]) l j \<longleftrightarrow> mem t l j \<and> j \<noteq> i"
proof -
  have nth: "t[i := e] ! j = (if j = i then e else t ! j)" for j using i by simp
  show "tinv route (t[i := e])"
  proof (rule tinvI)
    fix j assume j: "j < length (t[i := e])" "present (t[i := e] ! j)"
    then have "j \<noteq> i" using e by (auto simp: nth)
    then show "hash (t[i := e] ! j) = H (key (t[i := e] ! j)) \<and> reach (route (hash (t[i := e] ! j))) (t[i := e]) j"
      using j tinv_keep [OF inv _ _ e(2), of j i] by (auto simp: nth)
  next
    fix j j'
    assume "j < length (t[i := e])" "j' < length (t[i := e])" "present (t[i := e] ! j)" "present (t[i := e] ! j')"
      "eq (key (t[i := e] ! j)) (key (t[i := e] ! j'))"
    then show "j = j'" using tinv_unique [OF inv, of j j'] e(1) by (cases "j = i"; cases "j' = i") (simp_all add: nth)
  qed
  show "mem (t[i := e]) l j \<longleftrightarrow> mem t l j \<and> j \<noteq> i" using i e unfolding mem_def nth by auto
qed

lemma tinv_none: "\<forall>i<length t. \<not> present (t ! i) \<Longrightarrow> tinv route t"
  by (rule tinvI) auto

text \<open>How many entries are present, and which entry a key denotes.\<close>

definition count :: "'e list \<Rightarrow> nat" where
  "count t = length (filter present t)"

definition holds :: "'e list \<Rightarrow> 'k \<Rightarrow> 'e \<Rightarrow> bool" where
  "holds t k e \<longleftrightarrow> (\<exists>i. mem t k i \<and> t ! i = e)"

lemma count_update:
  "i < length t \<Longrightarrow> count (t[i := e]) + of_bool (present (t ! i)) = count t + of_bool (present e)"
proof (induction t arbitrary: i)
  case (Cons x t)
  then show ?case by (cases i) (auto simp: count_def)
qed simp

lemma count_le: "count t \<le> length t"
  by (simp add: count_def)

lemma slot_left:
  assumes "count t < length t"
  shows "\<exists>a<length t. \<not> present (t ! a)"
proof (rule ccontr)
  assume "\<not> ?thesis"
  then have "filter present t = t" by (simp add: filter_id_conv all_set_conv_all_nth)
  with assms show False by (simp add: count_def)
qed

text \<open>The slot the insertion loop chooses for an entry.\<close>

definition place :: "(u32 \<Rightarrow> nat list) \<Rightarrow> 'e list \<Rightarrow> 'e \<Rightarrow> nat option" where
  "place route t e =
     (case walk (ins_visit t (hash e) (key e)) (route (hash e)) None of
        Inl (Inl i) \<Rightarrow> Some i
      | r \<Rightarrow> the_avail r)"

lemma place_found:
  assumes "tinv route t" "routes route (length t)" "mem t (key e) i" "hash e = H (key e)"
  shows "place route t e = Some i" "walk (ins_visit t (hash e) (key e)) (route (hash e)) None = Inl (Inl i)"
proof -
  note m = mem_hash [OF assms(1,3)]
  obtain xs ys where xs: "route (H (key e)) = xs @ i # ys" "\<forall>a\<in>set xs. \<not> free (t ! a)"
    using m by (auto simp: reach_def)
  have r: "distinct (route (H (key e)))" "set (route (H (key e))) \<subseteq> {..<length t}"
    using assms(2) by (auto simp: routes_def)
  have "\<forall>a\<in>set xs. \<not> mem t (key e) a" using mem_unique [OF assms(1,3)] r(1) xs(1) by auto
  then show "walk (ins_visit t (hash e) (key e)) (route (hash e)) None = Inl (Inl i)"
    unfolding assms(4) xs(1) using m xs r(2) by (intro walk_ins_hit [OF assms(3)]) auto
  then show "place route t e = Some i" by (simp add: place_def)
qed

lemma place_missing:
  assumes "routes route (length t)" "\<nexists>i. mem t (key e) i"
  shows "\<nexists>i. walk (ins_visit t (hash e) (key e)) (route (hash e)) None = Inl (Inl i)"
    and "place route t e = List.find (\<lambda>a. \<not> present (t ! a)) (route (hash e))"
proof -
  have "set (route (hash e)) \<subseteq> {..<length t}" using assms(1) by (simp add: routes_def)
  with walk_ins_miss [of "route (hash e)" t "key e" "hash e" None] assms(2)
  have *: "\<nexists>i. walk (ins_visit t (hash e) (key e)) (route (hash e)) None = Inl (Inl i)"
    and **: "the_avail (walk (ins_visit t (hash e) (key e)) (route (hash e)) None) =
      List.find (\<lambda>a. \<not> present (t ! a)) (route (hash e))" by auto
  from * show "\<nexists>i. walk (ins_visit t (hash e) (key e)) (route (hash e)) None = Inl (Inl i)" .
  from * ** show "place route t e = List.find (\<lambda>a. \<not> present (t ! a)) (route (hash e))"
    unfolding place_def by (auto split: sum.splits)
qed

lemma place_avail:
  assumes "tinv route t" "routes route (length t)" "\<nexists>i. mem t (key e) i" "hash e = H (key e)"
    and "place route t e = Some a"
  shows "a < length t" "\<not> present (t ! a)" "reach (route (H (key e))) t a"
proof -
  have "List.find (\<lambda>a. \<not> present (t ! a)) (route (H (key e))) = Some a"
    using place_missing(2) [OF assms(2,3)] assms(4,5) by simp
  then obtain i where i: "i < length (route (H (key e)))" "\<not> present (t ! (route (H (key e)) ! i))"
    "a = route (H (key e)) ! i" "\<forall>j<i. present (t ! (route (H (key e)) ! j))"
    by (auto simp: find_Some_iff)
  have "a \<in> set (route (H (key e)))" using i by simp
  then show "a < length t" using assms(2) by (auto simp: routes_def)
  show "\<not> present (t ! a)" using i by simp
  have "route (H (key e)) = take i (route (H (key e))) @ a # drop (Suc i) (route (H (key e)))"
    using i by (simp add: id_take_nth_drop)
  moreover have "\<not> free (t ! x)" if "x \<in> set (take i (route (H (key e))))" for x
  proof -
    obtain j where "j < i" "x = route (H (key e)) ! j" using \<open>x \<in> set (take i _)\<close> by (auto simp: in_set_conv_nth)
    then show ?thesis using i(4) free_not_present by blast
  qed
  ultimately show "reach (route (H (key e))) t a" unfolding reach_def by blast
qed

lemma holds_update:
  assumes "a < length t" "\<And>j. mem (t[a := e]) l j \<longleftrightarrow> (if eq l k then j = a else mem t l j)"
    and "\<And>j. mem t l j \<Longrightarrow> \<not> eq l k \<Longrightarrow> j \<noteq> a"
  shows "holds (t[a := e]) l x \<longleftrightarrow> (if eq l k then x = e else holds t l x)"
proof (cases "eq l k")
  case True
  then show ?thesis using assms(1,2) by (auto simp: holds_def)
next
  case False
  then have "mem (t[a := e]) l j \<and> t[a := e] ! j = x \<longleftrightarrow> mem t l j \<and> t ! j = x" for j
    using assms(2,3) [of j] by (cases "j = a") auto
  then show ?thesis using False by (simp add: holds_def)
qed

lemma place_put:
  assumes "tinv route t" "routes route (length t)" "present e" "hash e = H (key e)"
    and "place route t e = Some a"
  shows "tinv route (t[a := e])" "holds (t[a := e]) l x \<longleftrightarrow> (if eq l (key e) then x = e else holds t l x)"
    "count (t[a := e]) = (if \<exists>x. holds t (key e) x then count t else count t + 1)" "a < length t"
proof -
  have ex: "(\<exists>x. holds t (key e) x) \<longleftrightarrow> (\<exists>i. mem t (key e) i)" by (auto simp: holds_def)
  have "tinv route (t[a := e]) \<and> holds (t[a := e]) l x = (if eq l (key e) then x = e else holds t l x) \<and>
    count (t[a := e]) = (if \<exists>x. holds t (key e) x then count t else count t + 1) \<and> a < length t"
  proof (cases "\<exists>i. mem t (key e) i")
    case True
    then obtain i where "mem t (key e) i" ..
    moreover from place_found(1) [OF assms(1,2) this assms(4)] assms(5) have "i = a" by simp
    ultimately have m: "mem t (key e) a" by simp
    note rep = tinv_replace [OF assms(1) m assms(3) refl assms(4)]
    have a: "a < length t" "present (t ! a)" using m by (simp_all add: mem_def)
    have "mem (t[a := e]) l j \<longleftrightarrow> (if eq l (key e) then j = a else mem t l j)" for j
    proof (cases "eq l (key e)")
      case True
      then have "mem t l a" using m eq_trans [OF True] by (simp add: mem_def)
      then show ?thesis unfolding rep(2) using True mem_unique [OF assms(1), of l] by auto
    qed (simp add: rep(2))
    moreover have "j \<noteq> a" if "mem t l j" "\<not> eq l (key e)" for j
    proof
      assume "j = a"
      with that(1) m have "eq l (key (t ! a))" "eq (key e) (key (t ! a))" by (simp_all add: mem_def)
      from eq_trans [OF this(1) eq_sym [OF this(2)]] that(2) show False by simp
    qed
    ultimately have h: "holds (t[a := e]) l x \<longleftrightarrow> (if eq l (key e) then x = e else holds t l x)"
      using a(1) by (rule holds_update [rotated])
    show ?thesis
      using rep(1) h True a count_update [OF a(1), of e] assms(3) by (simp add: ex)
  next
    case False
    note a = place_avail [OF assms(1,2) False assms(4,5)]
    note ins = tinv_insert [OF assms(1) False a assms(3) refl assms(4)]
    have "j \<noteq> a" if "mem t l j" for j using that a(2) by (auto simp: mem_def)
    then have h: "holds (t[a := e]) l x \<longleftrightarrow> (if eq l (key e) then x = e else holds t l x)"
      by (intro holds_update [OF a(1) ins(2)]) simp
    show ?thesis
      using ins(1) h False a count_update [OF a(1), of e] assms(3) by (simp add: ex)
  qed
  then show "tinv route (t[a := e])" "holds (t[a := e]) l x \<longleftrightarrow> (if eq l (key e) then x = e else holds t l x)"
    "count (t[a := e]) = (if \<exists>x. holds t (key e) x then count t else count t + 1)" "a < length t"
    by simp_all
qed

text \<open>With a slot left and routes over the whole table a slot is always found.\<close>

lemma place_total:
  assumes "tinv route t" "routes route (length t)" "\<forall>h. set (route h) = {..<length t}" "count t < length t"
    and "hash e = H (key e)"
  shows "\<exists>a. place route t e = Some a"
proof (cases "\<exists>i. mem t (key e) i")
  case True
  then obtain i where "mem t (key e) i" ..
  from place_found(1) [OF assms(1,2) this assms(5)] show ?thesis ..
next
  case False
  obtain a where a: "a < length t" "\<not> present (t ! a)" using slot_left [OF assms(4)] by blast
  have "a \<in> set (route (hash e))" using a(1) assms(3) by simp
  then have "List.find (\<lambda>a. \<not> present (t ! a)) (route (hash e)) \<noteq> None"
    using a(2) unfolding find_None_iff by blast
  then show ?thesis unfolding place_missing(2) [OF assms(2) False] by simp
qed

text \<open>Leaving a tombstone takes the key out of the table.\<close>

lemma mem_same_key:
  assumes "tinv route t" "mem t k i" "mem t l j"
  shows "j = i \<longleftrightarrow> eq l k"
proof
  assume "j = i"
  with assms(2,3) have "eq l (key (t ! i))" "eq k (key (t ! i))" by (simp_all add: mem_def)
  from eq_trans [OF this(1) eq_sym [OF this(2)]] show "eq l k" .
next
  assume "eq l k"
  with assms(2) have "mem t l i" using eq_trans by (auto simp: mem_def)
  with assms(1,3) show "j = i" by (metis mem_unique)
qed

lemma remove_holds:
  assumes "tinv route t" "mem t k i" "\<not> present e" "\<not> free e"
  shows "tinv route (t[i := e])" "holds (t[i := e]) l x \<longleftrightarrow> holds t l x \<and> \<not> eq l k"
    "Suc (count (t[i := e])) = count t"
proof -
  have i: "i < length t" "present (t ! i)" using assms(2) by (simp_all add: mem_def)
  note rem = tinv_remove [OF assms(1) i(1) assms(3,4)]
  show "tinv route (t[i := e])" by (rule rem(1))
  have "mem (t[i := e]) l j \<and> t[i := e] ! j = x \<longleftrightarrow> mem t l j \<and> t ! j = x \<and> \<not> eq l k" for j
    unfolding rem(2) using mem_same_key [OF assms(1,2), of l j] by (cases "j = i") auto
  then show "holds (t[i := e]) l x \<longleftrightarrow> holds t l x \<and> \<not> eq l k" unfolding holds_def by blast
  show "Suc (count (t[i := e])) = count t" using count_update [OF i(1), of e] i(2) assms(3) by simp
qed

text \<open>Rehashing: the present entries of the old table, put one after the other into a new one.\<close>

definition put :: "(u32 \<Rightarrow> nat list) \<Rightarrow> 'e list \<Rightarrow> 'e \<Rightarrow> 'e list" where
  "put route t e = (case place route t e of Some a \<Rightarrow> t[a := e] | None \<Rightarrow> t)"

definition cover :: "(u32 \<Rightarrow> nat list) \<Rightarrow> nat \<Rightarrow> bool" where
  "cover route n \<longleftrightarrow> routes route n \<and> (\<forall>h. set (route h) = {..<n})"

fun fresh_keys :: "'e list \<Rightarrow> bool" where
  "fresh_keys [] = True"
| "fresh_keys (e # es) = (present e \<and> hash e = H (key e) \<and> (\<forall>x\<in>set es. \<not> eq (key x) (key e)) \<and> fresh_keys es)"

lemma put_spec:
  assumes "tinv route t" "cover route (length t)" "count t < length t" "present e" "hash e = H (key e)"
  shows "tinv route (put route t e)" "length (put route t e) = length t"
    "holds (put route t e) l x \<longleftrightarrow> (if eq l (key e) then x = e else holds t l x)"
    "count (put route t e) = (if \<exists>x. holds t (key e) x then count t else count t + 1)"
proof -
  have c: "routes route (length t)" "\<forall>h. set (route h) = {..<length t}" using assms(2) by (simp_all add: cover_def)
  obtain a where a: "place route t e = Some a" using place_total [OF assms(1) c assms(3,5)] by blast
  note p = place_put [OF assms(1) c(1) assms(4,5) a]
  show "tinv route (put route t e)" "length (put route t e) = length t"
    "holds (put route t e) l x \<longleftrightarrow> (if eq l (key e) then x = e else holds t l x)"
    "count (put route t e) = (if \<exists>x. holds t (key e) x then count t else count t + 1)"
    using p by (simp_all add: put_def a)
qed

lemma put_fresh_count:
  assumes "tinv route t" "cover route (length t)" "count t < length t" "present e" "hash e = H (key e)"
    and "\<nexists>x. holds t (key e) x"
  shows "count (put route t e) = Suc (count t)"
  using put_spec(4) [OF assms(1-5)] assms(6) by simp

lemma reinsert:
  "tinv route t \<Longrightarrow> cover route (length t) \<Longrightarrow> count t + length es \<le> length t \<Longrightarrow> fresh_keys es \<Longrightarrow>
   \<forall>e\<in>set es. \<nexists>x. holds t (key e) x \<Longrightarrow>
   tinv route (foldl (put route) t es) \<and> length (foldl (put route) t es) = length t \<and>
   count (foldl (put route) t es) = count t + length es \<and>
   (\<forall>l x. holds (foldl (put route) t es) l x \<longleftrightarrow> holds t l x \<or> x \<in> set es \<and> eq l (key x))"
proof (induction es arbitrary: t)
  case Nil
  then show ?case by simp
next
  case (Cons e es)
  have e: "present e" "hash e = H (key e)" "\<forall>x\<in>set es. \<not> eq (key x) (key e)" "fresh_keys es"
    and ne: "\<nexists>x. holds t (key e) x" and room: "count t < length t" using Cons.prems by auto
  note p = put_spec [OF Cons.prems(1,2) room e(1,2)]
  note c = put_fresh_count [OF Cons.prems(1,2) room e(1,2) ne]
  let ?t = "put route t e"
  have free: "\<forall>x\<in>set es. \<nexists>y. holds ?t (key x) y"
    using Cons.prems(5) e(3) p(3) by simp
  have "\<not> holds t l x" if "eq l (key e)" for l x
  proof
    assume "holds t l x"
    then obtain i where "mem t l i" by (auto simp: holds_def)
    with that have "mem t (key e) i" using eq_trans [OF eq_sym [OF that]] by (simp add: mem_def)
    with ne show False by (auto simp: holds_def)
  qed
  then have h: "holds ?t l x \<longleftrightarrow> holds t l x \<or> x = e \<and> eq l (key e)" for l x using p(3) by auto
  have IH: "tinv route (foldl (put route) ?t es) \<and> length (foldl (put route) ?t es) = length ?t \<and>
   count (foldl (put route) ?t es) = count ?t + length es \<and>
   (\<forall>l x. holds (foldl (put route) ?t es) l x \<longleftrightarrow> holds ?t l x \<or> x \<in> set es \<and> eq l (key x))"
    using Cons.prems(2,3) c p(2) by (intro Cons.IH p(1) e(4) free) simp_all
  then show ?case using c p(2) h by auto
qed

text \<open>The present entries of a table have pairwise different keys.\<close>

lemma fresh_keys_present:
  assumes "tinv route t"
  shows "fresh_keys (filter present t)" "holds t l x \<longleftrightarrow> x \<in> set (filter present t) \<and> eq l (key x)"
proof -
  have *: "fresh_keys (filter present (drop n t))" for n
  proof (induction "length t - n" arbitrary: n)
    case (Suc m)
    then have n: "n < length t" by simp
    have split: "drop n t = t ! n # drop (Suc n) t" using n by (simp add: Cons_nth_drop_Suc)
    have IH: "fresh_keys (filter present (drop (Suc n) t))" using Suc.hyps(1) [of "Suc n"] Suc.hyps(2) by simp
    have "\<not> eq (key x) (key (t ! n))" if pn: "present (t ! n)" and x: "x \<in> set (drop (Suc n) t)" "present x" for x
    proof
      assume eq: "eq (key x) (key (t ! n))"
      from x(1) obtain j where j: "j < length t - Suc n" "x = t ! (Suc n + j)" by (auto simp: in_set_conv_nth)
      have "Suc n + j < length t" using j(1) by linarith
      from tinv_unique [OF assms this n] x(2) pn eq j(2) show False by simp
    qed
    then show ?case using IH assms n unfolding split tinv_def by simp
  qed simp
  from this [of 0] show "fresh_keys (filter present t)" by simp
  show "holds t l x \<longleftrightarrow> x \<in> set (filter present t) \<and> eq l (key x)"
    by (auto simp: holds_def mem_def in_set_conv_nth)
qed

end

section \<open>Routes on 32-bit addresses\<close>

lemma unat_of_nat_u32: "a < unat (n :: u32) \<Longrightarrow> unat (of_nat a :: u32) = a"
  using unat_lt2p [of n] by (simp add: unat_of_nat)

definition double_hash_route :: "u32 \<Rightarrow> u32 \<Rightarrow> u32 \<Rightarrow> nat list" where
  "double_hash_route sz rehash h = probes (unat sz) (1 + unat h mod unat rehash) (unat h mod unat sz)"

text \<open>The loop on words visits the route, as long as an address plus a step stays in 32 bits.\<close>

lemma do_probe_u32:
  fixes sz rehash h :: u32
  assumes "0 < unat sz" "0 < unat rehash" "unat sz + unat rehash \<le> 2 ^ 32"
  shows "do_probe visit (\<lambda>a. (a + (1 + h mod rehash)) mod sz) (h mod sz) (h mod sz) s =
    Some (walk (\<lambda>a. visit (of_nat a)) (double_hash_route sz rehash h) s)"
proof -
  define n d s0 where "n = unat sz" and "d = 1 + unat h mod unat rehash" and "s0 = unat h mod unat sz"
  define f :: "nat \<Rightarrow> u32" where "f j = of_nat (probe n d s0 j)" for j
  have n: "0 < n" using assms(1) by (simp add: n_def)
  have pn: "probe n d s0 j < n" for j using n by (simp add: probe_def)
  have n32: "n < 2 ^ 32" using unat_lt2p [of sz] by (simp add: n_def)
  have uf: "unat (f j) = probe n d s0 j" for j
    using less_trans [OF pn n32, of j] by (simp add: f_def unat_of_nat)
  have "unat h mod unat rehash < unat rehash" using assms(2) by simp
  then have d: "d \<le> unat rehash" by (simp add: d_def)
  have r32: "unat rehash < 2 ^ 32" using unat_lt2p [of rehash] by simp
  have ud: "unat (1 + h mod rehash) = d"
    using d r32 by (subst unat_add_no_wrap) (simp_all add: unat_mod d_def)
  have step: "(f j + (1 + h mod rehash)) mod sz = f (Suc j)" for j
  proof -
    have "unat (f j + (1 + h mod rehash)) = probe n d s0 j + d"
      using pn [of j] d assms(3) by (subst unat_add_no_wrap) (simp_all add: uf ud n_def)
    then show ?thesis by (simp add: word_unat_eq_iff unat_mod uf probe_Suc flip: n_def)
  qed
  have zero: "f 0 = h mod sz"
    by (simp add: word_unat_eq_iff unat_mod uf) (simp add: probe_def s0_def n_def)
  have eq: "f j = f 0 \<longleftrightarrow> n dvd j * d" for j
    using probe_eq [of 0 j n d s0] by (auto simp: word_unat_eq_iff uf)
  have "do_probe visit (\<lambda>a. (a + (1 + h mod rehash)) mod sz) (f 0) (f 0) s =
    Some (walk visit (map f [0..<period n d]) s)"
    using period(1,2) [OF n, of d] period(3) [OF n] eq by (intro do_probe_walk) (simp_all add: step)
  also have "map f [0..<period n d] = map of_nat (probes n d s0)" by (simp add: f_def probes_def)
  finally show ?thesis by (simp only: zero walk_map double_hash_route_def n_def d_def s0_def)
qed

lemma routes_double_hash:
  assumes "0 < unat sz"
  shows "distinct (double_hash_route sz rehash h)" "set (double_hash_route sz rehash h) \<subseteq> {..<unat sz}"
  using distinct_probes [OF assms] probes_bound [OF assms] by (simp_all add: double_hash_route_def)

lemma cover_double_hash:
  assumes "unat rehash < unat sz" "0 < unat rehash" "\<And>d. 0 < d \<Longrightarrow> d < unat sz \<Longrightarrow> coprime d (unat sz)"
  shows "set (double_hash_route sz rehash h) = {..<unat sz}"
proof -
  have "unat h mod unat rehash < unat rehash" using assms(2) by simp
  then have "coprime (1 + unat h mod unat rehash) (unat sz)" using assms(1) by (intro assms(3)) simp_all
  then show ?thesis using assms(1) by (simp add: double_hash_route_def probes_cover)
qed

section \<open>Table sizes\<close>

definition hash_sizes :: "(u32 \<times> u32 \<times> u32) list" where
  "hash_sizes =
    [(2, 5, 3), (4, 7, 5), (8, 13, 11), (16, 19, 17), (32, 43, 41), (64, 73, 71), (128, 151, 149),
     (256, 283, 281), (512, 571, 569), (1024, 1153, 1151), (2048, 2269, 2267), (4096, 4519, 4517),
     (8192, 9013, 9011), (16384, 18043, 18041), (32768, 36109, 36107), (65536, 72091, 72089),
     (131072, 144409, 144407), (262144, 288361, 288359), (524288, 576883, 576881),
     (1048576, 1153459, 1153457), (2097152, 2307163, 2307161), (4194304, 4613893, 4613891),
     (8388608, 9227641, 9227639), (16777216, 18455029, 18455027), (33554432, 36911011, 36911009),
     (67108864, 73819861, 73819859), (134217728, 147639589, 147639587), (268435456, 295279081, 295279079),
     (536870912, 590559793, 590559791), (1073741824, 1181116273, 1181116271),
     (2147483648, 2362232233, 2362232231)]"

abbreviation size_max :: "nat \<Rightarrow> u32" where "size_max i \<equiv> fst (hash_sizes ! i)"
abbreviation size_size :: "nat \<Rightarrow> u32" where "size_size i \<equiv> fst (snd (hash_sizes ! i))"
abbreviation size_rehash :: "nat \<Rightarrow> u32" where "size_rehash i \<equiv> snd (snd (hash_sizes ! i))"

text \<open>Trial division by 2 and the odd numbers.\<close>

lemma coprime_by_trial:
  fixes n :: nat
  assumes "\<And>q. 2 \<le> q \<Longrightarrow> q * q \<le> n \<Longrightarrow> \<not> q dvd n" "0 < d" "d < n"
  shows "coprime d n"
proof (rule ccontr)
  define g where "g = gcd d n"
  assume "\<not> coprime d n"
  then have g1: "g \<noteq> 1" by (simp add: g_def coprime_iff_gcd_eq_1)
  have "g \<noteq> 0" using assms(2) by (simp add: g_def)
  with g1 have g: "2 \<le> g" by simp
  obtain c where c: "n = g * c" using gcd_dvd2 [of d n] unfolding g_def [symmetric] by blast
  have "g \<le> d" using assms(2) by (simp add: g_def gcd_le1_nat)
  then have "c \<noteq> 1" using c assms(3) by auto
  moreover have "c \<noteq> 0" using c assms(3) by (intro notI) simp
  ultimately have c2: "2 \<le> c" by simp
  show False
  proof (cases "g \<le> c")
    case True
    then have "g * g \<le> n" using c by simp
    with assms(1) [OF g] c show False by simp
  next
    case False
    then have "c * c \<le> n" using c by simp
    with assms(1) [OF c2] c show False by simp
  qed
qed

lemma trial_odd:
  fixes n m :: nat
  assumes "odd n" "n < (2 * m + 1) * (2 * m + 1)" "list_all (\<lambda>k. n mod (2 * k + 1) \<noteq> 0) [1..<m]" "2 \<le> q" "q * q \<le> n"
  shows "\<not> q dvd n"
proof
  assume dvd: "q dvd n"
  have "odd q" using dvd assms(1) dvd_trans by blast
  then obtain k where k: "q = 2 * k + 1" by (metis oddE)
  have "k < m"
  proof (rule ccontr)
    assume "\<not> k < m"
    then have "(2 * m + 1) * (2 * m + 1) \<le> q * q" unfolding k by (intro mult_le_mono) simp_all
    with assms(2,5) show False by simp
  qed
  moreover have "1 \<le> k" using assms(4) k by simp
  ultimately have "n mod q \<noteq> 0" using assms(3) k by (auto simp: list_all_iff)
  with dvd show False by (simp add: mod_eq_0_iff_dvd)
qed

lemma length_hash_sizes [simp]: "length hash_sizes = 31"
  by (simp add: hash_sizes_def)

definition good_size :: "u32 \<times> u32 \<times> u32 \<Rightarrow> bool" where
  "good_size s = (case s of (m, n, r) \<Rightarrow>
     0 < unat m \<and> unat m < unat n \<and> 0 < unat r \<and> unat r < unat n \<and> unat n + unat r \<le> 2 ^ 32)"

text \<open>Every size but the largest keeps the sum of an address and a step within 32 bits.\<close>

lemma good_sizes: "list_all good_size (take 30 hash_sizes)"
  by (simp add: hash_sizes_def good_size_def)

lemma good_size_nth:
  assumes "i < 30"
  shows "0 < unat (size_max i)" "unat (size_max i) < unat (size_size i)" "0 < unat (size_rehash i)"
    "unat (size_rehash i) < unat (size_size i)" "unat (size_size i) + unat (size_rehash i) \<le> 2 ^ 32"
proof -
  have "good_size (hash_sizes ! i)" using good_sizes assms by (simp add: list_all_length)
  then show "0 < unat (size_max i)" "unat (size_max i) < unat (size_size i)" "0 < unat (size_rehash i)"
    "unat (size_rehash i) < unat (size_size i)" "unat (size_size i) + unat (size_rehash i) \<le> 2 ^ 32"
    by (simp_all add: good_size_def split: prod.splits)
qed

lemma sizes_grow: "list_all2 (\<lambda>a b. unat (fst a) < unat (fst b)) (take 30 hash_sizes) (tl hash_sizes)"
  by (simp add: hash_sizes_def)

lemma size_max_Suc: "i < 30 \<Longrightarrow> unat (size_max i) < unat (size_max (Suc i))"
  using sizes_grow by (simp add: list_all2_conv_all_nth nth_tl)

text \<open>The sizes up to 72091 are prime, so every step visits every slot.\<close>

definition trial :: "nat \<Rightarrow> nat \<Rightarrow> bool" where
  "trial n m \<longleftrightarrow> odd n \<and> n < (2 * m + 1) * (2 * m + 1) \<and> list_all (\<lambda>k. n mod (2 * k + 1) \<noteq> 0) [1..<m]"

lemma trial_sizes:
  "trial 5 1" "trial 7 1" "trial 13 2" "trial 19 2" "trial 43 3" "trial 73 4" "trial 151 6" "trial 283 8"
  "trial 571 12" "trial 1153 17" "trial 2269 24" "trial 4519 34" "trial 9013 48" "trial 18043 67"
  "trial 36109 95" "trial 72091 134"
  by (simp_all add: trial_def upt_rec_numeral upt_rec)

definition all_coprime :: "nat \<Rightarrow> bool" where
  "all_coprime n \<longleftrightarrow> (\<forall>d. 0 < d \<and> d < n \<longrightarrow> coprime d n)"

lemma trial_all_coprime: "trial n m \<Longrightarrow> all_coprime n"
  unfolding trial_def all_coprime_def using coprime_by_trial trial_odd by metis

lemma sizes_coprime: "list_all (\<lambda>s. all_coprime (unat (fst (snd s)))) (take 16 hash_sizes)"
  by (simp add: hash_sizes_def trial_sizes [THEN trial_all_coprime])

lemma cover_size:
  assumes "i < 16"
  shows "set (double_hash_route (size_size i) (size_rehash i) h) = {..<unat (size_size i)}"
proof (rule cover_double_hash)
  show "unat (size_rehash i) < unat (size_size i)" "0 < unat (size_rehash i)" using assms good_size_nth [of i] by simp_all
  show "coprime d (unat (size_size i))" if "0 < d" "d < unat (size_size i)" for d
    using sizes_coprime assms that by (auto simp: list_all_length all_coprime_def)
qed

end
