(* ===== verification/Map_Interface.thy ===== *)
theory Map_Interface
  imports Mesa_Prelude
begin

text \<open>
  The contract the clients of \<^verbatim>\<open>hash_table.c\<close>, of its 64-bit wrapper and of \<^verbatim>\<open>set.c\<close> rely on: a
  container with insertion, removal, clearing and lookup behaves like a finite map, as long as it
  holds fewer than \<open>capacity\<close> keys. The abstract container is the function from keys to values;
  \<open>run_ops\<close> runs a sequence of calls on the implementation and \<open>spec_ops\<close> on the function.
\<close>

datatype ('k, 'v) map_op = Insert 'k 'v | Remove 'k | Clear | Search 'k

fun run_ops :: "('t \<Rightarrow> 'k \<Rightarrow> 'v \<Rightarrow> 't option) \<Rightarrow> ('t \<Rightarrow> 'k \<Rightarrow> 't option) \<Rightarrow> ('t \<Rightarrow> 't) \<Rightarrow>
  ('t \<Rightarrow> 'k \<Rightarrow> 'v option option) \<Rightarrow> ('k, 'v) map_op list \<Rightarrow> 't \<Rightarrow> ('t \<times> 'v option list) option"
where
  "run_ops ins rem clr srch [] t = Some (t, [])"
| "run_ops ins rem clr srch (Insert k v # ops) t =
     (case ins t k v of None \<Rightarrow> None | Some t \<Rightarrow> run_ops ins rem clr srch ops t)"
| "run_ops ins rem clr srch (Remove k # ops) t =
     (case rem t k of None \<Rightarrow> None | Some t \<Rightarrow> run_ops ins rem clr srch ops t)"
| "run_ops ins rem clr srch (Clear # ops) t = run_ops ins rem clr srch ops (clr t)"
| "run_ops ins rem clr srch (Search k # ops) t =
     (case srch t k of None \<Rightarrow> None
      | Some r \<Rightarrow> map_option (\<lambda>(t, rs). (t, r # rs)) (run_ops ins rem clr srch ops t))"

fun spec_ops :: "('k \<Rightarrow> 'k \<Rightarrow> bool) \<Rightarrow> ('k, 'v) map_op list \<Rightarrow> ('k \<Rightarrow> 'v option) \<Rightarrow>
  ('k \<Rightarrow> 'v option) \<times> 'v option list"
where
  "spec_ops same [] m = (m, [])"
| "spec_ops same (Insert k v # ops) m = spec_ops same ops (\<lambda>l. if same l k then Some v else m l)"
| "spec_ops same (Remove k # ops) m = spec_ops same ops (\<lambda>l. if same l k then None else m l)"
| "spec_ops same (Clear # ops) m = spec_ops same ops (\<lambda>l. None)"
| "spec_ops same (Search k # ops) m = (let (m', rs) = spec_ops same ops m in (m', m k # rs))"

fun inserted :: "('k, 'v) map_op list \<Rightarrow> 'k list" where
  "inserted [] = []"
| "inserted (Insert k v # ops) = k # inserted ops"
| "inserted (_ # ops) = inserted ops"

locale bounded_map =
  fixes valid :: "'t \<Rightarrow> bool" and fill :: "'t \<Rightarrow> nat" and capacity :: nat and good :: "'k \<Rightarrow> bool"
    and same :: "'k \<Rightarrow> 'k \<Rightarrow> bool" and view :: "'t \<Rightarrow> 'k \<Rightarrow> 'v option"
    and ins :: "'t \<Rightarrow> 'k \<Rightarrow> 'v \<Rightarrow> 't option" and rem :: "'t \<Rightarrow> 'k \<Rightarrow> 't option" and clr :: "'t \<Rightarrow> 't"
    and srch :: "'t \<Rightarrow> 'k \<Rightarrow> 'v option option"
  assumes ins_law: "valid t \<Longrightarrow> fill t < capacity \<Longrightarrow> good k \<Longrightarrow>
      \<exists>t'. ins t k v = Some t' \<and> valid t' \<and> fill t' \<le> fill t + 1 \<and>
        view t' = (\<lambda>l. if same l k then Some v else view t l)"
    and rem_law: "valid t \<Longrightarrow>
      \<exists>t'. rem t k = Some t' \<and> valid t' \<and> fill t' \<le> fill t \<and> view t' = (\<lambda>l. if same l k then None else view t l)"
    and clr_law: "valid t \<Longrightarrow> valid (clr t) \<and> fill (clr t) = 0 \<and> view (clr t) = (\<lambda>l. None)"
    and srch_law: "valid t \<Longrightarrow> srch t k = Some (view t k)"
begin

lemma run_ops_refines:
  assumes "valid t" "fill t + length (inserted ops) \<le> capacity" "list_all good (inserted ops)"
  shows "\<exists>t' rs. run_ops ins rem clr srch ops t = Some (t', rs) \<and> valid t' \<and>
    fill t' \<le> fill t + length (inserted ops) \<and> spec_ops same ops (view t) = (view t', rs)"
  using assms
proof (induction ops arbitrary: t)
  case Nil
  then show ?case by simp
next
  case (Cons oper ops)
  show ?case
  proof (cases oper)
    case (Insert k v)
    then have *: "fill t < capacity" "good k" using Cons.prems by simp_all
    obtain t1 where t1: "ins t k v = Some t1" "valid t1" "fill t1 \<le> fill t + 1"
      "view t1 = (\<lambda>l. if same l k then Some v else view t l)"
      using ins_law [OF Cons.prems(1) *, of v] by blast
    obtain t' rs where "run_ops ins rem clr srch ops t1 = Some (t', rs) \<and> valid t' \<and>
      fill t' \<le> fill t1 + length (inserted ops) \<and> spec_ops same ops (view t1) = (view t', rs)"
      using Cons.IH [OF t1(2)] Cons.prems(2,3) t1(3) Insert by auto
    then show ?thesis using Insert t1 by (intro exI [of _ t'] exI [of _ rs]) simp
  next
    case (Remove k)
    obtain t1 where t1: "rem t k = Some t1" "valid t1" "fill t1 \<le> fill t"
      "view t1 = (\<lambda>l. if same l k then None else view t l)"
      using rem_law [OF Cons.prems(1), of k] by blast
    obtain t' rs where "run_ops ins rem clr srch ops t1 = Some (t', rs) \<and> valid t' \<and>
      fill t' \<le> fill t1 + length (inserted ops) \<and> spec_ops same ops (view t1) = (view t', rs)"
      using Cons.IH [OF t1(2)] Cons.prems(2,3) t1(3) Remove by auto
    then show ?thesis using Remove t1 by (intro exI [of _ t'] exI [of _ rs]) simp
  next
    case Clear
    have t1: "valid (clr t)" "fill (clr t) = 0" "view (clr t) = (\<lambda>l. None)" using clr_law [OF Cons.prems(1)] by simp_all
    obtain t' rs where "run_ops ins rem clr srch ops (clr t) = Some (t', rs) \<and> valid t' \<and>
      fill t' \<le> fill (clr t) + length (inserted ops) \<and> spec_ops same ops (view (clr t)) = (view t', rs)"
      using Cons.IH [OF t1(1)] Cons.prems(2,3) t1(2) Clear by auto
    then show ?thesis using Clear t1 by (intro exI [of _ t'] exI [of _ rs]) simp
  next
    case (Search k)
    obtain t' rs where "run_ops ins rem clr srch ops t = Some (t', rs) \<and> valid t' \<and>
      fill t' \<le> fill t + length (inserted ops) \<and> spec_ops same ops (view t) = (view t', rs)"
      using Cons.IH [OF Cons.prems(1)] Cons.prems(2,3) Search by auto
    then show ?thesis using Search srch_law [OF Cons.prems(1), of k]
      by (intro exI [of _ t'] exI [of _ "view t k # rs"]) simp
  qed
qed

end

end
