(* ===== verification/Hash_Table.thy ===== *)
theory Hash_Table
  imports Probing Map_Interface "HOL-Library.Monad_Syntax"
begin

text \<open>
  \<^verbatim>\<open>src/util/hash_table.c\<close> and \<^verbatim>\<open>hash_table.h\<close>: the open-addressing hash table, its hash functions
  and the wrapper for 64-bit keys.

  A table is the record of the struct; a pointer to an entry is the index of the entry in
  \<open>ht_table\<close>, \<open>None\<close> the null pointer. An operation that may not return, or that stops at an
  \<^verbatim>\<open>assert\<close>, has an \<open>option\<close> result with \<open>None\<close> for these. Whether an allocation of \<^verbatim>\<open>n\<close> entries
  succeeds is the argument \<open>alloc\<close>; a \<^verbatim>\<open>delete_function\<close> callback is modelled by the list of
  entries it is called on.
\<close>

section \<open>Entries and tables\<close>

record hash_entry =
  ehash :: u32
  ekey :: ptr
  edata :: ptr

record hash_table =
  ht_table :: "hash_entry list"
  key_hash_function :: "(ptr \<Rightarrow> u32) option"
  key_equals_function :: "ptr \<Rightarrow> ptr \<Rightarrow> bool"
  deleted_key :: ptr
  ht_size :: u32
  ht_rehash :: u32
  max_entries :: u32
  size_index :: u32
  entries :: u32
  deleted_entries :: u32

definition entry_is_free :: "hash_entry \<Rightarrow> bool" where
  "entry_is_free entry \<longleftrightarrow> ekey entry = 0"

definition entry_is_deleted :: "hash_table \<Rightarrow> hash_entry \<Rightarrow> bool" where
  "entry_is_deleted ht entry \<longleftrightarrow> ekey entry = deleted_key ht"

definition entry_is_present :: "hash_table \<Rightarrow> hash_entry \<Rightarrow> bool" where
  "entry_is_present ht entry \<longleftrightarrow> ekey entry \<noteq> 0 \<and> ekey entry \<noteq> deleted_key ht"

text \<open>Zeroed memory for \<open>n\<close> entries.\<close>

definition rzalloc_entries :: "(u32 \<Rightarrow> bool) \<Rightarrow> u32 \<Rightarrow> hash_entry list option" where
  "rzalloc_entries alloc n =
     (if alloc n then Some (replicate (unat n) \<lparr>ehash = 0, ekey = 0, edata = 0\<rparr>) else None)"

section \<open>Creating, copying and destroying\<close>

text \<open>
  \<open>deleted_key_value\<close> is the address of the static object of that name.
\<close>

definition mesa_hash_table_init ::
  "(u32 \<Rightarrow> bool) \<Rightarrow> ptr \<Rightarrow> (ptr \<Rightarrow> u32) option \<Rightarrow> (ptr \<Rightarrow> ptr \<Rightarrow> bool) \<Rightarrow> hash_table option"
where
  "mesa_hash_table_init alloc deleted_key_value hash_fn equals_fn =
     (let (mx, sz, rehash) = hash_sizes ! 0
      in case rzalloc_entries alloc sz of
           None \<Rightarrow> None
         | Some table \<Rightarrow>
             Some \<lparr>ht_table = table, key_hash_function = hash_fn, key_equals_function = equals_fn,
                   deleted_key = deleted_key_value, ht_size = sz, ht_rehash = rehash,
                   max_entries = mx, size_index = 0, entries = 0, deleted_entries = 0\<rparr>)"

definition mesa_hash_table_create ::
  "bool \<Rightarrow> (u32 \<Rightarrow> bool) \<Rightarrow> ptr \<Rightarrow> (ptr \<Rightarrow> u32) option \<Rightarrow> (ptr \<Rightarrow> ptr \<Rightarrow> bool) \<Rightarrow> hash_table option"
where
  "mesa_hash_table_create alloc_ht alloc deleted_key_value hash_fn equals_fn =
     (if \<not> alloc_ht then None
      else mesa_hash_table_init alloc deleted_key_value hash_fn equals_fn)"

text \<open>The copy has an array of its own, with the same \<open>ht_size\<close> entries.\<close>

definition mesa_hash_table_clone :: "bool \<Rightarrow> (u32 \<Rightarrow> bool) \<Rightarrow> hash_table \<Rightarrow> hash_table option" where
  "mesa_hash_table_clone alloc_ht alloc src =
     (if \<not> alloc_ht then None
      else if \<not> alloc (ht_size src) then None
      else Some (src\<lparr>ht_table := take (unat (ht_size src)) (ht_table src)\<rparr>))"

definition mesa_hash_table_set_deleted_key :: "hash_table \<Rightarrow> ptr \<Rightarrow> hash_table" where
  "mesa_hash_table_set_deleted_key ht dk = ht\<lparr>deleted_key := dk\<rparr>"

definition mesa_hash_table_num_entries :: "hash_table \<Rightarrow> u32" where
  "mesa_hash_table_num_entries ht = entries ht"

section \<open>Iteration\<close>

definition mesa_hash_table_next_entry :: "hash_table \<Rightarrow> nat option \<Rightarrow> nat option" where
  "mesa_hash_table_next_entry ht entry =
     (let start = (case entry of None \<Rightarrow> 0 | Some i \<Rightarrow> i + 1)
      in List.find (\<lambda>i. entry_is_present ht (ht_table ht ! i)) [start..<unat (ht_size ht)])"

lemma next_entry_bounds:
  assumes "mesa_hash_table_next_entry ht entry = Some j"
  shows "j < unat (ht_size ht)" "entry = Some i \<Longrightarrow> i < j"
proof -
  obtain s where "List.find (\<lambda>i. entry_is_present ht (ht_table ht ! i)) [s..<unat (ht_size ht)] = Some j"
    and s: "s = (case entry of None \<Rightarrow> 0 | Some i \<Rightarrow> i + 1)"
    using assms by (simp add: mesa_hash_table_next_entry_def)
  then have "s \<le> j" "j < unat (ht_size ht)" by (auto simp: find_Some_iff)
  then show "j < unat (ht_size ht)" "entry = Some i \<Longrightarrow> i < j" using s by auto
qed

text \<open>The entries the loop of \<^verbatim>\<open>hash_table_foreach\<close> visits, from \<open>entry\<close> on.\<close>

function foreach_from :: "hash_table \<Rightarrow> nat option \<Rightarrow> nat list" where
  "foreach_from ht entry =
     (case entry of None \<Rightarrow> [] | Some i \<Rightarrow> i # foreach_from ht (mesa_hash_table_next_entry ht (Some i)))"
  by auto
termination
proof (relation "measure (\<lambda>(ht, entry). case entry of None \<Rightarrow> 0 | Some i \<Rightarrow> Suc (unat (ht_size ht) - i))", goal_cases)
  case (2 ht entry i)
  show ?case
  proof (cases "mesa_hash_table_next_entry ht (Some i)")
    case None
    then show ?thesis using 2 by simp
  next
    case (Some j)
    with next_entry_bounds [OF Some] 2 show ?thesis by auto
  qed
qed simp

declare foreach_from.simps [simp del]

definition hash_table_foreach :: "hash_table \<Rightarrow> hash_entry list" where
  "hash_table_foreach ht =
     map (\<lambda>i. ht_table ht ! i) (foreach_from ht (mesa_hash_table_next_entry ht None))"

text \<open>The calls of the callback, and of \<^verbatim>\<open>delete_function\<close> when a table is destroyed.\<close>

definition hash_table_call_foreach :: "hash_table \<Rightarrow> (ptr \<Rightarrow> ptr \<Rightarrow> 's \<Rightarrow> 's) \<Rightarrow> 's \<Rightarrow> 's" where
  "hash_table_call_foreach ht callback closure =
     foldl (\<lambda>s entry. callback (ekey entry) (edata entry) s) closure (hash_table_foreach ht)"

definition mesa_hash_table_destroy :: "hash_table option \<Rightarrow> bool \<Rightarrow> hash_entry list" where
  "mesa_hash_table_destroy ht delete_function =
     (case ht of None \<Rightarrow> []
      | Some ht \<Rightarrow> if delete_function then hash_table_foreach ht else [])"

fun clear_loop :: "hash_table \<Rightarrow> bool \<Rightarrow> hash_entry list \<Rightarrow> hash_entry list \<times> hash_entry list" where
  "clear_loop ht delete_function [] = ([], [])"
| "clear_loop ht delete_function (entry # es) =
     (let (es', called) = clear_loop ht delete_function es
      in if ekey entry = 0 then (entry # es', called)
         else (entry\<lparr>ekey := 0\<rparr> # es',
               if delete_function \<and> ekey entry \<noteq> deleted_key ht then entry # called else called))"

definition mesa_hash_table_clear :: "hash_table \<Rightarrow> bool \<Rightarrow> hash_table \<times> hash_entry list" where
  "mesa_hash_table_clear ht delete_function =
     (let (table, called) = clear_loop ht delete_function (ht_table ht)
      in (ht\<lparr>ht_table := table, entries := 0, deleted_entries := 0\<rparr>, called))"

text \<open>\<open>r\<close> is the value of \<^verbatim>\<open>rand()\<close>, and a missing predicate accepts every entry.\<close>

definition mesa_hash_table_random_entry ::
  "hash_table \<Rightarrow> u32 \<Rightarrow> (hash_entry \<Rightarrow> bool) option \<Rightarrow> nat option"
where
  "mesa_hash_table_random_entry ht r predicate =
     (let i = unat (r mod ht_size ht);
          good = (\<lambda>i. entry_is_present ht (ht_table ht ! i) \<and>
                      (case predicate of None \<Rightarrow> True | Some p \<Rightarrow> p (ht_table ht ! i)))
      in if entries ht = 0 then None
         else case List.find good [i..<unat (ht_size ht)] of
                Some j \<Rightarrow> Some j
              | None \<Rightarrow> List.find good [0..<i])"

section \<open>Searching\<close>

definition next_address :: "hash_table \<Rightarrow> u32 \<Rightarrow> u32 \<Rightarrow> u32" where
  "next_address ht hash hash_address =
     (let double_hash = 1 + hash mod ht_rehash ht in (hash_address + double_hash) mod ht_size ht)"

definition search_visit :: "hash_table \<Rightarrow> u32 \<Rightarrow> ptr \<Rightarrow> u32 \<Rightarrow> unit \<Rightarrow> nat option + unit" where
  "search_visit ht hash key hash_address _ =
     (let entry = ht_table ht ! unat hash_address
      in if entry_is_free entry then Inl None
         else if entry_is_present ht entry \<and> ehash entry = hash \<and> key_equals_function ht key (ekey entry)
         then Inl (Some (unat hash_address)) else Inr ())"

definition hash_table_search :: "hash_table \<Rightarrow> u32 \<Rightarrow> ptr \<Rightarrow> nat option option" where
  "hash_table_search ht hash key =
     (let start_hash_address = hash mod ht_size ht
      in do {
        r \<leftarrow> do_probe (search_visit ht hash key) (next_address ht hash) start_hash_address start_hash_address ();
        Some (case r of Inl entry \<Rightarrow> entry | Inr _ \<Rightarrow> None)
      })"

definition mesa_hash_table_search :: "hash_table \<Rightarrow> ptr \<Rightarrow> nat option option" where
  "mesa_hash_table_search ht key =
     (case key_hash_function ht of None \<Rightarrow> None | Some f \<Rightarrow> hash_table_search ht (f key) key)"

definition mesa_hash_table_search_pre_hashed :: "hash_table \<Rightarrow> u32 \<Rightarrow> ptr \<Rightarrow> nat option option" where
  "mesa_hash_table_search_pre_hashed ht hash key =
     (if (case key_hash_function ht of None \<Rightarrow> True | Some f \<Rightarrow> hash = f key)
      then hash_table_search ht hash key else None)"

section \<open>Inserting\<close>

text \<open>
  The loop carries \<^verbatim>\<open>available_entry\<close>. It ends with \<open>Inl (Inl i)\<close> at an entry with an equal key,
  with \<open>Inl (Inr _)\<close> at a free entry, and with \<open>Inr _\<close> back at its start.
\<close>

definition insert_visit ::
  "hash_table \<Rightarrow> u32 \<Rightarrow> ptr \<Rightarrow> u32 \<Rightarrow> nat option \<Rightarrow> (nat + nat option) + nat option"
where
  "insert_visit ht hash key hash_address available_entry =
     (let entry = ht_table ht ! unat hash_address;
          available_entry = (if \<not> entry_is_present ht entry \<and> available_entry = None
                             then Some (unat hash_address) else available_entry)
      in if \<not> entry_is_present ht entry \<and> entry_is_free entry then Inl (Inr available_entry)
         else if \<not> entry_is_deleted ht entry \<and> ehash entry = hash \<and> key_equals_function ht key (ekey entry)
         then Inl (Inl (unat hash_address))
         else Inr available_entry)"

definition insert_at :: "hash_table \<Rightarrow> u32 \<Rightarrow> ptr \<Rightarrow> ptr \<Rightarrow> (nat + nat option) + nat option \<Rightarrow> hash_table \<times> nat option" where
  "insert_at ht hash key data r =
     (case r of
        Inl (Inl i) \<Rightarrow> (ht\<lparr>ht_table := (ht_table ht)[i := (ht_table ht ! i)\<lparr>ekey := key, edata := data\<rparr>]\<rparr>, Some i)
      | _ \<Rightarrow>
        (case (case r of Inl (Inr av) \<Rightarrow> av | Inr av \<Rightarrow> av | _ \<Rightarrow> None) of
           Some a \<Rightarrow>
             (ht\<lparr>ht_table := (ht_table ht)[a := \<lparr>ehash = hash, ekey = key, edata = data\<rparr>],
                 entries := entries ht + 1,
                 deleted_entries := (if entry_is_deleted ht (ht_table ht ! a)
                                     then deleted_entries ht - 1 else deleted_entries ht)\<rparr>, Some a)
         | None \<Rightarrow> (ht, None)))"

definition hash_table_insert_probe :: "hash_table \<Rightarrow> u32 \<Rightarrow> ptr \<Rightarrow> ptr \<Rightarrow> (hash_table \<times> nat option) option" where
  "hash_table_insert_probe ht hash key data =
     (let start_hash_address = hash mod ht_size ht
      in do {
        r \<leftarrow> do_probe (insert_visit ht hash key) (next_address ht hash) start_hash_address start_hash_address None;
        Some (insert_at ht hash key data r)
      })"

fun insert_all :: "(hash_table \<Rightarrow> u32 \<Rightarrow> ptr \<Rightarrow> ptr \<Rightarrow> (hash_table \<times> nat option) option) \<Rightarrow>
  hash_entry list \<Rightarrow> hash_table \<Rightarrow> hash_table option"
where
  "insert_all ins [] ht = Some ht"
| "insert_all ins (entry # es) ht = do {
     (ht, _) \<leftarrow> ins ht (ehash entry) (ekey entry) (edata entry);
     insert_all ins es ht
   }"

text \<open>\<^verbatim>\<open>_mesa_hash_table_rehash\<close> calls \<^verbatim>\<open>hash_table_insert\<close>, which is its argument here.\<close>

definition mesa_hash_table_rehash ::
  "(hash_table \<Rightarrow> u32 \<Rightarrow> ptr \<Rightarrow> ptr \<Rightarrow> (hash_table \<times> nat option) option) \<Rightarrow> (u32 \<Rightarrow> bool) \<Rightarrow>
   hash_table \<Rightarrow> u32 \<Rightarrow> hash_table option"
where
  "mesa_hash_table_rehash ins alloc ht new_size_index =
     (if 31 \<le> new_size_index then Some ht
      else let (mx, sz, rehash) = hash_sizes ! unat new_size_index
           in case rzalloc_entries alloc sz of
                None \<Rightarrow> Some ht
              | Some table \<Rightarrow>
                  insert_all ins (hash_table_foreach ht)
                    (ht\<lparr>ht_table := table, size_index := new_size_index, ht_size := sz,
                        ht_rehash := rehash, max_entries := mx, entries := 0, deleted_entries := 0\<rparr>))"

lemma insert_all_mono [partial_function_mono]:
  assumes "\<And>ht h k d. mono_option (\<lambda>f. ins f ht h k d)"
  shows "mono_option (\<lambda>f. insert_all (ins f) es ht)"
  by (induction es arbitrary: ht) (auto intro!: partial_function_mono assms split: prod.split)

lemma rehash_mono [partial_function_mono]:
  assumes "\<And>ht h k d. mono_option (\<lambda>f. ins f ht h k d)"
  shows "mono_option (\<lambda>f. mesa_hash_table_rehash (ins f) alloc ht i)"
proof -
  obtain mx sz r where s: "hash_sizes ! unat i = (mx, sz, r)" by (cases "hash_sizes ! unat i")
  show ?thesis unfolding mesa_hash_table_rehash_def Let_def s
    by (cases "rzalloc_entries alloc sz") (auto intro!: partial_function_mono insert_all_mono assms)
qed

partial_function (option) hash_table_insert ::
  "(u32 \<Rightarrow> bool) \<Rightarrow> hash_table \<Rightarrow> u32 \<Rightarrow> ptr \<Rightarrow> ptr \<Rightarrow> (hash_table \<times> nat option) option"
where
  "hash_table_insert alloc ht hash key data =
     (if key = 0 then None
      else do {
        ht \<leftarrow> (if max_entries ht \<le> entries ht
               then mesa_hash_table_rehash (hash_table_insert alloc) alloc ht (size_index ht + 1)
               else if max_entries ht \<le> deleted_entries ht + entries ht
               then mesa_hash_table_rehash (hash_table_insert alloc) alloc ht (size_index ht)
               else Some ht);
        hash_table_insert_probe ht hash key data
      })"

definition mesa_hash_table_insert ::
  "(u32 \<Rightarrow> bool) \<Rightarrow> hash_table \<Rightarrow> ptr \<Rightarrow> ptr \<Rightarrow> (hash_table \<times> nat option) option"
where
  "mesa_hash_table_insert alloc ht key data =
     (case key_hash_function ht of None \<Rightarrow> None | Some f \<Rightarrow> hash_table_insert alloc ht (f key) key data)"

definition mesa_hash_table_insert_pre_hashed ::
  "(u32 \<Rightarrow> bool) \<Rightarrow> hash_table \<Rightarrow> u32 \<Rightarrow> ptr \<Rightarrow> ptr \<Rightarrow> (hash_table \<times> nat option) option"
where
  "mesa_hash_table_insert_pre_hashed alloc ht hash key data =
     (if (case key_hash_function ht of None \<Rightarrow> True | Some f \<Rightarrow> hash = f key)
      then hash_table_insert alloc ht hash key data else None)"

section \<open>Removing\<close>

definition mesa_hash_table_remove :: "hash_table \<Rightarrow> nat option \<Rightarrow> hash_table" where
  "mesa_hash_table_remove ht entry =
     (case entry of None \<Rightarrow> ht
      | Some i \<Rightarrow>
          ht\<lparr>ht_table := (ht_table ht)[i := (ht_table ht ! i)\<lparr>ekey := deleted_key ht\<rparr>],
             entries := entries ht - 1, deleted_entries := deleted_entries ht + 1\<rparr>)"

definition mesa_hash_table_remove_key :: "hash_table \<Rightarrow> ptr \<Rightarrow> hash_table option" where
  "mesa_hash_table_remove_key ht key =
     do { entry \<leftarrow> mesa_hash_table_search ht key; Some (mesa_hash_table_remove ht entry) }"

section \<open>The entries visited by an iteration\<close>


lemma foreach_from_filter:
  "foreach_from ht (mesa_hash_table_next_entry ht entry) =
   filter (\<lambda>i. entry_is_present ht (ht_table ht ! i)) [case entry of None \<Rightarrow> 0 | Some i \<Rightarrow> i + 1..<unat (ht_size ht)]"
proof (induction "unat (ht_size ht) - (case entry of None \<Rightarrow> 0 | Some i \<Rightarrow> i + 1)" arbitrary: entry rule: less_induct)
  case less
  show ?case
  proof (cases "mesa_hash_table_next_entry ht entry")
    case None
    then show ?thesis
      by (subst filter_upt_find) (simp add: foreach_from.simps mesa_hash_table_next_entry_def Let_def)
  next
    case (Some j)
    have "unat (ht_size ht) - Suc j < unat (ht_size ht) - (case entry of None \<Rightarrow> 0 | Some i \<Rightarrow> i + 1)"
      using next_entry_bounds [OF Some] by (cases entry) force+
    with less [of "Some j"]
    have "foreach_from ht (mesa_hash_table_next_entry ht (Some j)) =
      filter (\<lambda>i. entry_is_present ht (ht_table ht ! i)) [Suc j..<unat (ht_size ht)]" by simp
    then show ?thesis unfolding Some using Some
      by (subst filter_upt_find, subst foreach_from.simps) (simp add: mesa_hash_table_next_entry_def Let_def)
  qed
qed

lemma hash_table_foreach_filter:
  assumes "length (ht_table ht) = unat (ht_size ht)"
  shows "hash_table_foreach ht = filter (entry_is_present ht) (ht_table ht)"
proof -
  have "hash_table_foreach ht = filter (entry_is_present ht) (map (\<lambda>i. ht_table ht ! i) [0..<unat (ht_size ht)])"
    unfolding hash_table_foreach_def foreach_from_filter by (simp add: filter_map o_def)
  also have "map (\<lambda>i. ht_table ht ! i) [0..<unat (ht_size ht)] = ht_table ht"
    using assms by (simp add: map_nth flip: assms)
  finally show ?thesis .
qed

section \<open>What the loops visit\<close>

text \<open>
  \<open>ptr_table\<close> is the contract of the callbacks together with a deleted key that is not \<^verbatim>\<open>NULL\<close>; the
  entries of a table with that deleted key are the slots of \<^const>\<open>slot_table\<close>.
\<close>

locale ptr_table = keys H eq for H :: "ptr \<Rightarrow> u32" and eq :: "ptr \<Rightarrow> ptr \<Rightarrow> bool" +
  fixes dk :: ptr
  assumes dk_nonnull: "dk \<noteq> 0"

sublocale ptr_table \<subseteq> st: slot_table H eq "\<lambda>e. ekey e = 0" "\<lambda>e. ekey e \<noteq> 0 \<and> ekey e \<noteq> dk" ekey ehash
  by unfold_locales simp

context ptr_table
begin

definition route :: "hash_table \<Rightarrow> u32 \<Rightarrow> nat list" where
  "route ht = double_hash_route (ht_size ht) (ht_rehash ht)"

definition shape :: "hash_table \<Rightarrow> bool" where
  "shape ht \<longleftrightarrow> key_equals_function ht = eq \<and> deleted_key ht = dk \<and>
     (\<forall>f. key_hash_function ht = Some f \<longrightarrow> f = H) \<and>
     unat (size_index ht) < 30 \<and> hash_sizes ! unat (size_index ht) = (max_entries ht, ht_size ht, ht_rehash ht) \<and>
     length (ht_table ht) = unat (ht_size ht)"

text \<open>
  A table whose entries are where the search looks for them; \<open>entries\<close> counts the present ones.
\<close>

definition wf :: "hash_table \<Rightarrow> bool" where
  "wf ht \<longleftrightarrow> shape ht \<and> st.tinv (route ht) (ht_table ht) \<and> unat (entries ht) = st.count (ht_table ht)"

lemma shape_sizes:
  assumes "shape ht"
  shows "0 < unat (ht_size ht)" "0 < unat (ht_rehash ht)" "unat (ht_size ht) + unat (ht_rehash ht) \<le> 2 ^ 32"
    "unat (max_entries ht) < unat (ht_size ht)" "0 < unat (max_entries ht)"
  using good_size_nth [of "unat (size_index ht)"] assms by (simp_all add: shape_def)

lemma shape_routes:
  assumes "shape ht"
  shows "st.routes (route ht) (length (ht_table ht))"
  using routes_double_hash [OF shape_sizes(1) [OF assms]] assms
  by (simp add: st.routes_def route_def shape_def)

lemma route_bound: "shape ht \<Longrightarrow> a \<in> set (route ht h) \<Longrightarrow> a < unat (ht_size ht)"
  using shape_routes [of ht] by (auto simp: st.routes_def shape_def)

lemma probe_loop:
  assumes "shape ht" "\<And>a s. a < unat (ht_size ht) \<Longrightarrow> visit (of_nat a) s = visit' a s"
  shows "do_probe visit (next_address ht h) (h mod ht_size ht) (h mod ht_size ht) s = Some (walk visit' (route ht h) s)"
proof -
  have "do_probe visit (next_address ht h) (h mod ht_size ht) (h mod ht_size ht) s =
    Some (walk (\<lambda>a. visit (of_nat a)) (route ht h) s)"
    using do_probe_u32 [OF shape_sizes(1-3) [OF assms(1)], of visit h s]
    by (simp add: next_address_def [abs_def] route_def Let_def)
  also have "walk (\<lambda>a. visit (of_nat a)) (route ht h) s = walk visit' (route ht h) s"
    by (rule walk_cong) (simp add: assms(2) route_bound [OF assms(1)])
  finally show ?thesis .
qed

lemma search_visit_slot:
  "shape ht \<Longrightarrow> a < unat (ht_size ht) \<Longrightarrow> search_visit ht h k (of_nat a) s = st.find_visit (ht_table ht) h k a s"
  by (simp add: search_visit_def st.find_visit_def unat_of_nat_u32 entry_is_free_def entry_is_present_def shape_def Let_def)

lemma insert_visit_slot:
  "shape ht \<Longrightarrow> a < unat (ht_size ht) \<Longrightarrow> insert_visit ht h k (of_nat a) av = st.ins_visit (ht_table ht) h k a av"
  using dk_nonnull
  by (auto simp: insert_visit_def st.ins_visit_def unat_of_nat_u32 entry_is_free_def entry_is_present_def
      entry_is_deleted_def shape_def Let_def)

text \<open>The search returns, and finds the entry with an equal key.\<close>

lemma hash_table_search_spec:
  assumes "wf ht"
  shows "st.mem (ht_table ht) k i \<Longrightarrow> hash_table_search ht (H k) k = Some (Some i)"
    and "\<nexists>i. st.mem (ht_table ht) k i \<Longrightarrow> hash_table_search ht (H k) k = Some None"
proof -
  have s: "shape ht" "st.tinv (route ht) (ht_table ht)" using assms by (simp_all add: wf_def)
  note sw = st.search_walk [OF s(2) shape_routes [OF s(1)], where k = k and s = "()"]
  have eq: "hash_table_search ht (H k) k =
    Some (case walk (st.find_visit (ht_table ht) (H k) k) (route ht (H k)) () of Inl e \<Rightarrow> e | Inr _ \<Rightarrow> None)"
    using probe_loop [where visit = "search_visit ht (H k) k" and visit' = "st.find_visit (ht_table ht) (H k) k",
      OF s(1) search_visit_slot [OF s(1)]]
    by (simp add: hash_table_search_def Let_def)
  show "hash_table_search ht (H k) k = Some (Some i)" if "st.mem (ht_table ht) k i"
    using sw(1) [OF that] by (simp add: eq)
  show "hash_table_search ht (H k) k = Some None" if "\<nexists>i. st.mem (ht_table ht) k i"
    using sw(2) [OF that] by (auto simp: eq)
qed

text \<open>The insertion loop puts the entry where \<^const>\<open>st.place\<close> says.\<close>

definition entry :: "ptr \<Rightarrow> ptr \<Rightarrow> hash_entry" where
  "entry k d = \<lparr>ehash = H k, ekey = k, edata = d\<rparr>"

definition is_key :: "ptr \<Rightarrow> bool" where
  "is_key k \<longleftrightarrow> k \<noteq> 0 \<and> k \<noteq> dk"

definition stored :: "hash_table \<Rightarrow> nat \<Rightarrow> hash_entry \<Rightarrow> hash_table" where
  "stored ht a e = ht\<lparr>ht_table := (ht_table ht)[a := e],
     entries := (if entry_is_present ht (ht_table ht ! a) then entries ht else entries ht + 1),
     deleted_entries := (if entry_is_deleted ht (ht_table ht ! a) then deleted_entries ht - 1 else deleted_entries ht)\<rparr>"

lemma entry_simps [simp]: "ehash (entry k d) = H k" "ekey (entry k d) = k" "edata (entry k d) = d"
  by (simp_all add: entry_def)

lemma insert_probe_place:
  assumes "wf ht" "is_key k"
  shows "hash_table_insert_probe ht (H k) k d =
    Some (case st.place (route ht) (ht_table ht) (entry k d) of
            None \<Rightarrow> (ht, None) | Some a \<Rightarrow> (stored ht a (entry k d), Some a))"
proof -
  have s: "shape ht" "st.tinv (route ht) (ht_table ht)" using assms by (simp_all add: wf_def)
  let ?w = "walk (st.ins_visit (ht_table ht) (H k) k) (route ht (H k)) None"
  have eq: "hash_table_insert_probe ht (H k) k d = Some (insert_at ht (H k) k d ?w)"
    using probe_loop [where visit = "insert_visit ht (H k) k" and visit' = "st.ins_visit (ht_table ht) (H k) k",
      OF s(1) insert_visit_slot [OF s(1)]]
    by (simp add: hash_table_insert_probe_def Let_def)
  have dk: "deleted_key ht = dk" using s(1) by (simp add: shape_def)
  show ?thesis
  proof (cases "\<exists>i. st.mem (ht_table ht) k i")
    case True
    then obtain i where i: "st.mem (ht_table ht) k i" by blast
    note f = st.place_found [OF s(2) shape_routes [OF s(1)], where e = "entry k d", simplified, OF i]
    have "ehash (ht_table ht ! i) = H k" using st.mem_hash [OF s(2) i] by simp
    then have "(ht_table ht ! i)\<lparr>ekey := k, edata := d\<rparr> = entry k d" by (simp add: entry_def)
    then show ?thesis using f i
      by (simp add: eq insert_at_def stored_def st.mem_def entry_is_present_def entry_is_deleted_def dk)
  next
    case False
    note m = st.place_missing(1) [OF shape_routes [OF s(1)], where e = "entry k d", simplified, OF False [simplified]]
    have pl: "st.place (route ht) (ht_table ht) (entry k d) = st.the_avail ?w"
      using m by (auto simp: st.place_def split: sum.splits)
    have np: "\<not> entry_is_present ht (ht_table ht ! a)" if "st.place (route ht) (ht_table ht) (entry k d) = Some a" for a
      using st.place_avail(2) [OF s(2) shape_routes [OF s(1)], where e = "entry k d", simplified, OF False [simplified] that]
      by (simp add: entry_is_present_def dk)
    have "insert_at ht (H k) k d ?w = (case st.the_avail ?w of None \<Rightarrow> (ht, None)
      | Some a \<Rightarrow> (ht\<lparr>ht_table := (ht_table ht)[a := entry k d], entries := entries ht + 1,
          deleted_entries := (if entry_is_deleted ht (ht_table ht ! a) then deleted_entries ht - 1 else deleted_entries ht)\<rparr>, Some a))"
      using m by (auto simp: insert_at_def st.the_avail_def entry_def split: sum.splits option.splits)
    then show ?thesis using np unfolding eq pl by (auto simp: stored_def split: option.splits)
  qed
qed

end

section \<open>Insertion\<close>

context ptr_table
begin

lemma stored_simps [simp]:
  "ht_table (stored ht a e) = (ht_table ht)[a := e]" "size_index (stored ht a e) = size_index ht"
  "max_entries (stored ht a e) = max_entries ht" "key_hash_function (stored ht a e) = key_hash_function ht"
  "route (stored ht a e) = route ht" "shape (stored ht a e) = shape ht"
  "deleted_entries (stored ht a e) =
     (if entry_is_deleted ht (ht_table ht ! a) then deleted_entries ht - 1 else deleted_entries ht)"
  by (simp_all add: stored_def route_def shape_def)

lemma wf_stored:
  assumes "wf ht" "is_key k" "st.place (route ht) (ht_table ht) (entry k d) = Some a"
  shows "wf (stored ht a (entry k d))"
    and "st.holds ((ht_table ht)[a := entry k d]) l x \<longleftrightarrow> (if eq l k then x = entry k d else st.holds (ht_table ht) l x)"
    and "unat (entries (stored ht a (entry k d))) =
      (if \<exists>x. st.holds (ht_table ht) k x then unat (entries ht) else unat (entries ht) + 1)"
    and "a < length (ht_table ht)"
proof -
  have s: "shape ht" "st.tinv (route ht) (ht_table ht)" "unat (entries ht) = st.count (ht_table ht)"
    using assms by (simp_all add: wf_def)
  let ?t = "(ht_table ht)[a := entry k d]"
  note p = st.place_put [OF s(2) shape_routes [OF s(1)], where e = "entry k d", simplified, OF _ assms(3)]
  have k: "k \<noteq> 0 \<and> k \<noteq> dk" using assms(2) by (simp add: is_key_def)
  show "st.holds ?t l x \<longleftrightarrow> (if eq l k then x = entry k d else st.holds (ht_table ht) l x)"
    using p(2) k by simp
  show a: "a < length (ht_table ht)" using p(4) k by simp
  have dk: "deleted_key ht = dk" using s(1) by (simp add: shape_def)
  have c: "st.count ?t = (if entry_is_present ht (ht_table ht ! a) then st.count (ht_table ht) else st.count (ht_table ht) + 1)"
    using st.count_update [OF a, of "entry k d"] k
    by (cases "entry_is_present ht (ht_table ht ! a)") (auto simp: entry_is_present_def dk)
  have "st.count ?t \<le> unat (ht_size ht)" using st.count_le [of ?t] s(1) by (simp add: shape_def)
  then have e: "unat (entries (stored ht a (entry k d))) = st.count ?t"
    using unat_lt2p [of "ht_size ht"] c s(3) by (auto simp: stored_def unat_add_no_wrap split: if_splits)
  show "wf (stored ht a (entry k d))" using s p(1) k e by (simp add: wf_def)
  show "unat (entries (stored ht a (entry k d))) =
      (if \<exists>x. st.holds (ht_table ht) k x then unat (entries ht) else unat (entries ht) + 1)"
    using p(3) k e s(3) by simp
qed

lemma shape_cover:
  assumes "shape ht" "unat (size_index ht) < 16"
  shows "st.cover (route ht) (length (ht_table ht))"
proof -
  have "set (route ht h) = {..<length (ht_table ht)}" for h
    using cover_size [OF assms(2), of h] assms(1) by (simp add: route_def shape_def)
  then show ?thesis using shape_routes [OF assms(1)] by (simp add: st.cover_def)
qed

lemma insert_probe_put:
  assumes "wf ht" "is_key k" "unat (size_index ht) < 16" "unat (entries ht) < unat (ht_size ht)"
  obtains a where "hash_table_insert_probe ht (H k) k d = Some (stored ht a (entry k d), Some a)"
    "st.place (route ht) (ht_table ht) (entry k d) = Some a"
proof -
  have s: "shape ht" "st.tinv (route ht) (ht_table ht)" "unat (entries ht) = st.count (ht_table ht)"
    using assms by (simp_all add: wf_def)
  have "st.count (ht_table ht) < length (ht_table ht)" using assms(4) s by (simp add: shape_def)
  then obtain a where "st.place (route ht) (ht_table ht) (entry k d) = Some a"
    using st.place_total [OF s(2) shape_routes [OF s(1)], where e = "entry k d"] shape_cover [OF s(1) assms(3)]
    by (auto simp: st.cover_def)
  with that insert_probe_place [OF assms(1,2), of d] show ?thesis by simp
qed

text \<open>A table being refilled by a rehash has no deleted entries, so it is not rehashed again.\<close>

definition fresh :: "hash_table \<Rightarrow> bool" where
  "fresh ht \<longleftrightarrow> wf ht \<and> unat (size_index ht) < 16 \<and> deleted_entries ht = 0 \<and> (\<forall>e\<in>set (ht_table ht). ekey e \<noteq> dk)"

lemma hash_table_insert_direct:
  assumes "k \<noteq> 0" "unat (entries ht) < unat (max_entries ht)" "\<not> max_entries ht \<le> deleted_entries ht + entries ht"
  shows "hash_table_insert alloc ht h k d = hash_table_insert_probe ht h k d"
  using assms by (subst hash_table_insert.simps) (simp add: word_le_nat_alt)

lemma insert_fresh:
  assumes "fresh ht" "is_key k" "unat (entries ht) < unat (max_entries ht)"
  obtains ht' a where "hash_table_insert alloc ht (H k) k d = Some (ht', Some a)" "fresh ht'"
    "ht_table ht' = st.put (route ht) (ht_table ht) (entry k d)" "route ht' = route ht"
    "max_entries ht' = max_entries ht" "size_index ht' = size_index ht" "key_hash_function ht' = key_hash_function ht"
    "unat (entries ht') \<le> unat (entries ht) + 1"
proof -
  have f: "wf ht" "unat (size_index ht) < 16" "deleted_entries ht = 0" "\<forall>e\<in>set (ht_table ht). ekey e \<noteq> dk"
    using assms(1) by (simp_all add: fresh_def)
  then have s: "shape ht" by (simp add: wf_def)
  obtain a where a: "hash_table_insert_probe ht (H k) k d = Some (stored ht a (entry k d), Some a)"
    "st.place (route ht) (ht_table ht) (entry k d) = Some a"
    using insert_probe_put [OF f(1) assms(2) f(2)] assms(3) shape_sizes(4) [OF s] by auto
  have "hash_table_insert alloc ht (H k) k d = Some (stored ht a (entry k d), Some a)"
    using assms(2,3) f(3) a(1)
    by (subst hash_table_insert_direct) (auto simp: is_key_def word_le_nat_alt)
  moreover note w = wf_stored [OF f(1) assms(2) a(2)]
  have nd: "\<not> entry_is_deleted ht (ht_table ht ! a)"
    using f(4) w(4) s by (simp add: entry_is_deleted_def shape_def)
  have "\<forall>e\<in>set ((ht_table ht)[a := entry k d]). ekey e \<noteq> dk"
    using f(4) assms(2) set_update_subset_insert [of "ht_table ht" a "entry k d"] by (auto simp: is_key_def)
  then have "fresh (stored ht a (entry k d))" using w(1) f(2,3) nd by (simp add: fresh_def)
  moreover have "unat (entries (stored ht a (entry k d))) \<le> unat (entries ht) + 1" using w(3) by simp
  ultimately show ?thesis using that [of "stored ht a (entry k d)" a] a(2) by (simp add: st.put_def)
qed

lemma insert_all_fresh:
  assumes "fresh ht" "unat (entries ht) + length es \<le> unat (max_entries ht)"
    and "\<forall>e\<in>set es. is_key (ekey e) \<and> ehash e = H (ekey e)"
  shows "\<exists>ht'. insert_all (hash_table_insert alloc) es ht = Some ht' \<and> fresh ht' \<and>
    ht_table ht' = foldl (st.put (route ht)) (ht_table ht) es \<and> route ht' = route ht \<and>
    size_index ht' = size_index ht \<and> key_hash_function ht' = key_hash_function ht"
  using assms
proof (induction es arbitrary: ht)
  case (Cons e es)
  have e: "is_key (ekey e)" "ehash e = H (ekey e)" "e = entry (ekey e) (edata e)"
    using Cons.prems(3) by (simp_all add: entry_def)
  have "unat (entries ht) < unat (max_entries ht)" using Cons.prems(2) by simp
  then obtain ht' a where i: "hash_table_insert alloc ht (H (ekey e)) (ekey e) (edata e) = Some (ht', Some a)" "fresh ht'"
    "ht_table ht' = st.put (route ht) (ht_table ht) (entry (ekey e) (edata e))" "route ht' = route ht"
    "max_entries ht' = max_entries ht" "size_index ht' = size_index ht" "key_hash_function ht' = key_hash_function ht"
    "unat (entries ht') \<le> unat (entries ht) + 1"
    by (rule insert_fresh [OF Cons.prems(1) e(1), of alloc "edata e"])
  have "unat (entries ht') + length es \<le> unat (max_entries ht')" using Cons.prems(2) i(5,8) by simp
  then show ?case using Cons.IH [OF i(2)] Cons.prems(3) i by (simp add: e(2) flip: e(3))
qed simp

end

context ptr_table
begin

lemma wf_no_present:
  assumes "shape ht" "entries ht = 0" "\<forall>e\<in>set (ht_table ht). ekey e = 0 \<or> ekey e = dk"
  shows "wf ht" "\<not> st.holds (ht_table ht) l x"
proof -
  have "\<forall>i<length (ht_table ht). ekey (ht_table ht ! i) = 0 \<or> ekey (ht_table ht ! i) = dk" using assms(3) by simp
  then show "\<not> st.holds (ht_table ht) l x" "wf ht"
    using assms st.tinv_none [of "ht_table ht" "route ht"]
    by (auto simp: wf_def st.holds_def st.mem_def st.count_def filter_empty_conv)
qed

lemma wf_empty:
  assumes "shape ht" "entries ht = 0" "\<forall>e\<in>set (ht_table ht). ekey e = 0"
  shows "wf ht" "\<not> st.holds (ht_table ht) l x"
  using wf_no_present [OF assms(1,2)] assms(3) by blast+

lemma foreach_present:
  "shape ht \<Longrightarrow> hash_table_foreach ht = filter (\<lambda>e. ekey e \<noteq> 0 \<and> ekey e \<noteq> dk) (ht_table ht)"
  by (simp add: hash_table_foreach_filter shape_def entry_is_present_def [abs_def])

lemma rehash_spec:
  assumes "wf ht" "unat i < 16" "alloc (size_size (unat i))" "unat (entries ht) \<le> unat (size_max (unat i))"
  obtains ht' where "mesa_hash_table_rehash (hash_table_insert alloc) alloc ht i = Some ht'" "fresh ht'"
    "size_index ht' = i" "key_hash_function ht' = key_hash_function ht"
    "entries ht' = entries ht" "\<forall>l x. st.holds (ht_table ht') l x \<longleftrightarrow> st.holds (ht_table ht) l x"
proof -
  have s: "shape ht" "st.tinv (route ht) (ht_table ht)" "unat (entries ht) = st.count (ht_table ht)"
    using assms by (simp_all add: wf_def)
  obtain mx sz rh where sizes: "hash_sizes ! unat i = (mx, sz, rh)" by (cases "hash_sizes ! unat i")
  let ?t = "replicate (unat sz) \<lparr>ehash = 0, ekey = 0, edata = 0\<rparr>"
  let ?n = "ht\<lparr>ht_table := ?t, size_index := i, ht_size := sz, ht_rehash := rh, max_entries := mx,
      entries := 0, deleted_entries := 0\<rparr>"
  let ?es = "hash_table_foreach ht"
  have i31: "\<not> 31 \<le> i" using assms(2) by (simp add: word_le_nat_alt)
  have run: "mesa_hash_table_rehash (hash_table_insert alloc) alloc ht i = insert_all (hash_table_insert alloc) ?es ?n"
    using i31 assms(3) by (simp add: mesa_hash_table_rehash_def sizes rzalloc_entries_def)
  have shape: "shape ?n" using s(1) assms(2) by (simp add: shape_def sizes)
  have tz: "\<forall>e\<in>set ?t. ekey e = 0" by simp
  have n: "wf ?n" "\<And>l x. \<not> st.holds ?t l x" using wf_empty [OF shape] tz by simp_all
  have fr: "fresh ?n" using n(1) assms(2) dk_nonnull by (simp add: fresh_def)
  have es: "?es = filter (\<lambda>e. ekey e \<noteq> 0 \<and> ekey e \<noteq> dk) (ht_table ht)" by (rule foreach_present [OF s(1)])
  have len: "length ?es = unat (entries ht)" by (simp add: es s(3) st.count_def)
  have fk: "st.fresh_keys ?es" unfolding es by (rule st.fresh_keys_present(1) [OF s(2)])
  have "is_key (ekey e) \<and> ehash e = H (ekey e)" if e: "e \<in> set ?es" for e
  proof -
    obtain j where "j < length (ht_table ht)" "ht_table ht ! j = e" "ekey e \<noteq> 0 \<and> ekey e \<noteq> dk"
      using e by (auto simp: es in_set_conv_nth)
    with s(2) show ?thesis by (auto simp: st.tinv_def is_key_def)
  qed
  moreover have "unat (entries ?n) + length ?es \<le> unat (max_entries ?n)" using assms(4) len by (simp add: sizes)
  ultimately obtain ht' where h: "insert_all (hash_table_insert alloc) ?es ?n = Some ht'" "fresh ht'"
    "ht_table ht' = foldl (st.put (route ?n)) ?t ?es" "size_index ht' = i" "key_hash_function ht' = key_hash_function ht"
    using insert_all_fresh [OF fr, of ?es alloc] by auto
  have c: "st.cover (route ?n) (length ?t)" using shape_cover [OF shape] assms(2) by simp
  have "st.tinv (route ?n) ?t" using n(1) by (simp add: wf_def)
  moreover have "st.count ?t = 0" by (simp add: st.count_def)
  moreover have "unat (entries ht) \<le> unat sz"
    using assms(4) good_size_nth(2) [of "unat i"] assms(2) by (simp add: sizes)
  ultimately have r: "st.count (ht_table ht') = unat (entries ht)"
    "\<forall>l x. st.holds (ht_table ht') l x \<longleftrightarrow> x \<in> set ?es \<and> eq l (ekey x)"
    using st.reinsert [OF _ c _ fk] n(2) len unfolding h(3) by simp_all
  have "entries ht' = entries ht" using h(2) r(1) by (simp add: fresh_def wf_def word_unat_eq_iff)
  then show ?thesis
    using that [of ht'] h run r(2) st.fresh_keys_present(2) [OF s(2)] by (simp add: es)
qed

text \<open>Tables that have not seen a failed allocation, with at most 65536 entries.\<close>

definition ok :: "hash_table \<Rightarrow> bool" where
  "ok ht \<longleftrightarrow> wf ht \<and> unat (size_index ht) < 16 \<and> unat (entries ht) \<le> unat (max_entries ht)"

lemma ok_max: "ok ht \<Longrightarrow> max_entries ht = size_max (unat (size_index ht))"
  by (simp add: ok_def wf_def shape_def)

lemma size_max_15: "size_max 15 = 65536"
  by (simp add: hash_sizes_def)

lemma fresh_ok: "fresh ht \<Longrightarrow> unat (entries ht) \<le> unat (size_max (unat (size_index ht))) \<Longrightarrow> ok ht"
  by (simp add: fresh_def ok_def wf_def shape_def)

text \<open>What an insertion does before it probes: it makes room, and keeps the contents.\<close>

definition make_room :: "(u32 \<Rightarrow> bool) \<Rightarrow> hash_table \<Rightarrow> hash_table option" where
  "make_room alloc ht =
     (if max_entries ht \<le> entries ht then mesa_hash_table_rehash (hash_table_insert alloc) alloc ht (size_index ht + 1)
      else if max_entries ht \<le> deleted_entries ht + entries ht
      then mesa_hash_table_rehash (hash_table_insert alloc) alloc ht (size_index ht)
      else Some ht)"

lemma hash_table_insert_room:
  "k \<noteq> 0 \<Longrightarrow> hash_table_insert alloc ht h k d = Option.bind (make_room alloc ht) (\<lambda>ht. hash_table_insert_probe ht h k d)"
  by (subst hash_table_insert.simps) (simp add: make_room_def)

lemma make_room_spec:
  assumes "ok ht" "\<And>n. alloc n" "unat (entries ht) < 65536"
  obtains ht' where "make_room alloc ht = Some ht'" "ok ht'" "unat (entries ht') < unat (max_entries ht')"
    "key_hash_function ht' = key_hash_function ht" "entries ht' = entries ht"
    "\<forall>l x. st.holds (ht_table ht') l x \<longleftrightarrow> st.holds (ht_table ht) l x"
    "ht' = ht \<and> \<not> max_entries ht \<le> deleted_entries ht + entries ht \<or> fresh ht'"
proof -
  have w: "wf ht" "unat (size_index ht) < 16" "unat (entries ht) \<le> unat (max_entries ht)"
    using assms(1) by (simp_all add: ok_def)
  note mx = ok_max [OF assms(1)]
  consider "max_entries ht \<le> entries ht" | "\<not> max_entries ht \<le> entries ht" "max_entries ht \<le> deleted_entries ht + entries ht"
    | "\<not> max_entries ht \<le> entries ht" "\<not> max_entries ht \<le> deleted_entries ht + entries ht" by blast
  then show ?thesis
  proof cases
    case 1
    then have full: "unat (entries ht) = unat (max_entries ht)" using w(3) by (simp add: word_le_nat_alt)
    have "unat (size_index ht) \<noteq> 15"
    proof
      assume "unat (size_index ht) = 15"
      then have "unat (max_entries ht) = 65536" using mx by (simp add: size_max_15)
      with full assms(3) show False by simp
    qed
    then have idx: "unat (size_index ht + 1) = Suc (unat (size_index ht))" "unat (size_index ht + 1) < 16"
      using w(2) by (simp_all add: unat_add_no_wrap)
    have lt: "unat (entries ht) < unat (size_max (unat (size_index ht + 1)))"
      using size_max_Suc [of "unat (size_index ht)"] w(2) full mx by (simp add: idx(1))
    obtain ht' where r: "mesa_hash_table_rehash (hash_table_insert alloc) alloc ht (size_index ht + 1) = Some ht'" "fresh ht'"
      "size_index ht' = size_index ht + 1" "key_hash_function ht' = key_hash_function ht"
      "entries ht' = entries ht" "\<forall>l x. st.holds (ht_table ht') l x \<longleftrightarrow> st.holds (ht_table ht) l x"
      by (rule rehash_spec [where alloc = alloc, OF w(1) idx(2) assms(2) less_imp_le [OF lt]])
    have o: "ok ht'" using fresh_ok [OF r(2)] r(3,5) lt by simp
    show ?thesis using that [of ht'] o r 1 lt ok_max [OF o] by (simp add: make_room_def)
  next
    case 2
    have lt: "unat (entries ht) < unat (size_max (unat (size_index ht)))" using 2 mx by (simp add: word_le_nat_alt)
    obtain ht' where r: "mesa_hash_table_rehash (hash_table_insert alloc) alloc ht (size_index ht) = Some ht'" "fresh ht'"
      "size_index ht' = size_index ht" "key_hash_function ht' = key_hash_function ht"
      "entries ht' = entries ht" "\<forall>l x. st.holds (ht_table ht') l x \<longleftrightarrow> st.holds (ht_table ht) l x"
      by (rule rehash_spec [where alloc = alloc, OF w(1,2) assms(2) less_imp_le [OF lt]])
    have o: "ok ht'" using fresh_ok [OF r(2)] r(3,5) lt by simp
    show ?thesis using that [of ht'] o r 2 lt ok_max [OF o] by (simp add: make_room_def)
  next
    case 3
    then show ?thesis using that [of ht] assms(1) by (simp add: make_room_def word_le_nat_alt)
  qed
qed

text \<open>\<open>deleted_entries\<close> counts the tombstones, and the two counters together stay within the limit.\<close>

definition tombs :: "hash_entry list \<Rightarrow> nat" where
  "tombs t = length (filter (\<lambda>e. ekey e = dk) t)"

definition tight :: "hash_table \<Rightarrow> bool" where
  "tight ht \<longleftrightarrow> unat (deleted_entries ht) = tombs (ht_table ht) \<and>
     unat (entries ht) + unat (deleted_entries ht) \<le> unat (max_entries ht)"

lemma tight_room:
  assumes "tight ht" "r = ht \<and> \<not> max_entries ht \<le> deleted_entries ht + entries ht \<or> fresh r"
    and "unat (entries r) < unat (max_entries r)"
  shows "unat (deleted_entries r) = tombs (ht_table r)" "unat (entries r) + unat (deleted_entries r) < unat (max_entries r)"
proof -
  have "unat (deleted_entries r) = tombs (ht_table r) \<and> unat (entries r) + unat (deleted_entries r) < unat (max_entries r)"
    using assms(2)
  proof
    assume r: "r = ht \<and> \<not> max_entries ht \<le> deleted_entries ht + entries ht"
    have "unat (deleted_entries ht + entries ht) = unat (deleted_entries ht) + unat (entries ht)"
      using assms(1) unat_lt2p [of "max_entries ht"] by (simp add: tight_def unat_add_no_wrap)
    then show ?thesis using r assms(1) by (simp add: tight_def word_le_nat_alt)
  next
    assume "fresh r"
    then show ?thesis using assms(3) by (simp add: fresh_def tombs_def)
  qed
  then show "unat (deleted_entries r) = tombs (ht_table r)"
    "unat (entries r) + unat (deleted_entries r) < unat (max_entries r)" by simp_all
qed

lemma deleted_stored:
  assumes "wf ht" "is_key k" "st.place (route ht) (ht_table ht) (entry k d) = Some a" "unat (deleted_entries ht) = tombs (ht_table ht)"
  shows "unat (deleted_entries (stored ht a (entry k d))) = tombs ((ht_table ht)[a := entry k d])"
    "tombs ((ht_table ht)[a := entry k d]) + of_bool (entry_is_deleted ht (ht_table ht ! a)) = tombs (ht_table ht)"
proof -
  note w = wf_stored [OF assms(1-3)]
  have del: "entry_is_deleted ht (ht_table ht ! a) \<longleftrightarrow> ekey (ht_table ht ! a) = dk"
    using assms(1) by (simp add: entry_is_deleted_def wf_def shape_def)
  show t: "tombs ((ht_table ht)[a := entry k d]) + of_bool (entry_is_deleted ht (ht_table ht ! a)) = tombs (ht_table ht)"
    unfolding tombs_def del using length_filter_update [OF w(4), of "\<lambda>e. ekey e = dk" "entry k d"] assms(2)
    by (simp add: is_key_def)
  then show "unat (deleted_entries (stored ht a (entry k d))) = tombs ((ht_table ht)[a := entry k d])"
    using assms(4) by (auto simp: unat_sub_no_wrap split: if_splits)
qed

lemma tight_stored:
  assumes "wf ht" "is_key k" "st.place (route ht) (ht_table ht) (entry k d) = Some a"
    and "unat (deleted_entries ht) = tombs (ht_table ht)" "unat (entries ht) + unat (deleted_entries ht) < unat (max_entries ht)"
  shows "tight (stored ht a (entry k d))"
  using deleted_stored [OF assms(1-4)] wf_stored(3) [OF assms(1-3)] assms(4,5) by (simp add: tight_def split: if_splits)

lemma insert_spec:
  assumes "ok ht" "\<And>n. alloc n" "unat (entries ht) < 65536" "is_key k"
  obtains ht' a where "hash_table_insert alloc ht (H k) k d = Some (ht', Some a)" "ok ht'"
    "key_hash_function ht' = key_hash_function ht" "a < length (ht_table ht')" "ht_table ht' ! a = entry k d"
    "\<forall>l x. st.holds (ht_table ht') l x \<longleftrightarrow> (if eq l k then x = entry k d else st.holds (ht_table ht) l x)"
    "unat (entries ht') = (if \<exists>x. st.holds (ht_table ht) k x then unat (entries ht) else unat (entries ht) + 1)"
    "tight ht \<longrightarrow> tight ht'"
proof -
  obtain r where r: "make_room alloc ht = Some r" "ok r" "unat (entries r) < unat (max_entries r)"
    "key_hash_function r = key_hash_function ht" "entries r = entries ht"
    "\<forall>l x. st.holds (ht_table r) l x \<longleftrightarrow> st.holds (ht_table ht) l x"
    "r = ht \<and> \<not> max_entries ht \<le> deleted_entries ht + entries ht \<or> fresh r"
    by (rule make_room_spec [where alloc = alloc, OF assms(1-3)])
  have w: "wf r" "unat (size_index r) < 16" using r(2) by (simp_all add: ok_def)
  have "unat (entries r) < unat (ht_size r)" using r(3) w(1) shape_sizes(4) [of r] by (simp add: wf_def)
  then obtain a where a: "hash_table_insert_probe r (H k) k d = Some (stored r a (entry k d), Some a)"
    "st.place (route r) (ht_table r) (entry k d) = Some a"
    by (rule insert_probe_put [OF w(1) assms(4) w(2)])
  note st = wf_stored [OF w(1) assms(4) a(2)]
  have "k \<noteq> 0" using assms(4) by (simp add: is_key_def)
  then have "hash_table_insert alloc ht (H k) k d = Some (stored r a (entry k d), Some a)"
    using r(1) a(1) by (simp add: hash_table_insert_room)
  moreover have "ok (stored r a (entry k d))" using st(1,3) r(2,3) by (simp add: ok_def)
  moreover have "tight (stored r a (entry k d))" if "tight ht"
    using tight_stored [OF w(1) assms(4) a(2) tight_room [OF that r(7,3)]] .
  ultimately show ?thesis using that st(2-4) r(4-6) by (simp add: st(3))
qed

end

section \<open>Lookup, removal and clearing\<close>

text \<open>What a client reads: the data of the entry a search returns.\<close>

definition ht_lookup :: "hash_table \<Rightarrow> ptr \<Rightarrow> ptr option" where
  "ht_lookup ht key = (case mesa_hash_table_search ht key of
     Some (Some i) \<Rightarrow> Some (edata (ht_table ht ! i)) | _ \<Rightarrow> None)"

lemma clear_loop_eq:
  "clear_loop ht f t = (map (\<lambda>e. e\<lparr>ekey := 0\<rparr>) t, if f then filter (entry_is_present ht) t else [])"
  by (induction t) (auto simp: entry_is_present_def)

context ptr_table
begin

lemma ht_lookup_holds:
  assumes "wf ht" "key_hash_function ht = Some H"
  shows "ht_lookup ht k = Some d \<longleftrightarrow> (\<exists>e. st.holds (ht_table ht) k e \<and> edata e = d)"
    and "ht_lookup ht k = None \<longleftrightarrow> (\<nexists>e. st.holds (ht_table ht) k e)"
proof -
  have "(ht_lookup ht k = Some d \<longleftrightarrow> (\<exists>e. st.holds (ht_table ht) k e \<and> edata e = d)) \<and>
    (ht_lookup ht k = None \<longleftrightarrow> (\<nexists>e. st.holds (ht_table ht) k e))"
  proof (cases "\<exists>i. st.mem (ht_table ht) k i")
    case True
    then obtain j where j: "st.mem (ht_table ht) k j" by blast
    have t: "st.tinv (route ht) (ht_table ht)" using assms(1) by (simp add: wf_def)
    have u: "i = j" if "st.mem (ht_table ht) k i" for i using st.mem_unique [OF t that j] .
    have h: "st.holds (ht_table ht) k e \<longleftrightarrow> e = ht_table ht ! j" for e
    proof
      assume "st.holds (ht_table ht) k e"
      then obtain i where "st.mem (ht_table ht) k i" "ht_table ht ! i = e" unfolding st.holds_def by blast
      with u show "e = ht_table ht ! j" by blast
    qed (use j in \<open>unfold st.holds_def, blast\<close>)
    have "ht_lookup ht k = Some (edata (ht_table ht ! j))" using hash_table_search_spec(1) [OF assms(1) j]
      by (simp add: ht_lookup_def mesa_hash_table_search_def assms(2))
    then show ?thesis unfolding h by auto
  next
    case False
    have "ht_lookup ht k = None" using hash_table_search_spec(2) [OF assms(1) False]
      by (simp add: ht_lookup_def mesa_hash_table_search_def assms(2))
    moreover have "\<not> st.holds (ht_table ht) k e" for e using False unfolding st.holds_def by blast
    ultimately show ?thesis by simp
  qed
  then show "ht_lookup ht k = Some d \<longleftrightarrow> (\<exists>e. st.holds (ht_table ht) k e \<and> edata e = d)"
    "ht_lookup ht k = None \<longleftrightarrow> (\<nexists>e. st.holds (ht_table ht) k e)" by simp_all
qed

lemma lookup_eqI:
  assumes "wf ht" "wf ht'" "key_hash_function ht = Some H" "key_hash_function ht' = Some H"
    and "\<And>x. st.holds (ht_table ht') l x \<longleftrightarrow> st.holds (ht_table ht) l x"
  shows "ht_lookup ht' l = ht_lookup ht l"
proof (cases "ht_lookup ht l")
  case None
  then show ?thesis
    using ht_lookup_holds(2) [OF assms(1,3), of l] ht_lookup_holds(2) [OF assms(2,4), of l] assms(5) by simp
next
  case (Some d)
  then show ?thesis
    using ht_lookup_holds(1) [OF assms(1,3), of l d] ht_lookup_holds(1) [OF assms(2,4), of l d] assms(5) by simp
qed

lemma search_of_lookup:
  assumes "wf ht" "key_hash_function ht = Some H"
  shows "map_option (map_option (\<lambda>i. edata (ht_table ht ! i))) (mesa_hash_table_search ht k) = Some (ht_lookup ht k)"
proof (cases "\<exists>i. st.mem (ht_table ht) k i")
  case True
  then obtain i where "st.mem (ht_table ht) k i" by blast
  then show ?thesis using hash_table_search_spec(1) [OF assms(1)]
    by (simp add: ht_lookup_def mesa_hash_table_search_def assms(2))
next
  case False
  then show ?thesis using hash_table_search_spec(2) [OF assms(1) False]
    by (simp add: ht_lookup_def mesa_hash_table_search_def assms(2))
qed

lemma insert_lookup:
  assumes "ok ht" "\<And>n. alloc n" "unat (entries ht) < 65536" "is_key k" "key_hash_function ht = Some H"
  obtains ht' a where "mesa_hash_table_insert alloc ht k d = Some (ht', Some a)" "ok ht'" "key_hash_function ht' = Some H"
    "a < length (ht_table ht')" "ht_table ht' ! a = entry k d"
    "\<forall>l. ht_lookup ht' l = (if eq l k then Some d else ht_lookup ht l)"
    "unat (entries ht') = (if ht_lookup ht k = None then unat (entries ht) + 1 else unat (entries ht))"
    "tight ht \<longrightarrow> tight ht'"
proof -
  obtain ht' a where r: "hash_table_insert alloc ht (H k) k d = Some (ht', Some a)" "ok ht'"
    "key_hash_function ht' = key_hash_function ht" "a < length (ht_table ht')" "ht_table ht' ! a = entry k d"
    "\<forall>l x. st.holds (ht_table ht') l x \<longleftrightarrow> (if eq l k then x = entry k d else st.holds (ht_table ht) l x)"
    "unat (entries ht') = (if \<exists>x. st.holds (ht_table ht) k x then unat (entries ht) else unat (entries ht) + 1)"
    "tight ht \<longrightarrow> tight ht'"
    by (rule insert_spec [where alloc = alloc and d = d, OF assms(1-4)])
  have w: "wf ht" "wf ht'" "key_hash_function ht' = Some H" using assms(1,5) r(2,3) by (simp_all add: ok_def)
  have "ht_lookup ht' l = (if eq l k then Some d else ht_lookup ht l)" for l
  proof (cases "eq l k")
    case True
    then show ?thesis using ht_lookup_holds(1) [OF w(2,3)] r(6) by simp
  next
    case False
    then show ?thesis using lookup_eqI [OF w(1,2) assms(5) w(3), of l] r(6) by simp
  qed
  then show ?thesis using that [of ht' a] r w assms(5) ht_lookup_holds(2) [OF w(1) assms(5), of k]
    by (simp add: mesa_hash_table_insert_def)
qed

lemma remove_mem:
  assumes "wf ht" "st.mem (ht_table ht) k i"
  shows "wf (mesa_hash_table_remove ht (Some i))"
    and "st.holds (ht_table (mesa_hash_table_remove ht (Some i))) l x \<longleftrightarrow> st.holds (ht_table ht) l x \<and> \<not> eq l k"
    and "Suc (unat (entries (mesa_hash_table_remove ht (Some i)))) = unat (entries ht)"
    and "tight ht \<Longrightarrow> tight (mesa_hash_table_remove ht (Some i))"
proof -
  have s: "shape ht" "st.tinv (route ht) (ht_table ht)" "unat (entries ht) = st.count (ht_table ht)"
    using assms by (simp_all add: wf_def)
  let ?e = "(ht_table ht ! i)\<lparr>ekey := dk\<rparr>"
  have dk: "deleted_key ht = dk" using s(1) by (simp add: shape_def)
  note r = st.remove_holds [OF s(2) assms(2), where e = ?e, simplified, OF dk_nonnull]
  have i: "i < length (ht_table ht)" "ekey (ht_table ht ! i) \<noteq> dk" using assms(2) by (simp_all add: st.mem_def)
  have n: "unat (entries ht - 1) = st.count ((ht_table ht)[i := ?e])"
    using r(3) s(3) by (subst unat_sub_no_wrap) simp_all
  show "wf (mesa_hash_table_remove ht (Some i))"
    using s r(1) n by (simp add: wf_def mesa_hash_table_remove_def dk shape_def route_def)
  show "st.holds (ht_table (mesa_hash_table_remove ht (Some i))) l x \<longleftrightarrow> st.holds (ht_table ht) l x \<and> \<not> eq l k"
    using r(2) by (simp add: mesa_hash_table_remove_def dk)
  show *: "Suc (unat (entries (mesa_hash_table_remove ht (Some i)))) = unat (entries ht)"
    using r(3) s(3) n by (simp add: mesa_hash_table_remove_def)
  show "tight (mesa_hash_table_remove ht (Some i))" if t: "tight ht"
  proof -
    have "tombs ((ht_table ht)[i := ?e]) = tombs (ht_table ht) + 1"
      using length_filter_update [OF i(1), of "\<lambda>e. ekey e = dk" ?e] i(2) by (simp add: tombs_def)
    moreover have "unat (deleted_entries ht + 1) = unat (deleted_entries ht) + 1"
      using t * unat_lt2p [of "max_entries ht"] by (intro trans [OF unat_add_no_wrap]) (simp_all add: tight_def)
    ultimately show ?thesis using t * by (simp add: tight_def mesa_hash_table_remove_def dk)
  qed
qed

lemma remove_key_lookup:
  assumes "ok ht" "key_hash_function ht = Some H"
  obtains ht' where "mesa_hash_table_remove_key ht k = Some ht'" "ok ht'" "key_hash_function ht' = Some H"
    "\<forall>l. ht_lookup ht' l = (if eq l k then None else ht_lookup ht l)"
    "unat (entries ht') = (if ht_lookup ht k = None then unat (entries ht) else unat (entries ht) - 1)"
    "tight ht \<longrightarrow> tight ht'"
proof (cases "\<exists>i. st.mem (ht_table ht) k i")
  case True
  then obtain i where i: "st.mem (ht_table ht) k i" by blast
  have w: "wf ht" using assms(1) by (simp add: ok_def)
  let ?h = "mesa_hash_table_remove ht (Some i)"
  note r = remove_mem [OF w i]
  have run: "mesa_hash_table_remove_key ht k = Some ?h"
    using hash_table_search_spec(1) [OF w i] by (simp add: mesa_hash_table_remove_key_def mesa_hash_table_search_def assms(2))
  have f: "key_hash_function ?h = Some H" "size_index ?h = size_index ht" "max_entries ?h = max_entries ht"
    using assms(2) by (simp_all add: mesa_hash_table_remove_def)
  have "ht_lookup ?h l = (if eq l k then None else ht_lookup ht l)" for l
    using ht_lookup_holds(2) [OF r(1) f(1), of l] lookup_eqI [OF w r(1) assms(2) f(1), of l] r(2) by simp
  moreover have "ht_lookup ht k \<noteq> None" using ht_lookup_holds(2) [OF w assms(2), of k] i by (auto simp: st.holds_def)
  moreover have "ok ?h" using assms(1) r(1,3) f by (simp add: ok_def)
  ultimately show ?thesis using that [of ?h] run f r(3,4) by simp
next
  case False
  have w: "wf ht" using assms(1) by (simp add: ok_def)
  have n: "ht_lookup ht l = None" if "eq l k" for l
  proof -
    have "\<not> st.mem (ht_table ht) l i" for i using False that eq_sym [OF that] eq_trans [of k l "ekey (ht_table ht ! i)"]
      by (auto simp: st.mem_def)
    then show ?thesis using ht_lookup_holds(2) [OF w assms(2), of l] by (simp add: st.holds_def)
  qed
  show ?thesis using that [of ht] hash_table_search_spec(2) [OF w False] assms n
    by (simp add: mesa_hash_table_remove_key_def mesa_hash_table_search_def mesa_hash_table_remove_def)
qed

lemma clear_spec:
  assumes "wf ht"
  shows "wf (fst (mesa_hash_table_clear ht f))" "\<not> st.holds (ht_table (fst (mesa_hash_table_clear ht f))) l x"
    "entries (fst (mesa_hash_table_clear ht f)) = 0" "tight (fst (mesa_hash_table_clear ht f))"
    "size_index (fst (mesa_hash_table_clear ht f)) = size_index ht"
    "key_hash_function (fst (mesa_hash_table_clear ht f)) = key_hash_function ht"
    "snd (mesa_hash_table_clear ht True) = hash_table_foreach ht" "snd (mesa_hash_table_clear ht False) = []"
proof -
  let ?h = "fst (mesa_hash_table_clear ht f)"
  have s: "shape ht" using assms by (simp add: wf_def)
  have "shape ?h" "entries ?h = 0" "\<forall>e\<in>set (ht_table ?h). ekey e = 0"
    using s by (simp_all add: mesa_hash_table_clear_def clear_loop_eq shape_def)
  from wf_empty [OF this] show "wf ?h" "\<not> st.holds (ht_table ?h) l x" by simp_all
  show "entries ?h = 0" "size_index ?h = size_index ht" "key_hash_function ?h = key_hash_function ht"
    by (simp_all add: mesa_hash_table_clear_def clear_loop_eq)
  show "tight ?h" using dk_nonnull by (simp add: tight_def tombs_def mesa_hash_table_clear_def clear_loop_eq filter_empty_conv)
  show "snd (mesa_hash_table_clear ht True) = hash_table_foreach ht" "snd (mesa_hash_table_clear ht False) = []"
    using s by (simp_all add: mesa_hash_table_clear_def clear_loop_eq hash_table_foreach_filter shape_def)
qed

end

section \<open>A table is a bounded map\<close>

context ptr_table
begin

definition live :: "hash_table \<Rightarrow> bool" where
  "live ht \<longleftrightarrow> ok ht \<and> tight ht \<and> key_hash_function ht = Some H"

lemma init_spec:
  assumes "mesa_hash_table_init alloc dk (Some H) eq = Some ht"
  shows "live ht" "entries ht = 0" "ht_lookup ht = (\<lambda>k. None)"
proof -
  have i: "shape ht" "entries ht = 0" "\<forall>e\<in>set (ht_table ht). ekey e = 0" "size_index ht = 0" "deleted_entries ht = 0"
    "key_hash_function ht = Some H"
    using assms
    by (auto simp: mesa_hash_table_init_def rzalloc_entries_def shape_def hash_sizes_def split: if_splits)
  note w = wf_empty [OF i(1-3)]
  show "live ht" using w(1) i dk_nonnull by (auto simp: live_def ok_def tight_def tombs_def filter_empty_conv)
  show "entries ht = 0" by (rule i(2))
  show "ht_lookup ht = (\<lambda>k. None)" using ht_lookup_holds(2) [OF w(1) i(6)] w(2) by auto
qed

end

text \<open>The four operations of the interface on this table.\<close>

definition ht_ins :: "(u32 \<Rightarrow> bool) \<Rightarrow> hash_table \<Rightarrow> ptr \<Rightarrow> ptr \<Rightarrow> hash_table option" where
  "ht_ins alloc ht key data = map_option fst (mesa_hash_table_insert alloc ht key data)"

definition ht_clr :: "hash_table \<Rightarrow> hash_table" where
  "ht_clr ht = fst (mesa_hash_table_clear ht False)"

definition ht_srch :: "hash_table \<Rightarrow> ptr \<Rightarrow> ptr option option" where
  "ht_srch ht key = map_option (map_option (\<lambda>i. edata (ht_table ht ! i))) (mesa_hash_table_search ht key)"

sublocale ptr_table \<subseteq> bm: bounded_map live "\<lambda>ht. unat (entries ht)" 65536 is_key eq ht_lookup
  "ht_ins (\<lambda>_. True)" mesa_hash_table_remove_key ht_clr ht_srch
proof
  fix t k v
  assume "live t" "unat (entries t) < 65536" "is_key k"
  then have a: "ok t" "\<And>n. (\<lambda>_. True) n" "unat (entries t) < 65536" "is_key k" "key_hash_function t = Some H" "tight t"
    by (simp_all add: live_def)
  obtain t' i where r: "mesa_hash_table_insert (\<lambda>_. True) t k v = Some (t', Some i)" "ok t'"
    "key_hash_function t' = Some H" "i < length (ht_table t')" "ht_table t' ! i = entry k v"
    "\<forall>l. ht_lookup t' l = (if eq l k then Some v else ht_lookup t l)"
    "unat (entries t') = (if ht_lookup t k = None then unat (entries t) + 1 else unat (entries t))"
    "tight t \<longrightarrow> tight t'"
    by (rule insert_lookup [where alloc = "\<lambda>_. True" and d = v, OF a(1-5)])
  show "\<exists>t'. ht_ins (\<lambda>_. True) t k v = Some t' \<and> live t' \<and> unat (entries t') \<le> unat (entries t) + 1 \<and>
    ht_lookup t' = (\<lambda>l. if eq l k then Some v else ht_lookup t l)"
    using r a(6) by (intro exI [of _ t']) (simp add: ht_ins_def live_def fun_eq_iff)
next
  fix t k
  assume l: "live t"
  then have a: "ok t" "key_hash_function t = Some H" "tight t" by (simp_all add: live_def)
  obtain t' where r: "mesa_hash_table_remove_key t k = Some t'" "ok t'" "key_hash_function t' = Some H"
    "\<forall>l. ht_lookup t' l = (if eq l k then None else ht_lookup t l)"
    "unat (entries t') = (if ht_lookup t k = None then unat (entries t) else unat (entries t) - 1)"
    "tight t \<longrightarrow> tight t'"
    by (rule remove_key_lookup [OF a(1,2), where k = k])
  show "\<exists>t'. mesa_hash_table_remove_key t k = Some t' \<and> live t' \<and> unat (entries t') \<le> unat (entries t) \<and>
    ht_lookup t' = (\<lambda>l. if eq l k then None else ht_lookup t l)"
    using r a(3) by (intro exI [of _ t']) (simp add: live_def fun_eq_iff)
  have w: "wf t" using a(1) by (simp add: ok_def)
  show "ht_srch t k = Some (ht_lookup t k)" using search_of_lookup [OF w a(2)] by (simp add: ht_srch_def)
  note c = clear_spec(1-6) [OF w, where f = False]
  have h: "key_hash_function (ht_clr t) = Some H" using c(6) a(2) by (simp add: ht_clr_def)
  have "ht_lookup (ht_clr t) = (\<lambda>l. None)"
    using ht_lookup_holds(2) [OF _ h] c(1,2) by (simp add: ht_clr_def fun_eq_iff)
  moreover have "live (ht_clr t)" using c a h by (simp add: live_def ok_def ht_clr_def)
  ultimately show "live (ht_clr t) \<and> unat (entries (ht_clr t)) = 0 \<and> ht_lookup (ht_clr t) = (\<lambda>l. None)"
    using c(3) by (simp add: ht_clr_def)
qed

section \<open>Hash functions\<close>

unbundle bit_operations_syntax

definition mesa_hash_pointer :: "ptr \<Rightarrow> u32" where
  "mesa_hash_pointer num = ucast (drop_bit 2 num XOR drop_bit 6 num XOR drop_bit 10 num XOR drop_bit 14 num)"

fun mesa_fnv32_1a_accumulate_block :: "u32 \<Rightarrow> u8 list \<Rightarrow> u32" where
  "mesa_fnv32_1a_accumulate_block hash [] = hash"
| "mesa_fnv32_1a_accumulate_block hash (b # bytes) =
     mesa_fnv32_1a_accumulate_block ((hash XOR ucast b) * 0x01000193) bytes"

definition mesa_fnv32_1a_offset_bias :: u32 where
  "mesa_fnv32_1a_offset_bias = 2166136261"

definition mesa_hash_data :: "u8 list \<Rightarrow> u32" where
  "mesa_hash_data data = mesa_fnv32_1a_accumulate_block mesa_fnv32_1a_offset_bias data"

text \<open>
  \<open>c_str\<close> reads memory: the bytes of the string at a pointer, without its terminating zero. The loop
  stops at that zero.
\<close>

fun hash_string_loop :: "u32 \<Rightarrow> u8 list \<Rightarrow> u32" where
  "hash_string_loop hash [] = hash"
| "hash_string_loop hash (c # key) = hash_string_loop (mesa_fnv32_1a_accumulate_block hash [c]) key"

definition mesa_hash_string :: "(ptr \<Rightarrow> u8 list) \<Rightarrow> ptr \<Rightarrow> u32" where
  "mesa_hash_string c_str key = hash_string_loop mesa_fnv32_1a_offset_bias (c_str key)"

definition mesa_key_hash_string :: "(ptr \<Rightarrow> u8 list) \<Rightarrow> ptr \<Rightarrow> u32" where
  "mesa_key_hash_string c_str key = mesa_hash_string c_str key"

definition mesa_key_string_equal :: "(ptr \<Rightarrow> u8 list) \<Rightarrow> ptr \<Rightarrow> ptr \<Rightarrow> bool" where
  "mesa_key_string_equal c_str a b \<longleftrightarrow> c_str a = c_str b"

definition mesa_key_pointer_equal :: "ptr \<Rightarrow> ptr \<Rightarrow> bool" where
  "mesa_key_pointer_equal a b \<longleftrightarrow> a = b"

lemma hash_string_loop_block: "hash_string_loop h s = mesa_fnv32_1a_accumulate_block h s"
  by (induction s arbitrary: h) simp_all

lemma fnv_append:
  "mesa_fnv32_1a_accumulate_block h (xs @ ys) = mesa_fnv32_1a_accumulate_block (mesa_fnv32_1a_accumulate_block h xs) ys"
  by (induction xs arbitrary: h) simp_all

interpretation ptr_keys: keys mesa_hash_pointer mesa_key_pointer_equal
  by unfold_locales (simp_all add: mesa_key_pointer_equal_def)

interpretation str_keys: keys "mesa_key_hash_string c_str" "mesa_key_string_equal c_str" for c_str
  by unfold_locales (simp_all add: mesa_key_string_equal_def mesa_key_hash_string_def mesa_hash_string_def)

section \<open>The wrapper for 64-bit keys\<close>

text \<open>
  Pointers have 64 bits here, so a key is stored as the pointer with that value. The key
  \<^verbatim>\<open>DELETED_KEY_VALUE\<close> is 1; its data is in the wrapper. \<open>u64_table\<close> is \<open>None\<close> when the table could
  not be created, and using it then stops.
\<close>

record hash_table_u64 =
  u64_table :: "hash_table option"
  deleted_key_data :: ptr

definition mesa_hash_table_u64_create :: "bool \<Rightarrow> bool \<Rightarrow> (u32 \<Rightarrow> bool) \<Rightarrow> ptr \<Rightarrow> hash_table_u64 option" where
  "mesa_hash_table_u64_create calloc_ok alloc_ht alloc deleted_key_value =
     (if \<not> calloc_ok then None
      else let table = mesa_hash_table_create alloc_ht alloc deleted_key_value
                         (Some mesa_hash_pointer) mesa_key_pointer_equal
           in Some \<lparr>u64_table = map_option (\<lambda>t. mesa_hash_table_set_deleted_key t 1) table, deleted_key_data = 0\<rparr>)"

definition mesa_hash_table_u64_insert ::
  "(u32 \<Rightarrow> bool) \<Rightarrow> hash_table_u64 \<Rightarrow> u64 \<Rightarrow> ptr \<Rightarrow> hash_table_u64 option"
where
  "mesa_hash_table_u64_insert alloc ht key data =
     (if key = 1 then Some (ht\<lparr>deleted_key_data := data\<rparr>)
      else do {
        table \<leftarrow> u64_table ht;
        (table, _) \<leftarrow> mesa_hash_table_insert alloc table key data;
        Some (ht\<lparr>u64_table := Some table\<rparr>)
      })"

definition hash_table_u64_search :: "hash_table_u64 \<Rightarrow> u64 \<Rightarrow> nat option option" where
  "hash_table_u64_search ht key = do { table \<leftarrow> u64_table ht; mesa_hash_table_search table key }"

definition mesa_hash_table_u64_search :: "hash_table_u64 \<Rightarrow> u64 \<Rightarrow> ptr option" where
  "mesa_hash_table_u64_search ht key =
     (if key = 1 then Some (deleted_key_data ht)
      else do {
        entry \<leftarrow> hash_table_u64_search ht key;
        table \<leftarrow> u64_table ht;
        Some (case entry of None \<Rightarrow> 0 | Some i \<Rightarrow> edata (ht_table table ! i))
      })"

definition mesa_hash_table_u64_remove :: "hash_table_u64 \<Rightarrow> u64 \<Rightarrow> hash_table_u64 option" where
  "mesa_hash_table_u64_remove ht key =
     (if key = 1 then Some (ht\<lparr>deleted_key_data := 0\<rparr>)
      else do {
        entry \<leftarrow> hash_table_u64_search ht key;
        table \<leftarrow> u64_table ht;
        Some (case entry of None \<Rightarrow> ht
              | Some i \<Rightarrow> ht\<lparr>u64_table := Some (mesa_hash_table_remove table (Some i))\<rparr>)
      })"

text \<open>The entries \<^verbatim>\<open>delete_function\<close> is called on; the first one is made up for the key 1.\<close>

definition mesa_hash_table_u64_destroy :: "hash_table_u64 option \<Rightarrow> bool \<Rightarrow> hash_entry list option" where
  "mesa_hash_table_u64_destroy ht delete_function =
     (case ht of
        None \<Rightarrow> Some []
      | Some ht \<Rightarrow> do {
          fake \<leftarrow> (if deleted_key_data ht \<noteq> 0 \<and> delete_function then do {
                     table \<leftarrow> u64_table ht;
                     f \<leftarrow> key_hash_function table;
                     Some [\<lparr>ehash = f (deleted_key table), ekey = deleted_key table, edata = deleted_key_data ht\<rparr>]
                   } else Some []);
          Some (fake @ mesa_hash_table_destroy (u64_table ht) delete_function)
        })"

interpretation u64_keys: ptr_table mesa_hash_pointer mesa_key_pointer_equal 1
  by unfold_locales simp

definition u64_live :: "hash_table_u64 \<Rightarrow> bool" where
  "u64_live ht \<longleftrightarrow> (\<exists>t. u64_table ht = Some t \<and> u64_keys.live t)"

definition u64_fill :: "hash_table_u64 \<Rightarrow> nat" where
  "u64_fill ht = (case u64_table ht of None \<Rightarrow> 0 | Some t \<Rightarrow> unat (entries t))"

lemma u64_create_live:
  assumes "mesa_hash_table_u64_create True True (\<lambda>_. True) dkv = Some ht"
  shows "u64_live ht \<and> u64_fill ht = 0 \<and> mesa_hash_table_u64_search ht k = Some 0"
proof -
  obtain t where t: "mesa_hash_table_init (\<lambda>_. True) 1 (Some mesa_hash_pointer) mesa_key_pointer_equal = Some t"
    "ht = \<lparr>u64_table = Some t, deleted_key_data = 0\<rparr>"
    using assms
    by (simp add: mesa_hash_table_u64_create_def mesa_hash_table_create_def mesa_hash_table_init_def
        rzalloc_entries_def mesa_hash_table_set_deleted_key_def hash_sizes_def)
  note i = u64_keys.init_spec [OF t(1)]
  have "ht_srch t k = Some None" using u64_keys.bm.srch_law [OF i(1)] i(3) by simp
  then have "mesa_hash_table_search t k = Some None" by (auto simp: ht_srch_def)
  then show ?thesis using i t(2)
    by (simp add: u64_live_def u64_fill_def mesa_hash_table_u64_search_def hash_table_u64_search_def)
qed

lemma u64_search_lookup:
  assumes "u64_keys.live t" "u64_table ht = Some t" "k \<noteq> 1"
  shows "mesa_hash_table_u64_search ht k = Some (case ht_lookup t k of None \<Rightarrow> 0 | Some d \<Rightarrow> d)"
proof -
  have "ht_srch t k = Some (ht_lookup t k)" by (rule u64_keys.bm.srch_law [OF assms(1)])
  then show ?thesis using assms(2,3)
    by (auto simp: mesa_hash_table_u64_search_def hash_table_u64_search_def ht_srch_def split: option.splits)
qed

lemma u64_insert_search:
  assumes "u64_live ht" "u64_fill ht < 65536" "k \<noteq> 0"
  shows "\<exists>ht'. mesa_hash_table_u64_insert (\<lambda>_. True) ht k d = Some ht' \<and> u64_live ht' \<and> u64_fill ht' \<le> u64_fill ht + 1 \<and>
    (\<forall>l. mesa_hash_table_u64_search ht' l = (if l = k then Some d else mesa_hash_table_u64_search ht l))"
proof -
  obtain t where t: "u64_table ht = Some t" "u64_keys.live t" using assms(1) by (auto simp: u64_live_def)
  show ?thesis
  proof (cases "k = 1")
    case True
    then show ?thesis using t
      by (intro exI [of _ "ht\<lparr>deleted_key_data := d\<rparr>"])
        (simp add: mesa_hash_table_u64_insert_def u64_live_def u64_fill_def mesa_hash_table_u64_search_def hash_table_u64_search_def)
  next
    case False
    have f: "unat (entries t) < 65536" using assms(2) t(1) by (simp add: u64_fill_def)
    obtain t' where t': "ht_ins (\<lambda>_. True) t k d = Some t'" "u64_keys.live t'" "unat (entries t') \<le> unat (entries t) + 1"
      "ht_lookup t' = (\<lambda>l. if mesa_key_pointer_equal l k then Some d else ht_lookup t l)"
      using u64_keys.bm.ins_law [OF t(2) f, of k d] assms(3) False by (auto simp: u64_keys.is_key_def)
    let ?h = "ht\<lparr>u64_table := Some t'\<rparr>"
    have run: "mesa_hash_table_u64_insert (\<lambda>_. True) ht k d = Some ?h"
      using t'(1) t(1) False by (auto simp: mesa_hash_table_u64_insert_def ht_ins_def)
    have "mesa_hash_table_u64_search ?h l = (if l = k then Some d else mesa_hash_table_u64_search ht l)" for l
    proof (cases "l = 1")
      case True
      then show ?thesis using False by (simp add: mesa_hash_table_u64_search_def)
    next
      case False
      then show ?thesis
        using u64_search_lookup [OF t(2,1)] u64_search_lookup [OF t'(2), of ?h l] t'(4)
        by (simp add: mesa_key_pointer_equal_def)
    qed
    then show ?thesis using run t(1) t'(2,3) by (intro exI [of _ ?h]) (simp add: u64_live_def u64_fill_def)
  qed
qed

lemma u64_remove_search:
  assumes "u64_live ht"
  shows "\<exists>ht'. mesa_hash_table_u64_remove ht k = Some ht' \<and> u64_live ht' \<and> u64_fill ht' \<le> u64_fill ht \<and>
    (\<forall>l. mesa_hash_table_u64_search ht' l = (if l = k then Some 0 else mesa_hash_table_u64_search ht l))"
proof -
  obtain t where t: "u64_table ht = Some t" "u64_keys.live t" using assms(1) by (auto simp: u64_live_def)
  show ?thesis
  proof (cases "k = 1")
    case True
    then show ?thesis using t
      by (intro exI [of _ "ht\<lparr>deleted_key_data := 0\<rparr>"])
        (simp add: mesa_hash_table_u64_remove_def u64_live_def u64_fill_def mesa_hash_table_u64_search_def hash_table_u64_search_def)
  next
    case False
    obtain t' where t': "mesa_hash_table_remove_key t k = Some t'" "u64_keys.live t'" "unat (entries t') \<le> unat (entries t)"
      "ht_lookup t' = (\<lambda>l. if mesa_key_pointer_equal l k then None else ht_lookup t l)"
      using u64_keys.bm.rem_law [OF t(2), of k] by blast
    let ?h = "ht\<lparr>u64_table := Some t'\<rparr>"
    have run: "mesa_hash_table_u64_remove ht k = Some ?h"
      using t'(1) t(1) False
      by (cases "mesa_hash_table_search t k")
        (auto simp: mesa_hash_table_u64_remove_def hash_table_u64_search_def mesa_hash_table_remove_key_def
          mesa_hash_table_remove_def split: option.splits)
    have "mesa_hash_table_u64_search ?h l = (if l = k then Some 0 else mesa_hash_table_u64_search ht l)" for l
    proof (cases "l = 1")
      case True
      then show ?thesis using False by (simp add: mesa_hash_table_u64_search_def)
    next
      case False
      then show ?thesis
        using u64_search_lookup [OF t(2,1)] u64_search_lookup [OF t'(2), of ?h l] t'(4)
        by (simp add: mesa_key_pointer_equal_def)
    qed
    then show ?thesis using run t(1) t'(2,3) by (intro exI [of _ ?h]) (simp add: u64_live_def u64_fill_def)
  qed
qed

section \<open>Insertion without memory\<close>

lemma length_filter_mono: "(\<And>x. P x \<Longrightarrow> Q x) \<Longrightarrow> length (filter P xs) \<le> length (filter Q xs)"
  by (induction xs) (auto intro: le_SucI)

context ptr_table
begin

lemma insert_no_memory_probe: "k \<noteq> 0 \<Longrightarrow> hash_table_insert (\<lambda>_. False) ht h k d = hash_table_insert_probe ht h k d"
  by (simp add: hash_table_insert_room make_room_def mesa_hash_table_rehash_def rzalloc_entries_def Let_def
      split: prod.split)

lemma place_none:
  assumes "wf ht" "unat (size_index ht) < 16"
  shows "st.place (route ht) (ht_table ht) (entry k d) = None \<longleftrightarrow>
    unat (entries ht) = unat (ht_size ht) \<and> (\<nexists>i. st.mem (ht_table ht) k i)"
proof -
  have s: "shape ht" "st.tinv (route ht) (ht_table ht)" "unat (entries ht) = st.count (ht_table ht)"
    "length (ht_table ht) = unat (ht_size ht)"
    using assms by (simp_all add: wf_def shape_def)
  note rt = shape_routes [OF s(1)]
  show ?thesis
  proof
    assume n: "st.place (route ht) (ht_table ht) (entry k d) = None"
    have "\<not> st.mem (ht_table ht) k i" for i
      using st.place_found(1) [OF s(2) rt, where e = "entry k d" and i = i] n by auto
    moreover have "\<not> st.count (ht_table ht) < length (ht_table ht)"
      using st.place_total [OF s(2) rt, where e = "entry k d"] shape_cover [OF s(1) assms(2)] n by (auto simp: st.cover_def)
    ultimately show "unat (entries ht) = unat (ht_size ht) \<and> (\<nexists>i. st.mem (ht_table ht) k i)"
      using st.count_le [of "ht_table ht"] s(3,4) by simp
  next
    assume f: "unat (entries ht) = unat (ht_size ht) \<and> (\<nexists>i. st.mem (ht_table ht) k i)"
    show "st.place (route ht) (ht_table ht) (entry k d) = None"
    proof (rule ccontr)
      assume "st.place (route ht) (ht_table ht) (entry k d) \<noteq> None"
      then obtain a where a: "st.place (route ht) (ht_table ht) (entry k d) = Some a" by blast
      have m: "\<nexists>i. st.mem (ht_table ht) (ekey (entry k d)) i" using f by simp
      note av = st.place_avail(1,2) [OF s(2) rt m _ a]
      have "st.count (ht_table ht) < length (ht_table ht)" unfolding st.count_def
        using av by (intro length_filter_less [of "ht_table ht ! a"]) simp_all
      with f s(3,4) show False by simp
    qed
  qed
qed

lemma insert_no_memory:
  assumes "wf ht" "unat (size_index ht) < 16" "is_key k" "key_hash_function ht = Some H"
  shows "\<exists>ht' r. mesa_hash_table_insert (\<lambda>_. False) ht k d = Some (ht', r) \<and> wf ht' \<and>
    (r = None \<longleftrightarrow> entries ht = ht_size ht \<and> ht_lookup ht k = None) \<and> (r = None \<longrightarrow> ht' = ht) \<and>
    (r \<noteq> None \<longrightarrow> (\<forall>l. ht_lookup ht' l = (if eq l k then Some d else ht_lookup ht l)))"
proof -
  have k: "k \<noteq> 0" using assms(3) by (simp add: is_key_def)
  have none: "ht_lookup ht k = None \<longleftrightarrow> (\<nexists>i. st.mem (ht_table ht) k i)"
    using ht_lookup_holds(2) [OF assms(1,4), of k] by (auto simp: st.holds_def)
  have run: "mesa_hash_table_insert (\<lambda>_. False) ht k d =
    Some (case st.place (route ht) (ht_table ht) (entry k d) of
            None \<Rightarrow> (ht, None) | Some a \<Rightarrow> (stored ht a (entry k d), Some a))"
    using insert_probe_place [OF assms(1,3), of d]
    by (simp add: mesa_hash_table_insert_def assms(4) insert_no_memory_probe [OF k])
  show ?thesis
  proof (cases "st.place (route ht) (ht_table ht) (entry k d)")
    case None
    then show ?thesis using run place_none [OF assms(1,2), of k d] assms(1) none by (simp add: word_unat_eq_iff)
  next
    case (Some a)
    note w = wf_stored [OF assms(1,3) Some]
    have kh: "key_hash_function (stored ht a (entry k d)) = Some H" using assms(4) by simp
    have "ht_lookup (stored ht a (entry k d)) l = (if eq l k then Some d else ht_lookup ht l)" for l
      using ht_lookup_holds(1) [OF w(1) kh, of l d] lookup_eqI [OF assms(1) w(1) assms(4) kh, of l] w(2) by simp
    then show ?thesis using run place_none [OF assms(1,2), of k d] Some w(1) none by (simp add: word_unat_eq_iff)
  qed
qed

text \<open>
  The counters of a table that has to do without memory: still the numbers of present entries and
  of tombstones, which together are at most the number of slots.
\<close>

definition lean :: "hash_table \<Rightarrow> bool" where
  "lean ht \<longleftrightarrow> wf ht \<and> unat (size_index ht) < 16 \<and> key_hash_function ht = Some H \<and>
     unat (deleted_entries ht) = tombs (ht_table ht)"

lemma lean_insert:
  assumes "lean ht" "is_key k"
  shows "\<exists>ht'. ht_ins (\<lambda>_. False) ht k d = Some ht' \<and> lean ht'"
proof -
  have l: "wf ht" "key_hash_function ht = Some H" "unat (deleted_entries ht) = tombs (ht_table ht)"
    using assms(1) by (simp_all add: lean_def)
  have k: "k \<noteq> 0" using assms(2) by (simp add: is_key_def)
  have run: "ht_ins (\<lambda>_. False) ht k d = Some (case st.place (route ht) (ht_table ht) (entry k d) of
      None \<Rightarrow> ht | Some a \<Rightarrow> stored ht a (entry k d))"
    using insert_probe_place [OF l(1) assms(2), of d]
    by (simp add: ht_ins_def mesa_hash_table_insert_def l(2) insert_no_memory_probe [OF k] split: option.split)
  show ?thesis
  proof (cases "st.place (route ht) (ht_table ht) (entry k d)")
    case None
    then show ?thesis using run assms(1) by simp
  next
    case (Some a)
    note w = wf_stored [OF l(1) assms(2) Some]
    show ?thesis using run Some w(1) assms(1) deleted_stored [OF l(1) assms(2) Some l(3)] by (simp add: lean_def)
  qed
qed

lemma lean_counters:
  assumes "lean ht"
  shows "unat (entries ht) = length (filter (entry_is_present ht) (ht_table ht))"
    "unat (deleted_entries ht) = length (filter (entry_is_deleted ht) (ht_table ht))"
    "unat (entries ht) + unat (deleted_entries ht) \<le> length (ht_table ht)"
proof -
  have s: "unat (entries ht) = st.count (ht_table ht)" "unat (deleted_entries ht) = tombs (ht_table ht)" "deleted_key ht = dk"
    using assms by (simp_all add: lean_def wf_def shape_def)
  show p: "unat (entries ht) = length (filter (entry_is_present ht) (ht_table ht))"
    using s(1,3) by (simp add: st.count_def entry_is_present_def [abs_def])
  show d: "unat (deleted_entries ht) = length (filter (entry_is_deleted ht) (ht_table ht))"
    using s(2,3) by (simp add: tombs_def entry_is_deleted_def [abs_def])
  have "length (filter (entry_is_deleted ht) (ht_table ht)) \<le> length (filter (\<lambda>e. \<not> entry_is_present ht e) (ht_table ht))"
    by (rule length_filter_mono) (simp add: entry_is_deleted_def entry_is_present_def)
  then show "unat (entries ht) + unat (deleted_entries ht) \<le> length (ht_table ht)"
    using p d sum_length_filter_compl [of "entry_is_present ht" "ht_table ht"] by simp
qed

lemma lean_remove:
  assumes "lean ht"
  shows "\<exists>ht'. mesa_hash_table_remove_key ht k = Some ht' \<and> lean ht'"
proof (cases "\<exists>i. st.mem (ht_table ht) k i")
  case True
  then obtain i where i: "st.mem (ht_table ht) k i" by blast
  have l: "wf ht" "key_hash_function ht = Some H" "unat (deleted_entries ht) = tombs (ht_table ht)"
    using assms by (simp_all add: lean_def)
  have dk: "deleted_key ht = dk" using l(1) by (simp add: wf_def shape_def)
  note r = remove_mem [OF l(1) i]
  have at: "i < length (ht_table ht)" "ekey (ht_table ht ! i) \<noteq> dk" using i by (simp_all add: st.mem_def)
  let ?h = "mesa_hash_table_remove ht (Some i)"
  have "tombs ((ht_table ht)[i := (ht_table ht ! i)\<lparr>ekey := dk\<rparr>]) = tombs (ht_table ht) + 1"
    using length_filter_update [OF at(1), of "\<lambda>e. ekey e = dk" "(ht_table ht ! i)\<lparr>ekey := dk\<rparr>"] at(2) by (simp add: tombs_def)
  moreover have "unat (deleted_entries ht + 1) = unat (deleted_entries ht) + 1"
  proof -
    have "length (ht_table ht) < 2 ^ 32" using l(1) unat_lt2p [of "ht_size ht"] by (simp add: wf_def shape_def)
    then have "unat (deleted_entries ht) + 1 < 2 ^ 32" using lean_counters(3) [OF assms] r(3) by linarith
    then show ?thesis by (intro trans [OF unat_add_no_wrap]) simp_all
  qed
  ultimately have "unat (deleted_entries ?h) = tombs (ht_table ?h)" using l(3) dk by (simp add: mesa_hash_table_remove_def)
  moreover have "key_hash_function ?h = Some H" "size_index ?h = size_index ht"
    using l(2) by (simp_all add: mesa_hash_table_remove_def)
  ultimately have "lean ?h" using assms r(1) by (simp add: lean_def)
  moreover have "mesa_hash_table_remove_key ht k = Some ?h"
    using hash_table_search_spec(1) [OF l(1) i] by (simp add: mesa_hash_table_remove_key_def mesa_hash_table_search_def l(2))
  ultimately show ?thesis by blast
next
  case False
  have l: "wf ht" "key_hash_function ht = Some H" using assms by (simp_all add: lean_def)
  have "mesa_hash_table_remove_key ht k = Some ht" using hash_table_search_spec(2) [OF l(1) False] l(2)
    by (simp add: mesa_hash_table_remove_key_def mesa_hash_table_search_def mesa_hash_table_remove_def)
  then show ?thesis using assms by blast
qed

lemma lean_run:
  assumes "lean ht" "list_all is_key (inserted ops)"
  shows "\<exists>ht' rs. run_ops (ht_ins (\<lambda>_. False)) mesa_hash_table_remove_key ht_clr ht_srch ops ht = Some (ht', rs) \<and> lean ht'"
  using assms
proof (induction ops arbitrary: ht)
  case (Cons oper ops)
  have l: "wf ht" "key_hash_function ht = Some H" using Cons.prems(1) by (simp_all add: lean_def)
  show ?case
  proof (cases oper)
    case (Insert k d)
    then have "is_key k" using Cons.prems(2) by simp
    then obtain h where "ht_ins (\<lambda>_. False) ht k d = Some h" "lean h" using lean_insert [OF Cons.prems(1)] by blast
    then show ?thesis using Insert Cons.IH [of h] Cons.prems(2) by simp
  next
    case (Remove k)
    obtain h where "mesa_hash_table_remove_key ht k = Some h" "lean h" using lean_remove [OF Cons.prems(1)] by blast
    then show ?thesis using Remove Cons.IH [of h] Cons.prems(2) by simp
  next
    case Clear
    have "lean (ht_clr ht)" using Cons.prems(1) clear_spec(1,4,5,6) [OF l(1), of False] by (simp add: lean_def ht_clr_def tight_def)
    then show ?thesis using Clear Cons.IH [of "ht_clr ht"] Cons.prems(2) by simp
  next
    case (Search k)
    then obtain h rs where "run_ops (ht_ins (\<lambda>_. False)) mesa_hash_table_remove_key ht_clr ht_srch ops ht = Some (h, rs)" "lean h"
      using Cons.IH [OF Cons.prems(1)] Cons.prems(2) by auto
    moreover have "ht_srch ht k = Some (ht_lookup ht k)" using search_of_lookup [OF l] by (simp add: ht_srch_def)
    ultimately show ?thesis using Search by simp
  qed
qed simp

lemma live_lean: "live ht \<Longrightarrow> lean ht"
  by (simp add: live_def lean_def ok_def tight_def)

lemma run_from_create:
  assumes "mesa_hash_table_create True (\<lambda>_. True) dk (Some H) eq = Some ht"
    and "length (inserted ops) \<le> 65536" "list_all (\<lambda>k. k \<noteq> 0 \<and> k \<noteq> dk) (inserted ops)"
  shows "\<exists>ht' rs. run_ops (ht_ins (\<lambda>_. True)) mesa_hash_table_remove_key ht_clr ht_srch ops ht = Some (ht', rs) \<and>
    live ht' \<and> unat (entries ht') \<le> length (inserted ops) \<and> spec_ops eq ops (\<lambda>_. None) = (ht_lookup ht', rs)"
proof -
  have i: "mesa_hash_table_init (\<lambda>_. True) dk (Some H) eq = Some ht"
    using assms(1) by (simp add: mesa_hash_table_create_def)
  note s = init_spec [OF i]
  have "list_all is_key (inserted ops)" using assms(3) by (simp add: is_key_def [abs_def])
  with bm.run_ops_refines [OF s(1), of ops] s(2,3) assms(2) show ?thesis by auto
qed

lemma live_counters:
  assumes "live ht"
  shows "unat (entries ht) = length (filter (entry_is_present ht) (ht_table ht)) \<and>
    unat (deleted_entries ht) = length (filter (entry_is_deleted ht) (ht_table ht)) \<and>
    unat (entries ht) + unat (deleted_entries ht) \<le> unat (max_entries ht) \<and>
    unat (max_entries ht) < length (ht_table ht) \<and> (\<exists>e\<in>set (ht_table ht). entry_is_free e)"
proof -
  have sh: "shape ht" "unat (entries ht) = st.count (ht_table ht)" "tight ht"
    using assms by (simp_all add: live_def ok_def wf_def)
  then have s: "shape ht" "unat (entries ht) = st.count (ht_table ht)" "tight ht"
    "deleted_key ht = dk" "length (ht_table ht) = unat (ht_size ht)" by (simp_all add: shape_def)
  have p: "unat (entries ht) = length (filter (entry_is_present ht) (ht_table ht))"
    using s(2,4) by (simp add: st.count_def entry_is_present_def [abs_def])
  have d: "unat (deleted_entries ht) = length (filter (entry_is_deleted ht) (ht_table ht))"
    using s(3,4) by (simp add: tight_def tombs_def entry_is_deleted_def [abs_def])
  have le: "unat (entries ht) + unat (deleted_entries ht) \<le> unat (max_entries ht)" using s(3) by (simp add: tight_def)
  have mx: "unat (max_entries ht) < length (ht_table ht)" using shape_sizes(4) [OF s(1)] s(5) by simp
  have "\<exists>e\<in>set (ht_table ht). entry_is_free e"
  proof (rule ccontr)
    assume n: "\<not> ?thesis"
    have "\<not> entry_is_present ht e \<longleftrightarrow> entry_is_deleted ht e" if "e \<in> set (ht_table ht)" for e
      using n that s(4) dk_nonnull by (cases "ekey e = 0") (simp_all add: entry_is_free_def entry_is_present_def entry_is_deleted_def)
    then have "filter (\<lambda>e. \<not> entry_is_present ht e) (ht_table ht) = filter (entry_is_deleted ht) (ht_table ht)"
      by (rule filter_cong [OF refl])
    then have "length (filter (entry_is_present ht) (ht_table ht)) + length (filter (entry_is_deleted ht) (ht_table ht)) =
      length (ht_table ht)"
      using sum_length_filter_compl [of "entry_is_present ht" "ht_table ht"] by simp
    with p d le mx show False by linarith
  qed
  then show ?thesis by (intro conjI p d le mx)
qed

lemma search_total:
  assumes "wf ht"
  shows "\<exists>r. hash_table_search ht (H k) k = Some r \<and>
    (case r of
       Some i \<Rightarrow> i < length (ht_table ht) \<and> entry_is_present ht (ht_table ht ! i) \<and> eq k (ekey (ht_table ht ! i))
     | None \<Rightarrow> \<forall>e\<in>set (ht_table ht). \<not> (entry_is_present ht e \<and> eq k (ekey e)))"
proof -
  have dk: "deleted_key ht = dk" using assms by (simp add: wf_def shape_def)
  show ?thesis
  proof (cases "\<exists>i. st.mem (ht_table ht) k i")
    case True
    then obtain i where i: "st.mem (ht_table ht) k i" by blast
    then have "i < length (ht_table ht) \<and> entry_is_present ht (ht_table ht ! i) \<and> eq k (ekey (ht_table ht ! i))"
      by (simp add: st.mem_def entry_is_present_def dk)
    then show ?thesis using hash_table_search_spec(1) [OF assms i] by (intro exI [of _ "Some i"]) simp
  next
    case False
    have "\<not> (entry_is_present ht e \<and> eq k (ekey e))" if "e \<in> set (ht_table ht)" for e
    proof
      assume e: "entry_is_present ht e \<and> eq k (ekey e)"
      from that obtain i where "i < length (ht_table ht)" "ht_table ht ! i = e" unfolding in_set_conv_nth by blast
      with e have "st.mem (ht_table ht) k i" by (simp add: st.mem_def entry_is_present_def dk)
      with False show False by blast
    qed
    then show ?thesis using hash_table_search_spec(2) [OF assms False] by (intro exI [of _ None]) simp
  qed
qed

lemma fresh_keys_sorted: "st.fresh_keys es \<Longrightarrow> sorted_wrt (\<lambda>e f. \<not> eq (ekey f) (ekey e)) es"
  by (induction es) auto

lemma iteration:
  assumes "wf ht" "key_hash_function ht = Some H"
  shows "hash_table_foreach ht = filter (entry_is_present ht) (ht_table ht) \<and>
    sorted_wrt (\<lambda>e f. \<not> eq (ekey f) (ekey e)) (hash_table_foreach ht) \<and>
    mesa_hash_table_destroy (Some ht) True = hash_table_foreach ht \<and>
    snd (mesa_hash_table_clear ht True) = hash_table_foreach ht \<and>
    (\<forall>k. ht_lookup (fst (mesa_hash_table_clear ht True)) k = None) \<and>
    entries (fst (mesa_hash_table_clear ht True)) = 0 \<and> deleted_entries (fst (mesa_hash_table_clear ht True)) = 0"
proof -
  have s: "shape ht" "st.tinv (route ht) (ht_table ht)" using assms(1) by (simp_all add: wf_def)
  let ?c = "fst (mesa_hash_table_clear ht True)"
  note c = clear_spec(1-6) [OF assms(1), where f = True]
  have k: "key_hash_function ?c = Some H" using c(6) assms(2) by simp
  have "ht_lookup ?c l = None" for l using ht_lookup_holds(2) [OF c(1) k, of l] c(2) by simp
  moreover have "sorted_wrt (\<lambda>e f. \<not> eq (ekey f) (ekey e)) (hash_table_foreach ht)"
    unfolding foreach_present [OF s(1)] by (rule fresh_keys_sorted [OF st.fresh_keys_present(1) [OF s(2)]])
  moreover have "hash_table_foreach ht = filter (entry_is_present ht) (ht_table ht)"
    using s(1) by (simp add: hash_table_foreach_filter shape_def)
  moreover have "deleted_entries ?c = 0" by (simp add: mesa_hash_table_clear_def clear_loop_eq)
  ultimately show ?thesis using c(3) clear_spec(7) [OF assms(1)] by (simp add: mesa_hash_table_destroy_def)
qed

lemma clone_id: "shape src \<Longrightarrow> alloc (ht_size src) \<Longrightarrow> mesa_hash_table_clone True alloc src = Some src"
  by (simp add: mesa_hash_table_clone_def shape_def)

end

section \<open>Properties\<close>

text \<open>A table created with pointer keys, as the witnesses use it.\<close>

definition sample_table :: hash_table where
  "sample_table = \<lparr>ht_table = replicate 5 \<lparr>ehash = 0, ekey = 0, edata = 0\<rparr>,
     key_hash_function = Some mesa_hash_pointer, key_equals_function = mesa_key_pointer_equal,
     deleted_key = 1, ht_size = 5, ht_rehash = 3, max_entries = 2, size_index = 0, entries = 0, deleted_entries = 0\<rparr>"

lemma sample_table_create:
  "mesa_hash_table_create True (\<lambda>_. True) 1 (Some mesa_hash_pointer) mesa_key_pointer_equal = Some sample_table"
  by (simp add: mesa_hash_table_create_def mesa_hash_table_init_def rzalloc_entries_def hash_sizes_def sample_table_def)

lemma sample_table_live: "u64_keys.live sample_table" "entries sample_table = 0"
  using u64_keys.init_spec [of "\<lambda>_. True" sample_table] sample_table_create by (simp_all add: mesa_hash_table_create_def)

text \<open>
  C1: whatever sequence of insertions, removals, clearings and searches is run on a table made by
  \<^verbatim>\<open>_mesa_hash_table_create\<close>, every call returns, the searches give what a map from keys to data gives,
  and the final table holds that map. This needs that allocations succeed, that the callbacks keep
  their contract, at most 65536 insertions, and inserted keys that are neither \<^verbatim>\<open>NULL\<close> nor the
  deleted key. The table is resized along the way.
\<close>

theorem hash_table_refines_map:
  assumes "ptr_table H eq dk" "mesa_hash_table_create True (\<lambda>_. True) dk (Some H) eq = Some ht"
    and "length (inserted ops) \<le> 65536" "list_all (\<lambda>k. k \<noteq> 0 \<and> k \<noteq> dk) (inserted ops)"
  shows "\<exists>ht' rs. run_ops (ht_ins (\<lambda>_. True)) mesa_hash_table_remove_key ht_clr ht_srch ops ht = Some (ht', rs) \<and>
    spec_ops eq ops (\<lambda>_. None) = (ht_lookup ht', rs)"
  using ptr_table.run_from_create [OF assms] by blast

theorem hash_table_refines_map_witness:
  "\<exists>ht' rs. run_ops (ht_ins (\<lambda>_. True)) mesa_hash_table_remove_key ht_clr ht_srch
      [Insert 8 80, Insert 16 160, Insert 24 240, Remove 16, Search 8, Search 16, Insert 8 81, Search 8] sample_table =
        Some (ht', rs) \<and> rs = [Some 80, None, Some 81]"
  using hash_table_refines_map [OF u64_keys.ptr_table_axioms sample_table_create,
      of "[Insert 8 80, Insert 16 160, Insert 24 240, Remove 16, Search 8, Search 16, Insert 8 81, Search 8]"]
  by (auto simp: mesa_key_pointer_equal_def)

text \<open>
  C6: on a table made by \<^verbatim>\<open>_mesa_hash_table_create\<close>, run any sequence of calls with at most 65536
  insertions of valid keys while allocations succeed, and then any further sequence of calls,
  with any number of insertions, during which no allocation succeeds. All calls return. At both
  points \<open>entries\<close> is the number of present entries and \<open>deleted_entries\<close> the number of tombstones, so the
  32-bit counters have not wrapped. At the first point they are together within \<open>max_entries\<close>, which is below
  the number of slots, and a slot is free; at the second they are together within the number of slots, all of
  which may be taken.
\<close>

theorem hash_table_counters:
  assumes "ptr_table H eq dk" "mesa_hash_table_create True (\<lambda>_. True) dk (Some H) eq = Some ht"
    and "length (inserted ops) \<le> 65536" "list_all (\<lambda>k. k \<noteq> 0 \<and> k \<noteq> dk) (inserted ops)"
    and "list_all (\<lambda>k. k \<noteq> 0 \<and> k \<noteq> dk) (inserted starved)"
  shows "\<exists>ht' rs ht'' rs'. run_ops (ht_ins (\<lambda>_. True)) mesa_hash_table_remove_key ht_clr ht_srch ops ht = Some (ht', rs) \<and>
    unat (entries ht') = length (filter (entry_is_present ht') (ht_table ht')) \<and>
    unat (deleted_entries ht') = length (filter (entry_is_deleted ht') (ht_table ht')) \<and>
    unat (entries ht') + unat (deleted_entries ht') \<le> unat (max_entries ht') \<and>
    unat (max_entries ht') < length (ht_table ht') \<and> (\<exists>e\<in>set (ht_table ht'). entry_is_free e) \<and>
    run_ops (ht_ins (\<lambda>_. False)) mesa_hash_table_remove_key ht_clr ht_srch starved ht' = Some (ht'', rs') \<and>
    unat (entries ht'') = length (filter (entry_is_present ht'') (ht_table ht'')) \<and>
    unat (deleted_entries ht'') = length (filter (entry_is_deleted ht'') (ht_table ht'')) \<and>
    unat (entries ht'') + unat (deleted_entries ht'') \<le> length (ht_table ht'')"
proof -
  obtain ht' rs where r: "run_ops (ht_ins (\<lambda>_. True)) mesa_hash_table_remove_key ht_clr ht_srch ops ht = Some (ht', rs)"
    "ptr_table.live H eq dk ht'" using ptr_table.run_from_create [OF assms(1-4)] by blast
  have "list_all (ptr_table.is_key dk) (inserted starved)"
    using assms(5) by (simp add: ptr_table.is_key_def [OF assms(1), abs_def])
  then obtain ht'' rs' where r': "run_ops (ht_ins (\<lambda>_. False)) mesa_hash_table_remove_key ht_clr ht_srch starved ht' = Some (ht'', rs')"
    "ptr_table.lean H eq dk ht''"
    using ptr_table.lean_run [OF assms(1) ptr_table.live_lean [OF assms(1) r(2)]] by blast
  show ?thesis using ptr_table.live_counters [OF assms(1) r(2)] ptr_table.lean_counters [OF assms(1) r'(2)]
    by (intro exI [of _ ht'] exI [of _ rs] exI [of _ ht''] exI [of _ rs'] conjI r(1) r'(1)) (elim conjE; assumption)+
qed

theorem hash_table_counters_witness:
  "\<exists>ht' rs ht'' rs'. run_ops (ht_ins (\<lambda>_. True)) mesa_hash_table_remove_key ht_clr ht_srch [Insert 8 80] sample_table = Some (ht', rs) \<and>
     unat (entries ht') + unat (deleted_entries ht') \<le> unat (max_entries ht') \<and>
     run_ops (ht_ins (\<lambda>_. False)) mesa_hash_table_remove_key ht_clr ht_srch [Insert 16 1, Insert 24 2, Remove 8, Insert 32 3] ht' = Some (ht'', rs') \<and>
     unat (entries ht'') = length (filter (entry_is_present ht'') (ht_table ht''))"
proof -
  have keys: "length (inserted [Insert 8 80]) \<le> 65536" "list_all (\<lambda>k. k \<noteq> 0 \<and> k \<noteq> 1) (inserted [Insert (8 :: ptr) (80 :: ptr)])"
    "list_all (\<lambda>k. k \<noteq> 0 \<and> k \<noteq> 1) (inserted [Insert (16 :: ptr) (1 :: ptr), Insert 24 2, Remove 8, Insert 32 3])" by simp_all
  from hash_table_counters [OF u64_keys.ptr_table_axioms sample_table_create keys] show ?thesis
    by (elim exE conjE) (intro exI conjI; assumption)
qed

text \<open>
  C22: a search in a table whose entries are on their probe routes (\<open>wf\<close>, sizes up to the one before
  the largest) always returns, with the entry whose key equals the wanted one, or with \<^verbatim>\<open>NULL\<close> if no
  present entry has such a key. The \<^verbatim>\<open>do\<close> loop ends even when no slot is free.
\<close>

theorem hash_table_search_correct:
  assumes "ptr_table H eq dk" "ptr_table.wf H eq dk ht"
  shows "\<exists>r. hash_table_search ht (H k) k = Some r \<and>
    (case r of
       Some i \<Rightarrow> i < length (ht_table ht) \<and> entry_is_present ht (ht_table ht ! i) \<and> eq k (ekey (ht_table ht ! i))
     | None \<Rightarrow> \<forall>e\<in>set (ht_table ht). \<not> (entry_is_present ht e \<and> eq k (ekey e)))"
  by (rule ptr_table.search_total [OF assms])

theorem hash_table_search_correct_witness:
  "\<exists>r. hash_table_search sample_table (mesa_hash_pointer 8) 8 = Some r \<and>
    (case r of
       Some i \<Rightarrow> i < length (ht_table sample_table) \<and> entry_is_present sample_table (ht_table sample_table ! i) \<and>
         mesa_key_pointer_equal 8 (ekey (ht_table sample_table ! i))
     | None \<Rightarrow> \<forall>e\<in>set (ht_table sample_table). \<not> (entry_is_present sample_table e \<and> mesa_key_pointer_equal 8 (ekey e)))"
  using hash_table_search_correct [OF u64_keys.ptr_table_axioms, of sample_table 8] sample_table_live(1)
  by (simp add: u64_keys.live_def u64_keys.ok_def)

text \<open>
  C23: when the memory for a larger table cannot be had, \<^verbatim>\<open>_mesa_hash_table_insert\<close> goes on with the
  table it has. It returns \<^verbatim>\<open>NULL\<close> exactly when all slots are taken and the key is new, and then the
  table is unchanged; otherwise the key maps to the new data and no other key changes.
\<close>

theorem hash_table_insert_no_memory:
  assumes "ptr_table H eq dk" "ptr_table.wf H eq dk ht" "unat (size_index ht) < 16" "k \<noteq> 0" "k \<noteq> dk"
    and "key_hash_function ht = Some H"
  shows "\<exists>ht' r. mesa_hash_table_insert (\<lambda>_. False) ht k d = Some (ht', r) \<and> ptr_table.wf H eq dk ht' \<and>
    (r = None \<longleftrightarrow> entries ht = ht_size ht \<and> ht_lookup ht k = None) \<and> (r = None \<longrightarrow> ht' = ht) \<and>
    (r \<noteq> None \<longrightarrow> (\<forall>l. ht_lookup ht' l = (if eq l k then Some d else ht_lookup ht l)))"
  using ptr_table.insert_no_memory [OF assms(1-3) _ assms(6), of k d] assms(4,5)
  by (simp add: ptr_table.is_key_def [OF assms(1)])

theorem hash_table_insert_no_memory_witness:
  "\<exists>ht' r. mesa_hash_table_insert (\<lambda>_. False) sample_table 8 80 = Some (ht', r) \<and> r \<noteq> None \<and> ht_lookup ht' 8 = Some 80"
proof -
  have "u64_keys.wf sample_table" "unat (size_index sample_table) < 16" "key_hash_function sample_table = Some mesa_hash_pointer"
    using sample_table_live(1) by (simp_all add: u64_keys.live_def u64_keys.ok_def)
  from hash_table_insert_no_memory [OF u64_keys.ptr_table_axioms this(1,2) _ _ this(3), of 8 80]
  show ?thesis by (auto simp: sample_table_def mesa_key_pointer_equal_def)
qed

text \<open>
  C24: iteration, clearing and destruction. The iterator visits the present entries in slot order and no two of
  them have equal keys; clearing and destroying call \<^verbatim>\<open>delete_function\<close> on exactly these, and after
  clearing no key is found and the counters are 0.
\<close>

theorem hash_table_iteration_correct:
  assumes "ptr_table H eq dk" "ptr_table.wf H eq dk ht" "key_hash_function ht = Some H"
  shows "hash_table_foreach ht = filter (entry_is_present ht) (ht_table ht) \<and>
    sorted_wrt (\<lambda>e f. \<not> eq (ekey f) (ekey e)) (hash_table_foreach ht) \<and>
    mesa_hash_table_destroy (Some ht) True = hash_table_foreach ht \<and>
    snd (mesa_hash_table_clear ht True) = hash_table_foreach ht \<and>
    (\<forall>k. ht_lookup (fst (mesa_hash_table_clear ht True)) k = None) \<and>
    entries (fst (mesa_hash_table_clear ht True)) = 0 \<and> deleted_entries (fst (mesa_hash_table_clear ht True)) = 0"
  by (rule ptr_table.iteration [OF assms])

theorem hash_table_iteration_correct_witness:
  "hash_table_foreach sample_table = filter (entry_is_present sample_table) (ht_table sample_table) \<and>
   (\<forall>k. ht_lookup (fst (mesa_hash_table_clear sample_table True)) k = None)"
proof -
  have "u64_keys.wf sample_table" "key_hash_function sample_table = Some mesa_hash_pointer"
    using sample_table_live(1) by (simp_all add: u64_keys.live_def u64_keys.ok_def)
  from hash_table_iteration_correct [OF u64_keys.ptr_table_axioms this] show ?thesis by simp
qed

text \<open>
  C25: the wrapper for 64-bit keys on a 64-bit machine. After an insertion the key, 1 included, is
  found with its data and every other key as before; after a removal it is not found. Key 0 is
  excluded: it is a null pointer for the table.
\<close>

theorem hash_table_u64_roundtrip:
  assumes "u64_live ht" "u64_fill ht < 65536" "k \<noteq> 0"
  shows "\<exists>ht' ht''. mesa_hash_table_u64_insert (\<lambda>_. True) ht k d = Some ht' \<and> u64_live ht' \<and>
    (\<forall>l. mesa_hash_table_u64_search ht' l = (if l = k then Some d else mesa_hash_table_u64_search ht l)) \<and>
    mesa_hash_table_u64_remove ht' k = Some ht'' \<and> u64_live ht'' \<and>
    (\<forall>l. mesa_hash_table_u64_search ht'' l = (if l = k then Some 0 else mesa_hash_table_u64_search ht l))"
proof -
  obtain ht' where i: "mesa_hash_table_u64_insert (\<lambda>_. True) ht k d = Some ht'" "u64_live ht'"
    "\<forall>l. mesa_hash_table_u64_search ht' l = (if l = k then Some d else mesa_hash_table_u64_search ht l)"
    using u64_insert_search [OF assms] by blast
  from u64_remove_search [OF i(2), of k] i show ?thesis by auto
qed

theorem hash_table_u64_roundtrip_witness:
  "\<exists>ht' ht''. mesa_hash_table_u64_insert (\<lambda>_. True) \<lparr>u64_table = Some sample_table, deleted_key_data = 0\<rparr> 1 7 = Some ht' \<and>
    mesa_hash_table_u64_search ht' 1 = Some 7 \<and> mesa_hash_table_u64_remove ht' 1 = Some ht'' \<and>
    mesa_hash_table_u64_search ht'' 1 = Some 0"
  using hash_table_u64_roundtrip [of "\<lparr>u64_table = Some sample_table, deleted_key_data = 0\<rparr>" 1 7] sample_table_live
  by (fastforce simp: u64_live_def u64_fill_def)

section \<open>Limits\<close>

text \<open>On a 64-bit machine the wrapper passes key 0 on as a null pointer, and the table's assertion fails.\<close>

lemma u64_insert_zero: "mesa_hash_table_u64_insert alloc ht 0 d = None"
proof -
  have "mesa_hash_table_insert alloc t 0 d = None" for t
    by (cases "key_hash_function t") (simp_all add: mesa_hash_table_insert_def hash_table_insert.simps [of _ _ _ 0])
  then show ?thesis by (cases "u64_table ht") (simp_all add: mesa_hash_table_u64_insert_def)
qed

text \<open>
  With the largest size an address plus a step can pass \<open>2 ^ 32\<close>: the loop then leaves its sequence
  of addresses.
\<close>

lemma largest_size_wraps:
  assumes "ht_size ht = size_size 30" "ht_rehash ht = size_rehash 30"
  shows "unat (next_address ht 2362232230 2362232232) \<noteq> (2362232232 + (1 + 2362232230 mod 2362232231)) mod 2362232233"
  using assms by (simp add: next_address_def hash_sizes_def)

end
