(* ===== verification/Mesa_Set.thy ===== *)
theory Mesa_Set
  imports Hash_Table
begin

text \<open>
  \<^verbatim>\<open>src/util/set.c\<close> and \<^verbatim>\<open>set.h\<close>. The file is a copy of the hash table without data, with a global
  deleted key, without the assertion on null keys, and with a \<^verbatim>\<open>_mesa_set_clear\<close> of its own. The model
  follows the file; \<open>as_table\<close> reads a set as a hash table whose data are null, and the simulation
  lemmas show that each operation does what the operation of the hash table does. The results on hash
  tables then hold for sets. The address of the global \<^verbatim>\<open>deleted_key_value\<close> is the argument \<open>dk\<close>.
\<close>

section \<open>Sets\<close>

record set_entry =
  sehash :: u32
  sekey :: ptr

record mesa_set =
  s_table :: "set_entry list"
  s_key_hash_function :: "(ptr \<Rightarrow> u32) option"
  s_key_equals_function :: "ptr \<Rightarrow> ptr \<Rightarrow> bool"
  s_size :: u32
  s_rehash :: u32
  s_max_entries :: u32
  s_size_index :: u32
  s_entries :: u32
  s_deleted_entries :: u32

definition set_hash_sizes :: "(u32 \<times> u32 \<times> u32) list" where
  "set_hash_sizes =
    [(2, 5, 3), (4, 7, 5), (8, 13, 11), (16, 19, 17), (32, 43, 41), (64, 73, 71), (128, 151, 149),
     (256, 283, 281), (512, 571, 569), (1024, 1153, 1151), (2048, 2269, 2267), (4096, 4519, 4517),
     (8192, 9013, 9011), (16384, 18043, 18041), (32768, 36109, 36107), (65536, 72091, 72089),
     (131072, 144409, 144407), (262144, 288361, 288359), (524288, 576883, 576881),
     (1048576, 1153459, 1153457), (2097152, 2307163, 2307161), (4194304, 4613893, 4613891),
     (8388608, 9227641, 9227639), (16777216, 18455029, 18455027), (33554432, 36911011, 36911009),
     (67108864, 73819861, 73819859), (134217728, 147639589, 147639587), (268435456, 295279081, 295279079),
     (536870912, 590559793, 590559791), (1073741824, 1181116273, 1181116271),
     (2147483648, 2362232233, 2362232231)]"

definition set_entry_is_free :: "set_entry \<Rightarrow> bool" where
  "set_entry_is_free entry \<longleftrightarrow> sekey entry = 0"

definition set_entry_is_deleted :: "ptr \<Rightarrow> set_entry \<Rightarrow> bool" where
  "set_entry_is_deleted dk entry \<longleftrightarrow> sekey entry = dk"

definition set_entry_is_present :: "ptr \<Rightarrow> set_entry \<Rightarrow> bool" where
  "set_entry_is_present dk entry \<longleftrightarrow> sekey entry \<noteq> 0 \<and> sekey entry \<noteq> dk"

definition rzalloc_set_entries :: "(u32 \<Rightarrow> bool) \<Rightarrow> u32 \<Rightarrow> set_entry list option" where
  "rzalloc_set_entries alloc n =
     (if alloc n then Some (replicate (unat n) \<lparr>sehash = 0, sekey = 0\<rparr>) else None)"

definition mesa_set_create ::
  "bool \<Rightarrow> (u32 \<Rightarrow> bool) \<Rightarrow> (ptr \<Rightarrow> u32) option \<Rightarrow> (ptr \<Rightarrow> ptr \<Rightarrow> bool) \<Rightarrow> mesa_set option"
where
  "mesa_set_create alloc_ht alloc hash_fn equals_fn =
     (if \<not> alloc_ht then None
      else let (mx, sz, rehash) = set_hash_sizes ! 0
           in case rzalloc_set_entries alloc sz of
                None \<Rightarrow> None
              | Some table \<Rightarrow>
                  Some \<lparr>s_table = table, s_key_hash_function = hash_fn, s_key_equals_function = equals_fn,
                        s_size = sz, s_rehash = rehash, s_max_entries = mx, s_size_index = 0,
                        s_entries = 0, s_deleted_entries = 0\<rparr>)"

definition mesa_set_clone :: "bool \<Rightarrow> (u32 \<Rightarrow> bool) \<Rightarrow> mesa_set \<Rightarrow> mesa_set option" where
  "mesa_set_clone alloc_ht alloc ht =
     (if \<not> alloc_ht then None
      else if \<not> alloc (s_size ht) then None
      else Some (ht\<lparr>s_table := take (unat (s_size ht)) (s_table ht)\<rparr>))"

section \<open>Iteration\<close>

definition mesa_set_next_entry :: "ptr \<Rightarrow> mesa_set \<Rightarrow> nat option \<Rightarrow> nat option" where
  "mesa_set_next_entry dk ht entry =
     (let start = (case entry of None \<Rightarrow> 0 | Some i \<Rightarrow> i + 1)
      in List.find (\<lambda>i. set_entry_is_present dk (s_table ht ! i)) [start..<unat (s_size ht)])"

lemma set_next_entry_bounds:
  assumes "mesa_set_next_entry dk ht entry = Some j"
  shows "j < unat (s_size ht)" "entry = Some i \<Longrightarrow> i < j"
proof -
  obtain s where "List.find (\<lambda>i. set_entry_is_present dk (s_table ht ! i)) [s..<unat (s_size ht)] = Some j"
    and s: "s = (case entry of None \<Rightarrow> 0 | Some i \<Rightarrow> i + 1)"
    using assms by (simp add: mesa_set_next_entry_def)
  then have "s \<le> j" "j < unat (s_size ht)" by (auto simp: find_Some_iff)
  then show "j < unat (s_size ht)" "entry = Some i \<Longrightarrow> i < j" using s by auto
qed

function set_foreach_from :: "ptr \<Rightarrow> mesa_set \<Rightarrow> nat option \<Rightarrow> nat list" where
  "set_foreach_from dk ht entry =
     (case entry of None \<Rightarrow> [] | Some i \<Rightarrow> i # set_foreach_from dk ht (mesa_set_next_entry dk ht (Some i)))"
  by auto
termination
proof (relation "measure (\<lambda>(dk, ht, entry). case entry of None \<Rightarrow> 0 | Some i \<Rightarrow> Suc (unat (s_size ht) - i))", goal_cases)
  case (2 dk ht entry i)
  show ?case
  proof (cases "mesa_set_next_entry dk ht (Some i)")
    case None
    then show ?thesis using 2 by simp
  next
    case (Some j)
    with set_next_entry_bounds [OF Some] 2 show ?thesis by auto
  qed
qed simp

declare set_foreach_from.simps [simp del]

definition set_foreach :: "ptr \<Rightarrow> mesa_set \<Rightarrow> set_entry list" where
  "set_foreach dk ht = map (\<lambda>i. s_table ht ! i) (set_foreach_from dk ht (mesa_set_next_entry dk ht None))"

definition mesa_set_destroy :: "ptr \<Rightarrow> mesa_set option \<Rightarrow> bool \<Rightarrow> set_entry list" where
  "mesa_set_destroy dk ht delete_function =
     (case ht of None \<Rightarrow> [] | Some ht \<Rightarrow> if delete_function then set_foreach dk ht else [])"

text \<open>
  The loop of \<^verbatim>\<open>_mesa_set_clear\<close> writes the deleted key into the entry it is at and then looks for the
  next present entry. The second result is the list of entries passed to the callback.
\<close>

function set_clear_loop :: "ptr \<Rightarrow> bool \<Rightarrow> mesa_set \<Rightarrow> nat option \<Rightarrow> mesa_set \<times> set_entry list" where
  "set_clear_loop dk delete_function ht entry =
     (case entry of
        None \<Rightarrow> (ht, [])
      | Some i \<Rightarrow>
          let ht' = ht\<lparr>s_table := (s_table ht)[i := (s_table ht ! i)\<lparr>sekey := dk\<rparr>]\<rparr>;
              (ht'', called) = set_clear_loop dk delete_function ht' (mesa_set_next_entry dk ht' (Some i))
          in (ht'', if delete_function then s_table ht ! i # called else called))"
  by auto
termination
proof (relation "measure (\<lambda>(dk, f, ht, entry). case entry of None \<Rightarrow> 0 | Some i \<Rightarrow> Suc (unat (s_size ht) - i))", goal_cases)
  case (2 dk f ht entry i ht')
  show ?case
  proof (cases "mesa_set_next_entry dk ht' (Some i)")
    case None
    then show ?thesis using 2 by simp
  next
    case (Some j)
    with set_next_entry_bounds [OF Some] 2 show ?thesis by auto
  qed
qed simp

declare set_clear_loop.simps [simp del]

definition mesa_set_clear :: "ptr \<Rightarrow> mesa_set option \<Rightarrow> bool \<Rightarrow> mesa_set option \<times> set_entry list" where
  "mesa_set_clear dk ht delete_function =
     (case ht of
        None \<Rightarrow> (None, [])
      | Some ht \<Rightarrow>
          let (ht, called) = set_clear_loop dk delete_function ht (mesa_set_next_entry dk ht None)
          in (Some (ht\<lparr>s_entries := 0, s_deleted_entries := 0\<rparr>), called))"

definition mesa_set_random_entry ::
  "ptr \<Rightarrow> mesa_set \<Rightarrow> u32 \<Rightarrow> (set_entry \<Rightarrow> bool) option \<Rightarrow> nat option"
where
  "mesa_set_random_entry dk ht r predicate =
     (let i = unat (r mod s_size ht);
          good = (\<lambda>i. set_entry_is_present dk (s_table ht ! i) \<and>
                      (case predicate of None \<Rightarrow> True | Some p \<Rightarrow> p (s_table ht ! i)))
      in if s_entries ht = 0 then None
         else case List.find good [i..<unat (s_size ht)] of
                Some j \<Rightarrow> Some j
              | None \<Rightarrow> List.find good [0..<i])"

section \<open>Searching\<close>

definition set_next_address :: "mesa_set \<Rightarrow> u32 \<Rightarrow> u32 \<Rightarrow> u32" where
  "set_next_address ht hash hash_address =
     (let double_hash = 1 + hash mod s_rehash ht in (hash_address + double_hash) mod s_size ht)"

definition set_search_visit :: "ptr \<Rightarrow> mesa_set \<Rightarrow> u32 \<Rightarrow> ptr \<Rightarrow> u32 \<Rightarrow> unit \<Rightarrow> nat option + unit" where
  "set_search_visit dk ht hash key hash_address _ =
     (let entry = s_table ht ! unat hash_address
      in if set_entry_is_free entry then Inl None
         else if set_entry_is_present dk entry \<and> sehash entry = hash \<and> s_key_equals_function ht key (sekey entry)
         then Inl (Some (unat hash_address)) else Inr ())"

definition set_search :: "ptr \<Rightarrow> mesa_set \<Rightarrow> u32 \<Rightarrow> ptr \<Rightarrow> nat option option" where
  "set_search dk ht hash key = do {
     r \<leftarrow> do_probe (set_search_visit dk ht hash key) (set_next_address ht hash) (hash mod s_size ht) (hash mod s_size ht) ();
     Some (case r of Inl entry \<Rightarrow> entry | Inr _ \<Rightarrow> None)
   }"

definition mesa_set_search :: "ptr \<Rightarrow> mesa_set \<Rightarrow> ptr \<Rightarrow> nat option option" where
  "mesa_set_search dk ht key =
     (case s_key_hash_function ht of None \<Rightarrow> None | Some f \<Rightarrow> set_search dk ht (f key) key)"

definition mesa_set_search_pre_hashed :: "ptr \<Rightarrow> mesa_set \<Rightarrow> u32 \<Rightarrow> ptr \<Rightarrow> nat option option" where
  "mesa_set_search_pre_hashed dk ht hash key =
     (if (case s_key_hash_function ht of None \<Rightarrow> True | Some f \<Rightarrow> hash = f key)
      then set_search dk ht hash key else None)"

section \<open>Adding\<close>

definition set_add_visit ::
  "ptr \<Rightarrow> mesa_set \<Rightarrow> u32 \<Rightarrow> ptr \<Rightarrow> u32 \<Rightarrow> nat option \<Rightarrow> (nat + nat option) + nat option"
where
  "set_add_visit dk ht hash key hash_address available_entry =
     (let entry = s_table ht ! unat hash_address;
          available_entry = (if \<not> set_entry_is_present dk entry \<and> available_entry = None
                             then Some (unat hash_address) else available_entry)
      in if \<not> set_entry_is_present dk entry \<and> set_entry_is_free entry then Inl (Inr available_entry)
         else if \<not> set_entry_is_deleted dk entry \<and> sehash entry = hash \<and> s_key_equals_function ht key (sekey entry)
         then Inl (Inl (unat hash_address))
         else Inr available_entry)"

definition set_add_at :: "ptr \<Rightarrow> mesa_set \<Rightarrow> u32 \<Rightarrow> ptr \<Rightarrow> (nat + nat option) + nat option \<Rightarrow> mesa_set \<times> nat option" where
  "set_add_at dk ht hash key r =
     (case r of
        Inl (Inl i) \<Rightarrow> (ht\<lparr>s_table := (s_table ht)[i := (s_table ht ! i)\<lparr>sekey := key\<rparr>]\<rparr>, Some i)
      | _ \<Rightarrow>
        (case (case r of Inl (Inr av) \<Rightarrow> av | Inr av \<Rightarrow> av | _ \<Rightarrow> None) of
           Some a \<Rightarrow>
             (ht\<lparr>s_table := (s_table ht)[a := \<lparr>sehash = hash, sekey = key\<rparr>],
                 s_entries := s_entries ht + 1,
                 s_deleted_entries := (if set_entry_is_deleted dk (s_table ht ! a)
                                       then s_deleted_entries ht - 1 else s_deleted_entries ht)\<rparr>, Some a)
         | None \<Rightarrow> (ht, None)))"

definition set_add_probe :: "ptr \<Rightarrow> mesa_set \<Rightarrow> u32 \<Rightarrow> ptr \<Rightarrow> (mesa_set \<times> nat option) option" where
  "set_add_probe dk ht hash key = do {
     r \<leftarrow> do_probe (set_add_visit dk ht hash key) (set_next_address ht hash) (hash mod s_size ht) (hash mod s_size ht) None;
     Some (set_add_at dk ht hash key r)
   }"

fun add_all :: "(mesa_set \<Rightarrow> u32 \<Rightarrow> ptr \<Rightarrow> (mesa_set \<times> nat option) option) \<Rightarrow> set_entry list \<Rightarrow> mesa_set \<Rightarrow> mesa_set option"
where
  "add_all add [] ht = Some ht"
| "add_all add (entry # es) ht = do {
     (ht, _) \<leftarrow> add ht (sehash entry) (sekey entry);
     add_all add es ht
   }"

definition set_rehash ::
  "(mesa_set \<Rightarrow> u32 \<Rightarrow> ptr \<Rightarrow> (mesa_set \<times> nat option) option) \<Rightarrow> ptr \<Rightarrow> (u32 \<Rightarrow> bool) \<Rightarrow>
   mesa_set \<Rightarrow> u32 \<Rightarrow> mesa_set option"
where
  "set_rehash add dk alloc ht new_size_index =
     (if 31 \<le> new_size_index then Some ht
      else let (mx, sz, rehash) = set_hash_sizes ! unat new_size_index
           in case rzalloc_set_entries alloc sz of
                None \<Rightarrow> Some ht
              | Some table \<Rightarrow>
                  add_all add (set_foreach dk ht)
                    (ht\<lparr>s_table := table, s_size_index := new_size_index, s_size := sz,
                        s_rehash := rehash, s_max_entries := mx, s_entries := 0, s_deleted_entries := 0\<rparr>))"

lemma add_all_mono [partial_function_mono]:
  assumes "\<And>ht h k. mono_option (\<lambda>f. add f ht h k)"
  shows "mono_option (\<lambda>f. add_all (add f) es ht)"
  by (induction es arbitrary: ht) (auto intro!: partial_function_mono assms split: prod.split)

lemma set_rehash_mono [partial_function_mono]:
  assumes "\<And>ht h k. mono_option (\<lambda>f. add f ht h k)"
  shows "mono_option (\<lambda>f. set_rehash (add f) dk alloc ht i)"
proof -
  obtain mx sz r where s: "set_hash_sizes ! unat i = (mx, sz, r)" by (cases "set_hash_sizes ! unat i")
  show ?thesis unfolding set_rehash_def Let_def s
    by (cases "rzalloc_set_entries alloc sz") (auto intro!: partial_function_mono add_all_mono assms)
qed

partial_function (option) set_add ::
  "ptr \<Rightarrow> (u32 \<Rightarrow> bool) \<Rightarrow> mesa_set \<Rightarrow> u32 \<Rightarrow> ptr \<Rightarrow> (mesa_set \<times> nat option) option"
where
  "set_add dk alloc ht hash key = do {
     ht \<leftarrow> (if s_max_entries ht \<le> s_entries ht then set_rehash (set_add dk alloc) dk alloc ht (s_size_index ht + 1)
            else if s_max_entries ht \<le> s_deleted_entries ht + s_entries ht
            then set_rehash (set_add dk alloc) dk alloc ht (s_size_index ht)
            else Some ht);
     set_add_probe dk ht hash key
   }"

definition mesa_set_add :: "ptr \<Rightarrow> (u32 \<Rightarrow> bool) \<Rightarrow> mesa_set \<Rightarrow> ptr \<Rightarrow> (mesa_set \<times> nat option) option" where
  "mesa_set_add dk alloc ht key =
     (case s_key_hash_function ht of None \<Rightarrow> None | Some f \<Rightarrow> set_add dk alloc ht (f key) key)"

definition mesa_set_add_pre_hashed ::
  "ptr \<Rightarrow> (u32 \<Rightarrow> bool) \<Rightarrow> mesa_set \<Rightarrow> u32 \<Rightarrow> ptr \<Rightarrow> (mesa_set \<times> nat option) option"
where
  "mesa_set_add_pre_hashed dk alloc ht hash key =
     (if (case s_key_hash_function ht of None \<Rightarrow> True | Some f \<Rightarrow> hash = f key)
      then set_add dk alloc ht hash key else None)"

section \<open>Removing\<close>

definition mesa_set_remove :: "ptr \<Rightarrow> mesa_set \<Rightarrow> nat option \<Rightarrow> mesa_set" where
  "mesa_set_remove dk ht entry =
     (case entry of None \<Rightarrow> ht
      | Some i \<Rightarrow>
          ht\<lparr>s_table := (s_table ht)[i := (s_table ht ! i)\<lparr>sekey := dk\<rparr>],
             s_entries := s_entries ht - 1, s_deleted_entries := s_deleted_entries ht + 1\<rparr>)"

definition mesa_set_remove_key :: "ptr \<Rightarrow> mesa_set \<Rightarrow> ptr \<Rightarrow> mesa_set option" where
  "mesa_set_remove_key dk ht key =
     do { entry \<leftarrow> mesa_set_search dk ht key; Some (mesa_set_remove dk ht entry) }"

section \<open>A set is a hash table without data\<close>

definition as_entry :: "set_entry \<Rightarrow> hash_entry" where
  "as_entry e = \<lparr>ehash = sehash e, ekey = sekey e, edata = 0\<rparr>"

definition as_table :: "ptr \<Rightarrow> mesa_set \<Rightarrow> hash_table" where
  "as_table dk s = \<lparr>ht_table = map as_entry (s_table s), key_hash_function = s_key_hash_function s,
     key_equals_function = s_key_equals_function s, deleted_key = dk, ht_size = s_size s, ht_rehash = s_rehash s,
     max_entries = s_max_entries s, size_index = s_size_index s, entries = s_entries s,
     deleted_entries = s_deleted_entries s\<rparr>"

definition sized :: "mesa_set \<Rightarrow> bool" where
  "sized s \<longleftrightarrow> length (s_table s) = unat (s_size s) \<and> s_size s \<noteq> 0"

lemma as_entry_simps [simp]: "ehash (as_entry e) = sehash e" "ekey (as_entry e) = sekey e" "edata (as_entry e) = 0"
  by (simp_all add: as_entry_def)

lemma as_table_simps [simp]:
  "ht_table (as_table dk s) = map as_entry (s_table s)" "key_hash_function (as_table dk s) = s_key_hash_function s"
  "key_equals_function (as_table dk s) = s_key_equals_function s" "deleted_key (as_table dk s) = dk"
  "ht_size (as_table dk s) = s_size s" "ht_rehash (as_table dk s) = s_rehash s"
  "max_entries (as_table dk s) = s_max_entries s" "size_index (as_table dk s) = s_size_index s"
  "entries (as_table dk s) = s_entries s" "deleted_entries (as_table dk s) = s_deleted_entries s"
  by (simp_all add: as_table_def)

lemma entry_kinds [simp]:
  "entry_is_free (as_entry e) = set_entry_is_free e" "entry_is_deleted (as_table dk s) (as_entry e) = set_entry_is_deleted dk e"
  "entry_is_present (as_table dk s) (as_entry e) = set_entry_is_present dk e"
  by (simp_all add: entry_is_free_def entry_is_deleted_def entry_is_present_def set_entry_is_free_def
      set_entry_is_deleted_def set_entry_is_present_def)

lemma set_hash_sizes_eq: "set_hash_sizes = hash_sizes"
  by (simp add: set_hash_sizes_def hash_sizes_def)

lemma set_next_address_eq: "set_next_address s h = next_address (as_table dk s) h"
  by (simp add: set_next_address_def [abs_def] next_address_def [abs_def])

lemma word_mod_less: "n \<noteq> 0 \<Longrightarrow> unat (a mod n :: u32) < unat n"
  by (simp add: unat_mod unat_gt_0)

lemma set_probe_cong:
  assumes "sized s" "\<And>a x. unat a < unat (s_size s) \<Longrightarrow> visit a x = visit' a x"
  shows "do_probe visit (set_next_address s h) (h mod s_size s) (h mod s_size s) x =
    do_probe visit' (next_address (as_table dk s) h) (h mod ht_size (as_table dk s)) (h mod ht_size (as_table dk s)) x"
proof -
  have n: "s_size s \<noteq> 0" using assms(1) by (simp add: sized_def)
  show ?thesis unfolding set_next_address_eq [of s h dk] as_table_simps
    using n by (intro do_probe_cong [where Q = "\<lambda>a. unat a < unat (s_size s)"] assms(2))
      (simp_all add: word_mod_less next_address_def Let_def)
qed

lemma set_search_eq: "sized s \<Longrightarrow> set_search dk s h k = hash_table_search (as_table dk s) h k"
  unfolding set_search_def hash_table_search_def Let_def
  by (subst set_probe_cong [where visit' = "search_visit (as_table dk s) h k" and dk = dk])
    (simp_all add: set_search_visit_def search_visit_def sized_def Let_def)

lemma mesa_set_search_eq: "sized s \<Longrightarrow> mesa_set_search dk s k = mesa_hash_table_search (as_table dk s) k"
  by (simp add: mesa_set_search_def mesa_hash_table_search_def set_search_eq split: option.split)

text \<open>The addition loop stays within the table.\<close>

definition result_below :: "nat \<Rightarrow> (nat + nat option) + nat option \<Rightarrow> bool" where
  "result_below n r = (case r of Inl (Inl i) \<Rightarrow> i < n | Inl (Inr av) \<Rightarrow> (\<forall>a. av = Some a \<longrightarrow> a < n)
     | Inr av \<Rightarrow> (\<forall>a. av = Some a \<longrightarrow> a < n))"

lemma set_add_probe_below:
  assumes "sized s" "do_probe (set_add_visit dk s h k) (set_next_address s h) (h mod s_size s) (h mod s_size s) None = Some r"
  shows "result_below (unat (s_size s)) r"
proof -
  have n: "s_size s \<noteq> 0" using assms(1) by (simp add: sized_def)
  show ?thesis
  proof (rule do_probe_post [OF assms(2), where Q = "\<lambda>a. unat a < unat (s_size s)" and R = "\<lambda>av. \<forall>a. av = Some a \<longrightarrow> a < unat (s_size s)"])
    fix a :: u32 and av
    assume "unat a < unat (s_size s)" "\<forall>a. av = Some a \<longrightarrow> a < unat (s_size s)"
    then show "case set_add_visit dk s h k a av of Inl x \<Rightarrow> result_below (unat (s_size s)) (Inl x)
      | Inr av \<Rightarrow> \<forall>a. av = Some a \<longrightarrow> a < unat (s_size s)"
      by (auto simp: set_add_visit_def result_below_def Let_def split: sum.splits if_splits)
  qed (use n in \<open>simp_all add: result_below_def set_next_address_def word_mod_less Let_def\<close>)
qed

lemma set_add_at_eq:
  assumes "sized s" "result_below (unat (s_size s)) r"
  shows "insert_at (as_table dk s) h k 0 r = map_prod (as_table dk) id (set_add_at dk s h k r) \<and> sized (fst (set_add_at dk s h k r))"
proof -
  have len: "length (s_table s) = unat (s_size s)" using assms(1) by (simp add: sized_def)
  have upd: "map as_entry ((s_table s)[i := e]) = (map as_entry (s_table s))[i := as_entry e]" for i e by (rule map_update)
  have rec1: "(as_entry e)\<lparr>ekey := k, edata := 0\<rparr> = as_entry (e\<lparr>sekey := k\<rparr>)" for e by (simp add: as_entry_def)
  have rec2: "\<lparr>ehash = h, ekey = k, edata = 0\<rparr> = as_entry \<lparr>sehash = h, sekey = k\<rparr>" by (simp add: as_entry_def)
  show ?thesis
    using assms len unfolding insert_at_def set_add_at_def rec2
    by (auto simp: rec1 upd result_below_def sized_def as_table_def set_entry_is_deleted_def entry_is_deleted_def
        split: sum.splits option.splits)
qed

lemma set_add_probe_eq:
  assumes "sized s"
  shows "hash_table_insert_probe (as_table dk s) h k 0 = map_option (map_prod (as_table dk) id) (set_add_probe dk s h k)"
    and "set_add_probe dk s h k = Some (s', i) \<Longrightarrow> sized s'"
proof -
  let ?d = "do_probe (set_add_visit dk s h k) (set_next_address s h) (h mod s_size s) (h mod s_size s) None"
  have d: "?d = do_probe (insert_visit (as_table dk s) h k) (next_address (as_table dk s) h)
      (h mod ht_size (as_table dk s)) (h mod ht_size (as_table dk s)) None"
    using assms by (intro set_probe_cong) (simp_all add: set_add_visit_def insert_visit_def sized_def Let_def)
  show "hash_table_insert_probe (as_table dk s) h k 0 = map_option (map_prod (as_table dk) id) (set_add_probe dk s h k)"
  proof (cases ?d)
    case None
    then show ?thesis using d by (simp add: hash_table_insert_probe_def set_add_probe_def)
  next
    case (Some r)
    then show ?thesis using d set_add_at_eq [OF assms set_add_probe_below [OF assms Some]]
      by (simp add: hash_table_insert_probe_def set_add_probe_def)
  qed
  show "sized s'" if "set_add_probe dk s h k = Some (s', i)"
  proof (cases ?d)
    case None
    then show ?thesis using that by (simp add: set_add_probe_def)
  next
    case (Some r)
    then show ?thesis using that set_add_at_eq [OF assms set_add_probe_below [OF assms Some], of dk h k]
      by (simp add: set_add_probe_def)
  qed
qed

text \<open>Iteration.\<close>

lemma find_cong: "(\<And>x. x \<in> set xs \<Longrightarrow> P x = Q x) \<Longrightarrow> List.find P xs = List.find Q xs"
  by (induction xs) auto

lemma set_next_entry_eq: "sized s \<Longrightarrow> mesa_set_next_entry dk s = mesa_hash_table_next_entry (as_table dk s)"
  unfolding mesa_set_next_entry_def [abs_def] mesa_hash_table_next_entry_def [abs_def] Let_def
  by (intro ext, simp, intro find_cong) (simp add: sized_def)

lemma set_foreach_from_eq: "sized s \<Longrightarrow> set_foreach_from dk s e = foreach_from (as_table dk s) e"
proof (induction dk s e rule: set_foreach_from.induct)
  case (1 dk s e)
  then show ?case
    by (subst set_foreach_from.simps, subst foreach_from.simps) (simp add: set_next_entry_eq split: option.split)
qed

lemma foreach_from_below:
  "foreach_from ht (mesa_hash_table_next_entry ht e) = xs \<Longrightarrow> i \<in> set xs \<Longrightarrow> i < unat (ht_size ht) \<and> entry_is_present ht (ht_table ht ! i)"
  by (auto simp: foreach_from_filter)

lemma set_foreach_eq:
  assumes "sized s"
  shows "hash_table_foreach (as_table dk s) = map as_entry (set_foreach dk s)"
    and "e \<in> set (set_foreach dk s) \<Longrightarrow> sekey e \<noteq> 0"
proof -
  have below: "i < length (s_table s) \<and> set_entry_is_present dk (s_table s ! i)"
    if "i \<in> set (set_foreach_from dk s (mesa_set_next_entry dk s None))" for i
  proof -
    have *: "i < unat (s_size s)" "entry_is_present (as_table dk s) (map as_entry (s_table s) ! i)"
      using foreach_from_below [OF refl, of i "as_table dk s" None] that
      by (simp_all add: set_foreach_from_eq [OF assms] set_next_entry_eq [OF assms])
    have "i < length (s_table s)" using *(1) assms by (simp add: sized_def)
    with *(2) show ?thesis by simp
  qed
  then show "hash_table_foreach (as_table dk s) = map as_entry (set_foreach dk s)"
    by (simp add: hash_table_foreach_def set_foreach_def set_next_entry_eq [OF assms] set_foreach_from_eq [OF assms])
  show "sekey e \<noteq> 0" if "e \<in> set (set_foreach dk s)"
    using that below by (auto simp: set_foreach_def set_entry_is_present_def)
qed

text \<open>Rehashing, for an addition \<open>f\<close> that simulates an insertion \<open>g\<close>, in both directions.\<close>

definition sim_to :: "ptr \<Rightarrow> (mesa_set \<Rightarrow> u32 \<Rightarrow> ptr \<Rightarrow> (mesa_set \<times> nat option) option) \<Rightarrow>
  (hash_table \<Rightarrow> u32 \<Rightarrow> ptr \<Rightarrow> ptr \<Rightarrow> (hash_table \<times> nat option) option) \<Rightarrow> bool"
where
  "sim_to dk f g \<longleftrightarrow> (\<forall>s h k s' i. sized s \<longrightarrow> k \<noteq> 0 \<longrightarrow> f s h k = Some (s', i) \<longrightarrow>
     g (as_table dk s) h k 0 = Some (as_table dk s', i) \<and> sized s')"

definition sim_from :: "ptr \<Rightarrow> (mesa_set \<Rightarrow> u32 \<Rightarrow> ptr \<Rightarrow> (mesa_set \<times> nat option) option) \<Rightarrow>
  (hash_table \<Rightarrow> u32 \<Rightarrow> ptr \<Rightarrow> ptr \<Rightarrow> (hash_table \<times> nat option) option) \<Rightarrow> bool"
where
  "sim_from dk f g \<longleftrightarrow> (\<forall>s h k t i. sized s \<longrightarrow> k \<noteq> 0 \<longrightarrow> g (as_table dk s) h k 0 = Some (t, i) \<longrightarrow>
     (\<exists>s'. f s h k = Some (s', i) \<and> t = as_table dk s' \<and> sized s'))"

lemma add_all_to:
  assumes "sim_to dk f g"
  shows "sized s \<Longrightarrow> \<forall>e\<in>set es. sekey e \<noteq> 0 \<Longrightarrow> add_all f es s = Some s' \<Longrightarrow>
    insert_all g (map as_entry es) (as_table dk s) = Some (as_table dk s') \<and> sized s'"
proof (induction es arbitrary: s)
  case (Cons e es)
  then obtain s1 i where f: "f s (sehash e) (sekey e) = Some (s1, i)" and rest: "add_all f es s1 = Some s'"
    by (auto split: prod.splits Option.bind_splits)
  have "g (as_table dk s) (sehash e) (sekey e) 0 = Some (as_table dk s1, i)" "sized s1"
    using assms f Cons.prems by (auto simp: sim_to_def)
  with Cons.IH [OF this(2) _ rest] Cons.prems show ?case by simp
qed simp

lemma add_all_from:
  assumes "sim_from dk f g"
  shows "sized s \<Longrightarrow> \<forall>e\<in>set es. sekey e \<noteq> 0 \<Longrightarrow> insert_all g (map as_entry es) (as_table dk s) = Some t \<Longrightarrow>
    \<exists>s'. add_all f es s = Some s' \<and> t = as_table dk s' \<and> sized s'"
proof (induction es arbitrary: s)
  case (Cons e es)
  then obtain t1 i where g: "g (as_table dk s) (sehash e) (sekey e) 0 = Some (t1, i)"
    and rest: "insert_all g (map as_entry es) t1 = Some t"
    by (auto split: prod.splits Option.bind_splits)
  obtain s1 where "f s (sehash e) (sekey e) = Some (s1, i)" "t1 = as_table dk s1" "sized s1"
    using assms g Cons.prems unfolding sim_from_def by (metis list.set_intros(1))
  with Cons.IH [OF this(3)] Cons.prems rest show ?case by simp
qed simp

lemma sizes_nonzero: "n < 31 \<Longrightarrow> size_size n \<noteq> 0"
proof -
  have "list_all (\<lambda>s. fst (snd s) \<noteq> 0) hash_sizes" by (simp add: hash_sizes_def)
  then show "n < 31 \<Longrightarrow> size_size n \<noteq> 0" by (simp add: list_all_length)
qed

lemma set_rehash_sim:
  assumes "sized s"
  shows "sim_to dk f g \<Longrightarrow> set_rehash f dk alloc s n = Some s' \<Longrightarrow>
      mesa_hash_table_rehash g alloc (as_table dk s) n = Some (as_table dk s') \<and> sized s'"
    and "sim_from dk f g \<Longrightarrow> mesa_hash_table_rehash g alloc (as_table dk s) n = Some t \<Longrightarrow>
      \<exists>s'. set_rehash f dk alloc s n = Some s' \<and> t = as_table dk s' \<and> sized s'"
proof -
  obtain mx sz r where sz: "hash_sizes ! unat n = (mx, sz, r)" by (cases "hash_sizes ! unat n")
  let ?n = "s\<lparr>s_table := replicate (unat sz) \<lparr>sehash = 0, sekey = 0\<rparr>, s_size_index := n, s_size := sz,
      s_rehash := r, s_max_entries := mx, s_entries := 0, s_deleted_entries := 0\<rparr>"
  let ?es = "set_foreach dk s"
  have f: "set_rehash f dk alloc s n = (if 31 \<le> n \<or> \<not> alloc sz then Some s else add_all f ?es ?n)"
    by (simp add: set_rehash_def set_hash_sizes_eq sz rzalloc_set_entries_def)
  have t: "(as_table dk s)\<lparr>ht_table := replicate (unat sz) \<lparr>ehash = 0, ekey = 0, edata = 0\<rparr>, size_index := n, ht_size := sz,
      ht_rehash := r, max_entries := mx, entries := 0, deleted_entries := 0\<rparr> = as_table dk ?n"
    by (simp add: as_table_def as_entry_def)
  have g: "mesa_hash_table_rehash g alloc (as_table dk s) n =
      (if 31 \<le> n \<or> \<not> alloc sz then Some (as_table dk s) else insert_all g (map as_entry ?es) (as_table dk ?n))"
    by (simp add: mesa_hash_table_rehash_def sz rzalloc_entries_def set_foreach_eq(1) [OF assms] t)
  have sn: "sized ?n" if "\<not> 31 \<le> n"
    using sizes_nonzero [of "unat n"] that by (simp add: sized_def sz word_le_nat_alt)
  have nz: "\<forall>e\<in>set ?es. sekey e \<noteq> 0" using set_foreach_eq(2) [OF assms] by blast
  show "mesa_hash_table_rehash g alloc (as_table dk s) n = Some (as_table dk s') \<and> sized s'"
    if "sim_to dk f g" "set_rehash f dk alloc s n = Some s'"
    using that(2) add_all_to [OF that(1) sn nz] assms by (auto simp: f g split: if_splits)
  show "\<exists>s'. set_rehash f dk alloc s n = Some s' \<and> t = as_table dk s' \<and> sized s'"
    if "sim_from dk f g" "mesa_hash_table_rehash g alloc (as_table dk s) n = Some t"
    using that(2) add_all_from [OF that(1) sn nz] assms by (auto simp: f g split: if_splits)
qed

lemma set_add_to: "sim_to dk (set_add dk alloc) (hash_table_insert alloc)"
proof -
  let ?P = "\<lambda>dk alloc s h k r. sized s \<longrightarrow> k \<noteq> 0 \<longrightarrow>
    hash_table_insert alloc (as_table dk s) h k 0 = Some (map_prod (as_table dk) id r) \<and> sized (fst r)"
  have "?P dk alloc s h k r" if "set_add dk alloc s h k = Some r" for s h k r
  proof (rule set_add.raw_induct [OF _ that, of ?P], intro impI)
    fix f dk alloc s h k r
    assume IH: "\<And>dk alloc s h k r. f dk alloc s h k = Some r \<Longrightarrow> ?P dk alloc s h k r"
      and body: "Option.bind (if s_max_entries s \<le> s_entries s then set_rehash (f dk alloc) dk alloc s (s_size_index s + 1)
            else if s_max_entries s \<le> s_deleted_entries s + s_entries s then set_rehash (f dk alloc) dk alloc s (s_size_index s)
            else Some s) (\<lambda>s. set_add_probe dk s h k) = Some r"
      and s: "sized s" "k \<noteq> 0"
    have sim: "sim_to dk (f dk alloc) (hash_table_insert alloc)" using IH by (fastforce simp: sim_to_def)
    obtain s1 where s1: "(if s_max_entries s \<le> s_entries s then set_rehash (f dk alloc) dk alloc s (s_size_index s + 1)
            else if s_max_entries s \<le> s_deleted_entries s + s_entries s then set_rehash (f dk alloc) dk alloc s (s_size_index s)
            else Some s) = Some s1" "set_add_probe dk s1 h k = Some r"
      using body by (auto simp: bind_eq_Some_conv)
    have r1: "(if max_entries (as_table dk s) \<le> entries (as_table dk s)
        then mesa_hash_table_rehash (hash_table_insert alloc) alloc (as_table dk s) (size_index (as_table dk s) + 1)
        else if max_entries (as_table dk s) \<le> deleted_entries (as_table dk s) + entries (as_table dk s)
        then mesa_hash_table_rehash (hash_table_insert alloc) alloc (as_table dk s) (size_index (as_table dk s))
        else Some (as_table dk s)) = Some (as_table dk s1) \<and> sized s1"
      using s1(1) set_rehash_sim(1) [OF s(1) sim] s(1) by (simp split: if_splits)
    obtain s2 i where r: "r = (s2, i)" by (cases r)
    have "hash_table_insert_probe (as_table dk s1) h k 0 = Some (as_table dk s2, i)" "sized s2"
      using set_add_probe_eq(1) [of s1 dk h k] set_add_probe_eq(2) [of s1 dk h k s2 i] s1(2) r1 r by simp_all
    then show "hash_table_insert alloc (as_table dk s) h k 0 = Some (map_prod (as_table dk) id r) \<and> sized (fst r)"
      using s(2) r1 r by (subst hash_table_insert.simps) simp
  qed
  then show ?thesis by (fastforce simp: sim_to_def)
qed

lemma set_add_from: "sim_from dk (set_add dk alloc) (hash_table_insert alloc)"
proof -
  let ?P = "\<lambda>alloc ht h k d r. \<forall>s. sized s \<longrightarrow> ht = as_table dk s \<longrightarrow> d = 0 \<longrightarrow>
    (\<exists>s'. set_add dk alloc s h k = Some (s', snd r) \<and> fst r = as_table dk s' \<and> sized s')"
  have "?P alloc ht h k d r" if "hash_table_insert alloc ht h k d = Some r" for ht h k d r
  proof (rule hash_table_insert.raw_induct [OF _ that, of ?P], intro allI impI)
    fix f alloc ht h k d r s
    assume IH: "\<And>alloc ht h k d r. f alloc ht h k d = Some r \<Longrightarrow> ?P alloc ht h k d r"
      and body: "(if k = 0 then None else Option.bind
            (if max_entries ht \<le> entries ht then mesa_hash_table_rehash (f alloc) alloc ht (size_index ht + 1)
             else if max_entries ht \<le> deleted_entries ht + entries ht then mesa_hash_table_rehash (f alloc) alloc ht (size_index ht)
             else Some ht) (\<lambda>ht. hash_table_insert_probe ht h k d)) = Some r"
      and s: "sized s" "ht = as_table dk s" "d = 0"
    have sim: "sim_from dk (set_add dk alloc) (f alloc)" using IH by (fastforce simp: sim_from_def)
    obtain t1 where t1: "(if max_entries ht \<le> entries ht then mesa_hash_table_rehash (f alloc) alloc ht (size_index ht + 1)
             else if max_entries ht \<le> deleted_entries ht + entries ht then mesa_hash_table_rehash (f alloc) alloc ht (size_index ht)
             else Some ht) = Some t1" "hash_table_insert_probe t1 h k d = Some r"
      using body by (auto simp: bind_eq_Some_conv split: if_splits)
    have "\<exists>s1. (if s_max_entries s \<le> s_entries s then set_rehash (set_add dk alloc) dk alloc s (s_size_index s + 1)
            else if s_max_entries s \<le> s_deleted_entries s + s_entries s
            then set_rehash (set_add dk alloc) dk alloc s (s_size_index s)
            else Some s) = Some s1 \<and> t1 = as_table dk s1 \<and> sized s1"
      using t1(1) set_rehash_sim(2) [OF s(1) sim] s(1,2) by (auto split: if_splits)
    then obtain s1 where s1: "(if s_max_entries s \<le> s_entries s then set_rehash (set_add dk alloc) dk alloc s (s_size_index s + 1)
            else if s_max_entries s \<le> s_deleted_entries s + s_entries s
            then set_rehash (set_add dk alloc) dk alloc s (s_size_index s)
            else Some s) = Some s1" "t1 = as_table dk s1" "sized s1" by blast
    obtain s2 i where p: "set_add_probe dk s1 h k = Some (s2, i)" "r = (as_table dk s2, i)"
      using set_add_probe_eq(1) [OF s1(3), of dk h k] t1(2) s1(2) s(3) by auto
    have "set_add dk alloc s h k = Some (s2, i)" by (subst set_add.simps) (simp add: s1(1) p(1))
    then show "\<exists>s'. set_add dk alloc s h k = Some (s', snd r) \<and> fst r = as_table dk s' \<and> sized s'"
      using p(2) set_add_probe_eq(2) [OF s1(3) p(1)] by simp
  qed
  then show ?thesis by (fastforce simp: sim_from_def)
qed

text \<open>Addition and insertion are the same function, the one fails to return where the other does.\<close>

lemma set_add_eq:
  assumes "sized s" "k \<noteq> 0"
  shows "hash_table_insert alloc (as_table dk s) h k 0 = map_option (map_prod (as_table dk) id) (set_add dk alloc s h k)"
proof (cases "set_add dk alloc s h k")
  case None
  have "hash_table_insert alloc (as_table dk s) h k 0 = None"
  proof (rule ccontr)
    assume "\<not> ?thesis"
    then obtain t i where "hash_table_insert alloc (as_table dk s) h k 0 = Some (t, i)" by auto
    with set_add_from [of dk alloc] assms None show False unfolding sim_from_def by fastforce
  qed
  then show ?thesis using None by simp
next
  case (Some r)
  then show ?thesis using set_add_to [of dk alloc] assms unfolding sim_to_def by (cases r) fastforce
qed

lemma mesa_set_add_eq:
  assumes "sized s" "k \<noteq> 0"
  shows "mesa_hash_table_insert alloc (as_table dk s) k 0 = map_option (map_prod (as_table dk) id) (mesa_set_add dk alloc s k)"
    and "mesa_set_add dk alloc s k = Some (s', i) \<Longrightarrow> sized s'"
proof -
  show "mesa_hash_table_insert alloc (as_table dk s) k 0 = map_option (map_prod (as_table dk) id) (mesa_set_add dk alloc s k)"
    using assms by (simp add: mesa_hash_table_insert_def mesa_set_add_def set_add_eq split: option.split)
  show "mesa_set_add dk alloc s k = Some (s', i) \<Longrightarrow> sized s'"
    using set_add_to [of dk alloc] assms unfolding sim_to_def mesa_set_add_def by (auto split: option.splits)
qed

lemma mesa_set_remove_eq:
  assumes "sized s" "i < length (s_table s)"
  shows "mesa_hash_table_remove (as_table dk s) (Some i) = as_table dk (mesa_set_remove dk s (Some i))"
    "sized (mesa_set_remove dk s (Some i))"
proof -
  have r: "(as_entry e)\<lparr>ekey := dk\<rparr> = as_entry (e\<lparr>sekey := dk\<rparr>)" for e by (simp add: as_entry_def)
  show "mesa_hash_table_remove (as_table dk s) (Some i) = as_table dk (mesa_set_remove dk s (Some i))"
    using assms by (simp add: mesa_hash_table_remove_def mesa_set_remove_def as_table_def map_update r)
  show "sized (mesa_set_remove dk s (Some i))" using assms by (simp add: mesa_set_remove_def sized_def)
qed

section \<open>Clearing\<close>

text \<open>The loop replaces every present key from its position on by the deleted key.\<close>

definition bury :: "ptr \<Rightarrow> set_entry \<Rightarrow> set_entry" where
  "bury dk e = (if set_entry_is_present dk e then e\<lparr>sekey := dk\<rparr> else e)"

definition bury_from :: "ptr \<Rightarrow> nat \<Rightarrow> set_entry list \<Rightarrow> set_entry list" where
  "bury_from dk n t = take n t @ map (bury dk) (drop n t)"

lemma bury_from_beyond: "length t \<le> n \<Longrightarrow> bury_from dk n t = t"
  by (simp add: bury_from_def)

lemma bury_from_step: "n < length t \<Longrightarrow> bury_from dk n t = bury_from dk (Suc n) (t[n := bury dk (t ! n)])"
  by (simp add: bury_from_def take_Suc_conv_app_nth Cons_nth_drop_Suc [symmetric])

lemma bury_absent: "\<not> set_entry_is_present dk e \<Longrightarrow> bury dk e = e"
  by (simp add: bury_def)

lemma bury_from_skip:
  "\<forall>i. n \<le> i \<and> i < m \<longrightarrow> \<not> set_entry_is_present dk (t ! i) \<Longrightarrow> n \<le> m \<Longrightarrow> m \<le> length t \<Longrightarrow>
    bury_from dk n t = bury_from dk m t"
proof (induction "m - n" arbitrary: n)
  case (Suc d)
  then have n: "n < m" "n < length t" by simp_all
  have "bury_from dk n t = bury_from dk (Suc n) t"
    using bury_from_step [OF n(2), of dk] Suc.prems(1) n(1) by (simp add: bury_absent)
  also have "\<dots> = bury_from dk m t" using Suc n(1) by (intro Suc.hyps(1)) auto
  finally show ?case .
qed simp

definition place_after :: "nat option \<Rightarrow> nat" where
  "place_after e = (case e of None \<Rightarrow> 0 | Some i \<Rightarrow> i + 1)"

lemma next_entry_skip:
  assumes "sized s"
  shows "mesa_set_next_entry dk s e = Some j \<Longrightarrow>
      bury_from dk (place_after e) (s_table s) = bury_from dk j (s_table s) \<and> set_entry_is_present dk (s_table s ! j) \<and>
      j < length (s_table s) \<and> filter (set_entry_is_present dk) (drop (place_after e) (s_table s)) =
      s_table s ! j # filter (set_entry_is_present dk) (drop (Suc j) (s_table s))"
    and "mesa_set_next_entry dk s e = None \<Longrightarrow> bury_from dk (place_after e) (s_table s) = s_table s \<and>
      filter (set_entry_is_present dk) (drop (place_after e) (s_table s)) = []"
proof -
  let ?n = "place_after e" let ?t = "s_table s"
  have len: "length ?t = unat (s_size s)" using assms by (simp add: sized_def)
  have nx: "mesa_set_next_entry dk s e = List.find (\<lambda>i. set_entry_is_present dk (?t ! i)) [?n..<length ?t]"
    by (simp add: mesa_set_next_entry_def place_after_def len)
  have idx: "filter P (drop n ?t) = map ((!) ?t) (filter (\<lambda>i. P (?t ! i)) [n..<length ?t])" for P n
  proof -
    have "drop n ?t = map ((!) ?t) [n..<length ?t]" by (rule nth_equalityI) simp_all
    then show ?thesis by (simp add: filter_map o_def)
  qed
  show "bury_from dk ?n ?t = bury_from dk j ?t \<and> set_entry_is_present dk (?t ! j) \<and> j < length ?t \<and>
      filter (set_entry_is_present dk) (drop ?n ?t) = ?t ! j # filter (set_entry_is_present dk) (drop (Suc j) ?t)"
    if "mesa_set_next_entry dk s e = Some j"
  proof -
    have f: "List.find (\<lambda>i. set_entry_is_present dk (?t ! i)) [?n..<length ?t] = Some j" using that nx by simp
    then obtain m where m: "m < length ?t - ?n" "set_entry_is_present dk (?t ! j)" "j = ?n + m"
      "\<forall>q<m. \<not> set_entry_is_present dk (?t ! (?n + q))" by (auto simp: find_Some_iff)
    have skip: "\<not> set_entry_is_present dk (?t ! i)" if "?n \<le> i" "i < j" for i
      using m(4) [rule_format, of "i - ?n"] m(3) that by simp
    have "bury_from dk ?n ?t = bury_from dk j ?t" using m skip by (intro bury_from_skip) auto
    moreover have "filter (\<lambda>i. set_entry_is_present dk (?t ! i)) [?n..<length ?t] =
      j # filter (\<lambda>i. set_entry_is_present dk (?t ! i)) [Suc j..<length ?t]"
      by (subst filter_upt_find) (simp add: f)
    ultimately show ?thesis using m by (simp add: idx)
  qed
  show "bury_from dk ?n ?t = ?t \<and> filter (set_entry_is_present dk) (drop ?n ?t) = []"
    if "mesa_set_next_entry dk s e = None"
  proof -
    have none: "\<not> set_entry_is_present dk (?t ! i)" if "?n \<le> i" "i < length ?t" for i
      using that \<open>mesa_set_next_entry dk s e = None\<close> by (auto simp: nx find_None_iff)
    then have "filter (set_entry_is_present dk) (drop ?n ?t) = []" by (auto simp: idx filter_empty_conv)
    moreover have "bury_from dk ?n ?t = ?t"
    proof (cases "?n \<le> length ?t")
      case True
      then have "bury_from dk ?n ?t = bury_from dk (length ?t) ?t" using none by (intro bury_from_skip) auto
      then show ?thesis by (simp add: bury_from_beyond)
    qed (simp add: bury_from_beyond)
    ultimately show ?thesis by simp
  qed
qed

lemma set_clear_loop_eq:
  assumes "sized s"
  shows "set_clear_loop dk f s (mesa_set_next_entry dk s e) =
    (s\<lparr>s_table := bury_from dk (place_after e) (s_table s)\<rparr>,
     if f then filter (set_entry_is_present dk) (drop (place_after e) (s_table s)) else [])"
  using assms
proof (induction "length (s_table s) - place_after e" arbitrary: s e rule: less_induct)
  case less
  show ?case
  proof (cases "mesa_set_next_entry dk s e")
    case None
    then show ?thesis using next_entry_skip(2) [OF less.prems None] by (simp add: set_clear_loop.simps)
  next
    case (Some j)
    note sk = next_entry_skip(1) [OF less.prems Some]
    let ?s = "s\<lparr>s_table := (s_table s)[j := (s_table s ! j)\<lparr>sekey := dk\<rparr>]\<rparr>"
    have "place_after e \<le> j" using set_next_entry_bounds [OF Some] by (cases e) (auto simp: place_after_def)
    then have lt: "length (s_table ?s) - place_after (Some j) < length (s_table s) - place_after e"
      using sk by (auto simp: place_after_def)
    have sz: "sized ?s" using less.prems by (simp add: sized_def)
    have "bury_from dk j (s_table s) = bury_from dk (Suc j) (s_table ?s)"
      using sk by (subst bury_from_step) (simp_all add: bury_def)
    then show ?thesis using less.hyps [OF lt sz] sk Some
      by (subst set_clear_loop.simps) (auto simp: place_after_def Let_def)
  qed
qed

lemma mesa_set_clear_eq:
  assumes "sized s"
  shows "mesa_set_clear dk (Some s) f =
    (Some (s\<lparr>s_table := map (bury dk) (s_table s), s_entries := 0, s_deleted_entries := 0\<rparr>),
     if f then filter (set_entry_is_present dk) (s_table s) else [])"
  using set_clear_loop_eq [OF assms, of dk f None] by (simp add: mesa_set_clear_def place_after_def bury_from_def)

section \<open>A set is a bounded map to unit\<close>

definition set_lookup :: "ptr \<Rightarrow> mesa_set \<Rightarrow> ptr \<Rightarrow> unit option" where
  "set_lookup dk s key = (case mesa_set_search dk s key of Some (Some i) \<Rightarrow> Some () | _ \<Rightarrow> None)"

definition set_ins :: "ptr \<Rightarrow> (u32 \<Rightarrow> bool) \<Rightarrow> mesa_set \<Rightarrow> ptr \<Rightarrow> unit \<Rightarrow> mesa_set option" where
  "set_ins dk alloc s key _ = map_option fst (mesa_set_add dk alloc s key)"

definition set_clr :: "ptr \<Rightarrow> mesa_set \<Rightarrow> mesa_set" where
  "set_clr dk s = (case fst (mesa_set_clear dk (Some s) False) of Some s \<Rightarrow> s | None \<Rightarrow> s)"

definition set_srch :: "ptr \<Rightarrow> mesa_set \<Rightarrow> ptr \<Rightarrow> unit option option" where
  "set_srch dk s key = map_option (map_option (\<lambda>_. ())) (mesa_set_search dk s key)"

lemma set_lookup_eq: "sized s \<Longrightarrow> set_lookup dk s k = map_option (\<lambda>_. ()) (ht_lookup (as_table dk s) k)"
  by (auto simp: set_lookup_def ht_lookup_def mesa_set_search_eq split: option.split)

context ptr_table
begin

definition set_live :: "mesa_set \<Rightarrow> bool" where
  "set_live s \<longleftrightarrow> sized s \<and> ok (as_table dk s) \<and> s_key_hash_function s = Some H"

lemma set_live_sized: "set_live s \<Longrightarrow> sized s"
  by (simp add: set_live_def)

lemma set_live_table: "set_live s \<Longrightarrow> ok (as_table dk s) \<and> wf (as_table dk s) \<and> key_hash_function (as_table dk s) = Some H"
  by (simp add: set_live_def ok_def)

lemma set_ins_law:
  assumes "set_live s" "unat (s_entries s) < 65536" "is_key k"
  shows "\<exists>s'. set_ins dk (\<lambda>_. True) s k v = Some s' \<and> set_live s' \<and> unat (s_entries s') \<le> unat (s_entries s) + 1 \<and>
    set_lookup dk s' = (\<lambda>l. if eq l k then Some v else set_lookup dk s l)"
proof -
  have a: "ok (as_table dk s)" "\<And>n. (\<lambda>_. True) n" "unat (entries (as_table dk s)) < 65536" "is_key k"
    "key_hash_function (as_table dk s) = Some H" "sized s"
    using set_live_table [OF assms(1)] set_live_sized [OF assms(1)] assms(2,3) by simp_all
  obtain t i where r: "mesa_hash_table_insert (\<lambda>_. True) (as_table dk s) k 0 = Some (t, Some i)" "ok t"
    "key_hash_function t = Some H" "i < length (ht_table t)" "ht_table t ! i = entry k 0"
    "\<forall>l. ht_lookup t l = (if eq l k then Some 0 else ht_lookup (as_table dk s) l)"
    "unat (entries t) = (if ht_lookup (as_table dk s) k = None then unat (entries (as_table dk s)) + 1
       else unat (entries (as_table dk s)))"
    "tight (as_table dk s) \<longrightarrow> tight t"
    by (rule insert_lookup [where alloc = "\<lambda>_. True" and d = 0, OF a(1-5)])
  have k: "k \<noteq> 0" using assms(3) by (simp add: is_key_def)
  obtain s' where s': "mesa_set_add dk (\<lambda>_. True) s k = Some (s', Some i)" "t = as_table dk s'"
    using trans [OF mesa_set_add_eq(1) [OF a(6) k, of "\<lambda>_. True" dk, symmetric] r(1)] by (auto simp: map_option_eq_Some)
  have "sized s'" by (rule mesa_set_add_eq(2) [OF a(6) k s'(1)])
  then show ?thesis using s' r(2,3,6,7) a(6)
    by (intro exI [of _ s']) (auto simp: set_ins_def set_live_def set_lookup_eq fun_eq_iff)
qed

lemma set_remove_key_eq:
  assumes "set_live s"
  shows "mesa_hash_table_remove_key (as_table dk s) k = map_option (as_table dk) (mesa_set_remove_key dk s k)"
    and "mesa_set_remove_key dk s k = Some s' \<Longrightarrow> sized s' \<and> s_key_hash_function s' = Some H"
proof -
  note sz = set_live_sized [OF assms]
  have w: "wf (as_table dk s)" "s_key_hash_function s = Some H" using assms by (simp_all add: set_live_def ok_def)
  obtain r where r: "mesa_set_search dk s k = Some r" "\<And>i. r = Some i \<Longrightarrow> i < length (s_table s)"
    using search_total [OF w(1), of k] mesa_set_search_eq [OF sz, of dk k] w(2)
    by (auto simp: mesa_hash_table_search_def split: option.splits)
  show "mesa_hash_table_remove_key (as_table dk s) k = map_option (as_table dk) (mesa_set_remove_key dk s k)"
    using r mesa_set_search_eq [OF sz, of dk k] mesa_set_remove_eq(1) [OF sz, of _ dk]
    by (cases r) (simp_all add: mesa_hash_table_remove_key_def mesa_set_remove_key_def mesa_hash_table_remove_def
        mesa_set_remove_def)
  show "sized s' \<and> s_key_hash_function s' = Some H" if "mesa_set_remove_key dk s k = Some s'"
    using that r sz w(2) mesa_set_remove_eq(2) [OF sz, of _ dk]
    by (cases r) (auto simp: mesa_set_remove_key_def mesa_set_remove_def)
qed

lemma set_rem_law:
  assumes "set_live s"
  shows "\<exists>s'. mesa_set_remove_key dk s k = Some s' \<and> set_live s' \<and> unat (s_entries s') \<le> unat (s_entries s) \<and>
    set_lookup dk s' = (\<lambda>l. if eq l k then None else set_lookup dk s l)"
proof -
  have a: "ok (as_table dk s)" "key_hash_function (as_table dk s) = Some H" using set_live_table [OF assms] by simp_all
  obtain t where r: "mesa_hash_table_remove_key (as_table dk s) k = Some t" "ok t" "key_hash_function t = Some H"
    "\<forall>l. ht_lookup t l = (if eq l k then None else ht_lookup (as_table dk s) l)"
    "unat (entries t) = (if ht_lookup (as_table dk s) k = None then unat (entries (as_table dk s))
       else unat (entries (as_table dk s)) - 1)"
    "tight (as_table dk s) \<longrightarrow> tight t"
    by (rule remove_key_lookup [OF a, where k = k])
  obtain s' where s': "mesa_set_remove_key dk s k = Some s'" "t = as_table dk s'"
    using trans [OF set_remove_key_eq(1) [OF assms, of k, symmetric] r(1)] by (auto simp: map_option_eq_Some)
  then show ?thesis using set_remove_key_eq(2) [OF assms s'(1)] r(2,4,5) set_live_sized [OF assms]
    by (intro exI [of _ s']) (auto simp: set_live_def set_lookup_eq fun_eq_iff)
qed

lemma set_clr_law:
  assumes "set_live s"
  shows "set_live (set_clr dk s) \<and> unat (s_entries (set_clr dk s)) = 0 \<and> set_lookup dk (set_clr dk s) = (\<lambda>l. None)"
proof -
  note sz = set_live_sized [OF assms]
  have c: "set_clr dk s = s\<lparr>s_table := map (bury dk) (s_table s), s_entries := 0, s_deleted_entries := 0\<rparr>"
    using mesa_set_clear_eq [OF sz, of dk False] by (simp add: set_clr_def)
  have sh: "shape (as_table dk s)" and idx: "unat (s_size_index s) < 16" and h: "s_key_hash_function s = Some H"
    using assms by (simp_all add: set_live_def ok_def wf_def)
  have sz': "sized (set_clr dk s)" using sz by (simp add: c sized_def)
  have t: "shape (as_table dk (set_clr dk s))" using sh by (simp add: shape_def c)
  have e: "entries (as_table dk (set_clr dk s)) = 0"
    "\<forall>e\<in>set (ht_table (as_table dk (set_clr dk s))). ekey e = 0 \<or> ekey e = dk"
    by (auto simp: c bury_def set_entry_is_present_def)
  note w = wf_no_present [OF t e]
  have kh: "key_hash_function (as_table dk (set_clr dk s)) = Some H" using h by (simp add: c)
  have "set_lookup dk (set_clr dk s) = (\<lambda>l. None)"
    using ht_lookup_holds(2) [OF w(1) kh] w(2) by (simp add: set_lookup_eq [OF sz'] fun_eq_iff)
  moreover have "set_live (set_clr dk s)" using w(1) sz' h idx by (simp add: set_live_def ok_def c)
  ultimately show ?thesis by (simp add: c)
qed

lemma set_srch_law: "set_live s \<Longrightarrow> set_srch dk s k = Some (set_lookup dk s k)"
  using search_of_lookup [of "as_table dk s" k] set_live_table [of s] set_live_sized [of s]
  by (auto simp: set_srch_def set_lookup_def mesa_set_search_eq split: option.splits)

lemma set_create_live:
  assumes "mesa_set_create True (\<lambda>_. True) (Some H) eq = Some s"
  shows "set_live s" "s_entries s = 0" "set_lookup dk s = (\<lambda>k. None)"
proof -
  have "mesa_hash_table_init (\<lambda>_. True) dk (Some H) eq = Some (as_table dk s)" and sz: "sized s" "s_key_hash_function s = Some H"
    using assms by (auto simp: mesa_set_create_def mesa_hash_table_init_def set_hash_sizes_eq hash_sizes_def
        rzalloc_entries_def rzalloc_set_entries_def as_table_def as_entry_def sized_def)
  note i = init_spec [OF this(1)]
  show "set_live s" using i(1) sz by (simp add: live_def set_live_def)
  show "s_entries s = 0" "set_lookup dk s = (\<lambda>k. None)" using i(2,3) by (simp_all add: set_lookup_eq [OF sz(1)] fun_eq_iff)
qed

end

sublocale ptr_table \<subseteq> bs: bounded_map set_live "\<lambda>s. unat (s_entries s)" 65536 is_key eq "set_lookup dk"
  "set_ins dk (\<lambda>_. True)" "mesa_set_remove_key dk" "set_clr dk" "set_srch dk"
  by (unfold_locales, simp_all only: set_ins_law set_rem_law set_clr_law set_srch_law)

context ptr_table
begin

lemma set_run_from_create:
  assumes "mesa_set_create True (\<lambda>_. True) (Some H) eq = Some s"
    and "length (inserted ops) \<le> 65536" "list_all (\<lambda>k. k \<noteq> 0 \<and> k \<noteq> dk) (inserted ops)"
  shows "\<exists>s' rs. run_ops (set_ins dk (\<lambda>_. True)) (mesa_set_remove_key dk) (set_clr dk) (set_srch dk) ops s = Some (s', rs) \<and>
    spec_ops eq ops (\<lambda>_. None) = (set_lookup dk s', rs)"
proof -
  note s = set_create_live [OF assms(1)]
  have "list_all is_key (inserted ops)" using assms(3) by (simp add: is_key_def [abs_def])
  with bs.run_ops_refines [OF s(1), of ops] s(2,3) assms(2) show ?thesis by auto
qed

end

section \<open>Properties\<close>

definition sample_set :: mesa_set where
  "sample_set = \<lparr>s_table = replicate 5 \<lparr>sehash = 0, sekey = 0\<rparr>, s_key_hash_function = Some mesa_hash_pointer,
     s_key_equals_function = mesa_key_pointer_equal, s_size = 5, s_rehash = 3, s_max_entries = 2,
     s_size_index = 0, s_entries = 0, s_deleted_entries = 0\<rparr>"

lemma sample_set_create: "mesa_set_create True (\<lambda>_. True) (Some mesa_hash_pointer) mesa_key_pointer_equal = Some sample_set"
  by (simp add: mesa_set_create_def rzalloc_set_entries_def set_hash_sizes_def sample_set_def)

text \<open>
  C20: adding a key that is not null to a set is inserting it with null data into the hash table with
  the same slots: the same slot is chosen, the same resizes happen, the counters agree, and one call
  returns exactly when the other does.
\<close>

theorem set_add_is_hash_table_insert:
  assumes "length (s_table s) = unat (s_size s)" "s_size s \<noteq> 0" "k \<noteq> 0"
  shows "hash_table_insert alloc (as_table dk s) h k 0 = map_option (\<lambda>(s', i). (as_table dk s', i)) (set_add dk alloc s h k)"
proof -
  have "sized s" using assms by (simp add: sized_def)
  from set_add_eq [OF this assms(3)] show ?thesis by (simp add: map_prod_def)
qed

theorem set_add_is_hash_table_insert_witness:
  "hash_table_insert (\<lambda>_. True) (as_table 1 sample_set) 2 8 0 =
    map_option (\<lambda>(s', i). (as_table 1 s', i)) (set_add 1 (\<lambda>_. True) sample_set 2 8)"
  using set_add_is_hash_table_insert [of sample_set 8 "\<lambda>_. True" 1 2] by (simp add: sample_set_def)

text \<open>
  C7: whatever sequence of additions, removals, clearings and searches is run on a new set, every
  call returns and the searches give what a mathematical set gives, for up to 65536 additions of keys
  that are neither null nor the deleted key. This includes the sets \<^verbatim>\<open>_mesa_set_clear\<close> leaves, whose
  \<open>s_deleted_entries\<close> is not the number of their tombstones.
\<close>

theorem set_refines_map:
  assumes "ptr_table H eq dk" "mesa_set_create True (\<lambda>_. True) (Some H) eq = Some s"
    and "length (inserted ops) \<le> 65536" "list_all (\<lambda>k. k \<noteq> 0 \<and> k \<noteq> dk) (inserted ops)"
  shows "\<exists>s' rs. run_ops (set_ins dk (\<lambda>_. True)) (mesa_set_remove_key dk) (set_clr dk) (set_srch dk) ops s = Some (s', rs) \<and>
    spec_ops eq ops (\<lambda>_. None) = (set_lookup dk s', rs)"
  by (rule ptr_table.set_run_from_create [OF assms])

theorem set_refines_map_witness:
  "\<exists>s' rs. run_ops (set_ins 1 (\<lambda>_. True)) (mesa_set_remove_key 1) (set_clr 1) (set_srch 1)
      [Insert 8 (), Insert 16 (), Clear, Search 8, Insert 8 (), Search 8, Remove 8, Search 8] sample_set = Some (s', rs) \<and>
    rs = [None, Some (), None]"
  using set_refines_map [OF u64_keys.ptr_table_axioms sample_set_create,
      of "[Insert 8 (), Insert 16 (), Clear, Search 8, Insert 8 (), Search 8, Remove 8, Search 8]"]
  by (auto simp: mesa_key_pointer_equal_def)

section \<open>The counter after clearing\<close>

text \<open>
  \<^verbatim>\<open>_mesa_set_clear\<close> leaves tombstones and resets their count; the next addition to one of them makes
  the count wrap.
\<close>

lemma set_add_after_clear:
  assumes "s_deleted_entries s = 0" "set_entry_is_deleted dk (s_table s ! a)"
  shows "s_deleted_entries (fst (set_add_at dk s h k (Inl (Inr (Some a))))) = 0xFFFFFFFF"
  using assms by (simp add: set_add_at_def)

end
