(* ===== verification/Bitset.thy ===== *)
theory Bitset
  imports Bitscan
begin

text \<open>
  \<^verbatim>\<open>src/util/bitset.h\<close>: fixed-size bit sets as arrays of 32-bit words. A \<^verbatim>\<open>BITSET_WORD *\<close> is the
  list of its words. The macros are definitions of the same names; the range macros return
  \<open>None\<close> where their assertion fails. \<^verbatim>\<open>BITSET_FOREACH_SET\<close> is the list of the indices it visits.
  The locale \<open>bitset_ops\<close> states what the users of a bit set rely on and derives the set
  view of the operations; it is interpreted on the macros.
\<close>

type_synonym bitset = "u32 list"

section \<open>Words, single bits and ranges\<close>

definition BITSET_WORDS :: "nat \<Rightarrow> nat" where
  "BITSET_WORDS bits = (bits + 32 - 1) div 32"

definition BITSET_COPY :: "bitset \<Rightarrow> bitset \<Rightarrow> bitset" where
  "BITSET_COPY x y = take (length x) y"

definition BITSET_EQUAL :: "bitset \<Rightarrow> bitset \<Rightarrow> bool" where
  "BITSET_EQUAL x y \<longleftrightarrow> x = take (length x) y"

definition BITSET_ZERO :: "bitset \<Rightarrow> bitset" where
  "BITSET_ZERO x = map (\<lambda>_. 0) x"

definition BITSET_ONES :: "bitset \<Rightarrow> bitset" where
  "BITSET_ONES x = map (\<lambda>_. 0xffffffff) x"

definition BITSET_BITWORD :: "nat \<Rightarrow> nat" where
  "BITSET_BITWORD b = b div 32"

definition BITSET_BIT :: "nat \<Rightarrow> u32" where
  "BITSET_BIT b = push_bit (b mod 32) 1"

definition BITSET_TEST :: "bitset \<Rightarrow> nat \<Rightarrow> bool" where
  "BITSET_TEST x b \<longleftrightarrow> (x ! BITSET_BITWORD b) AND BITSET_BIT b \<noteq> 0"

definition BITSET_SET :: "bitset \<Rightarrow> nat \<Rightarrow> bitset" where
  "BITSET_SET x b = x[BITSET_BITWORD b := (x ! BITSET_BITWORD b) OR BITSET_BIT b]"

definition BITSET_CLEAR :: "bitset \<Rightarrow> nat \<Rightarrow> bitset" where
  "BITSET_CLEAR x b = x[BITSET_BITWORD b := (x ! BITSET_BITWORD b) AND NOT (BITSET_BIT b)]"

definition BITSET_MASK :: "nat \<Rightarrow> u32" where
  "BITSET_MASK b = (if b = 32 then NOT 0 else BITSET_BIT b - 1)"

definition BITSET_RANGE :: "nat \<Rightarrow> nat \<Rightarrow> u32" where
  "BITSET_RANGE b e = BITSET_MASK (e + 1) AND NOT (BITSET_MASK b)"

definition BITSET_TEST_RANGE :: "bitset \<Rightarrow> nat \<Rightarrow> nat \<Rightarrow> bool option" where
  "BITSET_TEST_RANGE x b e =
     (if BITSET_BITWORD b = BITSET_BITWORD e
      then Some ((x ! BITSET_BITWORD b) AND BITSET_RANGE b e \<noteq> 0) else None)"

definition BITSET_SET_RANGE :: "bitset \<Rightarrow> nat \<Rightarrow> nat \<Rightarrow> bitset option" where
  "BITSET_SET_RANGE x b e =
     (if BITSET_BITWORD b = BITSET_BITWORD e
      then Some (x[BITSET_BITWORD b := (x ! BITSET_BITWORD b) OR BITSET_RANGE b e]) else None)"

definition BITSET_CLEAR_RANGE :: "bitset \<Rightarrow> nat \<Rightarrow> nat \<Rightarrow> bitset option" where
  "BITSET_CLEAR_RANGE x b e =
     (if BITSET_BITWORD b = BITSET_BITWORD e
      then Some (x[BITSET_BITWORD b := (x ! BITSET_BITWORD b) AND NOT (BITSET_RANGE b e)]) else None)"

section \<open>Searching\<close>

text \<open>The loop of \<^verbatim>\<open>__bitset_ffs\<close> from word \<open>i\<close> on; \<open>xs\<close> are the words left.\<close>

fun bitset_ffs_loop :: "nat \<Rightarrow> u32 list \<Rightarrow> nat" where
  "bitset_ffs_loop i [] = 0"
| "bitset_ffs_loop i (x # xs) = (if x \<noteq> 0 then ffs x + 32 * i else bitset_ffs_loop (i + 1) xs)"

definition bitset_ffs :: "bitset \<Rightarrow> nat \<Rightarrow> nat" where
  "bitset_ffs x n = bitset_ffs_loop 0 (take n x)"

text \<open>
  \<^verbatim>\<open>__bitset_next_set\<close>: the result and the new value of \<^verbatim>\<open>*tmp\<close>. The \<^verbatim>\<open>while\<close> loop skips empty
  words; it returns \<^verbatim>\<open>size\<close> when the words run out.
\<close>

function bitset_next_set_loop :: "nat \<Rightarrow> u32 \<Rightarrow> bitset \<Rightarrow> nat \<Rightarrow> (nat \<times> u32) option" where
  "bitset_next_set_loop word tmp xs sz =
     (if tmp = 0
      then if word + 1 \<ge> BITSET_WORDS sz then None
           else bitset_next_set_loop (word + 1) (xs ! (word + 1)) xs sz
      else Some (word, tmp))"
  by pat_completeness auto
termination
  by (relation "measure (\<lambda>(word, tmp, xs, sz). BITSET_WORDS sz - word)") auto

declare bitset_next_set_loop.simps [simp del]

definition bitset_next_set :: "nat \<Rightarrow> u32 \<Rightarrow> bitset \<Rightarrow> nat \<Rightarrow> nat \<times> u32" where
  "bitset_next_set i tmp xs sz =
     (case bitset_next_set_loop (BITSET_BITWORD i) tmp xs sz of
        None \<Rightarrow> (sz, 0)
      | Some (word, tmp) \<Rightarrow>
          let b = ffs tmp - 1 in (word * 32 + b, tmp AND NOT (push_bit b 1)))"

text \<open>The indices the \<^verbatim>\<open>for\<close> loop of \<^verbatim>\<open>BITSET_FOREACH_SET\<close> visits, with a bound on their number.\<close>

fun bitset_foreach_loop :: "nat \<Rightarrow> nat \<Rightarrow> u32 \<Rightarrow> bitset \<Rightarrow> nat \<Rightarrow> nat list option" where
  "bitset_foreach_loop 0 i tmp xs sz = None"
| "bitset_foreach_loop (Suc fuel) i tmp xs sz =
     (let (i, tmp) = bitset_next_set i tmp xs sz
      in if i < sz then map_option (Cons i) (bitset_foreach_loop fuel i tmp xs sz) else Some [])"

definition BITSET_FOREACH_SET :: "bitset \<Rightarrow> nat \<Rightarrow> nat list option" where
  "BITSET_FOREACH_SET xs sz = bitset_foreach_loop (Suc sz) 0 (xs ! 0) xs sz"

section \<open>The value type of \<^verbatim>\<open>DECLARE_BITSET_T\<close>\<close>

definition bitset_t_bool :: "bitset \<Rightarrow> bool" where
  "bitset_t_bool x \<longleftrightarrow> (\<exists>w\<in>set x. w \<noteq> 0)"

definition bitset_t_of_int :: "nat \<Rightarrow> u32 \<Rightarrow> bitset" where
  "bitset_t_of_int N x = take (BITSET_WORDS N) (x # replicate (BITSET_WORDS N) 0)"

definition bitset_t_eq :: "bitset \<Rightarrow> bitset \<Rightarrow> bool" where
  "bitset_t_eq b c \<longleftrightarrow> BITSET_EQUAL b c"

definition bitset_t_not :: "bitset \<Rightarrow> bitset" where
  "bitset_t_not b = map NOT b"

definition bitset_t_or :: "bitset \<Rightarrow> bitset \<Rightarrow> bitset" where
  "bitset_t_or b c = map2 (OR) b c"

definition bitset_t_and :: "bitset \<Rightarrow> bitset \<Rightarrow> bitset" where
  "bitset_t_and b c = map2 (AND) b c"

section \<open>Single bits\<close>

definition bitset_ok :: "nat \<Rightarrow> bitset \<Rightarrow> bool" where
  "bitset_ok n x \<longleftrightarrow> length x = BITSET_WORDS n"

lemma BITSET_TEST_iff: "BITSET_TEST x b \<longleftrightarrow> bit (x ! (b div 32)) (b mod 32)"
  by (simp add: BITSET_TEST_def BITSET_BITWORD_def BITSET_BIT_def bit_iff_and_push_bit_not_eq_0)

lemma BITSET_WORDS_word: "b < n \<Longrightarrow> b div 32 < BITSET_WORDS n"
proof -
  assume "b < n"
  then have "b div 32 < Suc ((n - 1) div 32)" by (simp add: div_le_mono less_Suc_eq_le)
  also have "\<dots> = BITSET_WORDS n"
    using \<open>b < n\<close> div_add_self2 [of 32 "n - 1"] by (simp add: BITSET_WORDS_def)
  finally show ?thesis .
qed

lemma BITSET_WORDS_bound: "n \<le> 32 * BITSET_WORDS n"
  unfolding BITSET_WORDS_def by presburger

lemma same_bit_iff: "(c::nat) = b \<longleftrightarrow> c div 32 = b div 32 \<and> c mod 32 = b mod 32"
  by (metis div_mod_decomp)

lemma BITSET_TEST_SET:
  assumes "bitset_ok n x" "b < n"
  shows "BITSET_TEST (BITSET_SET x b) c \<longleftrightarrow> c = b \<or> BITSET_TEST x c"
proof -
  have "b div 32 < length x" using assms BITSET_WORDS_word by (simp add: bitset_ok_def)
  then show ?thesis
    by (cases "c div 32 = b div 32")
      (auto simp: BITSET_TEST_iff BITSET_SET_def BITSET_BITWORD_def BITSET_BIT_def bit_simps same_bit_iff [of c b])
qed

lemma BITSET_TEST_CLEAR:
  assumes "bitset_ok n x" "b < n"
  shows "BITSET_TEST (BITSET_CLEAR x b) c \<longleftrightarrow> c \<noteq> b \<and> BITSET_TEST x c"
proof -
  have "b div 32 < length x" using assms BITSET_WORDS_word by (simp add: bitset_ok_def)
  then show ?thesis
    by (cases "c div 32 = b div 32")
      (auto simp: BITSET_TEST_iff BITSET_CLEAR_def BITSET_BITWORD_def BITSET_BIT_def bit_simps same_bit_iff [of c b])
qed

lemma BITSET_TEST_or:
  assumes "bitset_ok n x" "bitset_ok n y" "c < n"
  shows "BITSET_TEST (bitset_t_or x y) c \<longleftrightarrow> BITSET_TEST x c \<or> BITSET_TEST y c"
  using assms BITSET_WORDS_word [of c n]
  by (simp add: BITSET_TEST_iff bitset_t_or_def bitset_ok_def bit_simps)

lemma BITSET_TEST_and:
  assumes "bitset_ok n x" "bitset_ok n y" "c < n"
  shows "BITSET_TEST (bitset_t_and x y) c \<longleftrightarrow> BITSET_TEST x c \<and> BITSET_TEST y c"
  using assms BITSET_WORDS_word [of c n]
  by (simp add: BITSET_TEST_iff bitset_t_and_def bitset_ok_def bit_simps)

lemma BITSET_TEST_not:
  assumes "bitset_ok n x" "c < n"
  shows "BITSET_TEST (bitset_t_not x) c \<longleftrightarrow> \<not> BITSET_TEST x c"
  using assms BITSET_WORDS_word [of c n]
  by (simp add: BITSET_TEST_iff bitset_t_not_def bitset_ok_def bit_simps)

lemma BITSET_TEST_replicate_0 [simp]:
  "c < n \<Longrightarrow> \<not> BITSET_TEST (replicate (BITSET_WORDS n) 0) c"
  by (simp add: BITSET_TEST_iff BITSET_WORDS_word)

lemma bitset_ok_simps [simp]:
  "bitset_ok n (BITSET_SET x b) \<longleftrightarrow> bitset_ok n x"
  "bitset_ok n (BITSET_CLEAR x b) \<longleftrightarrow> bitset_ok n x"
  "bitset_ok n (bitset_t_not x) \<longleftrightarrow> bitset_ok n x"
  "bitset_ok n (replicate (BITSET_WORDS n) w)"
  "bitset_ok n x \<Longrightarrow> bitset_ok n y \<Longrightarrow> bitset_ok n (bitset_t_or x y)"
  "bitset_ok n x \<Longrightarrow> bitset_ok n y \<Longrightarrow> bitset_ok n (bitset_t_and x y)"
  by (auto simp: bitset_ok_def BITSET_SET_def BITSET_CLEAR_def bitset_t_not_def bitset_t_or_def bitset_t_and_def)

section \<open>The interface of a bit set\<close>

locale bitset_ops =
  fixes ok :: "nat \<Rightarrow> 'b \<Rightarrow> bool"
    and zero :: "nat \<Rightarrow> 'b"
    and tst :: "'b \<Rightarrow> nat \<Rightarrow> bool"
    and add :: "'b \<Rightarrow> nat \<Rightarrow> 'b"
    and del :: "'b \<Rightarrow> nat \<Rightarrow> 'b"
    and union :: "'b \<Rightarrow> 'b \<Rightarrow> 'b"
    and inter :: "'b \<Rightarrow> 'b \<Rightarrow> 'b"
    and compl :: "'b \<Rightarrow> 'b"
  assumes ok_zero: "ok n (zero n)"
    and ok_add: "ok n x \<Longrightarrow> b < n \<Longrightarrow> ok n (add x b)"
    and ok_del: "ok n x \<Longrightarrow> b < n \<Longrightarrow> ok n (del x b)"
    and ok_union: "ok n x \<Longrightarrow> ok n y \<Longrightarrow> ok n (union x y)"
    and ok_inter: "ok n x \<Longrightarrow> ok n y \<Longrightarrow> ok n (inter x y)"
    and ok_compl: "ok n x \<Longrightarrow> ok n (compl x)"
    and tst_zero: "c < n \<Longrightarrow> \<not> tst (zero n) c"
    and tst_add: "ok n x \<Longrightarrow> b < n \<Longrightarrow> c < n \<Longrightarrow> tst (add x b) c \<longleftrightarrow> c = b \<or> tst x c"
    and tst_del: "ok n x \<Longrightarrow> b < n \<Longrightarrow> c < n \<Longrightarrow> tst (del x b) c \<longleftrightarrow> c \<noteq> b \<and> tst x c"
    and tst_union: "ok n x \<Longrightarrow> ok n y \<Longrightarrow> c < n \<Longrightarrow> tst (union x y) c \<longleftrightarrow> tst x c \<or> tst y c"
    and tst_inter: "ok n x \<Longrightarrow> ok n y \<Longrightarrow> c < n \<Longrightarrow> tst (inter x y) c \<longleftrightarrow> tst x c \<and> tst y c"
    and tst_compl: "ok n x \<Longrightarrow> c < n \<Longrightarrow> tst (compl x) c \<longleftrightarrow> \<not> tst x c"
begin

text \<open>The set a bit set of \<open>n\<close> bits stands for.\<close>

definition elems :: "nat \<Rightarrow> 'b \<Rightarrow> nat set" where
  "elems n x = {b. b < n \<and> tst x b}"

lemma elems_bound: "elems n x \<subseteq> {..<n}"
  by (auto simp: elems_def)

lemma finite_elems [simp]: "finite (elems n x)"
  by (rule finite_subset [OF elems_bound]) simp

lemma elems_zero: "elems n (zero n) = {}"
  by (auto simp: elems_def tst_zero)

lemma elems_add: "ok n x \<Longrightarrow> b < n \<Longrightarrow> elems n (add x b) = insert b (elems n x)"
  by (auto simp: elems_def tst_add)

lemma elems_del: "ok n x \<Longrightarrow> b < n \<Longrightarrow> elems n (del x b) = elems n x - {b}"
  by (auto simp: elems_def tst_del)

lemma elems_union: "ok n x \<Longrightarrow> ok n y \<Longrightarrow> elems n (union x y) = elems n x \<union> elems n y"
  by (auto simp: elems_def tst_union)

lemma elems_diff: "ok n x \<Longrightarrow> ok n y \<Longrightarrow> elems n (inter x (compl y)) = elems n x - elems n y"
  by (auto simp: elems_def tst_inter tst_compl ok_compl)

text \<open>Removing the members of a family of sets one after the other.\<close>

lemma elems_fold_diff:
  assumes "ok n x" "\<And>y. y \<in> set ys \<Longrightarrow> ok n y"
  shows "ok n (fold (\<lambda>y x. inter x (compl y)) ys x)"
    and "elems n (fold (\<lambda>y x. inter x (compl y)) ys x) = elems n x - \<Union> (elems n ` set ys)"
proof -
  have "ok n (fold (\<lambda>y x. inter x (compl y)) ys x) \<and>
    elems n (fold (\<lambda>y x. inter x (compl y)) ys x) = elems n x - \<Union> (elems n ` set ys)"
    using assms
    by (induction ys arbitrary: x) (auto simp: ok_inter ok_compl elems_diff)
  then show "ok n (fold (\<lambda>y x. inter x (compl y)) ys x)"
    "elems n (fold (\<lambda>y x. inter x (compl y)) ys x) = elems n x - \<Union> (elems n ` set ys)"
    by auto
qed

end

interpretation bs: bitset_ops bitset_ok "\<lambda>n. replicate (BITSET_WORDS n) 0" BITSET_TEST BITSET_SET
  BITSET_CLEAR bitset_t_or bitset_t_and bitset_t_not
  by unfold_locales
    (simp_all add: BITSET_TEST_SET BITSET_TEST_CLEAR BITSET_TEST_or BITSET_TEST_and BITSET_TEST_not)

section \<open>Searching and iterating\<close>

text \<open>What is left to visit: the bits of \<open>tmp\<close> in the current word, then all later words.\<close>

definition bits_left :: "nat \<Rightarrow> u32 \<Rightarrow> bitset \<Rightarrow> nat \<Rightarrow> nat list" where
  "bits_left word tmp xs n =
     map (\<lambda>k. word * 32 + k) (set_bit_list tmp) @ filter (BITSET_TEST xs) [(word + 1) * 32..<n * 32]"

lemma bits_of_word:
  "map (\<lambda>k. w * 32 + k) (set_bit_list (xs ! w)) = filter (BITSET_TEST xs) [w * 32..<(w + 1) * 32]"
proof -
  have "[w * 32..<(w + 1) * 32] = map (\<lambda>k. w * 32 + k) [0..<32]"
    using map_add_upt [of "w * 32" 32] by (simp add: add.commute)
  moreover have "filter (BITSET_TEST xs \<circ> (\<lambda>k. w * 32 + k)) [0..<32] = filter (bit (xs ! w)) [0..<32]"
    by (rule filter_cong) (auto simp: BITSET_TEST_iff)
  ultimately show ?thesis by (simp add: filter_map set_bit_list_def)
qed

lemma bits_left_next_word:
  assumes "word + 1 < n"
  shows "bits_left (word + 1) (xs ! (word + 1)) xs n = filter (BITSET_TEST xs) [(word + 1) * 32..<n * 32]"
proof -
  have "[(word + 1) * 32..<n * 32] = [(word + 1) * 32..<(word + 2) * 32] @ [(word + 2) * 32..<n * 32]"
    using assms upt_add_eq_append [of "(word + 1) * 32" "(word + 2) * 32" "n * 32 - (word + 2) * 32"] by simp
  then show ?thesis
    using bits_of_word [of "word + 1" xs] by (simp add: bits_left_def)
qed

lemma bitset_next_set_loop_spec:
  "case bitset_next_set_loop word tmp xs sz of
     None \<Rightarrow> bits_left word tmp xs (BITSET_WORDS sz) = []
   | Some (word', tmp') \<Rightarrow> tmp' \<noteq> 0 \<and>
       bits_left word' tmp' xs (BITSET_WORDS sz) = bits_left word tmp xs (BITSET_WORDS sz)"
proof (induction word tmp xs sz rule: bitset_next_set_loop.induct)
  case (1 word tmp xs sz)
  let ?n = "BITSET_WORDS sz"
  consider "tmp \<noteq> 0" | "tmp = 0" "word + 1 \<ge> ?n" | "tmp = 0" "word + 1 < ?n" by linarith
  then show ?case
  proof cases
    case 1
    then show ?thesis by (simp add: bitset_next_set_loop.simps)
  next
    case 2
    then have "?n * 32 \<le> (word + 1) * 32" by (simp del: add_mult_distrib)
    with 2 show ?thesis by (simp add: bitset_next_set_loop.simps bits_left_def)
  next
    case 3
    then have left: "bits_left word tmp xs ?n = bits_left (word + 1) (xs ! (word + 1)) xs ?n"
      by (simp only: bits_left_next_word) (simp add: bits_left_def)
    have loop: "bitset_next_set_loop word tmp xs sz =
        bitset_next_set_loop (word + 1) (xs ! (word + 1)) xs sz"
      using 3 by (subst bitset_next_set_loop.simps) simp
    show ?thesis unfolding left loop by (rule "1.IH") (use 3 in simp_all)
  qed
qed

lemma bit_and_not_lowest:
  assumes "lowest_bit w p"
  shows "bit (w AND NOT (push_bit p 1)) k \<longleftrightarrow> bit w k \<and> k \<noteq> p"
  using assms lowest_bit_bound [OF assms] by (auto simp: bit_simps dest: bit_imp_le_length)

lemma bits_left_lowest:
  assumes "lowest_bit tmp p"
  shows "bits_left word tmp xs n = (word * 32 + p) # bits_left word (tmp AND NOT (push_bit p 1)) xs n"
  using set_bit_list_lowest [OF assms bit_and_not_lowest [OF assms]] by (simp add: bits_left_def)

lemma bitset_next_set_spec:
  assumes "bitset_next_set i tmp xs sz = (j, tmp')"
  shows "(bits_left (i div 32) tmp xs (BITSET_WORDS sz) = [] \<and> j = sz) \<or>
    bits_left (i div 32) tmp xs (BITSET_WORDS sz) = j # bits_left (j div 32) tmp' xs (BITSET_WORDS sz)"
proof (cases "bitset_next_set_loop (i div 32) tmp xs sz")
  case None
  with assms bitset_next_set_loop_spec [of "i div 32" tmp xs sz] show ?thesis
    by (simp add: bitset_next_set_def BITSET_BITWORD_def)
next
  case (Some r)
  then obtain word t where r: "bitset_next_set_loop (i div 32) tmp xs sz = Some (word, t)" by (cases r) simp
  with bitset_next_set_loop_spec [of "i div 32" tmp xs sz]
  have t: "t \<noteq> 0" "bits_left word t xs (BITSET_WORDS sz) = bits_left (i div 32) tmp xs (BITSET_WORDS sz)"
    by simp_all
  then obtain p where p: "lowest_bit t p" using lowest_bit_exists by blast
  then have "j = word * 32 + p" "tmp' = t AND NOT (push_bit p 1)"
    using assms r by (simp_all add: bitset_next_set_def BITSET_BITWORD_def ffs_lowest_bit)
  moreover have "(word * 32 + p) div 32 = word" using lowest_bit_bound [OF p] by simp
  ultimately show ?thesis using t(2) bits_left_lowest [OF p] by simp
qed

lemma bitset_foreach_loop_spec:
  "length (takeWhile (\<lambda>i. i < sz) (bits_left (i div 32) tmp xs (BITSET_WORDS sz))) < fuel \<Longrightarrow>
   bitset_foreach_loop fuel i tmp xs sz =
     Some (takeWhile (\<lambda>i. i < sz) (bits_left (i div 32) tmp xs (BITSET_WORDS sz)))"
proof (induction fuel arbitrary: i tmp)
  case (Suc fuel)
  obtain j tmp' where j: "bitset_next_set i tmp xs sz = (j, tmp')" by fastforce
  from bitset_next_set_spec [OF j] Suc show ?case
    by (cases "j < sz") (auto simp: j)
qed simp

lemma takeWhile_less_filter_upt:
  assumes "n \<le> m"
  shows "takeWhile (\<lambda>i. i < n) (filter P [0..<m]) = filter P [0..<n]"
proof -
  have "filter P [0..<m] = filter P [0..<n] @ filter P [n..<m]"
    using assms upt_add_eq_append [of 0 n "m - n"] by simp
  moreover have "takeWhile (\<lambda>i. i < n) (filter P [0..<n] @ filter P [n..<m]) =
      filter P [0..<n] @ takeWhile (\<lambda>i. i < n) (filter P [n..<m])"
    by (rule takeWhile_append2) auto
  moreover have "takeWhile (\<lambda>i. i < n) (filter P [n..<m]) = []"
    by (induction m) (auto simp: takeWhile_append)
  ultimately show ?thesis by (simp only: append_Nil2)
qed

text \<open>\<^verbatim>\<open>BITSET_FOREACH_SET\<close> visits the members below the size once each, in increasing order.\<close>

lemma BITSET_FOREACH_SET_eq:
  assumes "0 < sz"
  shows "BITSET_FOREACH_SET xs sz = Some (filter (BITSET_TEST xs) [0..<sz])"
proof -
  let ?n = "BITSET_WORDS sz"
  have n: "0 < ?n" "sz \<le> ?n * 32"
    using assms BITSET_WORDS_word [of 0 sz] BITSET_WORDS_bound [of sz] by auto
  have "bits_left 0 (xs ! 0) xs ?n = filter (BITSET_TEST xs) [0..<?n * 32]"
    using bits_of_word [of 0 xs] upt_add_eq_append [of 0 32 "?n * 32 - 32"] n
    by (simp add: bits_left_def flip: filter_append)
  then have all: "takeWhile (\<lambda>i. i < sz) (bits_left (0 div 32) (xs ! 0) xs ?n) = filter (BITSET_TEST xs) [0..<sz]"
    using takeWhile_less_filter_upt [OF n(2)] by simp
  have "length (filter (BITSET_TEST xs) [0..<sz]) < Suc sz"
    using length_filter_le [of "BITSET_TEST xs" "[0..<sz]"] by simp
  then have "bitset_foreach_loop (Suc sz) 0 (xs ! 0) xs sz =
      Some (takeWhile (\<lambda>i. i < sz) (bits_left (0 div 32) (xs ! 0) xs ?n))"
    by (intro bitset_foreach_loop_spec) (simp only: all)
  then show ?thesis unfolding BITSET_FOREACH_SET_def all .
qed

lemma bitset_ffs_loop_spec:
  "(bitset_ffs_loop i xs = 0 \<and> (\<forall>w\<in>set xs. w = 0)) \<or>
   (\<exists>j p. bitset_ffs_loop i xs = Suc (32 * (i + j) + p) \<and> j < length xs \<and>
      lowest_bit (xs ! j) p \<and> (\<forall>k<j. xs ! k = 0))"
proof (induction xs arbitrary: i)
  case (Cons x xs)
  show ?case
  proof (cases "x = 0")
    case True
    from Cons.IH [of "i + 1"] show ?thesis
    proof (elim disjE exE conjE)
      fix j p
      assume 2: "bitset_ffs_loop (i + 1) xs = Suc (32 * (i + 1 + j) + p)" "j < length xs"
        "lowest_bit (xs ! j) p" "\<forall>k<j. xs ! k = 0"
      have "(x # xs) ! k = 0" if "k < Suc j" for k
        using that True 2(4) by (cases k) auto
      with 2 True show ?thesis
        by (intro disjI2 exI [of _ "Suc j"] exI [of _ p]) simp
    qed (use True in simp)
  next
    case False
    then obtain p where "lowest_bit x p" using lowest_bit_exists by blast
    with False show ?thesis
      by (intro disjI2 exI [of _ 0] exI [of _ p]) (simp add: ffs_lowest_bit)
  qed
qed simp

lemma BITSET_TEST_below:
  assumes "\<forall>k<j. xs ! k = 0" "lowest_bit (xs ! j) p" "b < 32 * j + p"
  shows "\<not> BITSET_TEST xs b"
proof (cases "b div 32 < j")
  case False
  with assms(3) lowest_bit_bound [OF assms(2)] have "b div 32 = j"
    by (intro div_nat_eqI) auto
  moreover from this assms(3) have "b mod 32 < p" by (metis add_less_cancel_left mult_div_mod_eq)
  ultimately show ?thesis using assms(2) by (simp add: BITSET_TEST_iff lowest_bit_def)
qed (use assms(1) in \<open>simp add: BITSET_TEST_iff\<close>)

text \<open>\<^verbatim>\<open>__bitset_ffs\<close>: one plus the least member, or 0 for the empty set.\<close>

lemma bitset_ffs_Suc:
  assumes "bitset_ffs x n = Suc b" "n \<le> length x"
  shows "BITSET_TEST x b" "b < 32 * n" "c < b \<Longrightarrow> \<not> BITSET_TEST x c"
proof -
  from assms(1) bitset_ffs_loop_spec [of 0 "take n x"] obtain j p where
    j: "b = 32 * j + p" "j < n" "lowest_bit (x ! j) p" "\<forall>k<j. x ! k = 0"
    using assms(2) by (auto simp: bitset_ffs_def)
  moreover have "p < 32" using lowest_bit_bound [OF j(3)] by simp
  ultimately show "BITSET_TEST x b" "b < 32 * n"
    by (simp_all add: BITSET_TEST_iff lowest_bit_def)
  show "c < b \<Longrightarrow> \<not> BITSET_TEST x c"
    using BITSET_TEST_below [OF j(4,3)] j(1) by simp
qed

lemma bitset_ffs_0:
  assumes "bitset_ffs x n = 0" "n \<le> length x" "b < 32 * n"
  shows "\<not> BITSET_TEST x b"
proof -
  have "b div 32 < n" using assms(3) by (simp add: div_less_iff_less_mult mult.commute)
  moreover have "\<forall>w\<in>set (take n x). w = 0"
    using assms(1) bitset_ffs_loop_spec [of 0 "take n x"] by (auto simp: bitset_ffs_def)
  ultimately have "x ! (b div 32) = 0"
    using assms(2) nth_mem [of "b div 32" "take n x"] by simp
  then show ?thesis by (simp add: BITSET_TEST_iff)
qed

section \<open>Ranges of bits\<close>

lemma BITSET_MASK_bit:
  assumes "b mod 32 \<noteq> 0 \<or> b = 32 \<or> b = 0" "k < 32"
  shows "bit (BITSET_MASK b) k \<longleftrightarrow> k < (if b = 32 then 32 else b mod 32)"
  using assms by (auto simp: BITSET_MASK_def BITSET_BIT_def bit_simps simp flip: mask_eq_exp_minus_1)

text \<open>
  The range macros do what they say for a range inside one word that neither starts at
  bit 32 nor ends at the last bit of a word other than the first.
\<close>

lemma BITSET_RANGE_bit:
  assumes "b div 32 = e div 32" "b \<le> e" "b \<noteq> 32" "e = 31 \<or> e mod 32 \<noteq> 31" "k < 32"
  shows "bit (BITSET_RANGE b e) k \<longleftrightarrow> b mod 32 \<le> k \<and> k \<le> e mod 32"
proof -
  have hi: "bit (BITSET_MASK (e + 1)) k \<longleftrightarrow> k \<le> e mod 32"
  proof (cases "e = 31")
    case False
    with assms(4) have "(e + 1) mod 32 = e mod 32 + 1" by (simp add: mod_Suc)
    moreover from this have "e + 1 \<noteq> 32" by auto
    ultimately show ?thesis using BITSET_MASK_bit [of "e + 1" k] assms(5) by auto
  qed (use BITSET_MASK_bit [of 32 k] assms(5) in simp)
  have lo: "bit (BITSET_MASK b) k \<longleftrightarrow> k < b mod 32"
  proof (cases "b mod 32 = 0")
    case True
    then have "BITSET_MASK b = 0" using assms(3) by (simp add: BITSET_MASK_def BITSET_BIT_def)
    with True show ?thesis by simp
  qed (use BITSET_MASK_bit [of b k] assms(3,5) in auto)
  show ?thesis using hi lo assms(5) by (auto simp: BITSET_RANGE_def bit_simps)
qed

lemma BITSET_SET_RANGE_test:
  assumes "BITSET_SET_RANGE x b e = Some y" "bitset_ok n x" "e < n" "b \<le> e" "b \<noteq> 32"
    "e = 31 \<or> e mod 32 \<noteq> 31"
  shows "BITSET_TEST y c \<longleftrightarrow> (b \<le> c \<and> c \<le> e) \<or> BITSET_TEST x c"
proof -
  have word: "b div 32 = e div 32" and y: "y = x[b div 32 := (x ! (b div 32)) OR BITSET_RANGE b e]"
    using assms(1) by (auto simp: BITSET_SET_RANGE_def BITSET_BITWORD_def split: if_splits)
  have len: "e div 32 < length x" using assms(2,3) BITSET_WORDS_word by (simp add: bitset_ok_def)
  have b: "b = 32 * (e div 32) + b mod 32" using word by (metis mult_div_mod_eq)
  have e: "e = 32 * (e div 32) + e mod 32" by simp
  show ?thesis
  proof (cases "c div 32 = e div 32")
    case True
    then have c: "c = 32 * (e div 32) + c mod 32" by (metis mult_div_mod_eq)
    have "(b \<le> c \<and> c \<le> e) \<longleftrightarrow> b mod 32 \<le> c mod 32 \<and> c mod 32 \<le> e mod 32"
      using b c e by linarith
    with True word len show ?thesis
      using BITSET_RANGE_bit [OF word assms(4,5,6), of "c mod 32"] by (auto simp: BITSET_TEST_iff y bit_simps)
  next
    case False
    then have "\<not> (b \<le> c \<and> c \<le> e)" using word by (metis div_le_mono order_antisym)
    moreover have "BITSET_TEST y c \<longleftrightarrow> BITSET_TEST x c"
      using False word by (simp add: BITSET_TEST_iff y)
    ultimately show ?thesis by blast
  qed
qed

text \<open>In the excluded cases the range is empty: the macros then do nothing.\<close>

lemma BITSET_RANGE_from_32: "BITSET_RANGE 32 e = 0"
  by (simp add: BITSET_RANGE_def BITSET_MASK_def)

lemma BITSET_RANGE_to_end:
  assumes "e mod 32 = 31" "e \<noteq> 31"
  shows "BITSET_RANGE b e = 0"
proof -
  have "(e + 1) mod 32 = 0" using assms(1) by (simp add: mod_Suc)
  with assms(2) show ?thesis by (simp add: BITSET_RANGE_def BITSET_MASK_def BITSET_BIT_def)
qed

section \<open>Properties\<close>

text \<open>
  C29: \<^verbatim>\<open>BITSET_FOREACH_SET\<close> ends and visits exactly the members below the given size, each once
  and in increasing order, whatever the words hold above it.
\<close>

theorem BITSET_FOREACH_SET_correct:
  assumes "0 < sz"
  shows "BITSET_FOREACH_SET xs sz = Some (filter (BITSET_TEST xs) [0..<sz])"
  by (rule BITSET_FOREACH_SET_eq [OF assms])

theorem BITSET_FOREACH_SET_correct_witness:
  "BITSET_FOREACH_SET [5, 3] 40 = Some [0, 2, 32, 33]"
proof -
  have "filter (BITSET_TEST [5, 3]) [0..<40] = [0, 2, 32, 33]" by code_simp
  with BITSET_FOREACH_SET_correct [of 40 "[5, 3]"] show ?thesis by simp
qed

text \<open>
  C30: \<^verbatim>\<open>BITSET_SET_RANGE\<close> adds exactly the bits of its inclusive range when the range stays in a
  word, does not start at bit 32, and does not end at the last bit of a word other than the
  first. In the two excluded cases the range mask is empty and the macro leaves the set as it is.
\<close>

theorem BITSET_SET_RANGE_correct:
  assumes "BITSET_SET_RANGE x b e = Some y" "bitset_ok n x" "e < n" "b \<le> e"
  shows "if b \<noteq> 32 \<and> (e = 31 \<or> e mod 32 \<noteq> 31)
    then \<forall>c. BITSET_TEST y c = (b \<le> c \<and> c \<le> e \<or> BITSET_TEST x c) else y = x"
proof (cases "b \<noteq> 32 \<and> (e = 31 \<or> e mod 32 \<noteq> 31)")
  case True
  then show ?thesis using BITSET_SET_RANGE_test [OF assms] by auto
next
  case False
  then have "BITSET_RANGE b e = 0" using BITSET_RANGE_from_32 BITSET_RANGE_to_end by blast
  with False assms(1) show ?thesis by (auto simp: BITSET_SET_RANGE_def split: if_splits)
qed

theorem BITSET_SET_RANGE_correct_witness:
  "BITSET_SET_RANGE [0, 0] 33 40 = Some [0, 0x1fe] \<and>
   (\<forall>c. BITSET_TEST [0, 0x1fe] c = (33 \<le> c \<and> c \<le> 40 \<or> BITSET_TEST [0, 0] c)) \<and>
   BITSET_SET_RANGE [0, 0] 32 40 = Some [0, 0]"
proof -
  have run: "BITSET_SET_RANGE [0, 0] 33 40 = Some [0, 0x1fe]" "BITSET_SET_RANGE [0, 0] 32 40 = Some [0, 0]"
    by code_simp+
  have ok: "bitset_ok 64 [0, 0]" by (simp add: bitset_ok_def BITSET_WORDS_def)
  from BITSET_SET_RANGE_correct [OF run(1) ok] run show ?thesis by simp
qed

end
