(* ===== verification/Register_Allocate.thy ===== *)
theory Register_Allocate
  imports Bitset "HOL-Library.Monad_Syntax"
begin

text \<open>
  \<^verbatim>\<open>src/util/register_allocate.c\<close>, the graph-colouring register allocator of Runeson and Nystroem. The
  register set with its conflicts and classes, the interference graph, simplification and selection
  are modelled as the file has them.

  Registers, nodes and classes are array indices, so they are natural numbers; \<^verbatim>\<open>NO_REG\<close> is \<open>None\<close>. The
  sums \<open>q_total\<close>, \<open>p\<close> and \<open>q\<close> are 32-bit words. Of an array that grows only the written prefix is kept,
  next to the size the code keeps for it. \<open>None\<close> as a result of an operation stands for a failed
  assertion, a null pointer that is followed or a read outside an array. Allocations are taken to
  succeed, as the code does. Spill costs are floating-point numbers and are left out, with the
  choice of a node to spill.
\<close>

section \<open>Registers and classes\<close>

record ra_reg =
  conflicts :: bitset
  conflict_list :: "nat list option"
  conflict_list_size :: nat
  num_conflicts :: nat

record ra_class =
  class_regs :: bitset
  ra_p :: u32
  ra_q :: "u32 list"

record ra_regs =
  regs :: "ra_reg list"
  regs_count :: nat
  classes :: "ra_class list"
  class_count :: nat
  round_robin :: bool

definition ra_alloc_reg_set :: "nat \<Rightarrow> bool \<Rightarrow> ra_regs" where
  "ra_alloc_reg_set count need_conflict_lists =
     \<lparr>regs = map (\<lambda>i.
         \<lparr>conflicts = BITSET_SET (replicate (BITSET_WORDS count) 0) i,
          conflict_list = (if need_conflict_lists then Some [i] else None),
          conflict_list_size = (if need_conflict_lists then 4 else 0),
          num_conflicts = 1\<rparr>) [0..<count],
      regs_count = count, classes = [], class_count = 0, round_robin = False\<rparr>"

definition ra_set_allocate_round_robin :: "ra_regs \<Rightarrow> ra_regs" where
  "ra_set_allocate_round_robin rs = rs\<lparr>round_robin := True\<rparr>"

definition ra_add_conflict_list :: "ra_regs \<Rightarrow> nat \<Rightarrow> nat \<Rightarrow> ra_regs" where
  "ra_add_conflict_list rs r1 r2 =
     (let reg1 = regs rs ! r1;
          reg1 = (case conflict_list reg1 of
                    None \<Rightarrow> reg1
                  | Some l \<Rightarrow>
                      reg1\<lparr>conflict_list_size := (if conflict_list_size reg1 = num_conflicts reg1
                                                 then conflict_list_size reg1 * 2 else conflict_list_size reg1),
                           conflict_list := Some (take (num_conflicts reg1) l @ [r2]),
                           num_conflicts := num_conflicts reg1 + 1\<rparr>);
          reg1 = reg1\<lparr>conflicts := BITSET_SET (conflicts reg1) r2\<rparr>
      in rs\<lparr>regs := (regs rs)[r1 := reg1]\<rparr>)"

definition ra_add_reg_conflict :: "ra_regs \<Rightarrow> nat \<Rightarrow> nat \<Rightarrow> ra_regs" where
  "ra_add_reg_conflict rs r1 r2 =
     (if \<not> BITSET_TEST (conflicts (regs rs ! r1)) r2
      then ra_add_conflict_list (ra_add_conflict_list rs r1 r2) r2 r1 else rs)"

text \<open>The loop reads the list and its length anew in every round.\<close>

partial_function (option) transitive_loop :: "ra_regs \<Rightarrow> nat \<Rightarrow> nat \<Rightarrow> nat \<Rightarrow> ra_regs option" where
  "transitive_loop rs base_reg reg i =
     (if i < num_conflicts (regs rs ! base_reg) then
        (case conflict_list (regs rs ! base_reg) of
           None \<Rightarrow> None
         | Some l \<Rightarrow> transitive_loop (ra_add_reg_conflict rs reg (l ! i)) base_reg reg (i + 1))
      else Some rs)"

definition ra_add_transitive_reg_conflict :: "ra_regs \<Rightarrow> nat \<Rightarrow> nat \<Rightarrow> ra_regs option" where
  "ra_add_transitive_reg_conflict rs base_reg reg =
     transitive_loop (ra_add_reg_conflict rs reg base_reg) base_reg reg 0"

text \<open>
  \<^verbatim>\<open>BITSET_FOREACH_SET\<close> keeps the current word and reads the next words from the bit set, which the
  body may change: register \<open>r\<close> conflicts with itself, and or-ing a set into itself changes nothing.
\<close>

definition or_conflicts :: "ra_regs \<Rightarrow> nat \<Rightarrow> nat \<Rightarrow> ra_regs" where
  "or_conflicts rs r c =
     rs\<lparr>regs := (regs rs)[c := (regs rs ! c)\<lparr>conflicts :=
       bitset_t_or (conflicts (regs rs ! c)) (conflicts (regs rs ! r))\<rparr>]\<rparr>"

definition ra_make_reg_conflicts_transitive :: "ra_regs \<Rightarrow> nat \<Rightarrow> ra_regs option" where
  "ra_make_reg_conflicts_transitive rs r = do {
     cs \<leftarrow> BITSET_FOREACH_SET (conflicts (regs rs ! r)) (regs_count rs);
     Some (foldl (\<lambda>rs c. or_conflicts rs r c) rs cs)
   }"

definition ra_alloc_reg_class :: "ra_regs \<Rightarrow> ra_regs \<times> nat" where
  "ra_alloc_reg_class rs =
     (rs\<lparr>classes := classes rs @ [\<lparr>class_regs = replicate (BITSET_WORDS (regs_count rs)) 0, ra_p = 0, ra_q = []\<rparr>],
         class_count := class_count rs + 1\<rparr>, class_count rs)"

definition ra_class_add_reg :: "ra_regs \<Rightarrow> nat \<Rightarrow> nat \<Rightarrow> ra_regs" where
  "ra_class_add_reg rs c r =
     (let cl = classes rs ! c
      in rs\<lparr>classes := (classes rs)[c := cl\<lparr>class_regs := BITSET_SET (class_regs cl) r, ra_p := ra_p cl + 1\<rparr>]\<rparr>)"

definition reg_belongs_to_class :: "nat \<Rightarrow> ra_class \<Rightarrow> bool" where
  "reg_belongs_to_class r c = BITSET_TEST (class_regs c) r"

text \<open>The inner loops of \<^verbatim>\<open>ra_set_finalize\<close>: the conflicts of one register with class \<open>b\<close>, and their maximum.\<close>

definition count_conflicts :: "ra_regs \<Rightarrow> nat \<Rightarrow> nat \<Rightarrow> nat option" where
  "count_conflicts rs b rc =
     (if num_conflicts (regs rs ! rc) = 0 then Some 0
      else case conflict_list (regs rs ! rc) of
             None \<Rightarrow> None
           | Some l \<Rightarrow> Some (length (filter (\<lambda>rb. reg_belongs_to_class rb (classes rs ! b)) (take (num_conflicts (regs rs ! rc)) l))))"

fun max_conflicts :: "ra_regs \<Rightarrow> nat \<Rightarrow> nat \<Rightarrow> nat list \<Rightarrow> nat \<Rightarrow> nat option" where
  "max_conflicts rs b c [] mx = Some mx"
| "max_conflicts rs b c (rc # rcs) mx =
     (if \<not> reg_belongs_to_class rc (classes rs ! c) then max_conflicts rs b c rcs mx
      else do { n \<leftarrow> count_conflicts rs b rc; max_conflicts rs b c rcs (max mx n) })"

fun collect :: "('a \<Rightarrow> 'b option) \<Rightarrow> 'a list \<Rightarrow> 'b list option" where
  "collect f [] = Some []"
| "collect f (x # xs) = do { y \<leftarrow> f x; ys \<leftarrow> collect f xs; Some (y # ys) }"

text \<open>Reading an element of an array.\<close>

definition read_array :: "'a list \<Rightarrow> nat \<Rightarrow> 'a option" where
  "read_array xs i = (if i < length xs then Some (xs ! i) else None)"

definition ra_set_finalize :: "ra_regs \<Rightarrow> u32 list list option \<Rightarrow> ra_regs option" where
  "ra_set_finalize rs q_values = do {
     qs \<leftarrow> (case q_values of
             Some q \<Rightarrow> collect (\<lambda>b. collect (\<lambda>c. do { row \<leftarrow> read_array q b; read_array row c })
                                     [0..<class_count rs]) [0..<class_count rs]
           | None \<Rightarrow> collect (\<lambda>b. collect (\<lambda>c. map_option of_nat (max_conflicts rs b c [0..<regs_count rs] 0))
                                  [0..<class_count rs]) [0..<class_count rs]);
     Some (rs\<lparr>classes := map (\<lambda>b. (classes rs ! b)\<lparr>ra_q := qs ! b\<rparr>) [0..<class_count rs],
              regs := map (\<lambda>r. r\<lparr>conflict_list := None\<rparr>) (regs rs)\<rparr>)
   }"

section \<open>The interference graph\<close>

record ra_node =
  adjacency :: bitset
  adjacency_list :: "nat list"
  adjacency_list_size :: nat
  adjacency_count :: nat
  node_class :: nat
  node_reg :: "nat option"
  in_stack :: bool
  q_total :: u32

text \<open>A callback sees the graph without the callback itself.\<close>

record ra_state =
  ra_regs_of :: ra_regs
  nodes :: "ra_node list"
  nodes_count :: nat
  stack :: "nat list"
  stack_count :: nat
  stack_optimistic_start :: u32

record ra_graph = ra_state +
  select_reg_callback :: "(ra_state \<Rightarrow> bitset \<Rightarrow> nat) option"

abbreviation node_cls :: "ra_graph \<Rightarrow> nat \<Rightarrow> ra_class" where
  "node_cls g n \<equiv> classes (ra_regs_of g) ! node_class (nodes g ! n)"

definition q_of :: "ra_graph \<Rightarrow> nat \<Rightarrow> nat \<Rightarrow> u32" where
  "q_of g n1 n2 = ra_q (node_cls g n1) ! node_class (nodes g ! n2)"

definition upd_node :: "ra_graph \<Rightarrow> nat \<Rightarrow> (ra_node \<Rightarrow> ra_node) \<Rightarrow> ra_graph" where
  "upd_node g n f = g\<lparr>nodes := (nodes g)[n := f (nodes g ! n)]\<rparr>"

definition ra_add_node_adjacency :: "ra_graph \<Rightarrow> nat \<Rightarrow> nat \<Rightarrow> ra_graph option" where
  "ra_add_node_adjacency g n1 n2 =
     (if n1 = n2 then None
      else Some (upd_node g n1 (\<lambda>nd.
        nd\<lparr>adjacency := BITSET_SET (adjacency nd) n2,
           q_total := q_total nd + q_of g n1 n2,
           adjacency_list_size := (if adjacency_list_size nd \<le> adjacency_count nd
                                   then adjacency_list_size nd * 2 else adjacency_list_size nd),
           adjacency_list := take (adjacency_count nd) (adjacency_list nd) @ [n2],
           adjacency_count := adjacency_count nd + 1\<rparr>)))"

definition ra_alloc_interference_graph :: "ra_regs \<Rightarrow> nat \<Rightarrow> ra_graph" where
  "ra_alloc_interference_graph rs count =
     \<lparr>ra_regs_of = rs,
      nodes = replicate count
        \<lparr>adjacency = replicate (BITSET_WORDS count) 0, adjacency_list = [], adjacency_list_size = 4,
         adjacency_count = 0, node_class = 0, node_reg = None, in_stack = False, q_total = 0\<rparr>,
      nodes_count = count, stack = replicate count 0, stack_count = 0, stack_optimistic_start = 0,
      select_reg_callback = None\<rparr>"

definition ra_set_select_reg_callback :: "ra_graph \<Rightarrow> (ra_state \<Rightarrow> bitset \<Rightarrow> nat) \<Rightarrow> ra_graph" where
  "ra_set_select_reg_callback g callback = g\<lparr>select_reg_callback := Some callback\<rparr>"

definition ra_set_node_class :: "ra_graph \<Rightarrow> nat \<Rightarrow> nat \<Rightarrow> ra_graph" where
  "ra_set_node_class g n c = upd_node g n (\<lambda>nd. nd\<lparr>node_class := c\<rparr>)"

definition ra_add_node_interference :: "ra_graph \<Rightarrow> nat \<Rightarrow> nat \<Rightarrow> ra_graph option" where
  "ra_add_node_interference g n1 n2 =
     (if n1 \<noteq> n2 \<and> \<not> BITSET_TEST (adjacency (nodes g ! n1)) n2
      then do { g \<leftarrow> ra_add_node_adjacency g n1 n2; ra_add_node_adjacency g n2 n1 }
      else Some g)"

definition ra_get_node_reg :: "ra_graph \<Rightarrow> nat \<Rightarrow> nat option" where
  "ra_get_node_reg g n = node_reg (nodes g ! n)"

definition ra_set_node_reg :: "ra_graph \<Rightarrow> nat \<Rightarrow> nat \<Rightarrow> ra_graph" where
  "ra_set_node_reg g n reg = upd_node g n (\<lambda>nd. nd\<lparr>node_reg := Some reg, in_stack := False\<rparr>)"

section \<open>Simplification\<close>

abbreviation neighbours :: "ra_graph \<Rightarrow> nat \<Rightarrow> nat list" where
  "neighbours g n \<equiv> take (adjacency_count (nodes g ! n)) (adjacency_list (nodes g ! n))"

definition pq_test :: "ra_graph \<Rightarrow> nat \<Rightarrow> bool" where
  "pq_test g n \<longleftrightarrow> q_total (nodes g ! n) < ra_p (node_cls g n)"

fun decrement_loop :: "ra_graph \<Rightarrow> nat \<Rightarrow> nat list \<Rightarrow> ra_graph option" where
  "decrement_loop g n [] = Some g"
| "decrement_loop g n (n2 # ns) =
     (if \<not> in_stack (nodes g ! n2) then
        (if q_of g n2 n \<le> q_total (nodes g ! n2)
         then decrement_loop (upd_node g n2 (\<lambda>nd. nd\<lparr>q_total := q_total nd - q_of g n2 n\<rparr>)) n ns
         else None)
      else decrement_loop g n ns)"

definition decrement_q :: "ra_graph \<Rightarrow> nat \<Rightarrow> ra_graph option" where
  "decrement_q g n = decrement_loop g n (neighbours g n)"

definition push_node :: "ra_graph \<Rightarrow> nat \<Rightarrow> ra_graph option" where
  "push_node g i = do {
     g \<leftarrow> decrement_q g i;
     Some (upd_node (g\<lparr>stack := (stack g)[stack_count g := i], stack_count := stack_count g + 1\<rparr>) i
             (\<lambda>nd. nd\<lparr>in_stack := True\<rparr>))
   }"

text \<open>
  One pass over the nodes: progress, and the best optimistic node so far. The nodes are visited from
  the last to the first; the index is an \<^verbatim>\<open>int\<close>, so with more than \<open>2 ^ 31\<close> nodes it starts below 0.
\<close>

definition pass_nodes :: "ra_graph \<Rightarrow> nat list" where
  "pass_nodes g = (if nodes_count g \<le> 2 ^ 31 then rev [0..<nodes_count g] else [])"

fun simplify_pass :: "ra_graph \<Rightarrow> nat list \<Rightarrow> bool \<Rightarrow> nat option \<Rightarrow> u32 \<Rightarrow> (ra_graph \<times> bool \<times> nat option) option" where
  "simplify_pass g [] progress best lowest = Some (g, progress, best)"
| "simplify_pass g (i # is) progress best lowest =
     (if in_stack (nodes g ! i) \<or> node_reg (nodes g ! i) \<noteq> None then simplify_pass g is progress best lowest
      else if pq_test g i then do { g \<leftarrow> push_node g i; simplify_pass g is True best lowest }
      else if q_total (nodes g ! i) < lowest then simplify_pass g is progress (Some i) (q_total (nodes g ! i))
      else simplify_pass g is progress best lowest)"

partial_function (option) simplify_loop :: "ra_graph \<Rightarrow> u32 \<Rightarrow> (ra_graph \<times> u32) option" where
  "simplify_loop g start = do {
     (g, progress, best) \<leftarrow> simplify_pass g (pass_nodes g) False None 0xFFFFFFFF;
     if progress then simplify_loop g start
     else case best of
            None \<Rightarrow> Some (g, start)
          | Some n \<Rightarrow> do {
              let start = (if start = 0xFFFFFFFF then of_nat (stack_count g) else start);
              g \<leftarrow> push_node g n;
              simplify_loop g start
            }
   }"

definition ra_simplify :: "ra_graph \<Rightarrow> ra_graph option" where
  "ra_simplify g = do {
     (g, start) \<leftarrow> simplify_loop g 0xFFFFFFFF;
     Some (g\<lparr>stack_optimistic_start := start\<rparr>)
   }"

section \<open>Selection\<close>

fun any_conflict :: "ra_graph \<Rightarrow> nat \<Rightarrow> nat list \<Rightarrow> bool option" where
  "any_conflict g r [] = Some False"
| "any_conflict g r (n2 # ns) =
     (if \<not> in_stack (nodes g ! n2) then
        (case node_reg (nodes g ! n2) of
           None \<Rightarrow> None
         | Some r2 \<Rightarrow> if BITSET_TEST (conflicts (regs (ra_regs_of g) ! r)) r2 then Some True else any_conflict g r ns)
      else any_conflict g r ns)"

definition ra_any_neighbors_conflict :: "ra_graph \<Rightarrow> nat \<Rightarrow> nat \<Rightarrow> bool option" where
  "ra_any_neighbors_conflict g n r = any_conflict g r (neighbours g n)"

fun remove_conflicts :: "ra_graph \<Rightarrow> nat list \<Rightarrow> bitset \<Rightarrow> bitset option" where
  "remove_conflicts g [] rs = Some rs"
| "remove_conflicts g (n2 # ns) rs =
     (if \<not> in_stack (nodes g ! n2) then
        (case node_reg (nodes g ! n2) of
           None \<Rightarrow> None
         | Some r \<Rightarrow> remove_conflicts g ns (bitset_t_and rs (bitset_t_not (conflicts (regs (ra_regs_of g) ! r)))))
      else remove_conflicts g ns rs)"

definition ra_compute_available_regs :: "ra_graph \<Rightarrow> nat \<Rightarrow> (bool \<times> bitset) option" where
  "ra_compute_available_regs g n = do {
     rs \<leftarrow> remove_conflicts g (neighbours g n) (class_regs (node_cls g n));
     Some (list_ex (\<lambda>w. w \<noteq> 0) rs, rs)
   }"

text \<open>The search for a register: \<open>Some None\<close> when all registers have been tried.\<close>

fun search_reg :: "ra_graph \<Rightarrow> nat \<Rightarrow> nat list \<Rightarrow> nat option option" where
  "search_reg g n [] = Some None"
| "search_reg g n (r # rs) =
     (if \<not> reg_belongs_to_class r (node_cls g n) then search_reg g n rs
      else do { c \<leftarrow> ra_any_neighbors_conflict g n r; if \<not> c then Some (Some r) else search_reg g n rs })"

definition choose_reg :: "ra_graph \<Rightarrow> nat \<Rightarrow> nat \<Rightarrow> nat option option" where
  "choose_reg g n start_search_reg =
     (case select_reg_callback g of
        Some callback \<Rightarrow> do {
          (found, select_regs) \<leftarrow> ra_compute_available_regs g n;
          Some (if found then Some (callback (ra_state.truncate g) select_regs) else None)
        }
      | None \<Rightarrow>
          search_reg g n (map (\<lambda>ri. (start_search_reg + ri) mod regs_count (ra_regs_of g)) [0..<regs_count (ra_regs_of g)]))"

text \<open>
  The subtraction in the last condition is on unsigned numbers: it wraps when the stack is empty.
\<close>

function ra_select_loop :: "ra_graph \<Rightarrow> nat \<Rightarrow> (ra_graph \<times> bool) option" where
  "ra_select_loop g start_search_reg =
     (if stack_count g = 0 then Some (g, True)
      else let n = stack g ! (stack_count g - 1);
               g' = upd_node g n (\<lambda>nd. nd\<lparr>in_stack := False\<rparr>)
           in case choose_reg g' n start_search_reg of
                None \<Rightarrow> None
              | Some None \<Rightarrow> Some (g', False)
              | Some (Some r) \<Rightarrow>
                  let g'' = (upd_node g' n (\<lambda>nd. nd\<lparr>node_reg := Some r\<rparr>))\<lparr>stack_count := stack_count g - 1\<rparr>
                  in ra_select_loop g''
                       (if round_robin (ra_regs_of g'') \<and> of_nat (stack_count g'') - 1 \<le> stack_optimistic_start g''
                        then r + 1 else start_search_reg))"
  by auto
termination
  by (relation "measure (\<lambda>(g, s). stack_count g)") (auto simp: upd_node_def)

declare ra_select_loop.simps [simp del]

definition ra_select :: "ra_graph \<Rightarrow> (ra_graph \<times> bool) option" where
  "ra_select g = ra_select_loop g 0"

definition ra_allocate :: "ra_graph \<Rightarrow> (ra_graph \<times> bool) option" where
  "ra_allocate g = do { g \<leftarrow> ra_simplify g; ra_select g }"

section \<open>Well-formed register sets and graphs\<close>

definition in_class :: "ra_regs \<Rightarrow> nat \<Rightarrow> nat set" where
  "in_class rs c = bs.elems (regs_count rs) (class_regs (classes rs ! c))"

definition conflicting :: "ra_regs \<Rightarrow> nat \<Rightarrow> nat set" where
  "conflicting rs r = bs.elems (regs_count rs) (conflicts (regs rs ! r))"

text \<open>Conflicts are symmetric, and no bit of a class is set beyond the registers.\<close>

definition regs_wf :: "ra_regs \<Rightarrow> bool" where
  "regs_wf rs \<longleftrightarrow> length (regs rs) = regs_count rs \<and> length (classes rs) = class_count rs \<and>
     (\<forall>r<regs_count rs. bitset_ok (regs_count rs) (conflicts (regs rs ! r))) \<and>
     (\<forall>r<regs_count rs. \<forall>s<regs_count rs. s \<in> conflicting rs r \<longleftrightarrow> r \<in> conflicting rs s) \<and>
     (\<forall>c<class_count rs. bitset_ok (regs_count rs) (class_regs (classes rs ! c)) \<and>
        (\<forall>b. regs_count rs \<le> b \<and> b < 32 * length (class_regs (classes rs ! c)) \<longrightarrow> \<not> BITSET_TEST (class_regs (classes rs ! c)) b))"

text \<open>
  \<open>p\<close> is not more than the size of a class, and \<open>q\<close> bounds how many registers of a class one register of
  another class can take away.
\<close>

definition q_sound :: "ra_regs \<Rightarrow> bool" where
  "q_sound rs \<longleftrightarrow> (\<forall>c<class_count rs. unat (ra_p (classes rs ! c)) \<le> card (in_class rs c)) \<and>
     (\<forall>b<class_count rs. \<forall>c<class_count rs. \<forall>r\<in>in_class rs c.
        card (in_class rs b \<inter> conflicting rs r) \<le> unat (ra_q (classes rs ! b) ! c))"

abbreviation qn :: "ra_graph \<Rightarrow> nat \<Rightarrow> nat \<Rightarrow> nat" where
  "qn g n m \<equiv> unat (q_of g n m)"

definition stacked :: "ra_graph \<Rightarrow> nat set" where
  "stacked g = {n. n < nodes_count g \<and> in_stack (nodes g ! n)}"

text \<open>
  The part of a graph that simplification and selection do not change: adjacency is symmetric and
  irreflexive, without repetition.
\<close>

definition graph_wf :: "ra_graph \<Rightarrow> bool" where
  "graph_wf g \<longleftrightarrow> regs_wf (ra_regs_of g) \<and> length (nodes g) = nodes_count g \<and> nodes_count g \<le> 2 ^ 31 \<and>
     length (stack g) = nodes_count g \<and>
     (\<forall>n<nodes_count g. node_class (nodes g ! n) < class_count (ra_regs_of g) \<and>
        distinct (neighbours g n) \<and> set (neighbours g n) \<subseteq> {..<nodes_count g} - {n}) \<and>
     (\<forall>n<nodes_count g. \<forall>m<nodes_count g. m \<in> set (neighbours g n) \<longleftrightarrow> n \<in> set (neighbours g m))"

definition stack_wf :: "ra_graph \<Rightarrow> bool" where
  "stack_wf g \<longleftrightarrow> stack_count g \<le> nodes_count g \<and> distinct (take (stack_count g) (stack g)) \<and>
     set (take (stack_count g) (stack g)) = stacked g \<and> (\<forall>n\<in>stacked g. node_reg (nodes g ! n) = None)"

text \<open>
  \<open>q_total\<close> of a node off the stack is not less than the \<open>q\<close> values of its neighbours off the stack, and below
  \<open>2 ^ 32 - 1\<close>. It is more when a class was changed after an interference was added.
\<close>

definition q_wf :: "ra_graph \<Rightarrow> bool" where
  "q_wf g \<longleftrightarrow> (\<forall>n<nodes_count g. n \<notin> stacked g \<longrightarrow>
     (\<Sum>m\<in>set (neighbours g n) - stacked g. qn g n m) \<le> unat (q_total (nodes g ! n)) \<and> q_total (nodes g ! n) < 0xFFFFFFFF)"

text \<open>What all steps keep.\<close>

definition same_node :: "ra_node \<Rightarrow> ra_node \<Rightarrow> bool" where
  "same_node a b \<longleftrightarrow> adjacency_list a = adjacency_list b \<and> adjacency_count a = adjacency_count b \<and> node_class a = node_class b"

definition same_graph :: "ra_graph \<Rightarrow> ra_graph \<Rightarrow> bool" where
  "same_graph g h \<longleftrightarrow> ra_regs_of g = ra_regs_of h \<and> nodes_count g = nodes_count h \<and> length (nodes g) = length (nodes h) \<and>
     length (stack g) = length (stack h) \<and> select_reg_callback g = select_reg_callback h \<and>
     (\<forall>n<length (nodes g). same_node (nodes g ! n) (nodes h ! n))"

lemma same_graph_refl [simp]: "same_graph g g"
  by (simp add: same_graph_def same_node_def)

lemma same_graph_trans: "same_graph g h \<Longrightarrow> same_graph h k \<Longrightarrow> same_graph g k"
  by (simp add: same_graph_def same_node_def)

lemma same_graph_neighbours: "same_graph g h \<Longrightarrow> n < length (nodes g) \<Longrightarrow> neighbours h n = neighbours g n"
  by (simp add: same_graph_def same_node_def)

lemma same_graph_q_of:
  "same_graph g h \<Longrightarrow> n < length (nodes g) \<Longrightarrow> m < length (nodes g) \<Longrightarrow> q_of h n m = q_of g n m"
  by (simp add: q_of_def same_graph_def same_node_def)

lemma graph_wf_node:
  assumes "graph_wf g" "n < nodes_count g"
  shows "node_class (nodes g ! n) < class_count (ra_regs_of g)" "distinct (neighbours g n)"
    "set (neighbours g n) \<subseteq> {..<nodes_count g} - {n}"
  using assms by (simp_all add: graph_wf_def)

lemma graph_wf_sizes:
  assumes "graph_wf g"
  shows "regs_wf (ra_regs_of g)" "length (nodes g) = nodes_count g" "length (stack g) = nodes_count g" "nodes_count g \<le> 2 ^ 31"
  using assms by (simp_all add: graph_wf_def)

lemma neighbours_sym:
  "graph_wf g \<Longrightarrow> n < nodes_count g \<Longrightarrow> m < nodes_count g \<Longrightarrow> m \<in> set (neighbours g n) \<longleftrightarrow> n \<in> set (neighbours g m)"
  by (simp add: graph_wf_def)

lemma same_graph_wf:
  assumes "same_graph g h" "graph_wf g"
  shows "graph_wf h"
proof -
  have c: "ra_regs_of h = ra_regs_of g" "nodes_count h = nodes_count g" "length (nodes h) = nodes_count g"
    "length (stack h) = nodes_count g" "length (nodes g) = nodes_count g"
    using assms by (simp_all add: same_graph_def graph_wf_def)
  have n: "neighbours h n = neighbours g n" if "n < nodes_count g" for n
    using same_graph_neighbours [OF assms(1)] that c(5) by simp
  have "node_class (nodes h ! n) = node_class (nodes g ! n)" if "n < nodes_count g" for n
    using assms(1) that c(5) by (simp add: same_graph_def same_node_def)
  then show ?thesis using assms(2) n unfolding graph_wf_def c by simp
qed

section \<open>Removing a node\<close>

lemma upd_node_simps [simp]:
  "ra_regs_of (upd_node g n f) = ra_regs_of g" "nodes_count (upd_node g n f) = nodes_count g"
  "stack (upd_node g n f) = stack g" "stack_count (upd_node g n f) = stack_count g"
  "length (nodes (upd_node g n f)) = length (nodes g)"
  "select_reg_callback (upd_node g n f) = select_reg_callback g"
  "stack_optimistic_start (upd_node g n f) = stack_optimistic_start g"
  by (simp_all add: upd_node_def)

lemma nodes_upd_node: "m < length (nodes g) \<Longrightarrow> nodes (upd_node g n f) ! m = (if m = n then f (nodes g ! n) else nodes g ! m)"
  by (simp add: upd_node_def)

lemma same_graph_upd:
  assumes "\<And>nd. same_node nd (f nd)"
  shows "same_graph g (upd_node g n f)"
  using assms by (simp add: same_graph_def nodes_upd_node same_node_def)

lemma decrement_loop_spec:
  assumes "distinct ns" "set ns \<subseteq> {..<length (nodes g)}" "n < length (nodes g)"
    and "\<forall>m\<in>set ns. \<not> in_stack (nodes g ! m) \<longrightarrow> q_of g m n \<le> q_total (nodes g ! m)"
  shows "\<exists>h. decrement_loop g n ns = Some h \<and> same_graph g h \<and> stack h = stack g \<and> stack_count h = stack_count g \<and>
    (\<forall>m<length (nodes g). nodes h ! m =
       (if m \<in> set ns \<and> \<not> in_stack (nodes g ! m)
        then (nodes g ! m)\<lparr>q_total := q_total (nodes g ! m) - q_of g m n\<rparr> else nodes g ! m))"
  using assms
proof (induction ns arbitrary: g)
  case Nil
  then show ?case by simp
next
  case (Cons k ns)
  show ?case
  proof (cases "in_stack (nodes g ! k)")
    case True
    with Cons.IH [of g] Cons.prems show ?thesis by auto
  next
    case False
    let ?g = "upd_node g k (\<lambda>nd. nd\<lparr>q_total := q_total nd - q_of g k n\<rparr>)"
    have k: "k < length (nodes g)" "k \<notin> set ns" "q_of g k n \<le> q_total (nodes g ! k)" using Cons.prems False by auto
    have sg: "same_graph g ?g" by (rule same_graph_upd) (simp add: same_node_def)
    have at: "nodes ?g ! m = nodes g ! m" if "m \<in> set ns" for m
      using that Cons.prems(2) k(2) by (auto simp: nodes_upd_node)
    have q: "q_of ?g m n = q_of g m n" if "m < length (nodes g)" for m
      by (rule same_graph_q_of [OF sg that Cons.prems(3)])
    have "\<exists>h. decrement_loop ?g n ns = Some h \<and> same_graph ?g h \<and> stack h = stack ?g \<and> stack_count h = stack_count ?g \<and>
      (\<forall>m<length (nodes ?g). nodes h ! m =
       (if m \<in> set ns \<and> \<not> in_stack (nodes ?g ! m)
        then (nodes ?g ! m)\<lparr>q_total := q_total (nodes ?g ! m) - q_of ?g m n\<rparr> else nodes ?g ! m))"
      using Cons.prems at q by (intro Cons.IH) auto
    then obtain h where h: "decrement_loop ?g n ns = Some h" "same_graph ?g h" "stack h = stack g" "stack_count h = stack_count g"
      "\<forall>m<length (nodes g). nodes h ! m = (if m \<in> set ns \<and> \<not> in_stack (nodes ?g ! m)
        then (nodes ?g ! m)\<lparr>q_total := q_total (nodes ?g ! m) - q_of ?g m n\<rparr> else nodes ?g ! m)" by auto
    have "nodes h ! m = (if m \<in> set (k # ns) \<and> \<not> in_stack (nodes g ! m)
        then (nodes g ! m)\<lparr>q_total := q_total (nodes g ! m) - q_of g m n\<rparr> else nodes g ! m)" if m: "m < length (nodes g)" for m
      using h(5) m False k q [OF m] by (auto simp: nodes_upd_node)
    then show ?thesis using h k(3) False same_graph_trans [OF sg h(2)] by auto
  qed
qed

lemma stackedI: "graph_wf g \<Longrightarrow> n < nodes_count g \<Longrightarrow> n \<in> stacked g \<longleftrightarrow> in_stack (nodes g ! n)"
  by (simp add: stacked_def)

lemma q_total_neighbour:
  assumes "graph_wf g" "q_wf g" "n < nodes_count g" "n \<notin> stacked g" "m \<in> set (neighbours g n)" "m \<notin> stacked g"
  shows "q_of g m n \<le> q_total (nodes g ! m)"
proof -
  have m: "m < nodes_count g" using graph_wf_node(3) [OF assms(1,3)] assms(5) by auto
  have "n \<in> set (neighbours g m) - stacked g" using neighbours_sym [OF assms(1,3) m] assms(4,5) by simp
  then have "qn g m n \<le> (\<Sum>k\<in>set (neighbours g m) - stacked g. qn g m k)" by (intro member_le_sum) simp_all
  also have "\<dots> \<le> unat (q_total (nodes g ! m))" using assms(2,6) m by (simp add: q_wf_def)
  finally show ?thesis by (simp add: word_le_nat_alt)
qed

text \<open>Pushing a node: the assertion of \<^verbatim>\<open>decrement_q\<close> holds, and the sums stay right.\<close>

definition simp_inv :: "ra_graph \<Rightarrow> bool" where
  "simp_inv g \<longleftrightarrow> graph_wf g \<and> stack_wf g \<and> q_wf g"

definition same_regs :: "ra_graph \<Rightarrow> ra_graph \<Rightarrow> bool" where
  "same_regs g h \<longleftrightarrow> same_graph g h \<and> (\<forall>n<nodes_count g. node_reg (nodes h ! n) = node_reg (nodes g ! n))"

lemma same_regs_refl [simp]: "same_regs g g"
  by (simp add: same_regs_def)

lemma same_regs_trans: "same_regs g h \<Longrightarrow> same_regs h k \<Longrightarrow> same_regs g k"
  by (auto simp: same_regs_def same_graph_def same_node_def)

lemma q_wf_push:
  assumes "graph_wf g" "q_wf g" "n < nodes_count g" "n \<notin> stacked g" "same_graph g h" "stacked h = insert n (stacked g)"
    and nodes: "\<And>m. m < nodes_count g \<Longrightarrow> q_total (nodes h ! m) =
      (if m \<in> set (neighbours g n) \<and> m \<notin> stacked g then q_total (nodes g ! m) - q_of g m n else q_total (nodes g ! m))"
  shows "q_wf h"
proof -
  note gs = graph_wf_sizes [OF assms(1)]
  have c: "nodes_count h = nodes_count g" using assms(5) by (simp add: same_graph_def)
  have "(\<Sum>k\<in>set (neighbours h m) - stacked h. qn h m k) \<le> unat (q_total (nodes h ! m)) \<and> q_total (nodes h ! m) < 0xFFFFFFFF"
    if m: "m < nodes_count g" "m \<notin> stacked h" for m
  proof -
    have ms: "m \<notin> stacked g" "m \<noteq> n" using m(2) assms(6) by auto
    have old: "(\<Sum>k\<in>set (neighbours g m) - stacked g. qn g m k) \<le> unat (q_total (nodes g ! m))" "q_total (nodes g ! m) < 0xFFFFFFFF"
      using assms(2) m(1) ms(1) by (simp_all add: q_wf_def)
    have eq: "(\<Sum>k\<in>set (neighbours h m) - stacked h. qn h m k) = (\<Sum>k\<in>set (neighbours g m) - stacked g - {n}. qn g m k)"
      using graph_wf_node(3) [OF assms(1) m(1)] m(1) gs(2)
      by (intro sum.cong) (auto simp: assms(6) same_graph_neighbours [OF assms(5)] same_graph_q_of [OF assms(5)])
    show ?thesis
    proof (cases "m \<in> set (neighbours g n)")
      case True
      then have "n \<in> set (neighbours g m) - stacked g" using neighbours_sym [OF assms(1,3) m(1)] assms(4) by simp
      then have "(\<Sum>k\<in>set (neighbours g m) - stacked g - {n}. qn g m k) = (\<Sum>k\<in>set (neighbours g m) - stacked g. qn g m k) - qn g m n"
        by (simp add: sum_diff1_nat)
      moreover have q: "q_of g m n \<le> q_total (nodes g ! m)" by (rule q_total_neighbour [OF assms(1-4) True ms(1)])
      then have "unat (q_total (nodes g ! m) - q_of g m n) = unat (q_total (nodes g ! m)) - qn g m n"
        by (simp add: unat_sub_no_wrap word_le_nat_alt)
      ultimately show ?thesis using nodes [OF m(1)] True ms(1) old q
        by (auto simp: eq word_less_nat_alt intro: diff_le_mono)
    next
      case False
      then have "n \<notin> set (neighbours g m)" using neighbours_sym [OF assms(1,3) m(1)] by simp
      then have "set (neighbours g m) - stacked g - {n} = set (neighbours g m) - stacked g" by auto
      then show ?thesis using nodes [OF m(1)] False old by (simp add: eq)
    qed
  qed
  then show ?thesis by (simp add: q_wf_def c)
qed

lemma push_node_spec:
  assumes "simp_inv g" "n < nodes_count g" "\<not> in_stack (nodes g ! n)" "node_reg (nodes g ! n) = None"
  shows "\<exists>h. push_node g n = Some h \<and> simp_inv h \<and> same_regs g h \<and> stacked h = insert n (stacked g) \<and>
    stack_count h = stack_count g + 1 \<and> take (stack_count g + 1) (stack h) = take (stack_count g) (stack g) @ [n]"
proof -
  have g: "graph_wf g" "stack_wf g" "q_wf g" using assms(1) by (simp_all add: simp_inv_def)
  note gs = graph_wf_sizes [OF g(1)] note gn = graph_wf_node [OF g(1) assms(2)]
  have ns: "n \<notin> stacked g" using assms(2,3) by (simp add: stacked_def)
  have "\<forall>m\<in>set (neighbours g n). \<not> in_stack (nodes g ! m) \<longrightarrow> q_of g m n \<le> q_total (nodes g ! m)"
    using q_total_neighbour [OF g(1,3) assms(2) ns] gn(3) by (auto simp: stacked_def)
  then obtain d where d: "decrement_loop g n (neighbours g n) = Some d" "same_graph g d" "stack d = stack g"
    "stack_count d = stack_count g"
    "\<forall>m<length (nodes g). nodes d ! m =
       (if m \<in> set (neighbours g n) \<and> \<not> in_stack (nodes g ! m)
        then (nodes g ! m)\<lparr>q_total := q_total (nodes g ! m) - q_of g m n\<rparr> else nodes g ! m)"
    using decrement_loop_spec [of "neighbours g n" g n] gn gs assms(2) by auto
  define h where "h = upd_node (d\<lparr>stack := (stack d)[stack_count d := n], stack_count := stack_count d + 1\<rparr>) n (\<lambda>nd. nd\<lparr>in_stack := True\<rparr>)"
  have push: "push_node g n = Some h" by (simp add: push_node_def decrement_q_def d(1) h_def)
  have dl: "length (nodes d) = nodes_count g" "nodes_count d = nodes_count g" using d(2) gs(2) by (simp_all add: same_graph_def)
  have hn: "nodes h ! m = (if m = n then (nodes d ! m)\<lparr>in_stack := True\<rparr> else nodes d ! m)" if "m < nodes_count g" for m
    using that dl by (simp add: h_def upd_node_def)
  have hc: "nodes_count h = nodes_count g" "stack_count h = stack_count g + 1" "stack h = (stack g)[stack_count g := n]"
    using d dl by (simp_all add: h_def)
  have dh: "same_graph d h" unfolding h_def using assms(2) dl
    by (auto simp: same_graph_def same_node_def upd_node_def nth_list_update)
  have gh: "same_graph g h" by (rule same_graph_trans [OF d(2) dh])
  have hs: "stacked h = insert n (stacked g)"
    using d(5) gs(2) assms(2) hn hc(1) by (auto simp: stacked_def split: if_splits)
  have sc: "stack_count g < length (stack g)"
  proof -
    have "card (stacked g) < nodes_count g"
      using assms(2) ns psubset_card_mono [of "{..<nodes_count g}" "stacked g"] by (force simp: stacked_def)
    moreover have "card (stacked g) = stack_count g"
      using g(2) gs(3) distinct_card [of "take (stack_count g) (stack g)"] by (simp add: stack_wf_def min_def)
    ultimately show ?thesis using gs(3) by simp
  qed
  then have tk: "take (stack_count g + 1) (stack h) = take (stack_count g) (stack g) @ [n]"
    by (simp add: hc take_Suc_conv_app_nth)
  have reg: "node_reg (nodes h ! m) = node_reg (nodes g ! m)" if "m < nodes_count g" for m
    using that d(5) gs(2) hn [OF that] by simp
  have "q_wf h"
    using d(5) gs(2) hn by (intro q_wf_push [OF g(1,3) assms(2) ns gh hs]) (auto simp: stacked_def)
  moreover have "stack_wf h"
    using g(2) tk hs ns sc gs(3) reg assms(2,4) by (auto simp: stack_wf_def hc) (auto simp: stacked_def)
  ultimately have "simp_inv h" using same_graph_wf [OF gh g(1)] by (simp add: simp_inv_def)
  then show ?thesis using push gh reg hs hc(2) tk by (simp add: same_regs_def)
qed

section \<open>Simplification\<close>

text \<open>Every node on the stack passed the test when it was pushed.\<close>

definition all_trivial :: "ra_graph \<Rightarrow> bool" where
  "all_trivial g \<longleftrightarrow> (\<forall>k < stack_count g. (\<Sum>m\<in>set (neighbours g (stack g ! k)) - set (take k (stack g)). qn g (stack g ! k) m)
     < unat (ra_p (node_cls g (stack g ! k))))"

lemma stack_below:
  assumes "graph_wf g" "stack_wf g" "k < stack_count g"
  shows "stack g ! k < nodes_count g"
proof -
  have "stack_count g \<le> length (stack g)" using assms(2) graph_wf_sizes(3) [OF assms(1)] by (simp add: stack_wf_def)
  then have "stack g ! k \<in> set (take (stack_count g) (stack g))"
    using assms(3) unfolding in_set_conv_nth by (intro exI [of _ k]) simp
  then show ?thesis using assms(2) by (auto simp: stack_wf_def stacked_def)
qed

lemma same_graph_cls: "same_graph g h \<Longrightarrow> n < length (nodes g) \<Longrightarrow> node_cls h n = node_cls g n"
  by (simp add: same_graph_def same_node_def)

lemma all_trivial_push:
  assumes "simp_inv g" "n < nodes_count g" "\<not> in_stack (nodes g ! n)" "pq_test g n" "all_trivial g"
    and "same_graph g h" "stack_count h = stack_count g + 1"
    and "take (stack_count g + 1) (stack h) = take (stack_count g) (stack g) @ [n]"
  shows "all_trivial h"
proof -
  have g: "graph_wf g" "stack_wf g" "q_wf g" using assms(1) by (simp_all add: simp_inv_def)
  note gs = graph_wf_sizes [OF g(1)]
  have sc: "stack_count g \<le> length (stack g)" using g(2) gs(3) by (simp add: stack_wf_def)
  have tk: "take k (stack h) = take k (stack g)" if "k \<le> stack_count g" for k
    using arg_cong [OF assms(8), of "take k"] that sc by (simp add: min_def)
  have at: "stack h ! k = (if k = stack_count g then n else stack g ! k)" if "k \<le> stack_count g" for k
    using arg_cong [OF assms(8), of "\<lambda>l. l ! k"] that sc by (simp add: nth_append)
  have "(\<Sum>m\<in>set (neighbours h (stack h ! k)) - set (take k (stack h)). qn h (stack h ! k) m) < unat (ra_p (node_cls h (stack h ! k)))"
    if k: "k \<le> stack_count g" for k
  proof -
    define v where "v = stack h ! k"
    have v: "v < nodes_count g"
      using at [OF k] assms(2) stack_below [OF g(1,2), of k] k by (auto simp: v_def)
    have "(\<Sum>m\<in>set (neighbours h v) - set (take k (stack h)). qn h v m) = (\<Sum>m\<in>set (neighbours g v) - set (take k (stack g)). qn g v m)"
      using graph_wf_node(3) [OF g(1) v] v gs(2)
      by (intro sum.cong) (auto simp: tk [OF k] same_graph_neighbours [OF assms(6)] same_graph_q_of [OF assms(6)])
    also have "\<dots> < unat (ra_p (node_cls g v))"
    proof (cases "k = stack_count g")
      case True
      then have vn: "v = n" using at [OF k] by (simp add: v_def)
      have "set (take k (stack g)) = stacked g" using True g(2) by (simp add: stack_wf_def)
      moreover have "(\<Sum>m\<in>set (neighbours g n) - stacked g. qn g n m) \<le> unat (q_total (nodes g ! n))"
        using g(3) assms(2,3) by (simp add: q_wf_def stacked_def)
      ultimately show ?thesis using assms(4) by (simp add: vn pq_test_def word_less_nat_alt)
    next
      case False
      then have "v = stack g ! k" using at [OF k] by (simp add: v_def)
      then show ?thesis using assms(5) False k by (simp add: all_trivial_def)
    qed
    finally show ?thesis using same_graph_cls [OF assms(6)] v gs(2) by (simp add: v_def)
  qed
  then show ?thesis by (simp add: all_trivial_def assms(7) less_Suc_eq_le)
qed

text \<open>Nodes still to be looked at.\<close>

definition open_node :: "ra_graph \<Rightarrow> nat \<Rightarrow> bool" where
  "open_node g i \<longleftrightarrow> \<not> in_stack (nodes g ! i) \<and> node_reg (nodes g ! i) = None"

lemma q_total_below:
  assumes "simp_inv g" "i < nodes_count g" "open_node g i"
  shows "q_total (nodes g ! i) < 0xFFFFFFFF"
proof -
  have "q_wf g" using assms(1) by (simp add: simp_inv_def)
  then show ?thesis using assms(2,3) by (simp add: q_wf_def stacked_def open_node_def)
qed

definition pass_post :: "ra_graph \<Rightarrow> nat list \<Rightarrow> bool \<Rightarrow> nat option \<Rightarrow> ra_graph \<times> bool \<times> nat option \<Rightarrow> bool" where
  "pass_post g is progress best r = (case r of (h, pr, b) \<Rightarrow>
     simp_inv h \<and> same_regs g h \<and> (all_trivial g \<longrightarrow> all_trivial h) \<and> stack_count g \<le> stack_count h \<and>
     (progress \<longrightarrow> pr) \<and> (pr \<and> \<not> progress \<longrightarrow> stack_count g < stack_count h) \<and>
     (\<not> pr \<longrightarrow> h = g \<and> (b = None \<longrightarrow> best = None \<and> (\<forall>i\<in>set is. \<not> open_node g i)) \<and>
        (\<forall>n. b = Some n \<longrightarrow> best = Some n \<or> n \<in> set is \<and> open_node g n)))"

lemma simplify_pass_spec:
  assumes "simp_inv g" "set is \<subseteq> {..<nodes_count g}" "best = None \<longrightarrow> lowest = 0xFFFFFFFF"
  shows "\<exists>r. simplify_pass g is progress best lowest = Some r \<and> pass_post g is progress best r"
  using assms
proof (induction "is" arbitrary: g progress best lowest)
  case Nil
  then show ?case by (simp add: pass_post_def)
next
  case (Cons i "is")
  have i: "i < nodes_count g" "set is \<subseteq> {..<nodes_count g}" using Cons.prems by auto
  consider "\<not> open_node g i" | "open_node g i" "pq_test g i" | "open_node g i" "\<not> pq_test g i" by blast
  then show ?case
  proof cases
    case 1
    obtain r where "simplify_pass g is progress best lowest = Some r" "pass_post g is progress best r"
      using Cons.IH [OF Cons.prems(1) i(2) Cons.prems(3)] by blast
    then show ?thesis using 1 by (auto simp: open_node_def pass_post_def)
  next
    case 2
    obtain h where h: "push_node g i = Some h" "simp_inv h" "same_regs g h" "stack_count h = stack_count g + 1"
      "take (stack_count g + 1) (stack h) = take (stack_count g) (stack g) @ [i]"
      using push_node_spec [OF Cons.prems(1) i(1)] 2(1) by (auto simp: open_node_def)
    have "nodes_count h = nodes_count g" using h(3) by (simp add: same_regs_def same_graph_def)
    with Cons.IH [OF h(2) _ Cons.prems(3)] i(2)
    obtain r where r: "simplify_pass h is True best lowest = Some r" "pass_post h is True best r" by metis
    have "all_trivial g \<longrightarrow> all_trivial h"
      using all_trivial_push [OF Cons.prems(1) i(1) _ 2(2) _ _ h(4,5)] 2(1) h(3) by (simp add: open_node_def same_regs_def)
    then have "pass_post g (i # is) progress best r"
      using r(2) h(4) same_regs_trans [OF h(3)] by (auto simp: pass_post_def)
    then show ?thesis using 2 h(1) r(1) by (auto simp: open_node_def)
  next
    case 3
    let ?b = "if q_total (nodes g ! i) < lowest then Some i else best"
    let ?l = "if q_total (nodes g ! i) < lowest then q_total (nodes g ! i) else lowest"
    have low: "q_total (nodes g ! i) < 0xFFFFFFFF" by (rule q_total_below [OF Cons.prems(1) i(1) 3(1)])
    have nn: "?b \<noteq> None" using low Cons.prems(3) by auto
    then have "?b = None \<longrightarrow> ?l = 0xFFFFFFFF" by blast
    from Cons.IH [OF Cons.prems(1) i(2) this, of progress]
    obtain r where r: "simplify_pass g is progress ?b ?l = Some r" "pass_post g is progress ?b r" by blast
    then have "pass_post g (i # is) progress best r"
      using nn 3(1) by (auto simp: pass_post_def split: if_splits)
    then show ?thesis using 3 r(1) by (intro exI [of _ r]) (simp add: open_node_def split: if_splits)
  qed
qed

lemma stack_count_le: "simp_inv g \<Longrightarrow> stack_count g \<le> nodes_count g"
  by (simp add: simp_inv_def stack_wf_def)

definition simplified :: "ra_graph \<Rightarrow> u32 \<Rightarrow> ra_graph \<times> u32 \<Rightarrow> bool" where
  "simplified g start r = (case r of (h, s) \<Rightarrow> simp_inv h \<and> same_regs g h \<and> (\<forall>i<nodes_count g. \<not> open_node h i) \<and>
     (s = 0xFFFFFFFF \<longrightarrow> start = 0xFFFFFFFF \<and> (all_trivial g \<longrightarrow> all_trivial h)))"

lemma simplified_trans:
  assumes "same_regs g h" "all_trivial g \<longrightarrow> all_trivial h" "simplified h s r" "s = 0xFFFFFFFF \<longrightarrow> start = 0xFFFFFFFF"
  shows "simplified g start r"
proof -
  have "nodes_count h = nodes_count g" using assms(1) by (simp add: same_regs_def same_graph_def)
  then show ?thesis using assms same_regs_trans [OF assms(1)] by (auto simp: simplified_def)
qed

lemma simplify_loop_spec:
  assumes "simp_inv g"
  shows "\<exists>r. simplify_loop g start = Some r \<and> simplified g start r"
  using assms
proof (induction "nodes_count g - stack_count g" arbitrary: g start rule: less_induct)
  case less
  let ?is = "pass_nodes g"
  have "nodes_count g \<le> 2 ^ 31" using less.prems by (simp add: simp_inv_def graph_wf_def)
  then have "is": "set ?is = {..<nodes_count g}" by (auto simp: pass_nodes_def)
  obtain h pr b where p: "simplify_pass g ?is False None 0xFFFFFFFF = Some (h, pr, b)" "pass_post g ?is False None (h, pr, b)"
    using simplify_pass_spec [OF less.prems, of ?is None "0xFFFFFFFF" False] by (auto simp: "is")
  have h: "simp_inv h" "same_regs g h" "all_trivial g \<longrightarrow> all_trivial h" using p(2) by (simp_all add: pass_post_def)
  have nc: "nodes_count k = nodes_count g" if "same_regs g k" for k using that by (simp add: same_regs_def same_graph_def)
  show ?case
  proof (cases pr)
    case True
    have "stack_count g < stack_count h" using True p(2) by (simp add: pass_post_def)
    then have lt: "nodes_count h - stack_count h < nodes_count g - stack_count g"
      using stack_count_le [OF h(1)] nc [OF h(2)] by linarith
    then obtain r where "simplify_loop h start = Some r" "simplified h start r" using less.hyps [OF lt h(1)] by blast
    then show ?thesis using p(1) True simplified_trans [OF h(2,3)] by (subst simplify_loop.simps) simp
  next
    case False
    then have hg: "h = g" using p(2) by (simp add: pass_post_def)
    show ?thesis
    proof (cases b)
      case None
      then have "\<forall>i<nodes_count g. \<not> open_node g i" using p(2) False by (auto simp: pass_post_def "is")
      then show ?thesis using p(1) False None hg less.prems by (subst simplify_loop.simps) (simp add: simplified_def)
    next
      case (Some n)
      then have n: "n < nodes_count g" "open_node g n" using p(2) False by (auto simp: pass_post_def "is")
      obtain k where k: "push_node g n = Some k" "simp_inv k" "same_regs g k" "stack_count k = stack_count g + 1"
        using push_node_spec [OF less.prems n(1)] n(2) by (auto simp: open_node_def)
      let ?s = "if start = 0xFFFFFFFF then of_nat (stack_count g) else start"
      have lt: "nodes_count k - stack_count k < nodes_count g - stack_count g"
        using k(4) nc [OF k(3)] stack_count_le [OF k(2)] by simp
      obtain r where r: "simplify_loop k ?s = Some r" "simplified k ?s r" using less.hyps [OF lt k(2)] by blast
      have "nodes_count g \<le> 2 ^ 31" "stack_count g \<le> nodes_count g"
        using less.prems stack_count_le [OF less.prems] by (simp_all add: simp_inv_def graph_wf_def)
      then have "(of_nat (stack_count g) :: u32) \<noteq> 0xFFFFFFFF" by (simp add: word_unat_eq_iff unat_of_nat)
      then have "?s \<noteq> 0xFFFFFFFF" by simp
      then have "simplified g start r" using r(2) nc [OF k(3)] same_regs_trans [OF k(3)]
        by (auto simp: simplified_def)
      then show ?thesis using p(1) False Some hg k(1) r(1) by (subst simplify_loop.simps) (simp add: Let_def)
    qed
  qed
qed

section \<open>Selection\<close>

text \<open>
  \<open>pre\<close> are the nodes whose register was forced. Every node off the stack has a register, from its
  class unless it was forced; two neighbours off the stack do not conflict unless both were forced.
\<close>

definition reg_of :: "ra_graph \<Rightarrow> nat \<Rightarrow> nat" where
  "reg_of g n = (case node_reg (nodes g ! n) of None \<Rightarrow> 0 | Some r \<Rightarrow> r)"

definition sel_inv :: "nat set \<Rightarrow> ra_graph \<Rightarrow> bool" where
  "sel_inv pre g \<longleftrightarrow> graph_wf g \<and> stack_count g \<le> nodes_count g \<and> distinct (take (stack_count g) (stack g)) \<and>
     set (take (stack_count g) (stack g)) = stacked g \<and>
     (\<forall>n<nodes_count g. n \<notin> stacked g \<longrightarrow> (\<exists>r. node_reg (nodes g ! n) = Some r \<and> r < regs_count (ra_regs_of g) \<and>
        (n \<notin> pre \<longrightarrow> r \<in> in_class (ra_regs_of g) (node_class (nodes g ! n))))) \<and>
     (\<forall>n<nodes_count g. \<forall>m\<in>set (neighbours g n). n \<notin> stacked g \<and> m \<notin> stacked g \<and> \<not> (n \<in> pre \<and> m \<in> pre) \<longrightarrow>
        reg_of g m \<notin> conflicting (ra_regs_of g) (reg_of g n))"

definition callback_ok :: "ra_graph \<Rightarrow> bool" where
  "callback_ok g \<longleftrightarrow> (\<forall>cb. select_reg_callback g = Some cb \<longrightarrow>
     (\<forall>st rs. bs.elems (regs_count (ra_regs_of g)) rs \<noteq> {} \<longrightarrow> cb st rs \<in> bs.elems (regs_count (ra_regs_of g)) rs))"

lemma any_conflict_spec:
  assumes "\<forall>m\<in>set ns. \<not> in_stack (nodes g ! m) \<longrightarrow> node_reg (nodes g ! m) \<noteq> None"
  shows "any_conflict g r ns =
    Some (\<exists>m\<in>set ns. \<not> in_stack (nodes g ! m) \<and> BITSET_TEST (conflicts (regs (ra_regs_of g) ! r)) (reg_of g m))"
  using assms by (induction ns) (auto simp: reg_of_def split: option.splits)

definition free_for :: "ra_graph \<Rightarrow> nat \<Rightarrow> nat set" where
  "free_for g n = {r \<in> in_class (ra_regs_of g) (node_class (nodes g ! n)).
     \<forall>m\<in>set (neighbours g n). \<not> in_stack (nodes g ! m) \<longrightarrow> reg_of g m \<notin> conflicting (ra_regs_of g) r}"

definition colored_nb :: "ra_graph \<Rightarrow> nat \<Rightarrow> bool" where
  "colored_nb g n \<longleftrightarrow> (\<forall>m\<in>set (neighbours g n). \<not> in_stack (nodes g ! m) \<longrightarrow>
     (\<exists>r. node_reg (nodes g ! m) = Some r \<and> r < regs_count (ra_regs_of g)))"

lemma colored_nb_reg_of:
  "colored_nb g n \<Longrightarrow> m \<in> set (neighbours g n) \<Longrightarrow> \<not> in_stack (nodes g ! m) \<Longrightarrow>
    node_reg (nodes g ! m) = Some (reg_of g m) \<and> reg_of g m < regs_count (ra_regs_of g)"
  by (auto simp: colored_nb_def reg_of_def)

lemma any_neighbors_free:
  assumes "colored_nb g n" "r < regs_count (ra_regs_of g)"
  shows "ra_any_neighbors_conflict g n r = Some (\<exists>m\<in>set (neighbours g n). \<not> in_stack (nodes g ! m) \<and>
    reg_of g m \<in> conflicting (ra_regs_of g) r)"
proof -
  have "\<forall>m\<in>set (neighbours g n). \<not> in_stack (nodes g ! m) \<longrightarrow> node_reg (nodes g ! m) \<noteq> None"
    using colored_nb_reg_of [OF assms(1)] by auto
  from any_conflict_spec [OF this, of r] show ?thesis
    using colored_nb_reg_of [OF assms(1)] by (auto simp: ra_any_neighbors_conflict_def conflicting_def bs.elems_def)
qed

lemma search_reg_spec:
  assumes "colored_nb g n" "set rs \<subseteq> {..<regs_count (ra_regs_of g)}"
  shows "\<exists>res. search_reg g n rs = Some res \<and>
    (case res of Some r \<Rightarrow> r \<in> free_for g n | None \<Rightarrow> \<forall>r\<in>set rs. r \<notin> free_for g n)"
  using assms(2)
proof (induction rs)
  case (Cons r rs)
  then have r: "r < regs_count (ra_regs_of g)" by simp
  have bel: "reg_belongs_to_class r (node_cls g n) \<longleftrightarrow> r \<in> in_class (ra_regs_of g) (node_class (nodes g ! n))"
    using r by (simp add: reg_belongs_to_class_def in_class_def bs.elems_def)
  show ?case
  proof (cases "r \<in> free_for g n")
    case True
    then have "search_reg g n (r # rs) = Some (Some r)"
      using bel any_neighbors_free [OF assms(1) r] by (auto simp: free_for_def)
    then show ?thesis using True by simp
  next
    case False
    then have "search_reg g n (r # rs) = search_reg g n rs"
      using bel any_neighbors_free [OF assms(1) r] by (auto simp: free_for_def)
    then show ?thesis using Cons False by (auto split: option.splits)
  qed
qed simp

lemma rotate_covers:
  fixes s n :: nat
  shows "set (map (\<lambda>i. (s + i) mod n) [0..<n]) = {..<n}"
proof (cases "n = 0")
  case False
  have "x \<in> (\<lambda>i. (s + i) mod n) ` {0..<n}" if "x < n" for x
  proof -
    have "(s + (x + n - s mod n) mod n) mod n = (s mod n + (x + n - s mod n)) mod n"
      by (metis mod_add_left_eq mod_add_right_eq)
    also have "s mod n + (x + n - s mod n) = x + n" using False mod_less_divisor [of n s] by linarith
    finally have "(s + (x + n - s mod n) mod n) mod n = x" using that by simp
    then show ?thesis using False by (intro image_eqI [of _ _ "(x + n - s mod n) mod n"]) simp_all
  qed
  then show ?thesis using False by auto
qed simp

text \<open>The set handed to a callback is the set of free registers.\<close>

lemma remove_conflicts_spec:
  assumes "\<forall>m\<in>set ns. \<not> in_stack (nodes g ! m) \<longrightarrow> (\<exists>r. node_reg (nodes g ! m) = Some r \<and> r < regs_count (ra_regs_of g))"
    and "regs_wf (ra_regs_of g)" "bitset_ok (regs_count (ra_regs_of g)) rs"
  shows "\<exists>out. remove_conflicts g ns rs = Some out \<and> bitset_ok (regs_count (ra_regs_of g)) out \<and>
    bs.elems (regs_count (ra_regs_of g)) out = {r \<in> bs.elems (regs_count (ra_regs_of g)) rs.
      \<forall>m\<in>set ns. \<not> in_stack (nodes g ! m) \<longrightarrow> r \<notin> conflicting (ra_regs_of g) (reg_of g m)} \<and>
    (\<forall>b. BITSET_TEST out b \<longrightarrow> b < 32 * length out \<longrightarrow> BITSET_TEST rs b)"
  using assms(1,3)
proof (induction ns arbitrary: rs)
  case (Cons m ns)
  let ?N = "regs_count (ra_regs_of g)"
  show ?case
  proof (cases "in_stack (nodes g ! m)")
    case True
    then show ?thesis using Cons by auto
  next
    case False
    then obtain r where r: "node_reg (nodes g ! m) = Some r" "r < ?N" using Cons.prems(1) by auto
    let ?c = "conflicts (regs (ra_regs_of g) ! r)"
    let ?rs = "bitset_t_and rs (bitset_t_not ?c)"
    have c: "bitset_ok ?N ?c" using assms(2) r(2) by (simp add: regs_wf_def)
    have ok: "bitset_ok ?N ?rs" by (rule bs.ok_inter [OF Cons.prems(2) bs.ok_compl [OF c]])
    have el: "bs.elems ?N ?rs = bs.elems ?N rs - conflicting (ra_regs_of g) r"
      unfolding conflicting_def by (rule bs.elems_diff [OF Cons.prems(2) c])
    have sub: "BITSET_TEST rs b" if "BITSET_TEST ?rs b" "b < 32 * length ?rs" for b
      using that Cons.prems(2) c by (auto simp: BITSET_TEST_iff bitset_t_and_def bitset_t_not_def bit_and_iff bitset_ok_def)
    have "\<forall>m\<in>set ns. \<not> in_stack (nodes g ! m) \<longrightarrow> (\<exists>r. node_reg (nodes g ! m) = Some r \<and> r < ?N)"
      using Cons.prems(1) by simp
    from Cons.IH [OF this ok]
    obtain out where o: "remove_conflicts g ns ?rs = Some out" "bitset_ok ?N out"
      "bs.elems ?N out = {r \<in> bs.elems ?N ?rs. \<forall>m\<in>set ns. \<not> in_stack (nodes g ! m) \<longrightarrow> r \<notin> conflicting (ra_regs_of g) (reg_of g m)}"
      "\<forall>b. BITSET_TEST out b \<longrightarrow> b < 32 * length out \<longrightarrow> BITSET_TEST ?rs b" by blast
    have "length out = length ?rs" using o(2) ok by (simp add: bitset_ok_def)
    then show ?thesis using o sub el r(1) False by (auto simp: reg_of_def)
  qed
qed simp

lemma in_class_below: "in_class rs c \<subseteq> {..<regs_count rs}"
  unfolding in_class_def by (rule bs.elems_bound)

lemma free_for_sym:
  assumes "graph_wf g" "colored_nb g n"
  shows "free_for g n = {r \<in> in_class (ra_regs_of g) (node_class (nodes g ! n)).
     \<forall>m\<in>set (neighbours g n). \<not> in_stack (nodes g ! m) \<longrightarrow> r \<notin> conflicting (ra_regs_of g) (reg_of g m)}"
proof -
  have sym: "s \<in> conflicting (ra_regs_of g) r \<longleftrightarrow> r \<in> conflicting (ra_regs_of g) s"
    if "r < regs_count (ra_regs_of g)" "s < regs_count (ra_regs_of g)" for r s
    using graph_wf_sizes(1) [OF assms(1)] that by (simp add: regs_wf_def)
  show ?thesis
    using sym colored_nb_reg_of [OF assms(2)] in_class_below [of "ra_regs_of g"] unfolding free_for_def by blast
qed

lemma list_ex_elems:
  assumes "bitset_ok N x" "\<forall>b. BITSET_TEST x b \<longrightarrow> b < 32 * length x \<longrightarrow> b < N"
  shows "list_ex (\<lambda>w. w \<noteq> 0) x \<longleftrightarrow> bs.elems N x \<noteq> {}"
proof
  assume "list_ex (\<lambda>w. w \<noteq> 0) x"
  then obtain i where i: "i < length x" "x ! i \<noteq> 0" by (auto simp: list_ex_iff in_set_conv_nth)
  from i(2) obtain j where "bit (x ! i) j" using bit_eqI [of "x ! i" 0] by auto
  then have "j < 32" "bit (x ! i) j" using bit_imp_le_length [of "x ! i" j] by simp_all
  then have "BITSET_TEST x (32 * i + j)" "32 * i + j < 32 * length x" using i(1) by (simp_all add: BITSET_TEST_iff)
  then show "bs.elems N x \<noteq> {}" using assms(2) by (auto simp: bs.elems_def)
next
  assume "bs.elems N x \<noteq> {}"
  then obtain b where b: "b < N" "bit (x ! (b div 32)) (b mod 32)" by (auto simp: bs.elems_def BITSET_TEST_iff)
  have "b div 32 < length x" using BITSET_WORDS_word [OF b(1)] assms(1) by (simp add: bitset_ok_def)
  moreover have "x ! (b div 32) \<noteq> 0" using b(2) by auto
  ultimately show "list_ex (\<lambda>w. w \<noteq> 0) x" unfolding list_ex_iff by (metis nth_mem)
qed

lemma available_spec:
  assumes "graph_wf g" "n < nodes_count g" "colored_nb g n"
  shows "\<exists>out. ra_compute_available_regs g n = Some (free_for g n \<noteq> {}, out) \<and>
    bs.elems (regs_count (ra_regs_of g)) out = free_for g n"
proof -
  let ?N = "regs_count (ra_regs_of g)" let ?c = "class_regs (node_cls g n)"
  note rw = graph_wf_sizes(1) [OF assms(1)]
  have cl: "bitset_ok ?N ?c" "\<forall>b. ?N \<le> b \<and> b < 32 * length ?c \<longrightarrow> \<not> BITSET_TEST ?c b"
    using rw graph_wf_node(1) [OF assms(1,2)] by (simp_all add: regs_wf_def)
  have "\<forall>m\<in>set (neighbours g n). \<not> in_stack (nodes g ! m) \<longrightarrow> (\<exists>r. node_reg (nodes g ! m) = Some r \<and> r < ?N)"
    using assms(3) by (simp add: colored_nb_def)
  from remove_conflicts_spec [OF this rw cl(1)]
  obtain out where o: "remove_conflicts g (neighbours g n) ?c = Some out" "bitset_ok ?N out"
    "bs.elems ?N out = {r \<in> bs.elems ?N ?c. \<forall>m\<in>set (neighbours g n). \<not> in_stack (nodes g ! m) \<longrightarrow> r \<notin> conflicting (ra_regs_of g) (reg_of g m)}"
    "\<forall>b. BITSET_TEST out b \<longrightarrow> b < 32 * length out \<longrightarrow> BITSET_TEST ?c b" by blast
  have el: "bs.elems ?N out = free_for g n" unfolding o(3) free_for_sym [OF assms(1,3)] in_class_def by simp
  have "length out = length ?c" using o(2) cl(1) by (simp add: bitset_ok_def)
  then have "\<forall>b. BITSET_TEST out b \<longrightarrow> b < 32 * length out \<longrightarrow> b < ?N" using o(4) cl(2) by (metis not_le)
  from list_ex_elems [OF o(2) this] el show ?thesis using o(1) by (simp add: ra_compute_available_regs_def)
qed

lemma choose_reg_spec:
  assumes "graph_wf g" "callback_ok g" "n < nodes_count g" "colored_nb g n"
  shows "\<exists>res. choose_reg g n s = Some res \<and> (case res of Some r \<Rightarrow> r \<in> free_for g n | None \<Rightarrow> free_for g n = {})"
proof (cases "select_reg_callback g")
  case None
  let ?N = "regs_count (ra_regs_of g)"
  let ?rs = "map (\<lambda>ri. (s + ri) mod ?N) [0..<?N]"
  have cov: "set ?rs = {..<?N}" by (rule rotate_covers)
  then obtain res where r: "search_reg g n ?rs = Some res"
    "case res of Some r \<Rightarrow> r \<in> free_for g n | None \<Rightarrow> \<forall>r\<in>set ?rs. r \<notin> free_for g n"
    using search_reg_spec [OF assms(4), of ?rs] by auto
  have "free_for g n \<subseteq> {..<?N}" using in_class_below by (auto simp: free_for_def)
  with cov r have "case res of Some r \<Rightarrow> r \<in> free_for g n | None \<Rightarrow> free_for g n = {}"
    by (cases res) (simp_all, blast)
  then show ?thesis using r(1) None by (simp add: choose_reg_def)
next
  case (Some cb)
  obtain out where o: "ra_compute_available_regs g n = Some (free_for g n \<noteq> {}, out)"
    "bs.elems (regs_count (ra_regs_of g)) out = free_for g n"
    using available_spec [OF assms(1,3,4)] by blast
  have "free_for g n \<noteq> {} \<Longrightarrow> cb (ra_state.truncate g) out \<in> free_for g n"
    using assms(2) Some unfolding callback_ok_def o(2) [symmetric] by blast
  then show ?thesis using o(1) Some by (simp add: choose_reg_def)
qed

text \<open>The test of Runeson and Nystroem: if the \<open>q\<close> values of the coloured neighbours add up below \<open>p\<close>, a register is free.\<close>

lemma pq_free:
  assumes "graph_wf g" "q_sound (ra_regs_of g)" "n < nodes_count g" "colored_nb g n"
    and "\<forall>m\<in>set (neighbours g n). \<not> in_stack (nodes g ! m) \<longrightarrow> reg_of g m \<in> in_class (ra_regs_of g) (node_class (nodes g ! m))"
    and "(\<Sum>m\<in>{m \<in> set (neighbours g n). \<not> in_stack (nodes g ! m)}. qn g n m) < unat (ra_p (node_cls g n))"
  shows "free_for g n \<noteq> {}"
proof
  assume empty: "free_for g n = {}"
  let ?M = "{m \<in> set (neighbours g n). \<not> in_stack (nodes g ! m)}"
  let ?B = "in_class (ra_regs_of g) (node_class (nodes g ! n))"
  let ?C = "\<lambda>m. ?B \<inter> conflicting (ra_regs_of g) (reg_of g m)"
  note rw = graph_wf_sizes(1) [OF assms(1)]
  have fin: "finite ?B" by (simp add: in_class_def)
  have "?B \<subseteq> (\<Union>m\<in>?M. ?C m)" using empty unfolding free_for_sym [OF assms(1,4)] by blast
  then have "card ?B \<le> card (\<Union>m\<in>?M. ?C m)" using fin by (intro card_mono) auto
  also have "\<dots> \<le> (\<Sum>m\<in>?M. card (?C m))" by (rule card_UN_le) simp
  also have "\<dots> \<le> (\<Sum>m\<in>?M. qn g n m)"
  proof (rule sum_mono)
    fix m assume m: "m \<in> ?M"
    then have "m < nodes_count g" using graph_wf_node(3) [OF assms(1,3)] by auto
    then show "card (?C m) \<le> qn g n m"
      using assms(2,5) m graph_wf_node(1) [OF assms(1)] assms(3) by (simp add: q_sound_def q_of_def)
  qed
  also have "\<dots> < unat (ra_p (node_cls g n))" by (rule assms(6))
  also have "\<dots> \<le> card ?B" using assms(2) graph_wf_node(1) [OF assms(1,3)] by (simp add: q_sound_def)
  finally show False by simp
qed

text \<open>One round of the selection loop.\<close>

definition unstack :: "ra_graph \<Rightarrow> ra_graph" where
  "unstack g = upd_node g (stack g ! (stack_count g - 1)) (\<lambda>nd. nd\<lparr>in_stack := False\<rparr>)"

definition assign :: "ra_graph \<Rightarrow> nat \<Rightarrow> ra_graph" where
  "assign g r = (upd_node (unstack g) (stack g ! (stack_count g - 1)) (\<lambda>nd. nd\<lparr>node_reg := Some r\<rparr>))\<lparr>stack_count := stack_count g - 1\<rparr>"

lemma ra_select_loop_round:
  "stack_count g \<noteq> 0 \<Longrightarrow> ra_select_loop g s =
     (case choose_reg (unstack g) (stack g ! (stack_count g - 1)) s of
        None \<Rightarrow> None
      | Some None \<Rightarrow> Some (unstack g, False)
      | Some (Some r) \<Rightarrow> ra_select_loop (assign g r)
          (if round_robin (ra_regs_of (assign g r)) \<and> of_nat (stack_count (assign g r)) - 1 \<le> stack_optimistic_start (assign g r)
           then r + 1 else s))"
  by (subst ra_select_loop.simps) (simp add: unstack_def assign_def Let_def split: option.split)

lemma sel_top:
  assumes "sel_inv pre g" "stack_count g \<noteq> 0"
  defines "n \<equiv> stack g ! (stack_count g - 1)"
  shows "n < nodes_count g" "n \<in> stacked g" "stacked g - {n} = set (take (stack_count g - 1) (stack g))"
    "distinct (take (stack_count g - 1) (stack g))"
proof -
  have s: "graph_wf g" "stack_count g \<le> nodes_count g" "distinct (take (stack_count g) (stack g))"
    "set (take (stack_count g) (stack g)) = stacked g" using assms(1) by (simp_all add: sel_inv_def)
  have "Suc (stack_count g - 1) = stack_count g" "stack_count g - 1 < length (stack g)"
    using assms(2) s(2) graph_wf_sizes(3) [OF s(1)] by linarith+
  then have t: "take (stack_count g) (stack g) = take (stack_count g - 1) (stack g) @ [n]"
    using take_Suc_conv_app_nth [of "stack_count g - 1" "stack g"] by (simp add: n_def)
  then show "n \<in> stacked g" "stacked g - {n} = set (take (stack_count g - 1) (stack g))"
    "distinct (take (stack_count g - 1) (stack g))" using s(3,4) by auto
  then show "n < nodes_count g" by (simp add: stacked_def)
qed

lemma unstack_node:
  "m < length (nodes g) \<Longrightarrow> nodes (unstack g) ! m =
    (if m = stack g ! (stack_count g - 1) then (nodes g ! m)\<lparr>in_stack := False\<rparr> else nodes g ! m)"
  by (simp add: unstack_def nodes_upd_node)

lemma assign_node:
  "m < length (nodes g) \<Longrightarrow> nodes (assign g r) ! m =
    (if m = stack g ! (stack_count g - 1) then (nodes g ! m)\<lparr>in_stack := False, node_reg := Some r\<rparr> else nodes g ! m)"
  by (simp add: assign_def unstack_def upd_node_def nth_list_update)

lemma same_graph_unstack: "same_graph g (unstack g)"
  unfolding unstack_def by (rule same_graph_upd) (simp add: same_node_def)

lemma same_graph_assign: "same_graph g (assign g r)"
proof -
  have "same_graph g (upd_node (unstack g) (stack g ! (stack_count g - 1)) (\<lambda>nd. nd\<lparr>node_reg := Some r\<rparr>))"
    by (rule same_graph_trans [OF same_graph_unstack same_graph_upd]) (simp add: same_node_def)
  then show ?thesis by (simp add: assign_def same_graph_def)
qed

lemma assign_simps [simp]:
  "ra_regs_of (assign g r) = ra_regs_of g" "nodes_count (assign g r) = nodes_count g"
  "stack (assign g r) = stack g" "stack_count (assign g r) = stack_count g - 1"
  "select_reg_callback (assign g r) = select_reg_callback g"
  by (simp_all add: assign_def unstack_def)

lemma unstack_simps [simp]:
  "ra_regs_of (unstack g) = ra_regs_of g" "nodes_count (unstack g) = nodes_count g"
  "select_reg_callback (unstack g) = select_reg_callback g"
  by (simp_all add: unstack_def)

lemma sel_reg:
  assumes "sel_inv pre g" "m < nodes_count g" "m \<notin> stacked g"
  shows "\<exists>x. node_reg (nodes g ! m) = Some x \<and> x < regs_count (ra_regs_of g) \<and>
    (m \<notin> pre \<longrightarrow> x \<in> in_class (ra_regs_of g) (node_class (nodes g ! m)))"
  using assms by (simp add: sel_inv_def)

lemma sel_unstack:
  assumes "sel_inv pre g" "stack_count g \<noteq> 0"
  defines "n \<equiv> stack g ! (stack_count g - 1)"
  shows "graph_wf (unstack g)" "colored_nb (unstack g) n"
    "m \<in> set (neighbours (unstack g) n) \<Longrightarrow> in_stack (nodes (unstack g) ! m) \<longleftrightarrow> m \<in> stacked g"
    "m \<in> set (neighbours (unstack g) n) \<Longrightarrow> nodes (unstack g) ! m = nodes g ! m"
    "neighbours (unstack g) n = neighbours g n"
proof -
  have g: "graph_wf g" using assms(1) by (simp add: sel_inv_def)
  note n = sel_top [OF assms(1,2), folded n_def] note gs = graph_wf_sizes [OF g]
  show "graph_wf (unstack g)" by (rule same_graph_wf [OF same_graph_unstack g])
  show nb: "neighbours (unstack g) n = neighbours g n"
    using same_graph_neighbours [OF same_graph_unstack] n(1) gs(2) by simp
  have m: "m < nodes_count g \<and> m \<noteq> n" if "m \<in> set (neighbours g n)" for m
    using graph_wf_node(3) [OF g n(1)] that by auto
  show eq: "nodes (unstack g) ! m = nodes g ! m" if "m \<in> set (neighbours (unstack g) n)" for m
    using m that gs(2) unfolding nb by (simp add: unstack_node n_def)
  show "in_stack (nodes (unstack g) ! m) \<longleftrightarrow> m \<in> stacked g" if "m \<in> set (neighbours (unstack g) n)" for m
    using eq [OF that] m that unfolding nb by (simp add: stacked_def)
  show "colored_nb (unstack g) n"
    unfolding colored_nb_def
  proof (intro ballI impI)
    fix m assume a: "m \<in> set (neighbours (unstack g) n)" "\<not> in_stack (nodes (unstack g) ! m)"
    then have "m < nodes_count g" "m \<notin> stacked g" using m eq [OF a(1)] nb by (auto simp: stacked_def)
    from sel_reg [OF assms(1) this] eq [OF a(1)]
    show "\<exists>r. node_reg (nodes (unstack g) ! m) = Some r \<and> r < regs_count (ra_regs_of (unstack g))" by auto
  qed
qed

lemma sel_assign:
  assumes "sel_inv pre g" "stack_count g \<noteq> 0" "stacked g \<inter> pre = {}" "r \<in> free_for (unstack g) (stack g ! (stack_count g - 1))"
  shows "sel_inv pre (assign g r)" "stacked (assign g r) = stacked g - {stack g ! (stack_count g - 1)}"
proof -
  define n where "n = stack g ! (stack_count g - 1)"
  have g: "graph_wf g" using assms(1) by (simp add: sel_inv_def)
  note n = sel_top [OF assms(1,2), folded n_def] note gs = graph_wf_sizes [OF g]
  note u = sel_unstack [OF assms(1,2), folded n_def]
  let ?rs = "ra_regs_of g" let ?h = "assign g r"
  have at: "nodes ?h ! m = (if m = n then (nodes g ! m)\<lparr>in_stack := False, node_reg := Some r\<rparr> else nodes g ! m)"
    if "m < nodes_count g" for m using assign_node that gs(2) by (simp add: n_def)
  show st: "stacked ?h = stacked g - {stack g ! (stack_count g - 1)}"
    using at by (auto simp: stacked_def n_def split: if_splits)
  have nb: "neighbours ?h m = neighbours g m" if "m < nodes_count g" for m
    using same_graph_neighbours [OF same_graph_assign] that gs(2) by simp
  have cls: "node_class (nodes ?h ! m) = node_class (nodes g ! m)" if "m < nodes_count g" for m using at [OF that] by simp
  have rc: "r \<in> in_class ?rs (node_class (nodes g ! n))"
    using assms(4) [folded n_def] unstack_node [of n g] n(1) gs(2) by (simp add: free_for_def n_def [symmetric] split: if_splits)
  then have rN: "r < regs_count ?rs" using in_class_below by blast
  have ro: "reg_of ?h m = (if m = n then r else reg_of g m)" if "m < nodes_count g" for m
    using at [OF that] by (simp add: reg_of_def)
  note old = sel_reg [OF assms(1)]
  have nc: "reg_of g m \<notin> conflicting ?rs r" if "m \<in> set (neighbours g n)" "m \<notin> stacked g" for m
  proof -
    have "m \<in> set (neighbours (unstack g) n)" using that(1) u(5) by simp
    moreover have "reg_of (unstack g) m = reg_of g m" using u(4) [OF calculation] by (simp add: reg_of_def)
    ultimately show ?thesis using assms(4) [folded n_def] that(2) u(3) by (auto simp: free_for_def)
  qed
  have sym: "s \<in> conflicting ?rs x \<longleftrightarrow> x \<in> conflicting ?rs s" if "x < regs_count ?rs" "s < regs_count ?rs" for x s
    using gs(1) that by (simp add: regs_wf_def)
  have conf: "reg_of ?h b \<notin> conflicting ?rs (reg_of ?h a)"
    if a: "a < nodes_count g" and b: "b \<in> set (neighbours g a)" and ns: "a \<notin> stacked ?h" "b \<notin> stacked ?h" "\<not> (a \<in> pre \<and> b \<in> pre)" for a b
  proof -
    have bl: "b < nodes_count g" "b \<noteq> a" using graph_wf_node(3) [OF g a] b by auto
    consider "a = n" | "b = n" "a \<noteq> n" | "a \<noteq> n" "b \<noteq> n" by blast
    then show ?thesis
    proof cases
      case 1
      then show ?thesis using nc [of b] b bl ns(2) st ro [OF a] ro [OF bl(1)] by (simp add: n_def)
    next
      case 2
      then have "a \<in> set (neighbours g n)" "a \<notin> stacked g" using b neighbours_sym [OF g a bl(1)] ns(1) st by (auto simp: n_def)
      with nc old [OF a] have "reg_of g a \<notin> conflicting ?rs r" "reg_of g a < regs_count ?rs" by (auto simp: reg_of_def)
      then show ?thesis using 2 ro [OF a] ro [OF bl(1)] sym [OF rN] by simp
    next
      case 3
      then have "a \<notin> stacked g" "b \<notin> stacked g" using ns st by (auto simp: n_def)
      then show ?thesis using assms(1) a b ns(3) 3 ro [OF a] ro [OF bl(1)] by (simp add: sel_inv_def)
    qed
  qed
  have reg: "\<exists>x. node_reg (nodes ?h ! m) = Some x \<and> x < regs_count ?rs \<and> (m \<notin> pre \<longrightarrow> x \<in> in_class ?rs (node_class (nodes ?h ! m)))"
    if "m < nodes_count g" "m \<notin> stacked ?h" for m
    using old [OF that(1)] that at [OF that(1)] rN rc cls [OF that(1)] st by (cases "m = n") (auto simp: n_def)
  show "sel_inv pre ?h"
    unfolding sel_inv_def assign_simps
  proof (intro conjI)
    show "graph_wf ?h" by (rule same_graph_wf [OF same_graph_assign g])
    have "stack_count g \<le> nodes_count g" using assms(1) by (simp add: sel_inv_def)
    then show "stack_count g - 1 \<le> nodes_count g" by linarith
    show "distinct (take (stack_count g - 1) (stack g))" by (rule n(4))
    show "set (take (stack_count g - 1) (stack g)) = stacked ?h" using n(3) st by (simp add: n_def)
  qed (use reg conf nb in \<open>blast, metis\<close>)
qed

definition in_own_class :: "ra_graph \<Rightarrow> bool" where
  "in_own_class g \<longleftrightarrow> (\<forall>n<nodes_count g. n \<notin> stacked g \<longrightarrow>
     reg_of g n \<in> in_class (ra_regs_of g) (node_class (nodes g ! n)))"

lemma all_trivial_assign:
  assumes "sel_inv pre g" "all_trivial g"
  shows "all_trivial (assign g r)"
proof -
  have g: "graph_wf g" and st: "stack_count g \<le> nodes_count g" "set (take (stack_count g) (stack g)) = stacked g"
    using assms(1) by (simp_all add: sel_inv_def)
  have "(\<Sum>m\<in>set (neighbours (assign g r) (stack g ! k)) - set (take k (stack g)). qn (assign g r) (stack g ! k) m)
    < unat (ra_p (node_cls (assign g r) (stack g ! k)))" if k: "k < stack_count g - 1" for k
  proof -
    have "stack g ! k \<in> set (take (stack_count g) (stack g))"
      using k st(1) graph_wf_sizes(3) [OF g] unfolding in_set_conv_nth by (intro exI [of _ k]) simp
    then have v: "stack g ! k < nodes_count g" using st(2) by (simp add: stacked_def)
    have "(\<Sum>m\<in>set (neighbours (assign g r) (stack g ! k)) - set (take k (stack g)). qn (assign g r) (stack g ! k) m) =
      (\<Sum>m\<in>set (neighbours g (stack g ! k)) - set (take k (stack g)). qn g (stack g ! k) m)"
      using graph_wf_node(3) [OF g v] v graph_wf_sizes(2) [OF g] same_graph_neighbours [OF same_graph_assign] same_graph_q_of [OF same_graph_assign]
      by (intro sum.cong) auto
    then show ?thesis using assms(2) k same_graph_cls [OF same_graph_assign] v graph_wf_sizes(2) [OF g]
      by (simp add: all_trivial_def)
  qed
  then show ?thesis by (simp add: all_trivial_def)
qed

lemma trivial_top:
  assumes "sel_inv pre g" "stack_count g \<noteq> 0" "all_trivial g" "q_sound (ra_regs_of g)" "in_own_class g"
  shows "free_for (unstack g) (stack g ! (stack_count g - 1)) \<noteq> {}"
proof -
  define n where "n = stack g ! (stack_count g - 1)"
  have g: "graph_wf g" using assms(1) by (simp add: sel_inv_def)
  note n = sel_top [OF assms(1,2), folded n_def] note gs = graph_wf_sizes [OF g]
  note u = sel_unstack [OF assms(1,2), folded n_def]
  let ?u = "unstack g"
  have nb: "m < nodes_count g \<and> m \<noteq> n" if "m \<in> set (neighbours g n)" for m using graph_wf_node(3) [OF g n(1)] that by auto
  have on: "in_stack (nodes ?u ! m) \<longleftrightarrow> m \<in> set (take (stack_count g - 1) (stack g))" if m: "m \<in> set (neighbours g n)" for m
  proof -
    have "in_stack (nodes ?u ! m) \<longleftrightarrow> m \<in> stacked g" using m u(5) by (intro u(3)) simp
    also have "\<dots> \<longleftrightarrow> m \<in> stacked g - {n}" using nb [OF m] by simp
    finally show ?thesis unfolding n(3) .
  qed
  then have "{m \<in> set (neighbours ?u n). \<not> in_stack (nodes ?u ! m)} = set (neighbours g n) - set (take (stack_count g - 1) (stack g))"
    unfolding u(5) by blast
  then have "(\<Sum>m\<in>{m \<in> set (neighbours ?u n). \<not> in_stack (nodes ?u ! m)}. qn ?u n m) =
    (\<Sum>m\<in>set (neighbours g n) - set (take (stack_count g - 1) (stack g)). qn g n m)"
    using nb n(1) gs(2) same_graph_q_of [OF same_graph_unstack] by (intro sum.cong) auto
  also have "\<dots> < unat (ra_p (node_cls g n))"
    using assms(3) [unfolded all_trivial_def, rule_format, of "stack_count g - 1"] assms(2) by (simp add: n_def)
  finally have lt: "(\<Sum>m\<in>{m \<in> set (neighbours ?u n). \<not> in_stack (nodes ?u ! m)}. qn ?u n m) < unat (ra_p (node_cls ?u n))"
    using same_graph_cls [OF same_graph_unstack] n(1) gs(2) by simp
  have own: "\<forall>m\<in>set (neighbours ?u n). \<not> in_stack (nodes ?u ! m) \<longrightarrow>
    reg_of ?u m \<in> in_class (ra_regs_of ?u) (node_class (nodes ?u ! m))"
  proof (intro ballI impI)
    fix m assume m: "m \<in> set (neighbours ?u n)" "\<not> in_stack (nodes ?u ! m)"
    have "m < nodes_count g" "m \<notin> stacked g" using m nb u(5) u(3) [OF m(1)] by simp_all
    then show "reg_of ?u m \<in> in_class (ra_regs_of ?u) (node_class (nodes ?u ! m))"
      using assms(5) u(4) [OF m(1)] by (simp add: in_own_class_def reg_of_def)
  qed
  show ?thesis unfolding n_def [symmetric]
    using pq_free [OF u(1) _ _ u(2) own lt] assms(4) n(1) by simp
qed

definition selected :: "nat set \<Rightarrow> ra_graph \<Rightarrow> ra_graph \<times> bool \<Rightarrow> bool" where
  "selected pre g r = (case r of (h, b) \<Rightarrow> same_graph g h \<and>
     (\<forall>n<nodes_count g. n \<notin> stacked g \<longrightarrow> node_reg (nodes h ! n) = node_reg (nodes g ! n)) \<and>
     (b \<longrightarrow> sel_inv pre h \<and> stacked h = {}) \<and> (q_sound (ra_regs_of g) \<and> all_trivial g \<and> in_own_class g \<longrightarrow> b))"

lemma ra_select_loop_spec:
  assumes "sel_inv pre g" "callback_ok g" "stacked g \<inter> pre = {}"
  shows "\<exists>r. ra_select_loop g s = Some r \<and> selected pre g r"
  using assms
proof (induction "stack_count g" arbitrary: g s)
  case 0
  then have "stacked g = {}" by (simp add: sel_inv_def)
  then show ?case using 0 by (subst ra_select_loop.simps) (simp add: selected_def)
next
  case (Suc k)
  define n where "n = stack g ! (stack_count g - 1)"
  have sc: "stack_count g \<noteq> 0" using Suc.hyps(2) by simp
  have g: "graph_wf g" using Suc.prems(1) by (simp add: sel_inv_def)
  note gs = graph_wf_sizes [OF g]
  note n = sel_top [OF Suc.prems(1) sc, folded n_def] note u = sel_unstack [OF Suc.prems(1) sc, folded n_def]
  have cb: "callback_ok (unstack g)" "\<And>r. callback_ok (assign g r)" using Suc.prems(2) by (simp_all add: callback_ok_def)
  obtain res where res: "choose_reg (unstack g) n s = Some res"
    "case res of Some r \<Rightarrow> r \<in> free_for (unstack g) n | None \<Rightarrow> free_for (unstack g) n = {}"
    using choose_reg_spec [OF u(1) cb(1) _ u(2), of s] n(1) by auto
  note round = ra_select_loop_round [OF sc, of s, folded n_def, unfolded res(1)]
  show ?case
  proof (cases res)
    case None
    then have "\<not> (q_sound (ra_regs_of g) \<and> all_trivial g \<and> in_own_class g)"
      using trivial_top [OF Suc.prems(1) sc] res(2) by (auto simp: n_def)
    moreover have "\<forall>m<nodes_count g. m \<notin> stacked g \<longrightarrow> node_reg (nodes (unstack g) ! m) = node_reg (nodes g ! m)"
      using unstack_node gs(2) by simp
    ultimately have "selected pre g (unstack g, False)" using same_graph_unstack by (simp add: selected_def)
    then show ?thesis using round None by simp
  next
    case (Some r)
    let ?h = "assign g r"
    have fr: "r \<in> free_for (unstack g) n" using res(2) Some by simp
    note h = sel_assign [OF Suc.prems(1) sc Suc.prems(3) fr [unfolded n_def], folded n_def]
    have "stack_count ?h = k" using Suc.hyps(2) by simp
    moreover have "stacked ?h \<inter> pre = {}" using h(2) Suc.prems(3) by auto
    ultimately obtain p where p: "ra_select_loop ?h (if round_robin (ra_regs_of ?h) \<and> of_nat (stack_count ?h) - 1 \<le> stack_optimistic_start ?h
           then r + 1 else s) = Some p" "selected pre ?h p"
      using Suc.hyps(1) [OF _ h(1) cb(2)] by metis
    have at: "nodes ?h ! m = (if m = n then (nodes g ! m)\<lparr>in_stack := False, node_reg := Some r\<rparr> else nodes g ! m)"
      if "m < nodes_count g" for m using assign_node that gs(2) by (simp add: n_def)
    have rc: "r \<in> in_class (ra_regs_of g) (node_class (nodes g ! n))"
      using fr unstack_node [of n g] n(1) gs(2) by (simp add: free_for_def n_def [symmetric] split: if_splits)
    have keep: "node_reg (nodes ?h ! m) = node_reg (nodes g ! m)" "m \<notin> stacked ?h"
      if "m < nodes_count g" "m \<notin> stacked g" for m using at [OF that(1)] that n(2) h(2) by auto
    have own: "in_own_class g \<longrightarrow> in_own_class ?h"
      using at rc h(2) by (auto simp: in_own_class_def reg_of_def)
    have "selected pre g p"
      using p(2) keep own all_trivial_assign [OF Suc.prems(1)] same_graph_trans [OF same_graph_assign]
      by (auto simp: selected_def)
    then show ?thesis using round Some p(1) by simp
  qed
qed

lemma sel_inv_simplified:
  assumes "simp_inv g" "\<forall>i<nodes_count g. \<not> open_node g i"
    and "\<forall>n<nodes_count g. \<forall>r. node_reg (nodes g ! n) = Some r \<longrightarrow> r < regs_count (ra_regs_of g)"
  defines "pre \<equiv> {n. n < nodes_count g \<and> node_reg (nodes g ! n) \<noteq> None}"
  shows "sel_inv pre g" "stacked g \<inter> pre = {}"
proof -
  have s: "graph_wf g" "stack_wf g" using assms(1) by (simp_all add: simp_inv_def)
  have off: "n \<in> pre" if "n < nodes_count g" "n \<notin> stacked g" for n
    using assms(2) that by (auto simp: open_node_def stacked_def pre_def)
  have nb: "m \<in> pre" if "n < nodes_count g" "m \<in> set (neighbours g n)" "m \<notin> stacked g" for n m
    using off graph_wf_node(3) [OF s(1) that(1)] that by auto
  show "stacked g \<inter> pre = {}" using s(2) by (auto simp: stack_wf_def pre_def)
  show "sel_inv pre g" unfolding sel_inv_def
  proof (intro conjI allI impI ballI)
    fix n assume n: "n < nodes_count g" "n \<notin> stacked g"
    then show "\<exists>r. node_reg (nodes g ! n) = Some r \<and> r < regs_count (ra_regs_of g) \<and>
      (n \<notin> pre \<longrightarrow> r \<in> in_class (ra_regs_of g) (node_class (nodes g ! n)))"
      using off [OF n] assms(3) by (auto simp: pre_def)
  next
    fix n m assume "n < nodes_count g" "m \<in> set (neighbours g n)" "n \<notin> stacked g \<and> m \<notin> stacked g \<and> \<not> (n \<in> pre \<and> m \<in> pre)"
    then show "reg_of g m \<notin> conflicting (ra_regs_of g) (reg_of g n)" using off nb by blast
  qed (use s in \<open>simp_all add: stack_wf_def\<close>)
qed

end
