(* ===== verification/Register_Graph.thy ===== *)
theory Register_Graph
  imports Register_Allocate
begin

text \<open>
  What the interface of \<^verbatim>\<open>src/util/register_allocate.c\<close> builds. \<open>driver_set\<close> are the register sets that calls of the
  interface make, with or without conflict lists, before \<^verbatim>\<open>ra_set_finalize\<close>; \<open>driver_graph\<close> are the interference
  graphs over such sets, finalized with computed or with given q values. They have the invariants
  that the soundness of \<^verbatim>\<open>ra_allocate\<close> needs. The guarantee of the test by Runeson and Nystroem needs
  in addition that p and q tell the truth about the classes: \<open>reg_set\<close> and \<open>reg_graph\<close> are the sets and
  graphs for which the file computes them so.
\<close>

section \<open>Building a register set\<close>

text \<open>
  The register sets the interface can build. Indices are registers and classes of the set; there are at
  most \<open>2 ^ 31\<close> registers, so that no index leaves the range of \<^verbatim>\<open>int\<close>.
  \<^verbatim>\<open>ra_add_transitive_reg_conflict\<close> follows a null pointer when there are no conflict lists.
\<close>

inductive driver_set :: "ra_regs \<Rightarrow> bool" where
  driver_set_alloc: "n \<le> 2 ^ 31 \<Longrightarrow> driver_set (ra_alloc_reg_set n need_conflict_lists)"
| driver_set_robin: "driver_set rs \<Longrightarrow> driver_set (ra_set_allocate_round_robin rs)"
| driver_set_conflict: "driver_set rs \<Longrightarrow> r1 < regs_count rs \<Longrightarrow> r2 < regs_count rs \<Longrightarrow> driver_set (ra_add_reg_conflict rs r1 r2)"
| driver_set_transitive: "driver_set rs \<Longrightarrow> base_reg < regs_count rs \<Longrightarrow> reg < regs_count rs \<Longrightarrow>
    ra_add_transitive_reg_conflict rs base_reg reg = Some rs' \<Longrightarrow> driver_set rs'"
| driver_set_close: "driver_set rs \<Longrightarrow> r < regs_count rs \<Longrightarrow> ra_make_reg_conflicts_transitive rs r = Some rs' \<Longrightarrow> driver_set rs'"
| driver_set_class: "driver_set rs \<Longrightarrow> driver_set (fst (ra_alloc_reg_class rs))"
| driver_set_member: "driver_set rs \<Longrightarrow> c < class_count rs \<Longrightarrow> r < regs_count rs \<Longrightarrow> driver_set (ra_class_add_reg rs c r)"

text \<open>
  The sets with conflict lists that stay complete, where no register is added to a class twice: what
  \<^verbatim>\<open>ra_set_finalize\<close> needs to compute the q values.
\<close>

inductive reg_set :: "ra_regs \<Rightarrow> bool" where
  reg_set_alloc: "n \<le> 2 ^ 31 \<Longrightarrow> reg_set (ra_alloc_reg_set n True)"
| reg_set_robin: "reg_set rs \<Longrightarrow> reg_set (ra_set_allocate_round_robin rs)"
| reg_set_conflict: "reg_set rs \<Longrightarrow> r1 < regs_count rs \<Longrightarrow> r2 < regs_count rs \<Longrightarrow> reg_set (ra_add_reg_conflict rs r1 r2)"
| reg_set_transitive: "reg_set rs \<Longrightarrow> base_reg < regs_count rs \<Longrightarrow> reg < regs_count rs \<Longrightarrow>
    ra_add_transitive_reg_conflict rs base_reg reg = Some rs' \<Longrightarrow> reg_set rs'"
| reg_set_class: "reg_set rs \<Longrightarrow> reg_set (fst (ra_alloc_reg_class rs))"
| reg_set_member: "reg_set rs \<Longrightarrow> c < class_count rs \<Longrightarrow> r < regs_count rs \<Longrightarrow>
    \<not> reg_belongs_to_class r (classes rs ! c) \<Longrightarrow> reg_set (ra_class_add_reg rs c r)"

lemma reg_set_driver: "reg_set rs \<Longrightarrow> driver_set rs"
  by (induction rule: reg_set.induct) (auto intro: driver_set.intros)

text \<open>
  The list of a register, if there is one, has some of its conflicts, each once; an exact one has all.
  A register conflicts with itself.
\<close>

definition list_ok :: "bool \<Rightarrow> ra_reg \<Rightarrow> nat set \<Rightarrow> bool" where
  "list_ok exact r S \<longleftrightarrow> (case conflict_list r of
      None \<Rightarrow> \<not> exact
    | Some l \<Rightarrow> num_conflicts r = length l \<and> distinct l \<and> set l \<subseteq> S \<and> (exact \<longrightarrow> set l = S))"

definition lists_wf :: "bool \<Rightarrow> ra_regs \<Rightarrow> bool" where
  "lists_wf exact rs \<longleftrightarrow> regs_count rs \<le> 2 ^ 31 \<and>
     (\<forall>r<regs_count rs. r \<in> conflicting rs r \<and> list_ok exact (regs rs ! r) (conflicting rs r))"

definition p_exact :: "ra_regs \<Rightarrow> bool" where
  "p_exact rs \<longleftrightarrow> (\<forall>c<class_count rs. unat (ra_p (classes rs ! c)) = card (in_class rs c))"

definition set_wf :: "bool \<Rightarrow> ra_regs \<Rightarrow> bool" where
  "set_wf exact rs \<longleftrightarrow> regs_wf rs \<and> lists_wf exact rs \<and> (exact \<longrightarrow> p_exact rs)"

lemma set_wfD:
  assumes "set_wf e rs"
  shows "regs_wf rs" "lists_wf e rs" "e \<Longrightarrow> p_exact rs"
  using assms by (simp_all add: set_wf_def)

lemma lists_wfD:
  assumes "lists_wf e rs"
  shows "regs_count rs \<le> 2 ^ 31" "r < regs_count rs \<Longrightarrow> r \<in> conflicting rs r"
    "r < regs_count rs \<Longrightarrow> list_ok e (regs rs ! r) (conflicting rs r)"
  using assms by (simp_all add: lists_wf_def)

lemma list_okD:
  assumes "list_ok e r S" "conflict_list r = Some l"
  shows "num_conflicts r = length l" "distinct l" "set l \<subseteq> S" "e \<Longrightarrow> set l = S"
  using assms by (simp_all add: list_ok_def)

lemma conflicting_below: "conflicting rs r \<subseteq> {..<regs_count rs}"
  unfolding conflicting_def by (rule bs.elems_bound)

lemma set_wf_alloc:
  assumes "n \<le> 2 ^ 31"
  shows "set_wf b (ra_alloc_reg_set n b)"
proof -
  let ?rs = "ra_alloc_reg_set n b"
  have el: "conflicting ?rs r = {r}" if "r < n" for r
    using bs.elems_add [OF bs.ok_zero that] that
    by (simp add: conflicting_def ra_alloc_reg_set_def bs.elems_zero)
  have ok: "bitset_ok n (conflicts (regs ?rs ! r))" if "r < n" for r
    using bs.ok_add [OF bs.ok_zero that] that by (simp add: ra_alloc_reg_set_def)
  have c: "regs_count ?rs = n" "length (regs ?rs) = n" "classes ?rs = []" "class_count ?rs = 0"
    by (simp_all add: ra_alloc_reg_set_def)
  have cc: "class_count (ra_alloc_reg_set n x) = 0" for x by (simp add: ra_alloc_reg_set_def)
  have l: "conflict_list (regs ?rs ! r) = (if b then Some [r] else None) \<and> num_conflicts (regs ?rs ! r) = 1" if "r < n" for r
    using that by (simp add: ra_alloc_reg_set_def)
  show ?thesis using assms el ok l by (auto simp: set_wf_def regs_wf_def lists_wf_def list_ok_def p_exact_def c cc)
qed

lemma set_wf_weaken: "set_wf e rs \<Longrightarrow> set_wf False rs"
  by (auto simp: set_wf_def lists_wf_def list_ok_def split: option.splits)

text \<open>Adding a conflict to one register and to the other.\<close>

lemma add_conflict_list_at:
  assumes "lists_wf e rs" "length (regs rs) = regs_count rs" "bitset_ok (regs_count rs) (conflicts (regs rs ! r1))"
    and "r1 < regs_count rs" "r2 < regs_count rs" "r2 \<notin> conflicting rs r1"
  defines "h \<equiv> ra_add_conflict_list rs r1 r2"
  shows "length (regs h) = regs_count h" "regs_count h = regs_count rs" "classes h = classes rs" "class_count h = class_count rs"
    "r \<noteq> r1 \<Longrightarrow> regs h ! r = regs rs ! r" "bitset_ok (regs_count rs) (conflicts (regs h ! r1))"
    "conflicting h r = (if r = r1 then insert r2 (conflicting rs r1) else conflicting rs r)"
    "lists_wf e h"
proof -
  have bits: "conflicts (regs h ! r1) = BITSET_SET (conflicts (regs rs ! r1)) r2"
    using assms(2,4) by (simp add: h_def ra_add_conflict_list_def Let_def split: option.split)
  show "length (regs h) = regs_count h" and c: "regs_count h = regs_count rs" and "classes h = classes rs" "class_count h = class_count rs"
    using assms(2) by (simp_all add: h_def ra_add_conflict_list_def Let_def)
  show other: "regs h ! r = regs rs ! r" if "r \<noteq> r1" for r
    using that by (simp add: h_def ra_add_conflict_list_def Let_def)
  show "bitset_ok (regs_count rs) (conflicts (regs h ! r1))" using bs.ok_add [OF assms(3,5)] by (simp add: bits)
  show conf: "conflicting h r = (if r = r1 then insert r2 (conflicting rs r1) else conflicting rs r)" for r
    using bs.elems_add [OF assms(3,5)] other by (simp add: conflicting_def c bits)
  note l = lists_wfD(3) [OF assms(1,4)]
  have at: "list_ok e (regs h ! r1) (insert r2 (conflicting rs r1))"
  proof (cases "conflict_list (regs rs ! r1)")
    case None
    then have "conflict_list (regs h ! r1) = None" using assms(2,4) by (simp add: h_def ra_add_conflict_list_def Let_def)
    then show ?thesis using l None by (simp add: list_ok_def)
  next
    case (Some k)
    note k = list_okD [OF l Some]
    have "conflict_list (regs h ! r1) = Some (k @ [r2])" "num_conflicts (regs h ! r1) = Suc (length k)"
      using assms(2,4) Some k(1) by (simp_all add: h_def ra_add_conflict_list_def Let_def)
    then show ?thesis using k assms(6) by (auto simp: list_ok_def)
  qed
  have "r \<in> conflicting h r \<and> list_ok e (regs h ! r) (conflicting h r)" if "r < regs_count rs" for r
    using at other lists_wfD(2,3) [OF assms(1) that] by (cases "r = r1") (simp_all add: conf)
  then show "lists_wf e h" using lists_wfD(1) [OF assms(1)] by (simp add: lists_wf_def c)
qed

lemma in_class_cong: "classes h = classes rs \<Longrightarrow> regs_count h = regs_count rs \<Longrightarrow> in_class h c = in_class rs c"
  by (simp add: in_class_def)

text \<open>A set whose classes are those of another one.\<close>

lemma set_wf_classes:
  assumes "set_wf e rs" "regs_count h = regs_count rs" "classes h = classes rs" "class_count h = class_count rs"
    and "length (regs h) = regs_count rs" "\<And>r. r < regs_count rs \<Longrightarrow> bitset_ok (regs_count rs) (conflicts (regs h ! r))"
    and "\<And>r s. r < regs_count rs \<Longrightarrow> s < regs_count rs \<Longrightarrow> s \<in> conflicting h r \<longleftrightarrow> r \<in> conflicting h s" "lists_wf e' h" "e' \<longrightarrow> e"
  shows "set_wf e' h"
  using assms in_class_cong [OF assms(3,2)] by (simp add: set_wf_def regs_wf_def p_exact_def)

lemma add_reg_conflict_spec:
  assumes "set_wf e rs" "r1 < regs_count rs" "r2 < regs_count rs"
  defines "h \<equiv> ra_add_reg_conflict rs r1 r2"
  shows "set_wf e h" "regs_count h = regs_count rs" "classes h = classes rs" "class_count h = class_count rs"
    "conflicting h r = conflicting rs r \<union> (if r = r1 then {r2} else {}) \<union> (if r = r2 then {r1} else {})"
proof -
  note w = set_wfD [OF assms(1)]
  have sym: "s \<in> conflicting rs r \<longleftrightarrow> r \<in> conflicting rs s" if "r < regs_count rs" "s < regs_count rs" for r s
    using w(1) that by (simp add: regs_wf_def)
  have test: "BITSET_TEST (conflicts (regs rs ! r1)) r2 \<longleftrightarrow> r2 \<in> conflicting rs r1"
    using assms(3) by (simp add: conflicting_def bs.elems_def)
  have "set_wf e h \<and> regs_count h = regs_count rs \<and> classes h = classes rs \<and> class_count h = class_count rs \<and>
    (\<forall>r. conflicting h r = conflicting rs r \<union> (if r = r1 then {r2} else {}) \<union> (if r = r2 then {r1} else {}))"
  proof (cases "r2 \<in> conflicting rs r1")
    case True
    then have "h = rs" using test by (simp add: h_def ra_add_reg_conflict_def)
    moreover have "r1 \<in> conflicting rs r2" using True sym [OF assms(2,3)] by simp
    ultimately show ?thesis using assms(1) True by auto
  next
    case False
    let ?k = "ra_add_conflict_list rs r1 r2"
    have h: "h = ra_add_conflict_list ?k r2 r1" using False test by (simp add: h_def ra_add_reg_conflict_def)
    have ne: "r1 \<noteq> r2" using False lists_wfD(2) [OF w(2) assms(2)] by auto
    have len: "length (regs rs) = regs_count rs" and ok: "\<And>r. r < regs_count rs \<Longrightarrow> bitset_ok (regs_count rs) (conflicts (regs rs ! r))"
      using w(1) by (simp_all add: regs_wf_def)
    note k = add_conflict_list_at [OF w(2) len ok [OF assms(2)] assms(2,3) False]
    have f2: "r1 \<notin> conflicting ?k r2" using k(7) [of r2] ne sym [OF assms(2,3)] False by simp
    have b2: "bitset_ok (regs_count ?k) (conflicts (regs ?k ! r2))" using k(2,5) ne ok [OF assms(3)] by simp
    note m = add_conflict_list_at [OF k(8) k(1) b2, unfolded k(2), OF assms(3,2) f2, folded h]
    have conf: "conflicting h r = conflicting rs r \<union> (if r = r1 then {r2} else {}) \<union> (if r = r2 then {r1} else {})" for r
      using m(7) [of r] k(7) [of r] ne by auto
    have "set_wf e h"
    proof (rule set_wf_classes [OF assms(1)])
      show "bitset_ok (regs_count rs) (conflicts (regs h ! r))" if "r < regs_count rs" for r
        using m(5,6) k(5,6) ok [OF that] by (cases "r = r2"; cases "r = r1") auto
      show "s \<in> conflicting h r \<longleftrightarrow> r \<in> conflicting h s" if "r < regs_count rs" "s < regs_count rs" for r s
        using sym [OF that] unfolding conf by auto
    qed (use m(1-4,8) k(2-4) in simp_all)
    then show ?thesis using m(2-4) k(2-4) conf by simp
  qed
  then show "set_wf e h" "regs_count h = regs_count rs" "classes h = classes rs" "class_count h = class_count rs"
    "conflicting h r = conflicting rs r \<union> (if r = r1 then {r2} else {}) \<union> (if r = r2 then {r1} else {})"
    by auto
qed

lemma add_reg_conflict_keeps:
  assumes "b \<noteq> r1 \<and> b \<noteq> r2 \<or> r2 \<in> conflicting rs r1"
  shows "regs (ra_add_reg_conflict rs r1 r2) ! b = regs rs ! b"
proof (cases "BITSET_TEST (conflicts (regs rs ! r1)) r2")
  case False
  then have "r2 \<notin> conflicting rs r1" by (simp add: conflicting_def bs.elems_def)
  then show ?thesis using assms False by (simp add: ra_add_reg_conflict_def ra_add_conflict_list_def Let_def)
qed (simp add: ra_add_reg_conflict_def)

text \<open>
  The transitive loop: the list of the base register does not change, since the register already
  conflicts with the base, so the loop ends.
\<close>

lemma transitive_loop_spec:
  assumes "set_wf e rs" "base_reg < regs_count rs" "reg < regs_count rs" "reg \<in> conflicting rs base_reg"
    and "conflict_list (regs rs ! base_reg) = Some l"
  shows "\<exists>h. transitive_loop rs base_reg reg i = Some h \<and> set_wf e h \<and> regs_count h = regs_count rs \<and>
    classes h = classes rs \<and> class_count h = class_count rs \<and> conflicting h reg = conflicting rs reg \<union> set (drop i l)"
  using assms
proof (induction "length l - i" arbitrary: rs i)
  case 0
  have "num_conflicts (regs rs ! base_reg) = length l"
    using lists_wfD(3) [OF set_wfD(2) [OF 0(2)] 0(3)] 0(6) by (rule list_okD(1))
  then show ?case using 0 by (subst transitive_loop.simps) simp
next
  case (Suc m)
  note w = list_okD [OF lists_wfD(3) [OF set_wfD(2) [OF Suc.prems(1)] Suc.prems(2)] Suc.prems(5)]
  have i: "i < length l" using Suc.hyps(2) by simp
  define x where "x = l ! i"
  have x: "x \<in> conflicting rs base_reg" "x < regs_count rs"
    using w(3) nth_mem [OF i] conflicting_below [of rs base_reg] unfolding x_def by blast+
  let ?k = "ra_add_reg_conflict rs reg x"
  note k = add_reg_conflict_spec [OF Suc.prems(1,3) x(2)]
  have sym: "base_reg \<in> conflicting rs reg"
    using Suc.prems(1-4) by (simp add: set_wf_def regs_wf_def)
  have keep: "regs ?k ! base_reg = regs rs ! base_reg"
    using x(1) sym by (intro add_reg_conflict_keeps) auto
  have "m = length l - Suc i" using Suc.hyps(2) by simp
  moreover have "reg \<in> conflicting ?k base_reg" using Suc.prems(4) k(5) [of base_reg] by simp
  ultimately obtain h where h: "transitive_loop ?k base_reg reg (Suc i) = Some h" "set_wf e h" "regs_count h = regs_count rs"
    "classes h = classes rs" "class_count h = class_count rs" "conflicting h reg = conflicting ?k reg \<union> set (drop (Suc i) l)"
    using Suc.hyps(1) [of "Suc i" ?k] k(1-4) Suc.prems(2,3,5) keep by auto
  have "conflicting h reg = conflicting rs reg \<union> set (drop i l)"
    using h(6) k(5) [of reg] Cons_nth_drop_Suc [OF i] lists_wfD(2) [OF set_wfD(2) [OF Suc.prems(1)] Suc.prems(3)]
    by (auto simp: x_def simp flip: Cons_nth_drop_Suc [OF i])
  moreover have "transitive_loop rs base_reg reg i = Some h"
    using h(1) i w(1) Suc.prems(5) by (subst transitive_loop.simps) (simp add: x_def)
  ultimately show ?case using h by blast
qed

lemma add_transitive_spec:
  assumes "set_wf e rs" "base_reg < regs_count rs" "reg < regs_count rs" "ra_add_transitive_reg_conflict rs base_reg reg = Some h"
  shows "set_wf e h"
proof -
  let ?k = "ra_add_reg_conflict rs reg base_reg"
  note k = add_reg_conflict_spec [OF assms(1,3,2)]
  have loop: "transitive_loop ?k base_reg reg 0 = Some h" using assms(4) by (simp add: ra_add_transitive_reg_conflict_def)
  show ?thesis
  proof (cases "conflict_list (regs ?k ! base_reg)")
    case None
    then have "h = ?k" using loop by (subst (asm) transitive_loop.simps) (simp split: if_splits)
    then show ?thesis using k(1) by simp
  next
    case (Some l)
    have "reg \<in> conflicting ?k base_reg" using k(5) [of base_reg] by simp
    from transitive_loop_spec [OF k(1) _ _ this Some, of 0] loop show ?thesis using assms(2,3) k(2) by auto
  qed
qed

text \<open>
  \<^verbatim>\<open>ra_make_reg_conflicts_transitive\<close> adds the conflicts of a register to all registers it conflicts with. The
  conflict lists do not grow with them.
\<close>

lemma bitset_or_self: "bitset_t_or x x = x"
  by (induction x) (simp_all add: bitset_t_or_def)

lemma or_conflicts_loop:
  fixes r :: nat
  assumes "distinct cs" "set cs \<subseteq> {..<length (regs rs)}"
  defines "h \<equiv> foldl (\<lambda>rs c. or_conflicts rs r c) rs cs"
  shows "length (regs h) = length (regs rs) \<and> regs_count h = regs_count rs \<and> classes h = classes rs \<and> class_count h = class_count rs \<and>
    (\<forall>k<length (regs rs). regs h ! k = (if k \<in> set cs
       then (regs rs ! k)\<lparr>conflicts := bitset_t_or (conflicts (regs rs ! k)) (conflicts (regs rs ! r))\<rparr> else regs rs ! k))"
  unfolding h_def using assms(1,2)
proof (induction cs arbitrary: rs)
  case (Cons c cs)
  let ?k = "or_conflicts rs r c"
  have c: "c < length (regs rs)" "c \<notin> set cs" using Cons.prems by auto
  have k: "length (regs ?k) = length (regs rs)" "regs_count ?k = regs_count rs" "classes ?k = classes rs" "class_count ?k = class_count rs"
    "\<And>j. j < length (regs rs) \<Longrightarrow> regs ?k ! j = (if j = c
       then (regs rs ! j)\<lparr>conflicts := bitset_t_or (conflicts (regs rs ! j)) (conflicts (regs rs ! r))\<rparr> else regs rs ! j)"
    using c(1) by (simp_all add: or_conflicts_def)
  have same: "conflicts (regs ?k ! r) = conflicts (regs rs ! r)"
    using c(1) by (cases "r = c") (simp_all add: or_conflicts_def bitset_or_self)
  from Cons.IH [of ?k] show ?case using Cons.prems k same c(2) by simp
qed simp

lemma make_transitive_spec:
  assumes "set_wf e rs" "r < regs_count rs" "ra_make_reg_conflicts_transitive rs r = Some h"
  shows "set_wf False h"
proof -
  note w = set_wfD [OF assms(1)]
  let ?C = "conflicting rs r"
  let ?cs = "filter (BITSET_TEST (conflicts (regs rs ! r))) [0..<regs_count rs]"
  have cs: "set ?cs = ?C" by (auto simp: conflicting_def bs.elems_def)
  have len: "length (regs rs) = regs_count rs" and ok: "\<And>k. k < regs_count rs \<Longrightarrow> bitset_ok (regs_count rs) (conflicts (regs rs ! k))"
    and sym: "\<And>k j. k < regs_count rs \<Longrightarrow> j < regs_count rs \<Longrightarrow> j \<in> conflicting rs k \<longleftrightarrow> k \<in> conflicting rs j"
    using w(1) by (simp_all add: regs_wf_def)
  have h: "h = foldl (\<lambda>rs c. or_conflicts rs r c) rs ?cs"
    using assms(2,3) BITSET_FOREACH_SET_eq [of "regs_count rs"] by (simp add: ra_make_reg_conflicts_transitive_def)
  have "distinct ?cs" "set ?cs \<subseteq> {..<length (regs rs)}" by (auto simp: len)
  note l = or_conflicts_loop [OF this, of r, folded h, unfolded cs len]
  have at: "regs h ! k = (if k \<in> ?C then (regs rs ! k)\<lparr>conflicts := bitset_t_or (conflicts (regs rs ! k)) (conflicts (regs rs ! r))\<rparr>
      else regs rs ! k)" if "k < regs_count rs" for k using l that by blast
  have cnt: "regs_count h = regs_count rs" using l by blast
  have conf: "conflicting h k = (if k \<in> ?C then conflicting rs k \<union> ?C else conflicting rs k)" if "k < regs_count rs" for k
    using bs.elems_union [OF ok [OF that] ok [OF assms(2)]] at [OF that] by (simp add: conflicting_def cnt)
  show ?thesis
  proof (rule set_wf_classes [OF assms(1) cnt])
    show "bitset_ok (regs_count rs) (conflicts (regs h ! k))" if "k < regs_count rs" for k
      using at [OF that] ok [OF that] bs.ok_union [OF ok [OF that] ok [OF assms(2)]] by simp
    show "j \<in> conflicting h k \<longleftrightarrow> k \<in> conflicting h j" if "k < regs_count rs" "j < regs_count rs" for k j
      using sym [OF that] unfolding conf [OF that(1)] conf [OF that(2)] by auto
    have "k \<in> conflicting h k \<and> list_ok False (regs h ! k) (conflicting h k)" if k: "k < regs_count rs" for k
      using lists_wfD(2,3) [OF w(2) k] conf [OF k] at [OF k] by (auto simp: list_ok_def split: option.splits)
    then show "lists_wf False h" using lists_wfD(1) [OF w(2)] by (simp add: lists_wf_def cnt)
  qed (use l len in simp_all)
qed

section \<open>Classes\<close>

lemma conflicting_cong: "regs h = regs rs \<Longrightarrow> regs_count h = regs_count rs \<Longrightarrow> conflicting h r = conflicting rs r"
  by (simp add: conflicting_def)

definition class_wf :: "bool \<Rightarrow> ra_regs \<Rightarrow> nat \<Rightarrow> bool" where
  "class_wf exact rs c \<longleftrightarrow> bitset_ok (regs_count rs) (class_regs (classes rs ! c)) \<and>
     (exact \<longrightarrow> unat (ra_p (classes rs ! c)) = card (in_class rs c)) \<and>
     (\<forall>b. regs_count rs \<le> b \<and> b < 32 * length (class_regs (classes rs ! c)) \<longrightarrow> \<not> BITSET_TEST (class_regs (classes rs ! c)) b)"

lemma set_wf_same_regs:
  assumes "set_wf e rs" "regs h = regs rs" "regs_count h = regs_count rs" "length (classes h) = class_count h"
    and "\<And>c. c < class_count h \<Longrightarrow> class_wf e h c"
  shows "set_wf e h"
  using assms conflicting_cong [OF assms(2,3)] by (simp add: set_wf_def regs_wf_def lists_wf_def class_wf_def p_exact_def)

lemma set_wf_class: "set_wf e rs \<Longrightarrow> c < class_count rs \<Longrightarrow> class_wf e rs c"
  by (simp add: set_wf_def regs_wf_def class_wf_def p_exact_def)

lemma BITSET_TEST_zeros: "b < 32 * m \<Longrightarrow> \<not> BITSET_TEST (replicate m 0) b"
  by (simp add: BITSET_TEST_iff less_mult_imp_div_less mult.commute)

lemma alloc_reg_class_spec:
  assumes "set_wf e rs"
  shows "set_wf e (fst (ra_alloc_reg_class rs))"
proof (rule set_wf_same_regs [OF assms])
  let ?h = "fst (ra_alloc_reg_class rs)"
  have len: "length (classes rs) = class_count rs" using assms by (simp add: set_wf_def regs_wf_def)
  show "regs ?h = regs rs" "regs_count ?h = regs_count rs" "length (classes ?h) = class_count ?h"
    using len by (simp_all add: ra_alloc_reg_class_def)
  fix c assume c: "c < class_count ?h"
  show "class_wf e ?h c"
  proof (cases "c = class_count rs")
    case True
    then show ?thesis using len bs.ok_zero [of "regs_count rs"]
      by (auto simp: class_wf_def ra_alloc_reg_class_def nth_append in_class_def BITSET_TEST_zeros bs.elems_zero)
  next
    case False
    then have "class_wf e rs c" using c by (intro set_wf_class [OF assms]) (simp add: ra_alloc_reg_class_def)
    then show ?thesis using False c len by (simp add: class_wf_def ra_alloc_reg_class_def nth_append in_class_def)
  qed
qed

lemma BITSET_SET_test_any:
  assumes "BITSET_TEST (BITSET_SET x r) b" "b < 32 * length x" "b \<noteq> r"
  shows "BITSET_TEST x b"
proof (cases "b div 32 = r div 32")
  case True
  then have "b mod 32 \<noteq> r mod 32" using assms(3) same_bit_iff by metis
  then show ?thesis using assms(1,2) True
    by (auto simp: BITSET_TEST_iff BITSET_SET_def BITSET_BITWORD_def BITSET_BIT_def nth_list_update bit_or_iff bit_push_bit_iff bit_1_iff bit_exp_iff split: if_splits)
next
  case False
  then show ?thesis using assms(1) by (simp add: BITSET_TEST_iff BITSET_SET_def BITSET_BITWORD_def)
qed

lemma class_add_reg_spec:
  assumes "set_wf e rs" "c < class_count rs" "r < regs_count rs" "e \<longrightarrow> \<not> reg_belongs_to_class r (classes rs ! c)"
  shows "set_wf e (ra_class_add_reg rs c r)"
proof (rule set_wf_same_regs [OF assms(1)])
  let ?h = "ra_class_add_reg rs c r" let ?N = "regs_count rs"
  have len: "length (classes rs) = class_count rs" and N: "?N \<le> 2 ^ 31"
    using assms(1) by (simp_all add: set_wf_def regs_wf_def lists_wf_def)
  show "regs ?h = regs rs" "regs_count ?h = regs_count rs" "length (classes ?h) = class_count ?h"
    using len by (simp_all add: ra_class_add_reg_def Let_def)
  fix d assume d: "d < class_count ?h"
  then have d': "d < class_count rs" by (simp add: ra_class_add_reg_def Let_def)
  note old = set_wf_class [OF assms(1) d', unfolded class_wf_def]
  show "class_wf e ?h d"
  proof (cases "d = c")
    case True
    let ?x = "class_regs (classes rs ! c)"
    have at: "classes ?h ! c = (classes rs ! c)\<lparr>class_regs := BITSET_SET ?x r, ra_p := ra_p (classes rs ! c) + 1\<rparr>"
      using assms(2) len by (simp add: ra_class_add_reg_def Let_def)
    have cnt: "regs_count ?h = ?N" by (simp add: ra_class_add_reg_def Let_def)
    have ok: "bitset_ok ?N ?x" using old True by simp
    have el: "in_class ?h c = insert r (in_class rs c)" unfolding in_class_def cnt at by (simp add: bs.elems_add [OF ok assms(3)])
    have p: "unat (ra_p (classes rs ! c) + 1) = card (in_class ?h c)" if e
    proof -
      have ni: "r \<notin> in_class rs c" using assms(4) that by (simp add: in_class_def bs.elems_def reg_belongs_to_class_def)
      have card: "card (in_class ?h c) = Suc (card (in_class rs c))" unfolding el using ni by (simp add: in_class_def)
      have "card (in_class ?h c) \<le> ?N"
        using card_mono [OF _ in_class_below [of ?h c]] by (simp add: cnt)
      then show ?thesis using old True that card N by (subst unat_add_no_wrap) simp_all
    qed
    have clean: "\<not> BITSET_TEST (BITSET_SET ?x r) b" if "?N \<le> b" "b < 32 * length ?x" for b
      using BITSET_SET_test_any [of ?x r b] old True that assms(3) by auto
    have "length (BITSET_SET ?x r) = length ?x" by (simp add: BITSET_SET_def)
    then show ?thesis using True p clean bs.ok_add [OF ok assms(3)] by (simp add: class_wf_def at cnt)
  next
    case False
    then show ?thesis using old by (simp add: class_wf_def ra_class_add_reg_def Let_def in_class_def)
  qed
qed

lemma set_wf_robin:
  assumes "set_wf e rs"
  shows "set_wf e (ra_set_allocate_round_robin rs)"
proof (rule set_wf_same_regs [OF assms])
  let ?h = "ra_set_allocate_round_robin rs"
  show "regs ?h = regs rs" "regs_count ?h = regs_count rs" "length (classes ?h) = class_count ?h"
    using assms by (simp_all add: ra_set_allocate_round_robin_def set_wf_def regs_wf_def)
  show "class_wf e ?h c" if "c < class_count ?h" for c
    using set_wf_class [OF assms, of c] that by (simp add: ra_set_allocate_round_robin_def class_wf_def in_class_def)
qed

lemmas set_wf_intros = set_wf_alloc set_wf_robin add_reg_conflict_spec(1) add_transitive_spec alloc_reg_class_spec class_add_reg_spec

lemma reg_set_wf: "reg_set rs \<Longrightarrow> set_wf True rs"
  by (induction rule: reg_set.induct) (auto intro: set_wf_intros)

lemma driver_set_wf: "driver_set rs \<Longrightarrow> set_wf False rs"
  by (induction rule: driver_set.induct) (auto intro: set_wf_intros make_transitive_spec set_wf_weaken [OF set_wf_alloc])

section \<open>The q values\<close>

definition q_value :: "ra_regs \<Rightarrow> nat \<Rightarrow> nat \<Rightarrow> nat" where
  "q_value rs b c = Max (insert 0 ((\<lambda>r. card (in_class rs b \<inter> conflicting rs r)) ` in_class rs c))"

lemma count_conflicts_eq:
  assumes "set_wf True rs" "rc < regs_count rs"
  shows "count_conflicts rs b rc = Some (card (in_class rs b \<inter> conflicting rs rc))"
proof -
  obtain l where l: "conflict_list (regs rs ! rc) = Some l" "num_conflicts (regs rs ! rc) = length l" "distinct l"
    "set l = conflicting rs rc"
    using lists_wfD(3) [OF set_wfD(2) [OF assms(1)] assms(2)] by (auto simp: list_ok_def split: option.splits)
  have "length (filter (\<lambda>rb. reg_belongs_to_class rb (classes rs ! b)) l) = card ({rb. reg_belongs_to_class rb (classes rs ! b)} \<inter> set l)"
    by (rule distinct_length_filter [OF l(3)])
  also have "{rb. reg_belongs_to_class rb (classes rs ! b)} \<inter> set l = in_class rs b \<inter> conflicting rs rc"
    using conflicting_below [of rs rc] l(4) by (auto simp: in_class_def bs.elems_def reg_belongs_to_class_def)
  finally show ?thesis using l(1,2) by (cases "l = []") (simp_all add: count_conflicts_def)
qed

lemma max_conflicts_eq:
  assumes "set_wf True rs"
  shows "set rcs \<subseteq> {..<regs_count rs} \<Longrightarrow> max_conflicts rs b c rcs mx =
    Some (Max (insert mx ((\<lambda>r. card (in_class rs b \<inter> conflicting rs r)) ` (set rcs \<inter> in_class rs c))))"
proof (induction rcs arbitrary: mx)
  case (Cons rc rcs)
  then have rc: "rc < regs_count rs" by simp
  have bel: "reg_belongs_to_class rc (classes rs ! c) \<longleftrightarrow> rc \<in> in_class rs c"
    using rc by (simp add: in_class_def bs.elems_def reg_belongs_to_class_def)
  show ?case
  proof (cases "rc \<in> in_class rs c")
    case True
    let ?f = "\<lambda>r. card (in_class rs b \<inter> conflicting rs r)" let ?S = "?f ` (set rcs \<inter> in_class rs c)"
    have "max_conflicts rs b c (rc # rcs) mx = Some (Max (insert (max mx (?f rc)) ?S))"
      using True bel count_conflicts_eq [OF assms rc] Cons by simp
    also have "Max (insert (max mx (?f rc)) ?S) = Max (insert mx (insert (?f rc) ?S))"
      by (cases "?S = {}") (simp_all add: max.assoc)
    also have "insert mx (insert (?f rc) ?S) = insert mx (?f ` (set (rc # rcs) \<inter> in_class rs c))" using True by auto
    finally show ?thesis .
  next
    case False
    then show ?thesis using bel Cons by simp
  qed
qed simp

lemma collect_eq: "(\<And>x. x \<in> set xs \<Longrightarrow> f x = Some (g x)) \<Longrightarrow> collect f xs = Some (map g xs)"
  by (induction xs) auto

lemma q_value_le: "q_value rs b c \<le> regs_count rs"
proof -
  have "card (in_class rs b \<inter> conflicting rs r) \<le> regs_count rs" for r
    using card_mono [of "{..<regs_count rs}" "in_class rs b \<inter> conflicting rs r"] in_class_below [of rs b] by auto
  moreover have "finite (in_class rs c)" by (simp add: in_class_def)
  ultimately show ?thesis by (simp add: q_value_def)
qed

lemma collect_length: "collect f xs = Some ys \<Longrightarrow> length ys = length xs"
  by (induction xs arbitrary: ys) (auto split: option.splits simp: bind_eq_Some_conv)

text \<open>Finalizing a set keeps its classes and conflicts, whatever the q values are.\<close>

lemma finalize_keeps:
  assumes "set_wf e rs" "ra_set_finalize rs q_values = Some h"
  shows "regs_wf h" "regs_count h = regs_count rs" "class_count h = class_count rs" "regs_count h \<le> 2 ^ 31"
    "\<And>r. r < regs_count rs \<Longrightarrow> conflicting h r = conflicting rs r" "\<And>c. c < class_count rs \<Longrightarrow> in_class h c = in_class rs c"
    "\<And>c. c < class_count rs \<Longrightarrow> ra_p (classes h ! c) = ra_p (classes rs ! c)"
proof -
  obtain qs where h: "h = rs\<lparr>classes := map (\<lambda>b. (classes rs ! b)\<lparr>ra_q := qs ! b\<rparr>) [0..<class_count rs],
      regs := map (\<lambda>r. r\<lparr>conflict_list := None\<rparr>) (regs rs)\<rparr>"
    using assms(2) by (auto simp: ra_set_finalize_def bind_eq_Some_conv)
  note w = set_wfD(1,2) [OF assms(1)]
  have len: "length (regs rs) = regs_count rs" using w(1) by (simp add: regs_wf_def)
  show c: "regs_count h = regs_count rs" "class_count h = class_count rs" by (simp_all add: h)
  show "regs_count h \<le> 2 ^ 31" using lists_wfD(1) [OF w(2)] by (simp add: c)
  show conf: "conflicting h r = conflicting rs r" if "r < regs_count rs" for r
    using that len by (simp add: conflicting_def h)
  show cls: "in_class h c = in_class rs c" "ra_p (classes h ! c) = ra_p (classes rs ! c)" if "c < class_count rs" for c
    using that by (simp_all add: in_class_def h)
  have "bitset_ok (regs_count rs) (conflicts (regs h ! r))" if "r < regs_count rs" for r
    using that len w(1) by (simp add: h regs_wf_def)
  then show "regs_wf h" using w(1) conf c len by (simp add: regs_wf_def h)
qed

lemma finalize_spec:
  assumes "set_wf True rs"
  defines "h \<equiv> rs\<lparr>classes := map (\<lambda>b. (classes rs ! b)\<lparr>ra_q := map (\<lambda>c. of_nat (q_value rs b c)) [0..<class_count rs]\<rparr>) [0..<class_count rs],
      regs := map (\<lambda>r. r\<lparr>conflict_list := None\<rparr>) (regs rs)\<rparr>"
  shows "ra_set_finalize rs None = Some h" "q_sound h"
    "\<forall>b<class_count rs. \<forall>c<class_count rs. unat (ra_q (classes h ! b) ! c) = q_value rs b c"
proof -
  let ?q = "\<lambda>b. map (\<lambda>c. of_nat (q_value rs b c)) [0..<class_count rs]"
  have mx: "max_conflicts rs b c [0..<regs_count rs] 0 = Some (q_value rs b c)" for b c
    using max_conflicts_eq [OF assms(1), of "[0..<regs_count rs]" b c 0] in_class_below [of rs c]
    by (simp add: q_value_def atLeast0LessThan Int_absorb1)
  have row: "collect (\<lambda>c. map_option of_nat (max_conflicts rs b c [0..<regs_count rs] 0)) [0..<class_count rs] = Some (?q b)" for b
    by (rule collect_eq) (simp add: mx)
  have rows: "collect (\<lambda>b. collect (\<lambda>c. map_option of_nat (max_conflicts rs b c [0..<regs_count rs] 0)) [0..<class_count rs]) [0..<class_count rs] =
    Some (map ?q [0..<class_count rs])" by (rule collect_eq) (rule row)
  have nths: "map (\<lambda>b. (classes rs ! b)\<lparr>ra_q := map ?q [0..<class_count rs] ! b\<rparr>) [0..<class_count rs] =
    map (\<lambda>b. (classes rs ! b)\<lparr>ra_q := ?q b\<rparr>) [0..<class_count rs]" by (rule map_cong) simp_all
  show run: "ra_set_finalize rs None = Some h" by (simp add: ra_set_finalize_def rows nths h_def)
  note w = set_wfD [OF assms(1)] and k = finalize_keeps [OF assms(1) run]
  have qle: "q_value rs b c < 2 ^ 32" for b c using q_value_le [of rs b c] lists_wfD(1) [OF w(2)] by simp
  show qv: "\<forall>b<class_count rs. \<forall>c<class_count rs. unat (ra_q (classes h ! b) ! c) = q_value rs b c"
    using qle by (simp add: h_def unat_of_nat)
  show "q_sound h" unfolding q_sound_def k(3)
  proof (intro conjI allI impI ballI)
    show "unat (ra_p (classes h ! c)) \<le> card (in_class h c)" if "c < class_count rs" for c
      using w(3) that k(6,7) [OF that] by (simp add: p_exact_def)
    fix b c r assume b: "b < class_count rs" and cc: "c < class_count rs" and r: "r \<in> in_class h c"
    have rN: "r < regs_count rs" using r in_class_below [of h c] by (auto simp: k(2))
    have "card (in_class rs b \<inter> conflicting rs r) \<le> q_value rs b c"
      unfolding q_value_def using r k(6) [OF cc] by (intro Max_ge) (auto simp: in_class_def)
    then show "card (in_class h b \<inter> conflicting h r) \<le> unat (ra_q (classes h ! b) ! c)"
      using qv b cc k(6) [OF b] k(5) [OF rN] by simp
  qed
qed

section \<open>Building an interference graph\<close>

definition q_below :: "ra_regs \<Rightarrow> nat \<Rightarrow> bool" where
  "q_below rs q \<longleftrightarrow> (\<forall>b<class_count rs. \<forall>c<class_count rs. unat (ra_q (classes rs ! b) ! c) \<le> q)"

text \<open>
  The graphs the interface can build over a finalized register set. There are at most \<open>2 ^ 31\<close> nodes, and the
  number of nodes times the largest q value is below \<open>2 ^ 32 - 1\<close>, so no sum of q values wraps. The
  class of a node may be set at any time; with interferences already there, the q values of the new class
  must not be larger than those that were added to the sums. A callback returns one of the registers it is given.
\<close>

inductive graph_on :: "ra_regs \<Rightarrow> ra_graph \<Rightarrow> bool" for rs where
  graph_on_alloc: "0 < class_count rs \<Longrightarrow> q_below rs q \<Longrightarrow> n * q < 0xFFFFFFFF \<Longrightarrow> n \<le> 2 ^ 31 \<Longrightarrow>
    graph_on rs (ra_alloc_interference_graph rs n)"
| graph_on_class: "graph_on rs g \<Longrightarrow> n < nodes_count g \<Longrightarrow> c < class_count rs \<Longrightarrow>
    \<forall>m\<in>set (neighbours g n). ra_q (classes rs ! c) ! node_class (nodes g ! m) \<le> q_of g n m \<and>
      ra_q (classes rs ! node_class (nodes g ! m)) ! c \<le> q_of g m n \<Longrightarrow>
    graph_on rs (ra_set_node_class g n c)"
| graph_on_edge: "graph_on rs g \<Longrightarrow> n1 < nodes_count g \<Longrightarrow> n2 < nodes_count g \<Longrightarrow>
    ra_add_node_interference g n1 n2 = Some g' \<Longrightarrow> graph_on rs g'"
| graph_on_forced: "graph_on rs g \<Longrightarrow> n < nodes_count g \<Longrightarrow> r < regs_count rs \<Longrightarrow> graph_on rs (ra_set_node_reg g n r)"
| graph_on_callback: "graph_on rs g \<Longrightarrow>
    (\<And>st xs. bs.elems (regs_count rs) xs \<noteq> {} \<Longrightarrow> cb st xs \<in> bs.elems (regs_count rs) xs) \<Longrightarrow>
    graph_on rs (ra_set_select_reg_callback g cb)"

definition driver_graph :: "ra_graph \<Rightarrow> bool" where
  "driver_graph g \<longleftrightarrow> (\<exists>rs q_values rs'. driver_set rs \<and> ra_set_finalize rs q_values = Some rs' \<and> graph_on rs' g)"

text \<open>The graphs whose q values are computed from complete conflict lists.\<close>

definition reg_graph :: "ra_graph \<Rightarrow> bool" where
  "reg_graph g \<longleftrightarrow> (\<exists>rs rs'. reg_set rs \<and> ra_set_finalize rs None = Some rs' \<and> graph_on rs' g)"

lemma reg_graph_driver: "reg_graph g \<Longrightarrow> driver_graph g"
  unfolding reg_graph_def driver_graph_def using reg_set_driver by blast

definition node_wf :: "nat \<Rightarrow> ra_graph \<Rightarrow> nat \<Rightarrow> bool" where
  "node_wf q g n \<longleftrightarrow> node_class (nodes g ! n) < class_count (ra_regs_of g) \<and>
     adjacency_count (nodes g ! n) = length (adjacency_list (nodes g ! n)) \<and>
     bitset_ok (nodes_count g) (adjacency (nodes g ! n)) \<and>
     bs.elems (nodes_count g) (adjacency (nodes g ! n)) = set (neighbours g n) \<and>
     distinct (neighbours g n) \<and> set (neighbours g n) \<subseteq> {..<nodes_count g} - {n} \<and> \<not> in_stack (nodes g ! n) \<and>
     (\<Sum>m\<in>set (neighbours g n). qn g n m) \<le> unat (q_total (nodes g ! n)) \<and>
     unat (q_total (nodes g ! n)) \<le> length (neighbours g n) * q \<and>
     (\<forall>r. node_reg (nodes g ! n) = Some r \<longrightarrow> r < regs_count (ra_regs_of g))"

definition build_inv :: "nat \<Rightarrow> ra_graph \<Rightarrow> bool" where
  "build_inv q g \<longleftrightarrow> regs_wf (ra_regs_of g) \<and> q_below (ra_regs_of g) q \<and>
     nodes_count g * q < 0xFFFFFFFF \<and> nodes_count g \<le> 2 ^ 31 \<and>
     length (nodes g) = nodes_count g \<and> length (stack g) = nodes_count g \<and> stack_count g = 0 \<and> callback_ok g \<and>
     (\<forall>n<nodes_count g. node_wf q g n) \<and>
     (\<forall>n<nodes_count g. \<forall>m<nodes_count g. m \<in> set (neighbours g n) \<longleftrightarrow> n \<in> set (neighbours g m))"

lemma node_wfD:
  assumes "node_wf q g n"
  shows "node_class (nodes g ! n) < class_count (ra_regs_of g)" "distinct (neighbours g n)"
    "set (neighbours g n) \<subseteq> {..<nodes_count g} - {n}" "\<not> in_stack (nodes g ! n)"
    "(\<Sum>m\<in>set (neighbours g n). qn g n m) \<le> unat (q_total (nodes g ! n))"
    "unat (q_total (nodes g ! n)) \<le> length (neighbours g n) * q"
    "\<forall>r. node_reg (nodes g ! n) = Some r \<longrightarrow> r < regs_count (ra_regs_of g)"
  using assms unfolding node_wf_def by blast+

text \<open>A node has fewer neighbours than there are nodes.\<close>

lemma few_neighbours:
  assumes "distinct xs" "set xs \<subseteq> {..<k} - {n}" "n < k"
  shows "length xs < k"
proof -
  have "card (set xs) \<le> card ({..<k} - {n})" using assms(2) by (intro card_mono) simp_all
  then show ?thesis using assms(1,3) by (simp add: distinct_card)
qed

lemma build_inv_simp:
  assumes "build_inv q g"
  shows "simp_inv g" "callback_ok g" "all_trivial g"
    "\<forall>n<nodes_count g. \<forall>r. node_reg (nodes g ! n) = Some r \<longrightarrow> r < regs_count (ra_regs_of g)" "stacked g = {}"
proof -
  have n: "node_wf q g n" if "n < nodes_count g" for n using assms that by (simp add: build_inv_def)
  show st: "stacked g = {}" using node_wfD(4) [OF n] by (auto simp: stacked_def)
  have "q_total (nodes g ! k) < 0xFFFFFFFF" if k: "k < nodes_count g" for k
  proof -
    have "length (neighbours g k) * q \<le> nodes_count g * q"
      using few_neighbours [OF node_wfD(2,3) [OF n [OF k]] k] by (intro mult_le_mono1) simp
    moreover have "nodes_count g * q < 0xFFFFFFFF" using assms by (simp add: build_inv_def)
    ultimately have "unat (q_total (nodes g ! k)) < 0xFFFFFFFF" using node_wfD(6) [OF n [OF k]] by linarith
    then show ?thesis by (simp add: word_less_nat_alt)
  qed
  then have "q_wf g" using node_wfD(5) [OF n] by (simp add: q_wf_def st)
  moreover have "graph_wf g" using assms node_wfD(1-3) [OF n] unfolding graph_wf_def build_inv_def by blast
  moreover have "stack_wf g" using assms st by (simp add: stack_wf_def build_inv_def)
  ultimately show "simp_inv g" by (simp add: simp_inv_def)
  show "callback_ok g" "all_trivial g" "\<forall>n<nodes_count g. \<forall>r. node_reg (nodes g ! n) = Some r \<longrightarrow> r < regs_count (ra_regs_of g)"
    using assms node_wfD(7) [OF n] by (simp_all add: build_inv_def all_trivial_def)
qed

lemma build_inv_alloc:
  assumes "regs_wf rs" "0 < class_count rs" "q_below rs q" "n * q < 0xFFFFFFFF" "n \<le> 2 ^ 31"
  shows "build_inv q (ra_alloc_interference_graph rs n)"
proof -
  have "bs.elems n (replicate (BITSET_WORDS n) 0) = {}" by (rule bs.elems_zero)
  then show ?thesis using assms bs.ok_zero [of n]
    by (simp add: build_inv_def ra_alloc_interference_graph_def node_wf_def callback_ok_def)
qed

text \<open>A node that stays as it is, with neighbours whose q values are not larger than before.\<close>

lemma node_wf_mono:
  assumes "ra_regs_of h = ra_regs_of g" "nodes_count h = nodes_count g"
    and "nodes h ! n = (nodes g ! n)\<lparr>node_class := c, node_reg := r\<rparr>" "c < class_count (ra_regs_of g)"
    and "\<forall>x. r = Some x \<longrightarrow> x < regs_count (ra_regs_of g)"
    and "\<And>m. m \<in> set (neighbours g n) \<Longrightarrow> q_of h n m \<le> q_of g n m" "node_wf q g n"
  shows "node_wf q h n"
proof -
  have "(\<Sum>m\<in>set (neighbours g n). qn h n m) \<le> (\<Sum>m\<in>set (neighbours g n). qn g n m)"
    using assms(6) by (intro sum_mono) (simp add: word_le_nat_alt)
  also have "\<dots> \<le> unat (q_total (nodes g ! n))" by (rule node_wfD(5) [OF assms(7)])
  finally show ?thesis using assms(4,5,7) by (auto simp: node_wf_def assms(1-3))
qed

lemma build_inv_class:
  assumes "build_inv q g" "n < nodes_count g" "c < class_count (ra_regs_of g)"
    and "\<forall>m\<in>set (neighbours g n). ra_q (classes (ra_regs_of g) ! c) ! node_class (nodes g ! m) \<le> q_of g n m \<and>
      ra_q (classes (ra_regs_of g) ! node_class (nodes g ! m)) ! c \<le> q_of g m n"
  shows "build_inv q (ra_set_node_class g n c)"
proof -
  let ?h = "ra_set_node_class g n c"
  have len: "length (nodes g) = nodes_count g" and wf: "\<And>k. k < nodes_count g \<Longrightarrow> node_wf q g k"
    and sym: "\<And>k m. k < nodes_count g \<Longrightarrow> m < nodes_count g \<Longrightarrow> m \<in> set (neighbours g k) \<longleftrightarrow> k \<in> set (neighbours g m)"
    using assms(1) by (simp_all add: build_inv_def)
  have at: "nodes ?h ! k = (if k = n then (nodes g ! k)\<lparr>node_class := c\<rparr> else nodes g ! k)" if "k < nodes_count g" for k
    using that len by (simp add: ra_set_node_class_def nodes_upd_node)
  have s: "ra_regs_of ?h = ra_regs_of g" "nodes_count ?h = nodes_count g" "stack ?h = stack g" "stack_count ?h = stack_count g"
    "length (nodes ?h) = length (nodes g)" "select_reg_callback ?h = select_reg_callback g"
    by (simp_all add: ra_set_node_class_def)
  have nb: "neighbours ?h k = neighbours g k" if "k < nodes_count g" for k using at [OF that] by simp
  have "node_wf q ?h k" if k: "k < nodes_count g" for k
  proof (rule node_wf_mono [OF s(1,2) _ _ _ _ wf [OF k]])
    show "nodes ?h ! k = (nodes g ! k)\<lparr>node_class := (if k = n then c else node_class (nodes g ! k)), node_reg := node_reg (nodes g ! k)\<rparr>"
      using at [OF k] by simp
    fix m assume m: "m \<in> set (neighbours g k)"
    then have ml: "m < nodes_count g" "m \<noteq> k" using node_wfD(3) [OF wf [OF k]] by auto
    have "n \<in> set (neighbours g k) \<Longrightarrow> k \<in> set (neighbours g n)" using sym [OF k assms(2)] by simp
    then show "q_of ?h k m \<le> q_of g k m"
      using assms(4) m at [OF k] at [OF ml(1)] ml(2) by (auto simp: q_of_def s)
  qed (use assms(3) node_wfD(1,7) [OF wf [OF k]] in simp_all)
  then show ?thesis using assms(1) nb s unfolding build_inv_def callback_ok_def by simp
qed

text \<open>The node \<open>n1\<close> after \<^verbatim>\<open>ra_add_node_adjacency\<close>.\<close>

definition with_edge :: "ra_graph \<Rightarrow> nat \<Rightarrow> nat \<Rightarrow> ra_node" where
  "with_edge g n1 n2 = (nodes g ! n1)\<lparr>adjacency := BITSET_SET (adjacency (nodes g ! n1)) n2,
     q_total := q_total (nodes g ! n1) + q_of g n1 n2,
     adjacency_list_size := (if adjacency_list_size (nodes g ! n1) \<le> adjacency_count (nodes g ! n1)
       then adjacency_list_size (nodes g ! n1) * 2 else adjacency_list_size (nodes g ! n1)),
     adjacency_list := neighbours g n1 @ [n2], adjacency_count := adjacency_count (nodes g ! n1) + 1\<rparr>"

lemma with_edge_wf:
  assumes "build_inv q g" "n1 < nodes_count g" "n2 < nodes_count g" "n1 \<noteq> n2" "n2 \<notin> set (neighbours g n1)"
    and h: "ra_regs_of h = ra_regs_of g" "nodes_count h = nodes_count g" "nodes h ! n1 = with_edge g n1 n2"
      "\<And>m. m < nodes_count g \<Longrightarrow> node_class (nodes h ! m) = node_class (nodes g ! m)"
  shows "node_wf q h n1" "neighbours h n1 = neighbours g n1 @ [n2]"
proof -
  have wf: "node_wf q g n1" "node_wf q g n2" and qb: "q_below (ra_regs_of g) q" and b: "nodes_count g * q < 0xFFFFFFFF"
    using assms(1-3) by (simp_all add: build_inv_def)
  note w = node_wfD [OF wf(1)]
  let ?S = "\<Sum>m\<in>set (neighbours g n1). qn g n1 m" let ?t = "unat (q_total (nodes g ! n1))"
  have cnt: "adjacency_count (nodes g ! n1) = length (neighbours g n1)" using wf(1) by (simp add: node_wf_def)
  show nb: "neighbours h n1 = neighbours g n1 @ [n2]" using cnt by (simp add: h(3) with_edge_def)
  have qh: "qn h n1 m = qn g n1 m" if "m < nodes_count g" for m
    by (simp add: q_of_def h(1) h(4) [OF assms(2)] h(4) [OF that])
  have sum: "(\<Sum>m\<in>set (neighbours g n1 @ [n2]). qn h n1 m) = ?S + qn g n1 n2"
  proof -
    have "(\<Sum>m\<in>set (neighbours g n1 @ [n2]). qn h n1 m) = (\<Sum>m\<in>insert n2 (set (neighbours g n1)). qn g n1 m)"
      using w(3) assms(3) qh by (intro sum.cong) auto
    then show ?thesis using assms(5) by (simp add: add.commute)
  qed
  have dist: "distinct (neighbours g n1 @ [n2])" using w(2) assms(5) by simp
  have sub: "set (neighbours g n1 @ [n2]) \<subseteq> {..<nodes_count g} - {n1}" using w(3) assms(3,4) by auto
  have "qn g n1 n2 \<le> q" using qb w(1) node_wfD(1) [OF wf(2)] by (simp add: q_of_def q_below_def)
  then have up: "?t + qn g n1 n2 \<le> length (neighbours g n1 @ [n2]) * q" using w(6) by simp
  moreover have "length (neighbours g n1 @ [n2]) * q \<le> nodes_count g * q"
    using few_neighbours [OF dist sub assms(2)] by (intro mult_le_mono1) simp
  ultimately have "?t + qn g n1 n2 < 0xFFFFFFFF" using b by linarith
  then have qt: "unat (q_total (nodes g ! n1) + q_of g n1 n2) = ?t + qn g n1 n2" by (subst unat_add_no_wrap) simp_all
  have ok: "bitset_ok (nodes_count g) (adjacency (nodes g ! n1))"
    "bs.elems (nodes_count g) (adjacency (nodes g ! n1)) = set (neighbours g n1)" using wf(1) unfolding node_wf_def by blast+
  show "node_wf q h n1" unfolding node_wf_def nb h(1,2) sum
  proof (intro conjI)
    show "bitset_ok (nodes_count g) (adjacency (nodes h ! n1))" using bs.ok_add [OF ok(1) assms(3)] by (simp add: h(3) with_edge_def)
    show "bs.elems (nodes_count g) (adjacency (nodes h ! n1)) = set (neighbours g n1 @ [n2])"
      using bs.elems_add [OF ok(1) assms(3)] ok(2) by (simp add: h(3) with_edge_def)
    have "q_total (nodes h ! n1) = q_total (nodes g ! n1) + q_of g n1 n2" by (simp add: h(3) with_edge_def)
    then show "?S + qn g n1 n2 \<le> unat (q_total (nodes h ! n1))" "unat (q_total (nodes h ! n1)) \<le> length (neighbours g n1 @ [n2]) * q"
      using qt w(5) up by simp_all
    show "adjacency_count (nodes h ! n1) = length (adjacency_list (nodes h ! n1))" using cnt by (simp add: h(3) with_edge_def)
    show "node_class (nodes h ! n1) < class_count (ra_regs_of g)" "\<not> in_stack (nodes h ! n1)"
      "\<forall>r. node_reg (nodes h ! n1) = Some r \<longrightarrow> r < regs_count (ra_regs_of g)"
      using w by (simp_all add: h(3) with_edge_def)
  qed (rule dist sub)+
qed

lemma add_interference_spec:
  assumes "build_inv q g" "n1 < nodes_count g" "n2 < nodes_count g"
  shows "\<exists>h. ra_add_node_interference g n1 n2 = Some h \<and> build_inv q h \<and> nodes_count h = nodes_count g \<and>
    ra_regs_of h = ra_regs_of g \<and> (\<forall>n<nodes_count g. set (neighbours h n) = set (neighbours g n) \<union>
      (if n1 \<noteq> n2 \<and> n = n1 then {n2} else {}) \<union> (if n1 \<noteq> n2 \<and> n = n2 then {n1} else {}))"
proof -
  have len: "length (nodes g) = nodes_count g"
    and sym: "\<And>n m. n < nodes_count g \<Longrightarrow> m < nodes_count g \<Longrightarrow> m \<in> set (neighbours g n) \<longleftrightarrow> n \<in> set (neighbours g m)"
    and wf: "\<And>n. n < nodes_count g \<Longrightarrow> node_wf q g n" using assms(1) by (simp_all add: build_inv_def)
  have test: "BITSET_TEST (adjacency (nodes g ! n1)) n2 \<longleftrightarrow> n2 \<in> set (neighbours g n1)"
    using wf [OF assms(2)] assms(3) unfolding node_wf_def bs.elems_def by blast
  show ?thesis
  proof (cases "n1 \<noteq> n2 \<and> n2 \<notin> set (neighbours g n1)")
    case False
    then have "ra_add_node_interference g n1 n2 = Some g" using test by (auto simp: ra_add_node_interference_def)
    then show ?thesis using False assms(1) sym [OF assms(2,3)] by auto
  next
    case True
    then have ne: "n1 \<noteq> n2" "n2 \<notin> set (neighbours g n1)" "n1 \<notin> set (neighbours g n2)" using sym [OF assms(2,3)] by simp_all
    define h where "h = g\<lparr>nodes := (nodes g)[n1 := with_edge g n1 n2, n2 := with_edge g n2 n1]\<rparr>"
    have at: "nodes h ! k = (if k = n1 then with_edge g n1 n2 else if k = n2 then with_edge g n2 n1 else nodes g ! k)"
      if "k < nodes_count g" for k using that len ne(1) by (simp add: h_def nth_list_update)
    have run: "ra_add_node_interference g n1 n2 = Some h"
      using ne test len assms(2,3)
      by (simp add: ra_add_node_interference_def ra_add_node_adjacency_def upd_node_def h_def with_edge_def q_of_def nth_list_update)
    have s: "ra_regs_of h = ra_regs_of g" "nodes_count h = nodes_count g" "stack h = stack g" "stack_count h = stack_count g"
      "length (nodes h) = length (nodes g)" "select_reg_callback h = select_reg_callback g" by (simp_all add: h_def)
    have cls: "node_class (nodes h ! k) = node_class (nodes g ! k)" if "k < nodes_count g" for k
      using at [OF that] by (simp add: with_edge_def)
    note w1 = with_edge_wf [OF assms(1-3) ne(1,2) s(1,2) _ cls] note w2 = with_edge_wf [OF assms(1,3,2) ne(1) [symmetric] ne(3) s(1,2) _ cls]
    have e1: "nodes h ! n1 = with_edge g n1 n2" "nodes h ! n2 = with_edge g n2 n1" using at assms(2,3) ne(1) by simp_all
    have nb: "set (neighbours h n) = set (neighbours g n) \<union> (if n = n1 then {n2} else {}) \<union> (if n = n2 then {n1} else {})"
      if "n < nodes_count g" for n
      using w1(2) [OF e1(1)] w2(2) [OF e1(2)] at [OF that] ne(1) by (cases "n = n1"; cases "n = n2") auto
    have "node_wf q h k" if k: "k < nodes_count g" for k
    proof -
      consider "k = n1" | "k = n2" | "k \<noteq> n1" "k \<noteq> n2" by blast
      then show ?thesis
      proof cases
        case 3
        have "q_of h k m = q_of g k m" if "m \<in> set (neighbours g k)" for m
          using that cls [OF k] cls [of m] node_wfD(3) [OF wf [OF k]] by (auto simp: q_of_def s)
        then show ?thesis using 3 at [OF k] node_wfD(1,7) [OF wf [OF k]]
          by (intro node_wf_mono [where c = "node_class (nodes g ! k)" and r = "node_reg (nodes g ! k)", OF s(1,2) _ _ _ _ wf [OF k]]) simp_all
      qed (use w1(1) [OF e1(1)] w2(1) [OF e1(2)] in simp_all)
    qed
    moreover have "m \<in> set (neighbours h n) \<longleftrightarrow> n \<in> set (neighbours h m)" if "n < nodes_count g" "m < nodes_count g" for n m
      using sym [OF that] unfolding nb [OF that(1)] nb [OF that(2)] by auto
    ultimately have "build_inv q h" using assms(1) s unfolding build_inv_def callback_ok_def by simp
    then show ?thesis using run s nb ne(1) by auto
  qed
qed

lemma graph_on_inv:
  assumes "graph_on rs g" "regs_wf rs"
  shows "ra_regs_of g = rs \<and> (\<exists>q. build_inv q g)"
  using assms
proof (induction rule: graph_on.induct)
  case (graph_on_alloc q n)
  then show ?case using build_inv_alloc [of rs q n] by (auto simp: ra_alloc_interference_graph_def)
next
  case (graph_on_class g n c)
  then obtain q where "build_inv q g" "ra_regs_of g = rs" by blast
  then show ?case using build_inv_class [of q g n c] graph_on_class by (auto simp: ra_set_node_class_def)
next
  case (graph_on_edge g n1 n2 g')
  then obtain q where "build_inv q g" "ra_regs_of g = rs" by blast
  then show ?case using add_interference_spec [of q g n1 n2] graph_on_edge by auto
next
  case (graph_on_forced g n r)
  then obtain q where g: "build_inv q g" "ra_regs_of g = rs" by blast
  let ?h = "ra_set_node_reg g n r"
  have len: "length (nodes g) = nodes_count g" and wf: "\<And>k. k < nodes_count g \<Longrightarrow> node_wf q g k" using g by (simp_all add: build_inv_def)
  have at: "nodes ?h ! k = (nodes g ! k)\<lparr>node_class := node_class (nodes g ! k), node_reg := (if k = n then Some r else node_reg (nodes g ! k))\<rparr>"
    if "k < nodes_count g" for k
    using that len node_wfD(4) [OF wf [OF that]] by (simp add: ra_set_node_reg_def nodes_upd_node)
  have s: "ra_regs_of ?h = ra_regs_of g" "nodes_count ?h = nodes_count g" "stack ?h = stack g" "stack_count ?h = stack_count g"
    "length (nodes ?h) = length (nodes g)" "select_reg_callback ?h = select_reg_callback g"
    by (simp_all add: ra_set_node_reg_def)
  have nb: "neighbours ?h k = neighbours g k" if "k < nodes_count g" for k using at [OF that] by simp
  have "node_wf q ?h k" if k: "k < nodes_count g" for k
  proof (rule node_wf_mono [OF s(1,2) at [OF k] _ _ _ wf [OF k]])
    show "q_of ?h k m \<le> q_of g k m" if "m \<in> set (neighbours g k)" for m
      using that node_wfD(3) [OF wf [OF k]] at [OF k] at [of m] by (auto simp: q_of_def s)
  qed (use node_wfD(1,7) [OF wf [OF k]] graph_on_forced(3) g(2) in simp_all)
  then have "build_inv q ?h" using g(1) nb s unfolding build_inv_def callback_ok_def by simp
  then show ?case using g(2) s by auto
next
  case (graph_on_callback g cb)
  then obtain q where g: "build_inv q g" "ra_regs_of g = rs" by blast
  let ?h = "ra_set_select_reg_callback g cb"
  have s: "ra_regs_of ?h = ra_regs_of g" "nodes ?h = nodes g" "nodes_count ?h = nodes_count g" "stack ?h = stack g"
    "stack_count ?h = stack_count g" by (simp_all add: ra_set_select_reg_callback_def)
  have "node_wf q ?h k = node_wf q g k" for k by (simp add: node_wf_def s q_of_def)
  then have "build_inv q ?h" using g graph_on_callback(2) unfolding build_inv_def s callback_ok_def
    by (simp add: ra_set_select_reg_callback_def)
  then show ?case using g(2) s by auto
qed

lemma driver_graph_inv:
  assumes "driver_graph g"
  obtains q where "build_inv q g"
proof -
  obtain rs qv rs' where r: "driver_set rs" "ra_set_finalize rs qv = Some rs'" "graph_on rs' g" using assms by (auto simp: driver_graph_def)
  from graph_on_inv [OF r(3) finalize_keeps(1) [OF driver_set_wf [OF r(1)] r(2)]] show ?thesis using that by blast
qed

lemma reg_graph_inv:
  assumes "reg_graph g"
  obtains q where "build_inv q g" "q_sound (ra_regs_of g)"
proof -
  obtain rs rs' where r: "reg_set rs" "ra_set_finalize rs None = Some rs'" "graph_on rs' g" using assms by (auto simp: reg_graph_def)
  note w = reg_set_wf [OF r(1)]
  have "q_sound rs'" using finalize_spec(1,2) [OF w] r(2) by simp
  with graph_on_inv [OF r(3) finalize_keeps(1) [OF w r(2)]] show ?thesis using that by auto
qed

section \<open>Allocation on built graphs\<close>

lemma ra_allocate_spec:
  assumes "build_inv q g"
  defines "pre \<equiv> {n. n < nodes_count g \<and> node_reg (nodes g ! n) \<noteq> None}"
  shows "\<exists>s h b. ra_simplify g = Some s \<and> ra_allocate g = Some (h, b) \<and> same_graph g h \<and>
    (\<forall>n\<in>pre. node_reg (nodes h ! n) = node_reg (nodes g ! n)) \<and>
    (\<forall>n<nodes_count g. node_reg (nodes s ! n) \<noteq> None \<or> in_stack (nodes s ! n)) \<and>
    (b \<longrightarrow> sel_inv pre h \<and> stacked h = {}) \<and>
    (q_sound (ra_regs_of g) \<and> stack_optimistic_start s = 0xFFFFFFFF \<and>
      (\<forall>n\<in>pre. reg_of g n \<in> in_class (ra_regs_of g) (node_class (nodes g ! n))) \<longrightarrow> b)"
proof -
  note bi = build_inv_simp [OF assms(1)]
  obtain s0 st where s0: "simplify_loop g 0xFFFFFFFF = Some (s0, st)" "simplified g 0xFFFFFFFF (s0, st)"
    using simplify_loop_spec [OF bi(1), of "0xFFFFFFFF"] by auto
  have i0: "simp_inv s0" "same_regs g s0" "\<forall>i<nodes_count g. \<not> open_node s0 i" "st = 0xFFFFFFFF \<longrightarrow> all_trivial s0"
    using s0(2) bi(3) by (simp_all add: simplified_def)
  define s where "s = s0\<lparr>stack_optimistic_start := st\<rparr>"
  have run: "ra_simplify g = Some s" by (simp add: ra_simplify_def s0(1) s_def)
  have nodes: "nodes s = nodes s0" "nodes_count s = nodes_count g" "ra_regs_of s = ra_regs_of g"
    "select_reg_callback s = select_reg_callback g"
    using i0(2) by (simp_all add: s_def same_regs_def same_graph_def)
  have sg: "same_graph g s" using i0(2) by (simp add: s_def same_regs_def same_graph_def)
  have same: "simp_inv s \<longleftrightarrow> simp_inv s0" "all_trivial s \<longleftrightarrow> all_trivial s0" "stacked s = stacked s0"
    by (simp_all add: s_def simp_inv_def graph_wf_def stack_wf_def q_wf_def all_trivial_def stacked_def q_of_def)
  have reg: "node_reg (nodes s ! n) = node_reg (nodes g ! n)" if "n < nodes_count g" for n
    using i0(2) that by (simp add: same_regs_def nodes)
  have pre: "pre = {n. n < nodes_count s \<and> node_reg (nodes s ! n) \<noteq> None}" using reg by (auto simp: pre_def nodes)
  have op: "\<forall>i<nodes_count s. \<not> open_node s i" using i0(3) by (simp add: open_node_def nodes)
  have small: "\<forall>n<nodes_count s. \<forall>r. node_reg (nodes s ! n) = Some r \<longrightarrow> r < regs_count (ra_regs_of s)"
    using bi(4) reg by (simp add: nodes)
  note si = sel_inv_simplified [OF _ op small, folded pre]
  have sel: "sel_inv pre s" "stacked s \<inter> pre = {}" using si i0(1) same(1) by simp_all
  have cb: "callback_ok s" using bi(2) by (simp add: callback_ok_def nodes)
  obtain h b where r: "ra_select_loop s 0 = Some (h, b)" "selected pre s (h, b)"
    using ra_select_loop_spec [OF sel(1) cb sel(2), of 0] by auto
  have all: "ra_allocate g = Some (h, b)" by (simp add: ra_allocate_def run ra_select_def r(1))
  have off: "n \<in> pre" if "n < nodes_count g" "n \<notin> stacked s" for n
    using op that reg by (auto simp: open_node_def stacked_def pre_def nodes)
  have own: "in_own_class s" if "\<forall>n\<in>pre. reg_of g n \<in> in_class (ra_regs_of g) (node_class (nodes g ! n))"
    unfolding in_own_class_def
  proof (intro allI impI)
    fix n assume n: "n < nodes_count s" "n \<notin> stacked s"
    then have "n \<in> pre" using off nodes by simp
    with that have "reg_of g n \<in> in_class (ra_regs_of g) (node_class (nodes g ! n))" by blast
    moreover have "node_class (nodes s ! n) = node_class (nodes g ! n)"
      using sg n(1) nodes(2) assms(1) by (simp add: same_graph_def same_node_def build_inv_def)
    ultimately show "reg_of s n \<in> in_class (ra_regs_of s) (node_class (nodes s ! n))"
      using reg n(1) nodes by (simp add: reg_of_def)
  qed
  have keep: "\<forall>n\<in>pre. node_reg (nodes h ! n) = node_reg (nodes g ! n)"
    using r(2) reg sel(2) by (auto simp: selected_def pre_def nodes)
  have pushed: "\<forall>n<nodes_count g. node_reg (nodes s ! n) \<noteq> None \<or> in_stack (nodes s ! n)"
    using op by (auto simp: open_node_def nodes)
  have "stack_optimistic_start s = st" by (simp add: s_def)
  then show ?thesis using run all keep pushed r(2) same_graph_trans [OF sg] own i0(4) same(2)
    by (intro exI [of _ s] exI [of _ h] exI [of _ b]) (auto simp: selected_def nodes)
qed

lemma allocation_at:
  assumes "build_inv q g" "same_graph g h"
    and "\<forall>n\<in>{n. n < nodes_count g \<and> node_reg (nodes g ! n) \<noteq> None}. node_reg (nodes h ! n) = node_reg (nodes g ! n)"
    and "sel_inv {n. n < nodes_count g \<and> node_reg (nodes g ! n) \<noteq> None} h" "stacked h = {}" "n < nodes_count g"
  shows "\<exists>r. ra_get_node_reg h n = Some r \<and> r < regs_count (ra_regs_of g) \<and>
         (case ra_get_node_reg g n of
            Some f \<Rightarrow> r = f
          | None \<Rightarrow> reg_belongs_to_class r (classes (ra_regs_of g) ! node_class (nodes g ! n))) \<and>
         (\<forall>m\<in>set (neighbours g n). \<forall>q. ra_get_node_reg h m = Some q \<longrightarrow>
            ra_get_node_reg g n = None \<or> ra_get_node_reg g m = None \<longrightarrow>
            \<not> BITSET_TEST (conflicts (regs (ra_regs_of g) ! r)) q)"
proof -
  let ?pre = "{n. n < nodes_count g \<and> node_reg (nodes g ! n) \<noteq> None}"
  have c: "nodes_count h = nodes_count g" "ra_regs_of h = ra_regs_of g" "length (nodes g) = nodes_count g"
    using assms(1,2) by (simp_all add: same_graph_def build_inv_def)
  have nb: "neighbours h k = neighbours g k" "node_class (nodes h ! k) = node_class (nodes g ! k)" if "k < nodes_count g" for k
    using assms(2) that c(3) by (simp_all add: same_graph_def same_node_def)
  have reg: "\<exists>x. node_reg (nodes h ! k) = Some x \<and> x < regs_count (ra_regs_of g) \<and>
    (k \<notin> ?pre \<longrightarrow> x \<in> in_class (ra_regs_of g) (node_class (nodes g ! k)))" if "k < nodes_count g" for k
    using sel_reg [OF assms(4), of k] assms(5) that nb(2) [OF that] by (simp add: c)
  obtain r where r: "node_reg (nodes h ! n) = Some r" "r < regs_count (ra_regs_of g)"
    "n \<notin> ?pre \<longrightarrow> r \<in> in_class (ra_regs_of g) (node_class (nodes g ! n))" using reg [OF assms(6)] by blast
  have "\<not> BITSET_TEST (conflicts (regs (ra_regs_of g) ! r)) q"
    if m: "m \<in> set (neighbours g n)" and q: "node_reg (nodes h ! m) = Some q"
      and f: "node_reg (nodes g ! n) = None \<or> node_reg (nodes g ! m) = None" for m q
  proof -
    have ml: "m < nodes_count g" using assms(1,6) m unfolding build_inv_def node_wf_def by blast
    have "\<forall>n<nodes_count h. \<forall>m\<in>set (neighbours h n). n \<notin> stacked h \<and> m \<notin> stacked h \<and> \<not> (n \<in> ?pre \<and> m \<in> ?pre) \<longrightarrow>
        reg_of h m \<notin> conflicting (ra_regs_of h) (reg_of h n)" using assms(4) by (simp add: sel_inv_def)
    then have "reg_of h m \<notin> conflicting (ra_regs_of g) (reg_of h n)"
      using m f assms(5,6) nb(1) [OF assms(6)] by (auto simp: c)
    moreover have "q < regs_count (ra_regs_of g)" using reg [OF ml] q by simp
    ultimately show ?thesis using r(1) q by (simp add: reg_of_def conflicting_def bs.elems_def)
  qed
  moreover have "case node_reg (nodes g ! n) of Some f \<Rightarrow> r = f
      | None \<Rightarrow> reg_belongs_to_class r (classes (ra_regs_of g) ! node_class (nodes g ! n))"
    using r assms(3,6) by (cases "node_reg (nodes g ! n)") (auto simp: in_class_def bs.elems_def reg_belongs_to_class_def)
  ultimately show ?thesis using r(1,2) unfolding ra_get_node_reg_def by blast
qed

lemma simplify_stack:
  assumes "build_inv q g"
  shows "\<exists>s. ra_simplify g = Some s \<and> distinct (take (stack_count s) (stack s)) \<and>
    set (take (stack_count s) (stack s)) = {n. n < nodes_count g \<and> ra_get_node_reg g n = None}"
proof -
  note bi = build_inv_simp [OF assms]
  obtain s st where s: "simplify_loop g 0xFFFFFFFF = Some (s, st)" "simplified g 0xFFFFFFFF (s, st)"
    using simplify_loop_spec [OF bi(1), of "0xFFFFFFFF"] by auto
  have i: "stack_wf s" "same_regs g s" "\<forall>i<nodes_count g. \<not> open_node s i"
    using s(2) by (simp_all add: simplified_def simp_inv_def)
  have c: "nodes_count s = nodes_count g" using i(2) by (simp add: same_regs_def same_graph_def)
  have reg: "node_reg (nodes s ! n) = node_reg (nodes g ! n)" if "n < nodes_count g" for n using i(2) that by (simp add: same_regs_def)
  have "stacked s = {n. n < nodes_count g \<and> node_reg (nodes g ! n) = None}"
    using i(1,3) reg by (auto simp: stack_wf_def open_node_def stacked_def c)
  then show ?thesis using i(1) s(1) by (auto simp: ra_simplify_def stack_wf_def ra_get_node_reg_def)
qed

section \<open>Properties\<close>

text \<open>
  A sample: two registers that do not conflict, one class of both, two interfering nodes.
\<close>

definition sample_regs :: ra_regs where
  "sample_regs = ra_class_add_reg (ra_class_add_reg (fst (ra_alloc_reg_class (ra_alloc_reg_set 2 True))) 0 0) 0 1"

lemma sample_reg_set: "reg_set sample_regs"
  unfolding sample_regs_def
  by (intro reg_set_member reg_set_class reg_set_alloc)
    (simp_all add: ra_alloc_reg_set_def ra_alloc_reg_class_def ra_class_add_reg_def reg_belongs_to_class_def
      BITSET_TEST_def BITSET_SET_def BITSET_BITWORD_def BITSET_BIT_def BITSET_WORDS_def)

definition sample_final :: ra_regs where
  "sample_final = (case ra_set_finalize sample_regs None of Some rs \<Rightarrow> rs | None \<Rightarrow> sample_regs)"

lemma sample_final: "ra_set_finalize sample_regs None = Some sample_final"
  using finalize_spec(1) [OF reg_set_wf [OF sample_reg_set]] by (simp add: sample_final_def)

lemma sample_final_eq: "sample_final =
  \<lparr>regs = [\<lparr>conflicts = [1], conflict_list = None, conflict_list_size = 4, num_conflicts = 1\<rparr>,
           \<lparr>conflicts = [2], conflict_list = None, conflict_list_size = 4, num_conflicts = 1\<rparr>],
   regs_count = 2, classes = [\<lparr>class_regs = [3], ra_p = 2, ra_q = [1]\<rparr>], class_count = 1, round_robin = False\<rparr>"
  by (simp add: sample_final_def sample_regs_def ra_set_finalize_def ra_class_add_reg_def ra_alloc_reg_class_def ra_alloc_reg_set_def
     reg_belongs_to_class_def count_conflicts_def BITSET_TEST_def BITSET_SET_def BITSET_BITWORD_def BITSET_BIT_def BITSET_WORDS_def upt_rec)

definition sample_graph :: ra_graph where
  "sample_graph = (case ra_add_node_interference (ra_alloc_interference_graph sample_final 2) 0 1 of
     Some g \<Rightarrow> g | None \<Rightarrow> ra_alloc_interference_graph sample_final 2)"

lemma sample_graph: "reg_graph sample_graph" "nodes_count sample_graph = 2" "1 \<in> set (neighbours sample_graph 0)"
proof -
  let ?g = "ra_alloc_interference_graph sample_final 2"
  have q: "q_below sample_final 1" by (simp add: sample_final_eq q_below_def)
  have o: "graph_on sample_final ?g" using q by (rule graph_on_alloc [rotated]) (simp_all add: sample_final_eq)
  then have g: "reg_graph ?g" using sample_reg_set sample_final by (auto simp: reg_graph_def)
  have c: "nodes_count ?g = 2" by (simp add: ra_alloc_interference_graph_def)
  obtain q' where q': "build_inv q' ?g" using reg_graph_inv [OF g] by blast
  obtain h where h: "ra_add_node_interference ?g 0 1 = Some h" "nodes_count h = 2" "1 \<in> set (neighbours h 0)"
    using add_interference_spec [OF q', of 0 1] c by auto
  have sg: "sample_graph = h" unfolding sample_graph_def h(1) by simp
  show "reg_graph sample_graph" 
    using graph_on_edge [OF o _ _ h(1)] c sample_reg_set sample_final by (auto simp: sg reg_graph_def)
  show "nodes_count sample_graph = 2" "1 \<in> set (neighbours sample_graph 0)" using h sg by simp_all
qed

lemma sample_graph_eq: "sample_graph = 
  \<lparr>ra_regs_of = sample_final,
   nodes = [\<lparr>adjacency = [2], adjacency_list = [1], adjacency_list_size = 4, adjacency_count = 1, node_class = 0, node_reg = None,
              in_stack = False, q_total = 1\<rparr>,
            \<lparr>adjacency = [1], adjacency_list = [0], adjacency_list_size = 4, adjacency_count = 1, node_class = 0, node_reg = None,
              in_stack = False, q_total = 1\<rparr>],
   nodes_count = 2, stack = [0, 0], stack_count = 0, stack_optimistic_start = 0, select_reg_callback = None\<rparr>"
  by (simp add: sample_graph_def sample_final_eq ra_alloc_interference_graph_def ra_add_node_interference_def ra_add_node_adjacency_def q_of_def upd_node_def BITSET_TEST_def BITSET_SET_def BITSET_BITWORD_def BITSET_BIT_def BITSET_WORDS_def numeral_2_eq_2)

lemma sample_simplify: "\<exists>s. ra_simplify sample_graph = Some s \<and> stack_optimistic_start s = 0xFFFFFFFF"
  by (simp add: ra_simplify_def simplify_loop.simps sample_graph_eq sample_final_eq pass_nodes_def pq_test_def push_node_def decrement_q_def q_of_def upd_node_def numeral_2_eq_2)

text \<open>
  A sample without conflict lists: registers 0 and 1 conflict, the conflicts of register 0 are closed, register 2 is
  added to the class twice, the q value is given, and a class is set after an interference.
\<close>

definition closed_regs :: ra_regs where
  "closed_regs = ra_class_add_reg (ra_class_add_reg (ra_class_add_reg
     (fst (ra_alloc_reg_class (ra_add_reg_conflict (ra_alloc_reg_set 3 False) 0 1))) 0 1) 0 2) 0 2"

definition closed_final :: ra_regs where
  "closed_final =
    \<lparr>regs = [\<lparr>conflicts = [3], conflict_list = None, conflict_list_size = 0, num_conflicts = 1\<rparr>,
             \<lparr>conflicts = [3], conflict_list = None, conflict_list_size = 0, num_conflicts = 1\<rparr>,
             \<lparr>conflicts = [4], conflict_list = None, conflict_list_size = 0, num_conflicts = 1\<rparr>],
     regs_count = 3, classes = [\<lparr>class_regs = [6], ra_p = 3, ra_q = [2]\<rparr>], class_count = 1, round_robin = False\<rparr>"

lemma closed_driver_set: "driver_set closed_regs"
  unfolding closed_regs_def
  by (intro driver_set_member driver_set_class driver_set_conflict driver_set_alloc)
    (simp_all add: ra_alloc_reg_set_def ra_alloc_reg_class_def ra_class_add_reg_def ra_add_reg_conflict_def ra_add_conflict_list_def Let_def)

lemma closed_regs_eq: "closed_regs = closed_final\<lparr>classes := [\<lparr>class_regs = [6], ra_p = 3, ra_q = []\<rparr>]\<rparr>"
  by (simp add: closed_regs_def closed_final_def ra_class_add_reg_def ra_alloc_reg_class_def ra_alloc_reg_set_def
     ra_add_reg_conflict_def ra_add_conflict_list_def Let_def
     BITSET_TEST_def BITSET_SET_def BITSET_BITWORD_def BITSET_BIT_def BITSET_WORDS_def upt_rec)

lemma closed_regs_closed: "ra_make_reg_conflicts_transitive closed_regs 0 = Some closed_regs"
  by (simp add: ra_make_reg_conflicts_transitive_def closed_regs_eq closed_final_def BITSET_FOREACH_SET_eq or_conflicts_def bitset_t_or_def
     BITSET_TEST_def BITSET_BITWORD_def BITSET_BIT_def upt_rec)

lemma closed_regs_final: "ra_set_finalize closed_regs (Some [[2]]) = Some closed_final"
  by (simp add: ra_set_finalize_def closed_regs_eq closed_final_def read_array_def)

definition closed_graph :: ra_graph where
  "closed_graph = (case ra_add_node_interference (ra_alloc_interference_graph closed_final 2) 0 1 of
     Some g \<Rightarrow> ra_set_node_class g 0 0 | None \<Rightarrow> ra_alloc_interference_graph closed_final 2)"

lemma closed_graph: "driver_graph closed_graph" "nodes_count closed_graph = 2" "1 \<in> set (neighbours closed_graph 0)"
proof -
  let ?g = "ra_alloc_interference_graph closed_final 2"
  have q: "q_below closed_final 2" by (simp add: closed_final_def q_below_def)
  have o: "graph_on closed_final ?g" using q by (rule graph_on_alloc [rotated]) (simp_all add: closed_final_def)
  have set: "driver_set closed_regs" by (rule driver_set_close [OF closed_driver_set _ closed_regs_closed]) (simp add: closed_regs_eq closed_final_def)
  have d: "driver_graph g" if "graph_on closed_final g" for g
    using that set closed_regs_final unfolding driver_graph_def by blast
  obtain q' where q': "build_inv q' ?g" using driver_graph_inv [OF d [OF o]] by blast
  have c: "nodes_count ?g = 2" by (simp add: ra_alloc_interference_graph_def)
  obtain h where h: "ra_add_node_interference ?g 0 1 = Some h" "nodes_count h = 2" "1 \<in> set (neighbours h 0)" "build_inv q' h"
    "ra_regs_of h = closed_final"
    using add_interference_spec [OF q', of 0 1] c by (auto simp: ra_alloc_interference_graph_def)
  have cl: "closed_graph = ra_set_node_class h 0 0" unfolding closed_graph_def h(1) by simp
  have oh: "graph_on closed_final h" using graph_on_edge [OF o _ _ h(1)] c by simp
  have z: "node_class (nodes h ! k) = 0" if "k < 2" for k
    using node_wfD(1) [of q' h k] h(2,4,5) that by (simp add: build_inv_def closed_final_def)
  have nb: "m < 2" if "m \<in> set (neighbours h 0)" for m
    using node_wfD(3) [of q' h 0] h(2,4) that by (auto simp: build_inv_def)
  have "graph_on closed_final (ra_set_node_class h 0 0)"
    using z nb h(2,5) by (intro graph_on_class [OF oh]) (auto simp: q_of_def closed_final_def)
  then show "driver_graph closed_graph" using d by (simp add: cl)
  have "length (nodes h) = 2" using h(2,4) by (simp add: build_inv_def)
  then show "nodes_count closed_graph = 2" "1 \<in> set (neighbours closed_graph 0)"
    using h(2,3) by (simp_all add: cl ra_set_node_class_def nodes_upd_node)
qed

text \<open>
  C3: \<^verbatim>\<open>ra_allocate\<close> on a graph of \<open>driver_graph\<close> returns without a failed assertion or a
  read outside an array, and when it returns true the allocation is right: every node has a register,
  a forced node its forced one, any other node one of its class, and two interfering nodes have
  conflicting registers only if both were forced. The register set may have conflict lists or not,
  closed conflicts, registers added to a class twice and computed or given q values; registers and nodes
  are at most \<open>2 ^ 31\<close>, the number of nodes times the largest q value is below \<open>2 ^ 32 - 1\<close>, a class set after
  interferences has q values not larger than those already added, and a callback chooses from its argument.
\<close>

theorem ra_allocate_sound:
  assumes "driver_graph g"
  shows "\<exists>h b. ra_allocate g = Some (h, b) \<and>
    (b \<longrightarrow> (\<forall>n<nodes_count g. \<exists>r. ra_get_node_reg h n = Some r \<and> r < regs_count (ra_regs_of g) \<and>
         (case ra_get_node_reg g n of
            Some f \<Rightarrow> r = f
          | None \<Rightarrow> reg_belongs_to_class r (classes (ra_regs_of g) ! node_class (nodes g ! n))) \<and>
         (\<forall>m\<in>set (neighbours g n). \<forall>q. ra_get_node_reg h m = Some q \<longrightarrow>
            ra_get_node_reg g n = None \<or> ra_get_node_reg g m = None \<longrightarrow>
            \<not> BITSET_TEST (conflicts (regs (ra_regs_of g) ! r)) q)))"
proof -
  obtain q where bi: "build_inv q g" by (rule driver_graph_inv [OF assms])
  obtain h b where h: "ra_allocate g = Some (h, b)" "same_graph g h"
    "\<forall>n\<in>{n. n < nodes_count g \<and> node_reg (nodes g ! n) \<noteq> None}. node_reg (nodes h ! n) = node_reg (nodes g ! n)"
    "b \<longrightarrow> sel_inv {n. n < nodes_count g \<and> node_reg (nodes g ! n) \<noteq> None} h \<and> stacked h = {}"
    using ra_allocate_spec [OF bi] by blast
  have "\<exists>r. ra_get_node_reg h n = Some r \<and> r < regs_count (ra_regs_of g) \<and>
         (case ra_get_node_reg g n of
            Some f \<Rightarrow> r = f
          | None \<Rightarrow> reg_belongs_to_class r (classes (ra_regs_of g) ! node_class (nodes g ! n))) \<and>
         (\<forall>m\<in>set (neighbours g n). \<forall>q. ra_get_node_reg h m = Some q \<longrightarrow>
            ra_get_node_reg g n = None \<or> ra_get_node_reg g m = None \<longrightarrow>
            \<not> BITSET_TEST (conflicts (regs (ra_regs_of g) ! r)) q)" if b: b and n: "n < nodes_count g" for n
    by (rule allocation_at [OF bi h(2,3) _ _ n]) (use h(4) b in simp_all)
  then show ?thesis using h(1) by blast
qed

theorem ra_allocate_sound_witness:
  "\<exists>h b. ra_allocate closed_graph = Some (h, b) \<and>
    (b \<longrightarrow> (\<forall>r q. ra_get_node_reg h 0 = Some r \<longrightarrow> ra_get_node_reg h 1 = Some q \<longrightarrow> ra_get_node_reg closed_graph 0 = None \<longrightarrow>
      \<not> BITSET_TEST (conflicts (regs (ra_regs_of closed_graph) ! r)) q))"
proof -
  from ra_allocate_sound [OF closed_graph(1)]
  obtain h b where h: "ra_allocate closed_graph = Some (h, b)"
    "b \<Longrightarrow> \<exists>r. ra_get_node_reg h 0 = Some r \<and> (\<forall>m\<in>set (neighbours closed_graph 0). \<forall>q. ra_get_node_reg h m = Some q \<longrightarrow>
      ra_get_node_reg closed_graph 0 = None \<or> ra_get_node_reg closed_graph m = None \<longrightarrow>
      \<not> BITSET_TEST (conflicts (regs (ra_regs_of closed_graph) ! r)) q)"
    using closed_graph(2) by (metis (no_types, lifting) zero_less_numeral)
  show ?thesis
  proof (intro exI conjI impI allI)
    fix r q
    assume b: b and r: "ra_get_node_reg h 0 = Some r" "ra_get_node_reg h 1 = Some q" "ra_get_node_reg closed_graph 0 = None"
    from h(2) [OF b] r closed_graph(3) show "\<not> BITSET_TEST (conflicts (regs (ra_regs_of closed_graph) ! r)) q" by auto
  qed (rule h(1))
qed

text \<open>
  C4: the guarantee of the test by Runeson and Nystroem. If simplification pushed no node
  optimistically and every forced register is in the class of its node, \<^verbatim>\<open>ra_allocate\<close> returns true. The
  q values are those \<^verbatim>\<open>ra_set_finalize\<close> computes.
\<close>

theorem ra_allocate_trivially_colorable:
  assumes "reg_graph g" "ra_simplify g = Some s" "stack_optimistic_start s = 0xFFFFFFFF"
    and "\<forall>n<nodes_count g. \<forall>r. ra_get_node_reg g n = Some r \<longrightarrow>
      reg_belongs_to_class r (classes (ra_regs_of g) ! node_class (nodes g ! n))"
  shows "\<exists>h. ra_allocate g = Some (h, True)"
proof -
  obtain q where bi: "build_inv q g" "q_sound (ra_regs_of g)" by (rule reg_graph_inv [OF assms(1)])
  have "reg_of g n \<in> in_class (ra_regs_of g) (node_class (nodes g ! n))"
    if "n \<in> {n. n < nodes_count g \<and> node_reg (nodes g ! n) \<noteq> None}" for n
    using assms(4) that build_inv_simp(4) [OF bi(1)]
    by (auto simp: ra_get_node_reg_def reg_of_def in_class_def bs.elems_def reg_belongs_to_class_def)
  with ra_allocate_spec [OF bi(1)] bi(2) assms(2,3) show ?thesis by auto
qed

theorem ra_allocate_trivially_colorable_witness: "\<exists>h. ra_allocate sample_graph = Some (h, True)"
proof -
  obtain s where s: "ra_simplify sample_graph = Some s" "stack_optimistic_start s = 0xFFFFFFFF" using sample_simplify by blast
  have "\<forall>n<nodes_count sample_graph. \<forall>r. ra_get_node_reg sample_graph n = Some r \<longrightarrow>
      reg_belongs_to_class r (classes (ra_regs_of sample_graph) ! node_class (nodes sample_graph ! n))"
    by (simp add: sample_graph_eq ra_get_node_reg_def less_2_cases_iff)
  from ra_allocate_trivially_colorable [OF sample_graph(1) s this] show ?thesis .
qed

text \<open>
  C18: simplification of a graph of \<open>driver_graph\<close> returns, the assertion of \<^verbatim>\<open>decrement_q\<close>
  always holds, and afterwards every node without a forced register is on the stack, once.
\<close>

theorem ra_simplify_complete:
  assumes "driver_graph g"
  shows "\<exists>s. ra_simplify g = Some s \<and> distinct (take (stack_count s) (stack s)) \<and>
    set (take (stack_count s) (stack s)) = {n. n < nodes_count g \<and> ra_get_node_reg g n = None}"
  using driver_graph_inv [OF assms] simplify_stack by metis

theorem ra_simplify_complete_witness:
  "\<exists>s. ra_simplify sample_graph = Some s \<and> distinct (take (stack_count s) (stack s)) \<and>
    set (take (stack_count s) (stack s)) = {n. n < nodes_count sample_graph \<and> ra_get_node_reg sample_graph n = None}"
  by (rule ra_simplify_complete [OF reg_graph_driver [OF sample_graph(1)]])

text \<open>
  C19: \<^verbatim>\<open>ra_set_finalize\<close> on a register set built with conflict lists computes q(B,C): the largest number of
  registers of B that one register of C conflicts with; the classes and conflicts stay as they are.
\<close>

theorem ra_set_finalize_correct:
  assumes "reg_set rs"
  shows "\<exists>h. ra_set_finalize rs None = Some h \<and> class_count h = class_count rs \<and>
    (\<forall>b<class_count rs. \<forall>c<class_count rs. unat (ra_q (classes h ! b) ! c) =
      Max (insert 0 ((\<lambda>r. card {s. s < regs_count rs \<and> reg_belongs_to_class s (classes rs ! b) \<and> BITSET_TEST (conflicts (regs rs ! r)) s}) `
        {r. r < regs_count rs \<and> reg_belongs_to_class r (classes rs ! c)})))"
proof -
  have eq: "{s. s < regs_count rs \<and> reg_belongs_to_class s (classes rs ! b) \<and> BITSET_TEST (conflicts (regs rs ! r)) s} =
    in_class rs b \<inter> conflicting rs r" "{r. r < regs_count rs \<and> reg_belongs_to_class r (classes rs ! c)} = in_class rs c" for b c r
    by (auto simp: in_class_def conflicting_def bs.elems_def reg_belongs_to_class_def)
  from finalize_spec(1,3) [OF reg_set_wf [OF assms]] show ?thesis unfolding eq q_value_def by auto
qed

theorem ra_set_finalize_correct_witness:
  "\<exists>h. ra_set_finalize sample_regs None = Some h \<and> class_count h = class_count sample_regs"
  using ra_set_finalize_correct [OF sample_reg_set] by blast

end
