(* ===== verification/C_Memory.thy ===== *)
theory C_Memory
  imports Mesa_Prelude
begin

text \<open>
  Blocks of memory for the components that copy bytes: the errors a C program can run into, the
  allocator, and bounds-checked copies into and out of a block. A block is the list of its
  bytes.
\<close>

datatype c_error = Assertion | Bad_access

text \<open>
  \<^verbatim>\<open>realloc\<close>: the argument \<open>fresh\<close> stands for the allocator. For a request of \<open>n\<close> bytes it returns
  nothing or a block of that many bytes of arbitrary content, never larger than the largest
  object of the platform.
\<close>

type_synonym allocator = "u64 \<Rightarrow> u8 list option"

definition allocator_ok :: "allocator \<Rightarrow> bool" where
  "allocator_ok fresh \<longleftrightarrow> (\<forall>n g. fresh n = Some g \<longrightarrow> length g = unat n \<and> unat n < 2 ^ 63)"

definition realloc :: "allocator \<Rightarrow> u8 list option \<Rightarrow> u64 \<Rightarrow> u8 list option" where
  "realloc fresh ptr n =
     (case fresh n of
        None \<Rightarrow> None
      | Some g \<Rightarrow> (case ptr of
            None \<Rightarrow> Some g
          | Some old \<Rightarrow> Some (take (unat n) old @ drop (length old) g)))"

text \<open>\<^verbatim>\<open>memcpy\<close> (or \<^verbatim>\<open>memset\<close>) into the block at an offset, and a read of \<open>n\<close> bytes.\<close>

definition store_at :: "u8 list \<Rightarrow> nat \<Rightarrow> u8 list \<Rightarrow> c_error + u8 list" where
  "store_at mem off bs =
     (if off + length bs \<le> length mem
      then Inr (take off mem @ bs @ drop (off + length bs) mem) else Inl Bad_access)"

definition load_at :: "u8 list \<Rightarrow> nat \<Rightarrow> nat \<Rightarrow> c_error + u8 list" where
  "load_at mem off n =
     (if off + n \<le> length mem then Inr (take n (drop off mem)) else Inl Bad_access)"

section \<open>Facts\<close>

lemma load_at_append: "n = length xs \<Longrightarrow> k = length ys \<Longrightarrow> load_at (xs @ ys @ zs) n k = Inr ys"
  by (simp add: load_at_def)

lemma load_at_fits: "off + n \<le> length mem \<Longrightarrow> \<exists>bs. load_at mem off n = Inr bs"
  by (simp add: load_at_def)

lemma store_at_nth:
  assumes "off + length bs \<le> length mem"
  obtains mem' where "store_at mem off bs = Inr mem'" "length mem' = length mem"
    "\<And>q. q < length mem \<Longrightarrow> mem' ! q = (if off \<le> q \<and> q < off + length bs then bs ! (q - off) else mem ! q)"
proof
  let ?m = "take off mem @ bs @ drop (off + length bs) mem"
  show "store_at mem off bs = Inr ?m" using assms by (simp add: store_at_def)
  show "length ?m = length mem" using assms by simp
  show "?m ! q = (if off \<le> q \<and> q < off + length bs then bs ! (q - off) else mem ! q)"
    if "q < length mem" for q
    using assms that by (auto simp: nth_append not_less min_def)
qed

end
