(* ===== verification/Blob.thy ===== *)
theory Blob
  imports Umath C_Memory
begin

text \<open>
  \<^verbatim>\<open>src/compiler/blob.c\<close> and \<^verbatim>\<open>blob.h\<close>: the growing byte buffer that serialized shaders and cache
  items are written to, and the reader that walks over such a buffer. The memory at
  \<^verbatim>\<open>blob->data\<close> is the list of its bytes, or \<open>None\<close> for a null pointer; pointers into the buffer
  of a reader are offsets from its start. Sizes are 64-bit words and wrap as \<^verbatim>\<open>size_t\<close> does.
  An operation returns \<open>Inl\<close> when it fails an assertion or touches memory outside the buffer.
  The byte order of the host is the argument \<open>be\<close>. Aligned access is not checked.
\<close>

section \<open>Bytes of integers\<close>

text \<open>The bytes of an integer in memory.\<close>

definition word_bytes :: "bool \<Rightarrow> 'a::len word \<Rightarrow> u8 list" where
  "word_bytes be w =
     (let bs = map (\<lambda>k. ucast (drop_bit (8 * k) w)) [0..<LENGTH('a) div 8]
      in if be then rev bs else bs)"

definition bytes_word :: "bool \<Rightarrow> u8 list \<Rightarrow> 'a::len word" where
  "bytes_word be bs =
     foldr (\<lambda>b w. push_bit 8 w OR ucast b) (if be then rev bs else bs) 0"

section \<open>Writing\<close>

record blob =
  blob_data :: "u8 list option"
  allocated :: u64
  blob_size :: u64
  fixed_allocation :: bool
  out_of_memory :: bool

abbreviation BLOB_INITIAL_SIZE :: u64 where
  "BLOB_INITIAL_SIZE \<equiv> 4096"

text \<open>\<^verbatim>\<open>ALIGN\<close> of \<^verbatim>\<open>main/macros.h\<close>; its assertion that the alignment is a positive power of two holds
  for the two alignments in use, 4 and 8.\<close>

definition ALIGN :: "u64 \<Rightarrow> u32 \<Rightarrow> u64" where
  "ALIGN value alignment = (value + scast alignment - 1) AND scast (NOT (alignment - 1))"

definition grow_to_fit :: "allocator \<Rightarrow> blob \<Rightarrow> u64 \<Rightarrow> bool \<times> blob" where
  "grow_to_fit fresh blob additional =
     (if out_of_memory blob then (False, blob)
      else if blob_size blob + additional \<le> allocated blob then (True, blob)
      else if fixed_allocation blob then (False, blob\<lparr>out_of_memory := True\<rparr>)
      else let to_allocate = (if allocated blob = 0 then BLOB_INITIAL_SIZE else allocated blob * 2);
               to_allocate = (if to_allocate > allocated blob + additional then to_allocate
                              else allocated blob + additional)
           in case realloc fresh (blob_data blob) to_allocate of
                None \<Rightarrow> (False, blob\<lparr>out_of_memory := True\<rparr>)
              | Some new_data \<Rightarrow> (True, blob\<lparr>blob_data := Some new_data, allocated := to_allocate\<rparr>))"

definition align_blob :: "allocator \<Rightarrow> blob \<Rightarrow> u32 \<Rightarrow> c_error + bool \<times> blob" where
  "align_blob fresh blob alignment =
     (let new_size = ALIGN (blob_size blob) alignment
      in if blob_size blob < new_size
         then case grow_to_fit fresh blob (new_size - blob_size blob) of
             (False, blob') \<Rightarrow> Inr (False, blob')
           | (True, blob') \<Rightarrow> (case blob_data blob' of
                 None \<Rightarrow> Inr (True, blob'\<lparr>blob_size := new_size\<rparr>)
               | Some mem \<Rightarrow> (case store_at mem (unat (blob_size blob'))
                                   (replicate (unat (new_size - blob_size blob')) 0) of
                     Inl e \<Rightarrow> Inl e
                   | Inr mem' \<Rightarrow> Inr (True, blob'\<lparr>blob_data := Some mem', blob_size := new_size\<rparr>)))
         else Inr (True, blob))"

definition blob_init :: blob where
  "blob_init = \<lparr>blob_data = None, allocated = 0, blob_size = 0, fixed_allocation = False,
     out_of_memory = False\<rparr>"

definition blob_init_fixed :: "u8 list option \<Rightarrow> u64 \<Rightarrow> blob" where
  "blob_init_fixed data sz = \<lparr>blob_data = data, allocated = sz, blob_size = 0, fixed_allocation = True,
     out_of_memory = False\<rparr>"

text \<open>\<open>True\<close>: the buffer is freed.\<close>

definition blob_finish :: "blob \<Rightarrow> bool" where
  "blob_finish blob = (\<not> fixed_allocation blob)"

definition blob_overwrite_bytes :: "blob \<Rightarrow> u64 \<Rightarrow> u8 list \<Rightarrow> c_error + bool \<times> blob" where
  "blob_overwrite_bytes blob offset bytes =
     (let to_write = word_of_nat (length bytes)
      in if offset + to_write < offset \<or> blob_size blob < offset + to_write then Inr (False, blob)
         else case blob_data blob of
             None \<Rightarrow> Inr (True, blob)
           | Some mem \<Rightarrow> (case store_at mem (unat offset) bytes of
                 Inl e \<Rightarrow> Inl e
               | Inr mem' \<Rightarrow> Inr (True, blob\<lparr>blob_data := Some mem'\<rparr>)))"

definition blob_write_bytes :: "allocator \<Rightarrow> blob \<Rightarrow> u8 list \<Rightarrow> c_error + bool \<times> blob" where
  "blob_write_bytes fresh blob bytes =
     (let to_write = word_of_nat (length bytes)
      in case grow_to_fit fresh blob to_write of
           (False, blob') \<Rightarrow> Inr (False, blob')
         | (True, blob') \<Rightarrow> (case blob_data blob' of
               None \<Rightarrow> Inr (True, blob'\<lparr>blob_size := blob_size blob' + to_write\<rparr>)
             | Some mem \<Rightarrow> (case store_at mem (unat (blob_size blob')) bytes of
                   Inl e \<Rightarrow> Inl e
                 | Inr mem' \<Rightarrow> Inr (True, blob'\<lparr>blob_data := Some mem',
                                             blob_size := blob_size blob' + to_write\<rparr>))))"

text \<open>The offset of the reserved bytes, or \<open>None\<close> for the result -1.\<close>

definition blob_reserve_bytes :: "allocator \<Rightarrow> blob \<Rightarrow> u64 \<Rightarrow> u64 option \<times> blob" where
  "blob_reserve_bytes fresh blob to_write =
     (case grow_to_fit fresh blob to_write of
        (False, blob') \<Rightarrow> (None, blob')
      | (True, blob') \<Rightarrow> (Some (blob_size blob'), blob'\<lparr>blob_size := blob_size blob' + to_write\<rparr>))"

definition blob_reserve_uint32 :: "allocator \<Rightarrow> blob \<Rightarrow> c_error + u64 option \<times> blob" where
  "blob_reserve_uint32 fresh blob =
     (case align_blob fresh blob 4 of
        Inl e \<Rightarrow> Inl e
      | Inr (_, blob') \<Rightarrow> Inr (blob_reserve_bytes fresh blob' 4))"

definition blob_reserve_intptr :: "allocator \<Rightarrow> blob \<Rightarrow> c_error + u64 option \<times> blob" where
  "blob_reserve_intptr fresh blob =
     (case align_blob fresh blob 8 of
        Inl e \<Rightarrow> Inl e
      | Inr (_, blob') \<Rightarrow> Inr (blob_reserve_bytes fresh blob' 8))"

definition blob_write_uint32 :: "bool \<Rightarrow> allocator \<Rightarrow> blob \<Rightarrow> u32 \<Rightarrow> c_error + bool \<times> blob" where
  "blob_write_uint32 be fresh blob value =
     (case align_blob fresh blob 4 of
        Inl e \<Rightarrow> Inl e
      | Inr (_, blob') \<Rightarrow> blob_write_bytes fresh blob' (word_bytes be value))"

definition blob_overwrite_uint32 :: "bool \<Rightarrow> blob \<Rightarrow> u64 \<Rightarrow> u32 \<Rightarrow> c_error + bool \<times> blob" where
  "blob_overwrite_uint32 be blob offset value =
     (if ALIGN offset 4 = offset then blob_overwrite_bytes blob offset (word_bytes be value)
      else Inl Assertion)"

definition blob_write_uint64 :: "bool \<Rightarrow> allocator \<Rightarrow> blob \<Rightarrow> u64 \<Rightarrow> c_error + bool \<times> blob" where
  "blob_write_uint64 be fresh blob value =
     (case align_blob fresh blob 8 of
        Inl e \<Rightarrow> Inl e
      | Inr (_, blob') \<Rightarrow> blob_write_bytes fresh blob' (word_bytes be value))"

definition blob_write_intptr :: "bool \<Rightarrow> allocator \<Rightarrow> blob \<Rightarrow> u64 \<Rightarrow> c_error + bool \<times> blob" where
  "blob_write_intptr be fresh blob value =
     (case align_blob fresh blob 8 of
        Inl e \<Rightarrow> Inl e
      | Inr (_, blob') \<Rightarrow> blob_write_bytes fresh blob' (word_bytes be value))"

definition blob_overwrite_intptr :: "bool \<Rightarrow> blob \<Rightarrow> u64 \<Rightarrow> u64 \<Rightarrow> c_error + bool \<times> blob" where
  "blob_overwrite_intptr be blob offset value =
     (if ALIGN offset 8 = offset then blob_overwrite_bytes blob offset (word_bytes be value)
      else Inl Assertion)"

text \<open>The characters of \<open>str\<close> up to the first zero byte, and that byte.\<close>

definition blob_write_string :: "allocator \<Rightarrow> blob \<Rightarrow> u8 list \<Rightarrow> c_error + bool \<times> blob" where
  "blob_write_string fresh blob str = blob_write_bytes fresh blob (takeWhile (\<lambda>c. c \<noteq> 0) str @ [0])"

section \<open>Reading\<close>

record blob_reader =
  rd_data :: "u8 list"
  rd_end :: u64
  rd_current :: u64
  overrun :: bool

definition align_blob_reader :: "blob_reader \<Rightarrow> u32 \<Rightarrow> blob_reader" where
  "align_blob_reader blob alignment = blob\<lparr>rd_current := ALIGN (rd_current blob) alignment\<rparr>"

definition blob_reader_init :: "u8 list \<Rightarrow> u64 \<Rightarrow> blob_reader" where
  "blob_reader_init data sz = \<lparr>rd_data = data, rd_end = sz, rd_current = 0, overrun = False\<rparr>"

definition ensure_can_read :: "blob_reader \<Rightarrow> u64 \<Rightarrow> bool \<times> blob_reader" where
  "ensure_can_read blob sz =
     (if overrun blob then (False, blob)
      else if rd_current blob \<le> rd_end blob \<and> rd_end blob - rd_current blob \<ge> sz then (True, blob)
      else (False, blob\<lparr>overrun := True\<rparr>))"

text \<open>The position of the bytes, or \<open>None\<close> for a null pointer.\<close>

definition blob_read_bytes :: "blob_reader \<Rightarrow> u64 \<Rightarrow> u64 option \<times> blob_reader" where
  "blob_read_bytes blob sz =
     (case ensure_can_read blob sz of
        (False, blob') \<Rightarrow> (None, blob')
      | (True, blob') \<Rightarrow> (Some (rd_current blob'), blob'\<lparr>rd_current := rd_current blob' + sz\<rparr>))"

text \<open>The bytes copied to \<^verbatim>\<open>dest\<close>, or \<open>None\<close> when \<^verbatim>\<open>dest\<close> is left alone.\<close>

definition blob_copy_bytes :: "blob_reader \<Rightarrow> u64 \<Rightarrow> c_error + u8 list option \<times> blob_reader" where
  "blob_copy_bytes blob sz =
     (case blob_read_bytes blob sz of
        (None, blob') \<Rightarrow> Inr (None, blob')
      | (Some bytes, blob') \<Rightarrow> (case load_at (rd_data blob') (unat bytes) (unat sz) of
            Inl e \<Rightarrow> Inl e
          | Inr bs \<Rightarrow> Inr (Some bs, blob')))"

definition blob_skip_bytes :: "blob_reader \<Rightarrow> u64 \<Rightarrow> blob_reader" where
  "blob_skip_bytes blob sz =
     (case ensure_can_read blob sz of
        (False, blob') \<Rightarrow> blob'
      | (True, blob') \<Rightarrow> blob'\<lparr>rd_current := rd_current blob' + sz\<rparr>)"

definition blob_read_uint32 :: "bool \<Rightarrow> blob_reader \<Rightarrow> c_error + u32 \<times> blob_reader" where
  "blob_read_uint32 be blob =
     (case ensure_can_read (align_blob_reader blob 4) 4 of
        (False, blob') \<Rightarrow> Inr (0, blob')
      | (True, blob') \<Rightarrow> (case load_at (rd_data blob') (unat (rd_current blob')) 4 of
            Inl e \<Rightarrow> Inl e
          | Inr bs \<Rightarrow> Inr (bytes_word be bs, blob'\<lparr>rd_current := rd_current blob' + 4\<rparr>)))"

definition blob_read_uint64 :: "bool \<Rightarrow> blob_reader \<Rightarrow> c_error + u64 \<times> blob_reader" where
  "blob_read_uint64 be blob =
     (case ensure_can_read (align_blob_reader blob 8) 8 of
        (False, blob') \<Rightarrow> Inr (0, blob')
      | (True, blob') \<Rightarrow> (case load_at (rd_data blob') (unat (rd_current blob')) 8 of
            Inl e \<Rightarrow> Inl e
          | Inr bs \<Rightarrow> Inr (bytes_word be bs, blob'\<lparr>rd_current := rd_current blob' + 8\<rparr>)))"

definition blob_read_intptr :: "bool \<Rightarrow> blob_reader \<Rightarrow> c_error + u64 \<times> blob_reader" where
  "blob_read_intptr be blob =
     (case ensure_can_read (align_blob_reader blob 8) 8 of
        (False, blob') \<Rightarrow> Inr (0, blob')
      | (True, blob') \<Rightarrow> (case load_at (rd_data blob') (unat (rd_current blob')) 8 of
            Inl e \<Rightarrow> Inl e
          | Inr bs \<Rightarrow> Inr (bytes_word be bs, blob'\<lparr>rd_current := rd_current blob' + 8\<rparr>)))"

text \<open>
  The returned string is the list of its characters without the terminator. \<^verbatim>\<open>memchr\<close> looks at the
  bytes between \<^verbatim>\<open>current\<close> and \<^verbatim>\<open>end\<close>; the length is an \<^verbatim>\<open>int\<close>.
\<close>

definition blob_read_string :: "blob_reader \<Rightarrow> c_error + u8 list option \<times> blob_reader" where
  "blob_read_string blob =
     (if rd_current blob \<ge> rd_end blob then Inr (None, blob\<lparr>overrun := True\<rparr>)
      else case load_at (rd_data blob) (unat (rd_current blob)) (unat (rd_end blob - rd_current blob)) of
          Inl e \<Rightarrow> Inl e
        | Inr rest \<Rightarrow>
            (if 0 \<notin> set rest then Inr (None, blob\<lparr>overrun := True\<rparr>)
             else let str = takeWhile (\<lambda>c. c \<noteq> 0) rest;
                      sz = (word_of_nat (length str + 1) :: u32)
                  in case ensure_can_read blob (scast sz) of
                       (False, _) \<Rightarrow> Inl Assertion
                     | (True, blob') \<Rightarrow>
                         Inr (Some str, blob'\<lparr>rd_current := rd_current blob' + scast sz\<rparr>)))"

section \<open>Alignment and byte order\<close>

definition round_up :: "nat \<Rightarrow> nat \<Rightarrow> nat" where
  "round_up a n = (n + a - 1) div a * a"

lemma round_up_ge: "0 < a \<Longrightarrow> n \<le> round_up a n"
proof -
  assume "0 < a"
  then have "(n + a - 1) mod a < a" by simp
  then show ?thesis
    using div_mult_mod_eq [of "n + a - 1" a] \<open>0 < a\<close> unfolding round_up_def by linarith
qed

lemma round_up_less: "0 < a \<Longrightarrow> round_up a n < n + a"
  unfolding round_up_def using div_times_less_eq_dividend [of "n + a - 1" a] by linarith

lemma dvd_round_up: "a dvd round_up a n"
  by (simp add: round_up_def)

lemma ALIGN_eq_align64: "ALIGN v 4 = align64 v (2 ^ 2)" "ALIGN v 8 = align64 v (2 ^ 3)"
  by (simp_all add: ALIGN_def align64_def)

lemma unat_ALIGN:
  assumes "unat v \<le> 2 ^ 63 + 8"
  shows "unat (ALIGN v 4) = round_up 4 (unat v)" "unat (ALIGN v 8) = round_up 8 (unat v)"
  unfolding ALIGN_eq_align64 using assms by (subst align64_unat; simp add: round_up_def)+

lemma bit_foldr_bytes:
  "bit (foldr (\<lambda>b w. push_bit 8 w OR ucast b) bs (0 :: 'a::len word)) m \<longleftrightarrow>
     m < LENGTH('a) \<and> m div 8 < length bs \<and> bit (bs ! (m div 8) :: u8) (m mod 8)"
proof (induction bs arbitrary: m)
  case (Cons b bs)
  have low: "bit b m \<Longrightarrow> m < 8" by (drule bit_imp_le_length) simp
  show ?case
  proof (cases "m < 8")
    case True
    then show ?thesis by (auto simp: bit_or_iff bit_push_bit_iff bit_ucast_iff)
  next
    case False
    then have "m div 8 = Suc ((m - 8) div 8)" "m mod 8 = (m - 8) mod 8"
      by (simp_all add: le_div_geq le_mod_geq)
    with False low show ?thesis
      by (auto simp: bit_or_iff bit_push_bit_iff bit_ucast_iff Cons.IH)
  qed
qed simp

lemma bytes_word_word_bytes:
  fixes w :: "'a::len word"
  assumes "8 dvd LENGTH('a)"
  shows "bytes_word be (word_bytes be w) = w"
proof -
  have "bytes_word be (word_bytes be w) =
      foldr (\<lambda>b w. push_bit 8 w OR ucast b)
        (map (\<lambda>k. ucast (drop_bit (8 * k) w) :: u8) [0..<LENGTH('a) div 8]) 0"
    by (simp add: bytes_word_def word_bytes_def Let_def)
  also have "\<dots> = w"
  proof (rule bit_word_eqI)
    fix m assume m: "m < LENGTH('a)"
    then have "m div 8 < LENGTH('a) div 8"
      using assms by (auto elim!: dvdE simp: div_less_iff_less_mult mult.commute)
    with m show "bit (foldr (\<lambda>b w. push_bit 8 w OR ucast b)
        (map (\<lambda>k. ucast (drop_bit (8 * k) w) :: u8) [0..<LENGTH('a) div 8]) 0 :: 'a word) m = bit w m"
      by (auto simp: bit_foldr_bytes bit_ucast_iff bit_drop_bit_eq)
  qed
  finally show ?thesis .
qed

lemma length_word_bytes [simp]: "length (word_bytes be (w :: 'a::len word)) = LENGTH('a) div 8"
  by (simp add: word_bytes_def Let_def)

section \<open>The buffer as a byte list\<close>

definition blob_wf :: "blob \<Rightarrow> bool" where
  "blob_wf b \<longleftrightarrow> blob_size b \<le> allocated b \<and>
     (\<forall>mem. blob_data b = Some mem \<longrightarrow> length mem = unat (allocated b) \<and> length mem < 2 ^ 63) \<and>
     (blob_data b = None \<longrightarrow> \<not> fixed_allocation b \<longrightarrow> allocated b = 0)"

text \<open>A fixed blob with a null pointer only counts bytes.\<close>

definition measuring :: "blob \<Rightarrow> bool" where
  "measuring b \<longleftrightarrow> fixed_allocation b \<and> blob_data b = None"

definition contents :: "blob \<Rightarrow> u8 list" where
  "contents b = (case blob_data b of None \<Rightarrow> [] | Some mem \<Rightarrow> take (unat (blob_size b)) mem)"

text \<open>The sizes for which no addition of the code wraps: any size of an object, except that a
  counting blob must have counted less than the size of an object.\<close>

definition no_wrap_size :: "blob \<Rightarrow> nat \<Rightarrow> bool" where
  "no_wrap_size b n \<longleftrightarrow> n < 2 ^ 63 \<and> (measuring b \<longrightarrow> unat (blob_size b) < 2 ^ 63)"

lemma realloc_Some:
  assumes "allocator_ok fresh" "realloc fresh ptr n = Some mem" "\<And>old. ptr = Some old \<Longrightarrow> length old \<le> unat n"
  shows "length mem = unat n" "unat n < 2 ^ 63" "ptr = Some old \<Longrightarrow> take (length old) mem = old"
  using assms by (auto simp: realloc_def allocator_ok_def split: option.splits)

lemma blob_wf_size:
  assumes "blob_wf b" "\<not> measuring b"
  shows "unat (allocated b) < 2 ^ 63" "unat (blob_size b) \<le> unat (allocated b)"
  using assms by (cases "blob_data b"; auto simp: blob_wf_def measuring_def word_le_nat_alt)+

text \<open>The result of \<open>grow_to_fit\<close>.\<close>

definition grown :: "blob \<Rightarrow> nat \<Rightarrow> bool \<times> blob \<Rightarrow> bool" where
  "grown b n = (\<lambda>(ok, b'). blob_wf b' \<and> blob_size b' = blob_size b \<and> contents b' = contents b \<and>
     measuring b' = measuring b \<and> (blob_data b \<noteq> None \<longrightarrow> blob_data b' \<noteq> None) \<and>
     out_of_memory b' = (\<not> ok) \<and>
     (ok \<longrightarrow> unat (blob_size b) + n \<le> unat (allocated b')) \<and>
     (0 < n \<longrightarrow> ok \<longrightarrow> \<not> measuring b \<longrightarrow> blob_data b' \<noteq> None) \<and>
     (out_of_memory b \<longrightarrow> b' = b))"

lemma unat_size_add:
  assumes "blob_wf b" "no_wrap_size b n"
  shows "unat (blob_size b + word_of_nat n) = unat (blob_size b) + n"
    and "\<not> measuring b \<Longrightarrow> unat (allocated b + word_of_nat n) = unat (allocated b) + n"
proof -
  have n: "unat (word_of_nat n :: u64) = n"
    using assms(2) by (simp add: no_wrap_size_def unat_of_nat)
  have "unat (blob_size b) + n < 2 ^ LENGTH(64)"
  proof (cases "measuring b")
    case False
    then show ?thesis using assms(2) blob_wf_size [OF assms(1)] by (simp add: no_wrap_size_def)
  qed (use assms(2) in \<open>simp add: no_wrap_size_def\<close>)
  then show "unat (blob_size b + word_of_nat n) = unat (blob_size b) + n"
    using unat_add_no_wrap [of "blob_size b" "word_of_nat n"] n by simp
  show "unat (allocated b + word_of_nat n) = unat (allocated b) + n" if "\<not> measuring b"
    using assms(2) blob_wf_size [OF assms(1) that]
    by (subst unat_add_no_wrap) (auto simp: n no_wrap_size_def)
qed

lemma grow_to_fit_enough:
  assumes "blob_wf b" "no_wrap_size b n" "\<not> out_of_memory b" "blob_size b + word_of_nat n \<le> allocated b"
  shows "grown b n (True, b)"
proof -
  have "unat (blob_size b) + n \<le> unat (allocated b)"
    using assms(4) unat_size_add(1) [OF assms(1,2)] by (simp add: word_le_nat_alt)
  moreover have "blob_data b \<noteq> None" if "0 < n" "\<not> measuring b"
    using that assms(1) calculation by (auto simp: blob_wf_def measuring_def)
  ultimately show ?thesis using assms(1,3) by (simp add: grown_def)
qed

lemma grow_to_fit_fail:
  assumes "blob_wf b" "\<not> out_of_memory b"
  shows "grown b n (False, b\<lparr>out_of_memory := True\<rparr>)"
  using assms by (auto simp: grown_def blob_wf_def contents_def measuring_def split: option.split)

lemma grow_to_fit_realloc:
  assumes wf: "blob_wf b" and n: "no_wrap_size b n" and fresh: "allocator_ok fresh"
    and b: "\<not> out_of_memory b" "\<not> fixed_allocation b"
    and m: "allocated b + word_of_nat n \<le> m" "realloc fresh (blob_data b) m = Some mem"
  shows "grown b n (True, b\<lparr>blob_data := Some mem, allocated := m\<rparr>)"
proof -
  have nm: "\<not> measuring b" using b(2) by (simp add: measuring_def)
  have sz: "unat (blob_size b) \<le> unat (allocated b)" by (rule blob_wf_size(2) [OF wf nm])
  have am: "unat (allocated b) + n \<le> unat m"
    using m(1) unat_size_add(2) [OF wf n nm] by (simp add: word_le_nat_alt)
  have old: "length old = unat (allocated b)" if "blob_data b = Some old" for old
    using that wf by (simp add: blob_wf_def)
  note mem = realloc_Some [OF fresh m(2)]
  have "take (unat (blob_size b)) mem = contents b"
  proof (cases "blob_data b")
    case None
    with wf b(2) sz show ?thesis by (simp add: blob_wf_def contents_def)
  next
    case (Some old)
    then have "take (length old) mem = old" using mem(3) old am by simp
    then have "take (unat (blob_size b)) mem = take (unat (blob_size b)) old"
      using sz old [OF Some] by (metis min.absorb1 take_take)
    with Some show ?thesis by (simp add: contents_def)
  qed
  moreover have "length mem = unat m" "unat m < 2 ^ 63"
    using mem(1,2) old am by simp_all
  moreover have "blob_size b \<le> m" using sz am by (simp add: word_le_nat_alt)
  ultimately show ?thesis using b nm sz am
    by (simp add: grown_def blob_wf_def measuring_def contents_def)
qed

lemma grow_to_fit_grown:
  assumes wf: "blob_wf b" and n: "no_wrap_size b n" and fresh: "allocator_ok fresh"
  shows "grown b n (grow_to_fit fresh b (word_of_nat n))"
proof (cases "out_of_memory b")
  case True
  then show ?thesis using wf by (simp add: grow_to_fit_def grown_def)
next
  case False
  note simple = grow_to_fit_enough [OF wf n False] grow_to_fit_fail [OF wf False]
  let ?m = "let m = (if allocated b = 0 then BLOB_INITIAL_SIZE else allocated b * 2)
    in if m > allocated b + word_of_nat n then m else allocated b + word_of_nat n"
  have "allocated b + word_of_nat n \<le> ?m" by (auto simp: Let_def)
  note grow = grow_to_fit_realloc [OF wf n fresh False _ this]
  show ?thesis
  proof (cases "realloc fresh (blob_data b) ?m")
    case None
    then show ?thesis using False simple
      by (simp add: grow_to_fit_def Let_def)
  next
    case (Some mem)
    then show ?thesis using False simple grow [OF _ Some]
      by (simp add: grow_to_fit_def Let_def)
  qed
qed

text \<open>A blob after bytes have been appended to it: all of them, or a prefix when the memory ran
  out.\<close>

definition extended :: "blob \<Rightarrow> u8 list \<Rightarrow> blob \<Rightarrow> bool" where
  "extended b bs b' \<longleftrightarrow> blob_wf b' \<and> measuring b' = measuring b \<and> (out_of_memory b \<longrightarrow> b' = b) \<and>
     (\<exists>k\<le>length bs. unat (blob_size b') = unat (blob_size b) + k \<and>
        (\<not> measuring b \<longrightarrow> contents b' = contents b @ take k bs) \<and>
        (\<not> out_of_memory b' \<longrightarrow> k = length bs))"

lemma extendedE:
  assumes "extended b bs b'"
  obtains k where "blob_wf b'" "measuring b' = measuring b" "out_of_memory b \<longrightarrow> b' = b" "k \<le> length bs"
    "unat (blob_size b') = unat (blob_size b) + k"
    "\<not> measuring b \<longrightarrow> contents b' = contents b @ take k bs" "\<not> out_of_memory b' \<longrightarrow> k = length bs"
  using assms unfolding extended_def by blast

lemma extended_refl: "blob_wf b \<Longrightarrow> extended b [] b"
  by (simp add: extended_def)

lemma extended_trans:
  assumes "extended b xs b1" "extended b1 ys b2"
  shows "extended b (xs @ ys) b2"
  using assms(1)
proof (rule extendedE)
  fix k assume 1: "blob_wf b1" "measuring b1 = measuring b" "out_of_memory b \<longrightarrow> b1 = b" "k \<le> length xs"
    "unat (blob_size b1) = unat (blob_size b) + k"
    "\<not> measuring b \<longrightarrow> contents b1 = contents b @ take k xs" "\<not> out_of_memory b1 \<longrightarrow> k = length xs"
  from assms(2) show ?thesis
  proof (rule extendedE)
    fix l assume 2: "blob_wf b2" "measuring b2 = measuring b1" "out_of_memory b1 \<longrightarrow> b2 = b1" "l \<le> length ys"
      "unat (blob_size b2) = unat (blob_size b1) + l"
      "\<not> measuring b1 \<longrightarrow> contents b2 = contents b1 @ take l ys" "\<not> out_of_memory b2 \<longrightarrow> l = length ys"
    show ?thesis
    proof (cases "out_of_memory b1")
      case True
      with 1 2 show ?thesis unfolding extended_def by (auto intro!: exI [of _ k])
    next
      case False
      with 1 2 show ?thesis unfolding extended_def by (auto intro!: exI [of _ "k + l"])
    qed
  qed
qed

definition appended :: "blob \<Rightarrow> u8 list \<Rightarrow> c_error + bool \<times> blob \<Rightarrow> bool" where
  "appended b bs r \<longleftrightarrow> (\<exists>b'. r = Inr (\<not> out_of_memory b', b') \<and> extended b bs b')"

lemma length_contents: "blob_wf b \<Longrightarrow> \<not> measuring b \<Longrightarrow> length (contents b) = unat (blob_size b)"
  by (auto simp: contents_def blob_wf_def measuring_def word_le_nat_alt split: option.split)

lemma store_at_append:
  assumes "blob_wf b" "blob_data b = Some mem" "unat (blob_size b) + length bs \<le> unat (allocated b)"
    "unat sz = unat (blob_size b) + length bs"
  shows "\<exists>mem'. store_at mem (unat (blob_size b)) bs = Inr mem' \<and>
    blob_wf (b\<lparr>blob_data := Some mem', blob_size := sz\<rparr>) \<and>
    contents (b\<lparr>blob_data := Some mem', blob_size := sz\<rparr>) = contents b @ bs"
  using assms by (auto simp: store_at_def blob_wf_def contents_def word_le_nat_alt)

lemma appendedI:
  assumes g: "grown b (length bs) (ok, b')" and n: "no_wrap_size b (length bs)"
    and sz: "unat sz = unat (blob_size b) + length bs"
  shows "appended b bs
    (if ok then (case blob_data b' of
         None \<Rightarrow> Inr (True, b'\<lparr>blob_size := sz\<rparr>)
       | Some mem \<Rightarrow> (case store_at mem (unat (blob_size b')) bs of
             Inl e \<Rightarrow> Inl e
           | Inr mem' \<Rightarrow> Inr (True, b'\<lparr>blob_data := Some mem', blob_size := sz\<rparr>)))
     else Inr (False, b'))"
proof (cases ok)
  case False
  with g show ?thesis by (auto simp: appended_def grown_def extended_def)
next
  case ok: True
  have room: "unat (blob_size b') + length bs \<le> unat (allocated b')"
    and sz': "unat sz = unat (blob_size b') + length bs" and oom: "\<not> out_of_memory b'" "\<not> out_of_memory b"
    using g ok sz by (auto simp: grown_def)
  show ?thesis
  proof (cases "blob_data b'")
    case None
    then have "measuring b' \<or> bs = []" using g ok by (auto simp: grown_def)
    with None ok g room sz' oom show ?thesis
      by (auto simp: appended_def extended_def grown_def blob_wf_def measuring_def contents_def word_le_nat_alt
          intro!: exI [of _ "length bs"])
  next
    case (Some mem)
    obtain mem' where "store_at mem (unat (blob_size b')) bs = Inr mem'"
      "blob_wf (b'\<lparr>blob_data := Some mem', blob_size := sz\<rparr>)"
      "contents (b'\<lparr>blob_data := Some mem', blob_size := sz\<rparr>) = contents b' @ bs"
      using store_at_append [OF _ Some room sz'] g by (auto simp: grown_def)
    with Some ok g sz oom show ?thesis
      by (auto simp: appended_def extended_def grown_def measuring_def intro!: exI [of _ "length bs"])
  qed
qed

lemma blob_size_less: "blob_wf b \<Longrightarrow> no_wrap_size b n \<Longrightarrow> unat (blob_size b) < 2 ^ 63"
  using blob_wf_size [of b] by (cases "measuring b") (auto simp: no_wrap_size_def)

lemma blob_write_bytes_appended:
  assumes "blob_wf b" "no_wrap_size b (length bs)" "allocator_ok fresh"
  shows "appended b bs (blob_write_bytes fresh b bs)"
proof -
  let ?n = "word_of_nat (length bs) :: u64"
  obtain ok b' where g: "grow_to_fit fresh b ?n = (ok, b')" by (cases "grow_to_fit fresh b ?n")
  have grown: "grown b (length bs) (ok, b')" using grow_to_fit_grown [OF assms] unfolding g .
  then have same: "blob_size b' = blob_size b" by (simp add: grown_def)
  then have sz: "unat (blob_size b' + ?n) = unat (blob_size b) + length bs"
    using unat_size_add(1) [OF assms(1,2)] by simp
  show ?thesis
    using appendedI [OF grown assms(2) sz] unfolding blob_write_bytes_def Let_def g
    by (cases ok) simp_all
qed

definition pad_len :: "nat \<Rightarrow> nat \<Rightarrow> nat" where
  "pad_len a n = round_up a n - n"

text \<open>Padding: the flag that \<open>align_blob\<close> returns is ignored by its callers.\<close>

lemma align_blob_extended:
  assumes "blob_wf b" "no_wrap_size b 8" "allocator_ok fresh"
    and a: "unat (ALIGN (blob_size b) a) = round_up k (unat (blob_size b))" "0 < k" "k \<le> 8"
  shows "\<exists>ok b'. align_blob fresh b a = Inr (ok, b') \<and>
    extended b (replicate (pad_len k (unat (blob_size b))) 0) b'"
proof -
  let ?new = "ALIGN (blob_size b) a" and ?p = "pad_len k (unat (blob_size b))"
  let ?bs = "replicate ?p (0 :: u8)"
  have up: "unat (blob_size b) \<le> unat ?new" "unat ?new < unat (blob_size b) + k"
    using a round_up_ge round_up_less by simp_all
  have p: "?p < 8" "unat ?new = unat (blob_size b) + length ?bs" "?new - blob_size b = word_of_nat ?p"
  proof -
    show "?p < 8" "unat ?new = unat (blob_size b) + length ?bs"
      using up a by (auto simp: pad_len_def)
    then have "unat (?new - blob_size b) = ?p" using up by (simp add: no_wrap)
    then show "?new - blob_size b = word_of_nat ?p"
      using \<open>?p < 8\<close> by (simp add: word_unat_eq_iff unat_of_nat)
  qed
  show ?thesis
  proof (cases "blob_size b < ?new")
    case False
    with up p have "?bs = []" by (simp add: word_less_nat_alt)
    with False assms(1) show ?thesis by (auto simp: align_blob_def Let_def extended_refl)
  next
    case True
    have n: "no_wrap_size b (length ?bs)" using assms(2) p(1) by (simp add: no_wrap_size_def)
    obtain ok b' where g: "grow_to_fit fresh b (word_of_nat ?p) = (ok, b')"
      by (cases "grow_to_fit fresh b (word_of_nat ?p)")
    have grown: "grown b (length ?bs) (ok, b')" using grow_to_fit_grown [OF assms(1) n assms(3)] g by simp
    then have same: "blob_size b' = blob_size b" by (simp add: grown_def)
    have rep: "unat (?new - blob_size b') = ?p" using same up p(2) by (simp add: no_wrap)
    show ?thesis
      using appendedI [OF grown n p(2)] True unfolding align_blob_def Let_def p(3) g appended_def
      by (cases ok) (auto simp only: prod.case bool.case if_True if_False rep)
  qed
qed

lemma extended_no_wrap:
  assumes "extended b bs b'" "no_wrap_size b n" "measuring b \<longrightarrow> unat (blob_size b) + length bs < 2 ^ 63"
  shows "no_wrap_size b' n"
  using assms by (auto simp: extended_def no_wrap_size_def)

section \<open>Serialized items\<close>

text \<open>What clients write, one item per call of a \<^verbatim>\<open>blob_write_\<close> function, and the bytes such an item
  adds to a buffer of \<open>n\<close> bytes.\<close>

datatype item = Uint32 u32 | Uint64 u64 | Intptr u64 | Bytes "u8 list" | String "u8 list"

fun item_bytes :: "bool \<Rightarrow> nat \<Rightarrow> item \<Rightarrow> u8 list" where
  "item_bytes be n (Uint32 w) = replicate (pad_len 4 n) 0 @ word_bytes be w"
| "item_bytes be n (Uint64 w) = replicate (pad_len 8 n) 0 @ word_bytes be w"
| "item_bytes be n (Intptr w) = replicate (pad_len 8 n) 0 @ word_bytes be w"
| "item_bytes be n (Bytes bs) = bs"
| "item_bytes be n (String s) = s @ [0]"

fun items_bytes :: "bool \<Rightarrow> nat \<Rightarrow> item list \<Rightarrow> u8 list" where
  "items_bytes be n [] = []"
| "items_bytes be n (x # xs) =
     (let bs = item_bytes be n x in bs @ items_bytes be (n + length bs) xs)"

text \<open>A byte array is smaller than the largest object; a string has no zero byte inside and its
  length fits an \<^verbatim>\<open>int\<close>.\<close>

fun item_ok :: "item \<Rightarrow> bool" where
  "item_ok (Bytes bs) \<longleftrightarrow> length bs < 2 ^ 63"
| "item_ok (String s) \<longleftrightarrow> 0 \<notin> set s \<and> length s + 1 < 2 ^ 31"
| "item_ok _ \<longleftrightarrow> True"

fun write_item :: "bool \<Rightarrow> allocator \<Rightarrow> blob \<Rightarrow> item \<Rightarrow> c_error + bool \<times> blob" where
  "write_item be fresh b (Uint32 w) = blob_write_uint32 be fresh b w"
| "write_item be fresh b (Uint64 w) = blob_write_uint64 be fresh b w"
| "write_item be fresh b (Intptr w) = blob_write_intptr be fresh b w"
| "write_item be fresh b (Bytes bs) = blob_write_bytes fresh b bs"
| "write_item be fresh b (String s) = blob_write_string fresh b s"

text \<open>Serializers ignore the results of the single writes and look at \<^verbatim>\<open>out_of_memory\<close> at the end.\<close>

fun write_items :: "bool \<Rightarrow> allocator \<Rightarrow> blob \<Rightarrow> item list \<Rightarrow> c_error + blob" where
  "write_items be fresh b [] = Inr b"
| "write_items be fresh b (x # xs) =
     (case write_item be fresh b x of
        Inl e \<Rightarrow> Inl e
      | Inr (_, b') \<Rightarrow> write_items be fresh b' xs)"

text \<open>The reader must know the kinds of the items, and the size of a byte array. It looks at the
  overrun flag in the end, so a failed read of an array or a string gives an empty one.\<close>

datatype item_kind = Kuint32 | Kuint64 | Kintptr | Kbytes u64 | Kstring

fun kind :: "item \<Rightarrow> item_kind" where
  "kind (Uint32 _) = Kuint32"
| "kind (Uint64 _) = Kuint64"
| "kind (Intptr _) = Kintptr"
| "kind (Bytes bs) = Kbytes (word_of_nat (length bs))"
| "kind (String _) = Kstring"

fun read_item :: "bool \<Rightarrow> item_kind \<Rightarrow> blob_reader \<Rightarrow> c_error + item \<times> blob_reader" where
  "read_item be Kuint32 r = map_sum id (map_prod Uint32 id) (blob_read_uint32 be r)"
| "read_item be Kuint64 r = map_sum id (map_prod Uint64 id) (blob_read_uint64 be r)"
| "read_item be Kintptr r = map_sum id (map_prod Intptr id) (blob_read_intptr be r)"
| "read_item be (Kbytes n) r =
     map_sum id (map_prod (\<lambda>x. Bytes (case x of None \<Rightarrow> [] | Some bs \<Rightarrow> bs)) id) (blob_copy_bytes r n)"
| "read_item be Kstring r =
     map_sum id (map_prod (\<lambda>x. String (case x of None \<Rightarrow> [] | Some s \<Rightarrow> s)) id) (blob_read_string r)"

fun read_items :: "bool \<Rightarrow> item_kind list \<Rightarrow> blob_reader \<Rightarrow> c_error + item list \<times> blob_reader" where
  "read_items be [] r = Inr ([], r)"
| "read_items be (x # xs) r =
     (case read_item be x r of
        Inl e \<Rightarrow> Inl e
      | Inr (y, r') \<Rightarrow> (case read_items be xs r' of
            Inl e \<Rightarrow> Inl e
          | Inr (ys, r'') \<Rightarrow> Inr (y # ys, r'')))"

lemma write_padded_appended:
  assumes "blob_wf b" "no_wrap_size b (length bs)" "allocator_ok fresh"
    and a: "unat (ALIGN (blob_size b) a) = round_up k (unat (blob_size b))" "0 < k" "k \<le> 8"
    and r: "r = (case align_blob fresh b a of Inl e \<Rightarrow> Inl e | Inr (_, b') \<Rightarrow> blob_write_bytes fresh b' bs)"
    and m: "measuring b \<longrightarrow> unat (blob_size b) + pad_len k (unat (blob_size b)) < 2 ^ 63"
  shows "appended b (replicate (pad_len k (unat (blob_size b))) 0 @ bs) r"
proof -
  have "no_wrap_size b 8" using assms(2) by (simp add: no_wrap_size_def)
  then obtain ok b1 where al: "align_blob fresh b a = Inr (ok, b1)"
    and e1: "extended b (replicate (pad_len k (unat (blob_size b))) 0) b1"
    using align_blob_extended [OF assms(1) _ assms(3) a] by blast
  have "blob_wf b1" using e1 by (simp add: extended_def)
  moreover have "no_wrap_size b1 (length bs)"
    by (rule extended_no_wrap [OF e1 assms(2)]) (use m in simp)
  ultimately obtain b2 where w: "blob_write_bytes fresh b1 bs = Inr (\<not> out_of_memory b2, b2)"
    and e2: "extended b1 bs b2"
    using blob_write_bytes_appended [OF _ _ assms(3)] unfolding appended_def by blast
  show ?thesis unfolding r al appended_def
    using extended_trans [OF e1 e2] w by (simp only: sum.case prod.case) blast
qed

lemma write_item_appended:
  assumes "blob_wf b" "allocator_ok fresh" "item_ok x"
    and m: "measuring b \<longrightarrow> unat (blob_size b) + length (item_bytes be (unat (blob_size b)) x) < 2 ^ 63"
  shows "appended b (item_bytes be (unat (blob_size b)) x) (write_item be fresh b x)"
proof -
  have nw: "no_wrap_size b n" if "n < 2 ^ 63" for n using m that by (auto simp: no_wrap_size_def)
  have "unat (blob_size b) < 2 ^ 63" by (rule blob_size_less [OF assms(1) nw [of 0]]) simp
  then have al: "unat (ALIGN (blob_size b) 4) = round_up 4 (unat (blob_size b))"
    "unat (ALIGN (blob_size b) 8) = round_up 8 (unat (blob_size b))"
    by (auto intro: unat_ALIGN)
  note padded = write_padded_appended [OF assms(1) nw assms(2) al(1)]
    write_padded_appended [OF assms(1) nw assms(2) al(2)]
  note bytes = blob_write_bytes_appended [OF assms(1) nw assms(2)]
  show ?thesis
  proof (cases x)
    case (Uint32 w)
    then show ?thesis using m
      by (simp add: blob_write_uint32_def) (rule padded(1); auto)
  next
    case (Uint64 w)
    then show ?thesis using m
      by (simp add: blob_write_uint64_def) (rule padded(2); auto)
  next
    case (Intptr w)
    then show ?thesis using m
      by (simp add: blob_write_intptr_def) (rule padded(2); auto)
  next
    case (Bytes bs)
    then show ?thesis using bytes assms(3) by simp
  next
    case (String s)
    then have tw: "takeWhile (\<lambda>c. c \<noteq> 0) s = s" using assms(3) by (auto simp: takeWhile_eq_all_conv)
    have "appended b (s @ [0]) (blob_write_bytes fresh b (s @ [0]))"
      by (rule bytes) (use assms(3) String in simp)
    then show ?thesis unfolding String write_item.simps item_bytes.simps blob_write_string_def tw .
  qed
qed

lemma blob_write_bytes_oom: "out_of_memory b \<Longrightarrow> blob_write_bytes fresh b bs = Inr (False, b)"
  by (simp add: blob_write_bytes_def grow_to_fit_def)

lemma align_blob_oom: "out_of_memory b \<Longrightarrow> \<exists>ok. align_blob fresh b a = Inr (ok, b)"
  by (auto simp: align_blob_def grow_to_fit_def Let_def)

lemma write_item_oom: "out_of_memory b \<Longrightarrow> write_item be fresh b x = Inr (False, b)"
  using align_blob_oom [of b fresh 4] align_blob_oom [of b fresh 8]
  by (cases x) (auto simp: blob_write_bytes_oom blob_write_uint32_def blob_write_uint64_def
      blob_write_intptr_def blob_write_string_def)

lemma write_items_oom: "out_of_memory b \<Longrightarrow> write_items be fresh b xs = Inr b"
  by (induction xs) (simp_all add: write_item_oom)

lemma extended_oom: "blob_wf b \<Longrightarrow> out_of_memory b \<Longrightarrow> extended b bs b"
  by (auto simp: extended_def)

lemma write_items_extended:
  assumes "blob_wf b" "allocator_ok fresh" "\<forall>x\<in>set xs. item_ok x"
    and "measuring b \<longrightarrow> unat (blob_size b) + length (items_bytes be (unat (blob_size b)) xs) < 2 ^ 63"
  shows "\<exists>b'. write_items be fresh b xs = Inr b' \<and> extended b (items_bytes be (unat (blob_size b)) xs) b'"
  using assms
proof (induction xs arbitrary: b)
  case Nil
  then show ?case by (simp add: extended_refl)
next
  case (Cons x xs)
  let ?bs = "item_bytes be (unat (blob_size b)) x"
  have "appended b ?bs (write_item be fresh b x)"
    by (rule write_item_appended) (use Cons.prems in \<open>auto simp: Let_def\<close>)
  then obtain b1 where w: "write_item be fresh b x = Inr (\<not> out_of_memory b1, b1)" and e1: "extended b ?bs b1"
    unfolding appended_def by blast
  let ?rest = "items_bytes be (unat (blob_size b) + length ?bs) xs"
  have wf1: "blob_wf b1" and m1: "measuring b1 = measuring b" using e1 by (simp_all add: extended_def)
  obtain b' where rec: "write_items be fresh b1 xs = Inr b'" and e2: "extended b1 ?rest b'"
  proof (cases "out_of_memory b1")
    case False
    then have size: "unat (blob_size b1) = unat (blob_size b) + length ?bs"
      using e1 by (auto simp: extended_def)
    have "\<exists>b'. write_items be fresh b1 xs = Inr b' \<and> extended b1 (items_bytes be (unat (blob_size b1)) xs) b'"
      by (rule Cons.IH) (use Cons.prems wf1 m1 in \<open>auto simp: Let_def size\<close>)
    then show ?thesis using that unfolding size by blast
  next
    case True
    then show ?thesis using that write_items_oom extended_oom [OF wf1 True] by blast
  qed
  show ?case using extended_trans [OF e1 e2] w rec by (auto simp: Let_def)
qed

section \<open>Reading back\<close>

definition reader_at :: "blob_reader \<Rightarrow> u8 list \<Rightarrow> nat \<Rightarrow> bool" where
  "reader_at r data n \<longleftrightarrow> rd_data r = data \<and> unat (rd_end r) = length data \<and> length data < 2 ^ 63 \<and>
     unat (rd_current r) = n \<and> \<not> overrun r"

lemma ensure_can_read_at:
  assumes "reader_at r data n" "n + unat k \<le> length data"
  shows "ensure_can_read r k = (True, r)" "unat (rd_current r + k) = n + unat k"
proof -
  have u: "unat (rd_end r - rd_current r) = length data - n"
    using assms by (simp add: no_wrap reader_at_def)
  show "ensure_can_read r k = (True, r)"
    using assms u by (simp add: ensure_can_read_def reader_at_def word_le_nat_alt)
  show "unat (rd_current r + k) = n + unat k"
    using assms by (subst unat_add_no_wrap) (auto simp: reader_at_def)
qed

lemma reader_at_align:
  assumes "reader_at r data n" "n < length data"
  shows "reader_at (align_blob_reader r 4) data (round_up 4 n)" "reader_at (align_blob_reader r 8) data (round_up 8 n)"
  using assms unat_ALIGN [of "rd_current r"] by (auto simp: reader_at_def align_blob_reader_def)

lemma round_up_pad: "0 < a \<Longrightarrow> round_up a n = n + pad_len a n"
  using round_up_ge [of a n] by (simp add: pad_len_def)

lemma reader_at_advance:
  "reader_at r data n \<Longrightarrow> n + unat k \<le> length data \<Longrightarrow>
   reader_at (r\<lparr>rd_current := rd_current r + k\<rparr>) data (n + unat k)"
  using ensure_can_read_at(2) [of r data n k] by (simp add: reader_at_def)

lemma read_field_at:
  assumes "reader_at r (pre @ bs @ zs) (length pre)" "unat k = length bs"
  shows "ensure_can_read r k = (True, r)"
    "load_at (rd_data r) (unat (rd_current r)) (length bs) = Inr bs"
    "reader_at (r\<lparr>rd_current := rd_current r + k\<rparr>) (pre @ bs @ zs) (length (pre @ bs))"
proof -
  have le: "length pre + unat k \<le> length (pre @ bs @ zs)" using assms(2) by simp
  show "ensure_can_read r k = (True, r)" by (rule ensure_can_read_at(1) [OF assms(1) le])
  show "load_at (rd_data r) (unat (rd_current r)) (length bs) = Inr bs"
    using assms(1) load_at_append [of "length pre" pre] by (simp only: reader_at_def)
  show "reader_at (r\<lparr>rd_current := rd_current r + k\<rparr>) (pre @ bs @ zs) (length (pre @ bs))"
    using reader_at_advance [OF assms(1) le] assms(2) by simp
qed

lemma reader_at_pad:
  assumes "reader_at r (xs @ (replicate (pad_len k (length xs)) 0 @ bs) @ zs) (length xs)" "bs \<noteq> []"
    and "k = 4 \<and> a = 4 \<or> k = 8 \<and> a = 8"
  shows "reader_at (align_blob_reader r a)
    ((xs @ replicate (pad_len k (length xs)) 0) @ bs @ zs) (length (xs @ replicate (pad_len k (length xs)) 0))"
  using assms(3)
proof (elim disjE conjE)
  have less: "length xs < length (xs @ (replicate (pad_len k (length xs)) 0 @ bs) @ zs)"
    using assms(2) by simp
  show ?thesis if "k = 4" "a = 4"
    using reader_at_align(1) [OF assms(1) less] unfolding that by (simp add: round_up_pad)
  show ?thesis if "k = 8" "a = 8"
    using reader_at_align(2) [OF assms(1) less] unfolding that by (simp add: round_up_pad)
qed

lemma word_bytes_nonempty: "word_bytes be (w :: u32) \<noteq> []" "word_bytes be (v :: u64) \<noteq> []"
  by (simp_all flip: length_greater_0_conv)

lemma unat_scast_int: "n < 2 ^ 31 \<Longrightarrow> unat (scast (word_of_nat n :: u32) :: u64) = n"
proof -
  assume n: "n < 2 ^ 31"
  then have "take_bit 32 n = n" by (simp add: take_bit_nat_eq_self_iff)
  then have "\<not> bit (word_of_nat n :: u32) 31"
    using n by (simp add: bit_simps) (simp add: bit_nat_def)
  moreover have top: "m = 31" if "31 \<le> m" "m < 32" for m :: nat using that by simp
  ultimately have "(scast (word_of_nat n :: u32) :: u64) = ucast (word_of_nat n :: u32)"
    by (intro bit_word_eqI) (auto simp: bit_simps min_def dest: top)
  then show ?thesis using n by (simp add: unat_ucast_eq unat_of_nat)
qed

lemma read_string_at:
  assumes at: "reader_at r (xs @ (s @ [0]) @ zs) (length xs)" and s: "0 \<notin> set s" "length s + 1 < 2 ^ 31"
  shows "\<exists>r'. blob_read_string r = Inr (Some s, r') \<and>
    reader_at r' (xs @ (s @ [0]) @ zs) (length (xs @ s @ [0]))"
proof -
  let ?k = "scast (word_of_nat (length s + 1) :: u32) :: u64"
  have k: "unat ?k = length (s @ [0])" using unat_scast_int [OF s(2)] by simp
  note f = read_field_at [OF at k]
  have cur: "unat (rd_current r) = length xs" "unat (rd_end r) = length (xs @ (s @ [0]) @ zs)"
    "rd_data r = xs @ ((s @ [0]) @ zs) @ []"
    using at by (simp_all add: reader_at_def)
  then have "unat (rd_end r - rd_current r) = length ((s @ [0]) @ zs)" by (simp add: no_wrap)
  then have ld: "load_at (rd_data r) (unat (rd_current r)) (unat (rd_end r - rd_current r)) = Inr ((s @ [0]) @ zs)"
    unfolding cur(1,3) by (intro load_at_append) simp_all
  have tw: "takeWhile (\<lambda>c. c \<noteq> 0) ((s @ [0]) @ zs) = s"
    using s(1) by (auto simp: takeWhile_tail takeWhile_eq_all_conv)
  have "\<not> rd_end r \<le> rd_current r" using cur by (simp add: word_le_nat_alt)
  then show ?thesis
    unfolding blob_read_string_def ld tw sum.case Let_def f(1)
    using f(3) by (auto simp: f(1))
qed

lemma read_item_at:
  assumes at: "reader_at r (xs @ item_bytes be (length xs) x @ zs) (length xs)" and "item_ok x"
  shows "\<exists>r'. read_item be (kind x) r = Inr (x, r') \<and>
    reader_at r' (xs @ item_bytes be (length xs) x @ zs) (length (xs @ item_bytes be (length xs) x))"
proof (cases x)
  case (Uint32 w)
  let ?pre = "xs @ replicate (pad_len 4 (length xs)) 0"
  have "reader_at (align_blob_reader r 4) (?pre @ word_bytes be w @ zs) (length ?pre)"
    by (rule reader_at_pad [OF _ word_bytes_nonempty(1)]) (use at Uint32 in simp_all)
  note f = read_field_at [OF this, of 4]
  show ?thesis using f by (auto simp: Uint32 blob_read_uint32_def bytes_word_word_bytes)
next
  case (Uint64 w)
  let ?pre = "xs @ replicate (pad_len 8 (length xs)) 0"
  have "reader_at (align_blob_reader r 8) (?pre @ word_bytes be w @ zs) (length ?pre)"
    by (rule reader_at_pad [OF _ word_bytes_nonempty(2)]) (use at Uint64 in simp_all)
  note f = read_field_at [OF this, of 8]
  show ?thesis using f by (auto simp: Uint64 blob_read_uint64_def bytes_word_word_bytes)
next
  case (Intptr w)
  let ?pre = "xs @ replicate (pad_len 8 (length xs)) 0"
  have "reader_at (align_blob_reader r 8) (?pre @ word_bytes be w @ zs) (length ?pre)"
    by (rule reader_at_pad [OF _ word_bytes_nonempty(2)]) (use at Intptr in simp_all)
  note f = read_field_at [OF this, of 8]
  show ?thesis using f by (auto simp: Intptr blob_read_intptr_def bytes_word_word_bytes)
next
  case (Bytes bs)
  have k: "unat (word_of_nat (length bs) :: u64) = length bs"
    using assms(2) Bytes by (simp add: unat_of_nat)
  have "reader_at r (xs @ bs @ zs) (length xs)" using at Bytes by simp
  note f = read_field_at [OF this k]
  show ?thesis using f k by (auto simp: Bytes blob_copy_bytes_def blob_read_bytes_def)
next
  case (String s)
  then show ?thesis using read_string_at [of r xs s zs] at assms(2) by auto
qed

lemma read_items_at:
  assumes "reader_at r (xs @ items_bytes be (length xs) its) (length xs)" "\<forall>x\<in>set its. item_ok x"
  shows "\<exists>r'. read_items be (map kind its) r = Inr (its, r') \<and>
    reader_at r' (xs @ items_bytes be (length xs) its) (length (xs @ items_bytes be (length xs) its))"
  using assms
proof (induction its arbitrary: xs r)
  case (Cons x its)
  let ?bs = "item_bytes be (length xs) x"
  let ?rest = "items_bytes be (length (xs @ ?bs)) its"
  have "reader_at r (xs @ ?bs @ ?rest) (length xs)" using Cons.prems(1) by (simp add: Let_def)
  then obtain r1 where 1: "read_item be (kind x) r = Inr (x, r1)" and "reader_at r1 (xs @ ?bs @ ?rest) (length (xs @ ?bs))"
    using read_item_at Cons.prems(2) by (metis list.set_intros(1))
  then have "reader_at r1 ((xs @ ?bs) @ ?rest) (length (xs @ ?bs))" by simp
  from Cons.IH [OF this] Cons.prems(2) obtain r2 where "read_items be (map kind its) r1 = Inr (its, r2)"
    "reader_at r2 ((xs @ ?bs) @ ?rest) (length ((xs @ ?bs) @ ?rest))" by auto
  with 1 show ?case by (auto simp: Let_def)
qed simp

section \<open>Fixed buffers with enough room\<close>

definition room :: "blob \<Rightarrow> nat \<Rightarrow> bool" where
  "room b n \<longleftrightarrow> fixed_allocation b \<and> \<not> out_of_memory b \<and> unat (blob_size b) + n \<le> unat (allocated b)"

definition same_buffer :: "blob \<Rightarrow> blob \<Rightarrow> bool" where
  "same_buffer b b' \<longleftrightarrow> fixed_allocation b' \<and> allocated b' = allocated b \<and>
     (blob_data b' = None \<longleftrightarrow> blob_data b = None) \<and> \<not> out_of_memory b'"

lemma grow_to_fit_room: "room b n \<Longrightarrow> grow_to_fit fresh b (word_of_nat n) = (True, b)"
proof -
  assume r: "room b n"
  then have less: "unat (blob_size b) + n < 2 ^ 64"
    using unat_lt2p [of "allocated b"] by (simp add: room_def)
  then have n: "unat (word_of_nat n :: u64) = n" by (simp add: unat_of_nat)
  have "unat (blob_size b + word_of_nat n) = unat (blob_size b) + n"
    using less n unat_add_no_wrap [of "blob_size b" "word_of_nat n"] by simp
  with r show ?thesis by (simp add: grow_to_fit_def room_def word_le_nat_alt)
qed

lemma blob_write_bytes_room:
  "room b (length bs) \<Longrightarrow> blob_write_bytes fresh b bs = Inr (ok, b') \<Longrightarrow> same_buffer b b'"
  using grow_to_fit_room [of b "length bs" fresh]
  by (auto simp: blob_write_bytes_def Let_def same_buffer_def room_def split: option.splits sum.splits)

lemma align_blob_room:
  assumes "room b (pad_len k (unat (blob_size b)))" "align_blob fresh b a = Inr (ok, b')"
    "unat (ALIGN (blob_size b) a) = round_up k (unat (blob_size b))" "0 < k"
  shows "same_buffer b b'"
proof -
  let ?new = "ALIGN (blob_size b) a"
  have "unat (?new - blob_size b) = pad_len k (unat (blob_size b))"
    using assms(3,4) round_up_ge by (simp add: no_wrap pad_len_def)
  then have "?new - blob_size b = word_of_nat (pad_len k (unat (blob_size b)))"
    by (metis word_unat_eq_iff unat_of_nat unsigned_less take_bit_nat_eq_self take_bit_eq_mod)
  then have "grow_to_fit fresh b (?new - blob_size b) = (True, b)"
    using grow_to_fit_room [OF assms(1)] by simp
  with assms(1,2) show ?thesis
    by (auto simp: align_blob_def Let_def same_buffer_def room_def split: option.splits sum.splits if_splits)
qed

lemma write_item_room:
  assumes wf: "blob_wf b" and ok: "item_ok x" "allocator_ok fresh"
    and room: "room b (length (item_bytes be (unat (blob_size b)) x))"
    and m: "measuring b \<longrightarrow> unat (blob_size b) + length (item_bytes be (unat (blob_size b)) x) < 2 ^ 63"
    and w: "write_item be fresh b x = Inr (res, b')"
  shows "same_buffer b b'"
proof -
  have nw: "no_wrap_size b n" if "n < 2 ^ 63" for n using m that by (auto simp: no_wrap_size_def)
  have "unat (blob_size b) < 2 ^ 63" by (rule blob_size_less [OF wf nw [of 0]]) simp
  then have al: "unat (ALIGN (blob_size b) 4) = round_up 4 (unat (blob_size b))"
    "unat (ALIGN (blob_size b) 8) = round_up 8 (unat (blob_size b))"
    by (auto intro: unat_ALIGN)
  have padded: "same_buffer b b'"
    if "align_blob fresh b a = Inr (f, b1)" "blob_write_bytes fresh b1 bs = Inr (res, b')"
      "unat (ALIGN (blob_size b) a) = round_up k (unat (blob_size b))" "0 < k" "k \<le> 8"
      "room b (pad_len k (unat (blob_size b)) + length bs)" for a f b1 bs k
  proof -
    have r1: "room b (pad_len k (unat (blob_size b)))" using that(6) by (simp add: room_def)
    have sb: "same_buffer b b1" by (rule align_blob_room [OF r1 that(1,3,4)])
    have "no_wrap_size b 8" by (rule nw) simp
    then have "extended b (replicate (pad_len k (unat (blob_size b))) 0) b1"
      using align_blob_extended [OF wf _ ok(2) that(3-5)] that(1) by auto
    then have "unat (blob_size b1) = unat (blob_size b) + pad_len k (unat (blob_size b))"
      using sb by (auto simp: extended_def same_buffer_def)
    then have "room b1 (length bs)" using that(6) sb by (simp add: room_def same_buffer_def)
    from blob_write_bytes_room [OF this that(2)] sb show ?thesis by (simp add: same_buffer_def)
  qed
  note padded4 = padded [where k = 4, OF _ _ al(1)] and padded8 = padded [where k = 8, OF _ _ al(2)]
  show ?thesis
  proof (cases x)
    case (Uint32 v)
    then show ?thesis using w room padded4
      by (auto simp: blob_write_uint32_def split: sum.splits)
  next
    case (Uint64 v)
    then show ?thesis using w room padded8
      by (auto simp: blob_write_uint64_def split: sum.splits)
  next
    case (Intptr v)
    then show ?thesis using w room padded8
      by (auto simp: blob_write_intptr_def split: sum.splits)
  next
    case (Bytes bs)
    then show ?thesis using w room by (auto intro: blob_write_bytes_room)
  next
    case (String s)
    then have tw: "takeWhile (\<lambda>c. c \<noteq> 0) s = s" using ok(1) by (auto simp: takeWhile_eq_all_conv)
    show ?thesis
      by (rule blob_write_bytes_room [of b "s @ [0]" fresh res])
        (use room w String tw in \<open>simp_all only: item_bytes.simps write_item.simps blob_write_string_def tw\<close>)
  qed
qed

lemma write_items_room:
  assumes "blob_wf b" "allocator_ok fresh" "\<forall>x\<in>set xs. item_ok x"
    and "room b (length (items_bytes be (unat (blob_size b)) xs))"
    and "measuring b \<longrightarrow> unat (blob_size b) + length (items_bytes be (unat (blob_size b)) xs) < 2 ^ 63"
    and "write_items be fresh b xs = Inr b'"
  shows "same_buffer b b'"
  using assms
proof (induction xs arbitrary: b)
  case Nil
  then show ?case by (simp add: same_buffer_def room_def)
next
  case (Cons x xs)
  let ?bs = "item_bytes be (unat (blob_size b)) x"
  have "appended b ?bs (write_item be fresh b x)"
    by (rule write_item_appended) (use Cons.prems in \<open>auto simp: Let_def\<close>)
  then obtain b1 where w: "write_item be fresh b x = Inr (\<not> out_of_memory b1, b1)" and e: "extended b ?bs b1"
    unfolding appended_def by blast
  have sb: "same_buffer b b1"
    by (rule write_item_room [OF Cons.prems(1) _ Cons.prems(2) _ _ w])
      (use Cons.prems in \<open>auto simp: Let_def room_def\<close>)
  then have size: "unat (blob_size b1) = unat (blob_size b) + length ?bs"
    using e by (auto simp: extended_def same_buffer_def)
  have "same_buffer b1 b'"
    by (rule Cons.IH) (use Cons.prems w e sb size in \<open>auto simp: Let_def room_def same_buffer_def extended_def\<close>)
  with sb show ?case by (simp add: same_buffer_def)
qed

section \<open>Reading arbitrary data\<close>

datatype read_op = Field item_kind | Skip u64

fun run_reads :: "bool \<Rightarrow> read_op list \<Rightarrow> blob_reader \<Rightarrow> c_error + blob_reader" where
  "run_reads be [] r = Inr r"
| "run_reads be (Skip n # ops) r = run_reads be ops (blob_skip_bytes r n)"
| "run_reads be (Field k # ops) r =
     (case read_item be k r of
        Inl e \<Rightarrow> Inl e
      | Inr (_, r') \<Rightarrow> run_reads be ops r')"

definition reader_wf :: "blob_reader \<Rightarrow> bool" where
  "reader_wf r \<longleftrightarrow> unat (rd_end r) = length (rd_data r) \<and> length (rd_data r) < 2 ^ 63 \<and>
     unat (rd_current r) \<le> round_up 8 (length (rd_data r)) \<and>
     (\<not> overrun r \<longrightarrow> rd_current r \<le> rd_end r)"

lemma round_up_le: "0 < a \<Longrightarrow> a dvd m \<Longrightarrow> n \<le> m \<Longrightarrow> round_up a n \<le> m"
  unfolding round_up_def by (rule round_up_least(3))

definition reader_bounded :: "blob_reader \<Rightarrow> bool" where
  "reader_bounded r \<longleftrightarrow> unat (rd_end r) = length (rd_data r) \<and> length (rd_data r) < 2 ^ 63 \<and>
     unat (rd_current r) \<le> round_up 8 (length (rd_data r))"

lemma reader_wf_alt: "reader_wf r \<longleftrightarrow> reader_bounded r \<and> (\<not> overrun r \<longrightarrow> rd_current r \<le> rd_end r)"
  by (auto simp: reader_wf_def reader_bounded_def)

lemma reader_bounded_align:
  assumes "reader_bounded r"
  shows "reader_bounded (align_blob_reader r 4)" "reader_bounded (align_blob_reader r 8)"
proof -
  let ?m = "round_up 8 (length (rd_data r))"
  have "?m < length (rd_data r) + 8" by (rule round_up_less) simp
  then have "unat (rd_current r) \<le> 2 ^ 63 + 8" using assms by (simp add: reader_bounded_def)
  note al = unat_ALIGN [OF this]
  have "8 dvd ?m" by (rule dvd_round_up)
  then have "4 dvd ?m" by (rule dvd_trans [rotated]) simp
  then have "round_up 4 (unat (rd_current r)) \<le> ?m" "round_up 8 (unat (rd_current r)) \<le> ?m"
    using assms \<open>8 dvd ?m\<close> by (auto intro!: round_up_le simp: reader_bounded_def)
  then show "reader_bounded (align_blob_reader r 4)" "reader_bounded (align_blob_reader r 8)"
    using assms al by (simp_all add: reader_bounded_def align_blob_reader_def)
qed

lemma ensure_can_read_cases:
  assumes "reader_bounded r"
  obtains (fail) "ensure_can_read r k = (False, r\<lparr>overrun := True\<rparr>)" "reader_wf (r\<lparr>overrun := True\<rparr>)"
  | (ok) "ensure_can_read r k = (True, r)" "unat (rd_current r) + unat k \<le> length (rd_data r)"
      "reader_wf (r\<lparr>rd_current := rd_current r + k\<rparr>)"
proof (cases "\<not> overrun r \<and> rd_current r \<le> rd_end r \<and> k \<le> rd_end r - rd_current r")
  case True
  then have "unat (rd_end r - rd_current r) = unat (rd_end r) - unat (rd_current r)"
    by (intro unat_sub_no_wrap) (simp add: word_le_nat_alt)
  moreover have "unat k \<le> unat (rd_end r - rd_current r)" "unat (rd_current r) \<le> unat (rd_end r)"
    using True by (simp_all add: word_le_nat_alt)
  moreover have "unat (rd_end r) = length (rd_data r)" using assms by (simp add: reader_bounded_def)
  ultimately have le: "unat (rd_current r) + unat k \<le> length (rd_data r)" by linarith
  have u: "unat (rd_current r + k) = unat (rd_current r) + unat k"
    using assms le by (intro unat_add_no_wrap) (simp add: reader_bounded_def)
  have "length (rd_data r) \<le> round_up 8 (length (rd_data r))" by (rule round_up_ge) simp
  with le u assms have "reader_wf (r\<lparr>rd_current := rd_current r + k\<rparr>)"
    by (simp add: reader_wf_def reader_bounded_def word_le_nat_alt)
  with True le show ?thesis by (intro ok) (simp_all add: ensure_can_read_def)
next
  case False
  then show ?thesis using assms
    by (intro fail) (auto simp: ensure_can_read_def reader_wf_def reader_bounded_def)
qed

lemma read_word_wf:
  assumes "reader_bounded r"
    "res = (case ensure_can_read r k of
        (False, r') \<Rightarrow> Inr (0, r')
      | (True, r') \<Rightarrow> (case load_at (rd_data r') (unat (rd_current r')) (unat k) of
            Inl e \<Rightarrow> Inl e
          | Inr bs \<Rightarrow> Inr (f bs, r'\<lparr>rd_current := rd_current r' + k\<rparr>)))"
  shows "\<exists>v r'. res = Inr (v, r') \<and> reader_wf r'"
  using assms(1)
proof (cases rule: ensure_can_read_cases [of _ k])
  case fail
  then show ?thesis using assms(2) by simp
next
  case ok
  then show ?thesis using assms(2) load_at_fits [OF ok(2)] by auto
qed

lemma blob_skip_bytes_wf: "reader_wf r \<Longrightarrow> reader_wf (blob_skip_bytes r k)"
proof -
  assume "reader_wf r"
  then have "reader_bounded r" by (simp add: reader_wf_alt)
  then show ?thesis
    by (cases rule: ensure_can_read_cases [of _ k]) (simp_all add: blob_skip_bytes_def)
qed

lemma blob_copy_bytes_wf: "reader_wf r \<Longrightarrow> \<exists>v r'. blob_copy_bytes r k = Inr (v, r') \<and> reader_wf r'"
proof -
  assume "reader_wf r"
  then have "reader_bounded r" by (simp add: reader_wf_alt)
  then show ?thesis
  proof (cases rule: ensure_can_read_cases [of _ k])
    case ok
    then show ?thesis using load_at_fits [OF ok(2)]
      by (auto simp: blob_copy_bytes_def blob_read_bytes_def)
  qed (auto simp: blob_copy_bytes_def blob_read_bytes_def)
qed

lemma blob_read_string_wf:
  assumes "reader_wf r"
  shows "blob_read_string r = Inl Assertion \<or> (\<exists>v r'. blob_read_string r = Inr (v, r') \<and> reader_wf r')"
proof (cases "rd_end r \<le> rd_current r")
  case True
  then show ?thesis using assms by (auto simp: blob_read_string_def reader_wf_def)
next
  case False
  then have "unat (rd_current r) + unat (rd_end r - rd_current r) \<le> length (rd_data r)"
    using assms by (simp add: reader_wf_def word_le_nat_alt no_wrap)
  then obtain rest where ld: "load_at (rd_data r) (unat (rd_current r)) (unat (rd_end r - rd_current r)) = Inr rest"
    using load_at_fits by blast
  have b: "reader_bounded r" using assms by (simp add: reader_wf_alt)
  let ?k = "scast (word_of_nat (length (takeWhile (\<lambda>c. c \<noteq> 0) rest) + 1) :: u32) :: u64"
  from b show ?thesis
  proof (cases rule: ensure_can_read_cases [of _ ?k])
    case fail
    then show ?thesis using False ld assms
      by (auto simp: blob_read_string_def Let_def reader_wf_def)
  next
    case ok
    then show ?thesis using False ld assms
      by (auto simp: blob_read_string_def Let_def reader_wf_def)
  qed
qed

lemma unat_4_8: "unat (4 :: u64) = 4" "unat (8 :: u64) = 8"
  by simp_all

lemma read_item_wf:
  assumes "reader_wf r"
  shows "read_item be k r = Inl Assertion \<and> k = Kstring \<or> (\<exists>v r'. read_item be k r = Inr (v, r') \<and> reader_wf r')"
proof -
  have "reader_bounded r" using assms by (simp add: reader_wf_alt)
  note al = reader_bounded_align [OF this]
  have u32: "\<exists>v r'. blob_read_uint32 be r = Inr (v, r') \<and> reader_wf r'"
    by (rule read_word_wf [OF al(1), where k = 4 and f = "bytes_word be"])
      (simp only: blob_read_uint32_def unat_4_8)
  have u64: "\<exists>v r'. blob_read_uint64 be r = Inr (v, r') \<and> reader_wf r'"
    by (rule read_word_wf [OF al(2), where k = 8 and f = "bytes_word be"])
      (simp only: blob_read_uint64_def unat_4_8)
  have iptr: "\<exists>v r'. blob_read_intptr be r = Inr (v, r') \<and> reader_wf r'"
    by (rule read_word_wf [OF al(2), where k = 8 and f = "bytes_word be"])
      (simp only: blob_read_intptr_def unat_4_8)
  show ?thesis
  proof (cases k)
    case (Kbytes n)
    then show ?thesis using blob_copy_bytes_wf [OF assms, of n] by auto
  next
    case Kstring
    then show ?thesis using blob_read_string_wf [OF assms] by auto
  qed (use u32 u64 iptr in auto)
qed

lemma run_reads_wf:
  "reader_wf r \<Longrightarrow>
   run_reads be ops r = Inl Assertion \<and> Field Kstring \<in> set ops \<or> (\<exists>r'. run_reads be ops r = Inr r' \<and> reader_wf r')"
proof (induction be ops r rule: run_reads.induct)
  case (3 be k ops r)
  from read_item_wf [OF "3.prems", of be k] show ?case
  proof (elim disjE exE conjE)
    fix v r' assume "read_item be k r = Inr (v, r')" "reader_wf r'"
    with "3.IH" [of "(v, r')"] show ?thesis by auto
  qed simp
qed (auto simp: blob_skip_bytes_wf)

section \<open>Reserving and overwriting\<close>

lemma blob_reserve_bytes_correct:
  assumes "blob_wf b" "\<not> measuring b" "no_wrap_size b (unat n)" "allocator_ok fresh"
    "blob_reserve_bytes fresh b n = (Some off, b')"
  shows "off = blob_size b" "blob_wf b'" "\<not> measuring b'"
    "\<exists>junk. length junk = unat n \<and> contents b' = contents b @ junk"
proof -
  have n: "word_of_nat (unat n) = n" by (simp add: word_unat_eq_iff unat_of_nat)
  obtain ok b1 where g: "grow_to_fit fresh b n = (ok, b1)" by (cases "grow_to_fit fresh b n")
  have gr: "grown b (unat n) (ok, b1)"
    using grow_to_fit_grown [OF assms(1,3,4)] unfolding n g .
  have ok: ok and b': "off = blob_size b1" "b' = b1\<lparr>blob_size := blob_size b1 + n\<rparr>"
    using assms(5) g by (auto simp: blob_reserve_bytes_def split: bool.splits)
  have size: "blob_size b1 = blob_size b" "contents b1 = contents b" "unat (blob_size b) + unat n \<le> unat (allocated b1)"
    "blob_wf b1" "\<not> measuring b1"
    using gr ok assms(2) by (auto simp: grown_def)
  have u: "unat (blob_size b + n) = unat (blob_size b) + unat n"
    using unat_size_add(1) [OF assms(1,3)] unfolding n .
  show "off = blob_size b" using b' size by simp
  show wf: "blob_wf b'" using size u unfolding b' by (auto simp: blob_wf_def word_le_nat_alt)
  show nm: "\<not> measuring b'" using size unfolding b' by (simp add: measuring_def)
  have "take (unat (blob_size b)) (contents b') = contents b"
    using size u unfolding b' by (auto simp: contents_def split: option.split)
  moreover have "length (contents b') = unat (blob_size b) + unat n"
    using length_contents [OF wf nm] u size unfolding b' by simp
  ultimately show "\<exists>junk. length junk = unat n \<and> contents b' = contents b @ junk"
    by (intro exI [of _ "drop (unat (blob_size b)) (contents b')"]) (metis append_take_drop_id length_drop add_diff_cancel_left')
qed

lemma take_overwrite:
  "k + length bs \<le> n \<Longrightarrow> n \<le> length mem \<Longrightarrow>
   take n (take k mem @ bs @ drop (k + length bs) mem) =
     take k (take n mem) @ bs @ drop (k + length bs) (take n mem)"
  by (cases "n = k") (auto simp: drop_take min_def)

lemma blob_overwrite_bytes_correct:
  assumes "blob_wf b" "\<not> measuring b" "unat off + length bs \<le> length (contents b)"
  shows "\<exists>b'. blob_overwrite_bytes b off bs = Inr (True, b') \<and> blob_wf b' \<and> blob_size b' = blob_size b \<and>
    contents b' = take (unat off) (contents b) @ bs @ drop (unat off + length bs) (contents b)"
proof -
  have len: "length (contents b) = unat (blob_size b)" by (rule length_contents [OF assms(1,2)])
  have less: "unat off + length bs < 2 ^ 64" using assms(3) len unat_lt2p [of "blob_size b"] by simp
  then have n: "unat (word_of_nat (length bs) :: u64) = length bs" by (simp add: unat_of_nat)
  have u: "unat (off + word_of_nat (length bs)) = unat off + length bs"
    using less n unat_add_no_wrap [of off "word_of_nat (length bs)"] by simp
  have guard: "\<not> (off + word_of_nat (length bs) < off \<or> blob_size b < off + word_of_nat (length bs))"
    using assms(3) len by (simp add: word_less_nat_alt u)
  show ?thesis
  proof (cases "blob_data b")
    case None
    with assms guard show ?thesis by (simp add: blob_overwrite_bytes_def contents_def Let_def)
  next
    case (Some mem)
    then have m: "unat (blob_size b) \<le> length mem" using assms(1) by (simp add: blob_wf_def word_le_nat_alt)
    have fit: "unat off + length bs \<le> unat (blob_size b)" using assms(3) len by simp
    let ?mem = "take (unat off) mem @ bs @ drop (unat off + length bs) mem"
    have st: "store_at mem (unat off) bs = Inr ?mem" using fit m by (simp add: store_at_def)
    have "blob_wf (b\<lparr>blob_data := Some ?mem\<rparr>)"
      using assms(1) Some fit m by (auto simp: blob_wf_def)
    moreover have "contents (b\<lparr>blob_data := Some ?mem\<rparr>) =
        take (unat off) (contents b) @ bs @ drop (unat off + length bs) (contents b)"
      using take_overwrite [OF fit m] Some by (simp add: contents_def)
    ultimately show ?thesis using Some guard st by (simp add: blob_overwrite_bytes_def Let_def)
  qed
qed

section \<open>Properties\<close>

lemma blob_init_wf: "blob_wf blob_init" "\<not> measuring blob_init" "unat (blob_size blob_init) = 0" "contents blob_init = []"
  by (simp_all add: blob_wf_def measuring_def blob_init_def contents_def)

lemma write_items_init:
  assumes "allocator_ok fresh" "\<forall>x\<in>set items. item_ok x"
  obtains b where "write_items be fresh blob_init items = Inr b" "blob_wf b" "\<not> measuring b"
    "\<not> out_of_memory b \<longrightarrow> contents b = items_bytes be 0 items"
proof -
  obtain b where "write_items be fresh blob_init items = Inr b" "extended blob_init (items_bytes be 0 items) b"
    using write_items_extended [OF blob_init_wf(1) assms, of be] blob_init_wf by auto
  then show thesis using that blob_init_wf by (auto simp: extended_def)
qed

text \<open>
  C31: for any sequence of items (byte arrays below \<open>2 ^ 63\<close> bytes, strings without a zero byte and with a
  length that fits an \<^verbatim>\<open>int\<close>) and any allocator, writing them to a new blob ends without an
  access outside the buffer; unless the memory ran out, reading items of the same kinds from
  the bytes written gives the same values, consumes everything and does not overrun.
\<close>

theorem blob_roundtrip:
  assumes "allocator_ok fresh" "\<forall>x\<in>set items. item_ok x"
  shows "\<exists>b. write_items be fresh blob_init items = Inr b \<and>
    (\<not> out_of_memory b \<longrightarrow>
      (\<exists>r. read_items be (map kind items) (blob_reader_init (contents b) (blob_size b)) = Inr (items, r) \<and>
         \<not> overrun r \<and> rd_current r = rd_end r))"
proof -
  obtain b where b: "write_items be fresh blob_init items = Inr b" "blob_wf b" "\<not> measuring b"
    "\<not> out_of_memory b \<longrightarrow> contents b = items_bytes be 0 items"
    by (rule write_items_init [OF assms])
  have "\<exists>r. read_items be (map kind items) (blob_reader_init (contents b) (blob_size b)) = Inr (items, r) \<and>
      \<not> overrun r \<and> rd_current r = rd_end r" if "\<not> out_of_memory b"
  proof -
    let ?r = "blob_reader_init (contents b) (blob_size b)"
    have "reader_at ?r ([] @ items_bytes be (length ([] :: u8 list)) items) (length ([] :: u8 list))"
      using b that length_contents [OF b(2,3)] blob_wf_size [OF b(2,3)]
      by (simp add: reader_at_def blob_reader_init_def)
    from read_items_at [OF this assms(2)] show ?thesis
      by (auto simp: reader_at_def word_unat_eq_iff)
  qed
  with b(1) show ?thesis by blast
qed

theorem blob_roundtrip_witness:
  "\<exists>b. write_items False (\<lambda>n. if unat n < 2 ^ 63 then Some (replicate (unat n) 0xaa) else None) blob_init
       [String [0x61], Uint32 7, Uint64 9, Bytes [1, 2, 3]] = Inr b \<and>
    (\<not> out_of_memory b \<longrightarrow>
      (\<exists>r. read_items False [Kstring, Kuint32, Kuint64, Kbytes 3] (blob_reader_init (contents b) (blob_size b)) =
             Inr ([String [0x61], Uint32 7, Uint64 9, Bytes [1, 2, 3]], r) \<and>
         \<not> overrun r \<and> rd_current r = rd_end r))"
  using blob_roundtrip [of "\<lambda>n. if unat n < 2 ^ 63 then Some (replicate (unat n) 0xaa) else None"
      "[String [0x61], Uint32 7, Uint64 9, Bytes [1, 2, 3]]" False]
  by (simp add: allocator_ok_def)

abbreviation SIZE_MAX :: u64 where
  "SIZE_MAX \<equiv> 0xffffffffffffffff"

text \<open>
  C34: a fixed blob without a buffer counts what would be written. If the items fit into memory
  at all, the count is the size of the blob that a real write produces, and a fixed buffer of
  exactly that size receives the same bytes without running out of memory.
\<close>

theorem blob_measure_then_write:
  assumes "allocator_ok fresh" "\<forall>x\<in>set items. item_ok x"
    "write_items be fresh blob_init items = Inr b" "\<not> out_of_memory b" "length mem = unat (blob_size b)"
  shows "\<exists>m f. write_items be fresh (blob_init_fixed None SIZE_MAX) items = Inr m \<and>
    \<not> out_of_memory m \<and> blob_size m = blob_size b \<and>
    write_items be fresh (blob_init_fixed (Some mem) (blob_size m)) items = Inr f \<and>
    \<not> out_of_memory f \<and> contents f = contents b"
proof -
  let ?bs = "items_bytes be 0 items"
  let ?m0 = "blob_init_fixed None SIZE_MAX" and ?f0 = "blob_init_fixed (Some mem) (blob_size b)"
  obtain b' where b': "write_items be fresh blob_init items = Inr b'" "blob_wf b'" "\<not> measuring b'"
    "\<not> out_of_memory b' \<longrightarrow> contents b' = ?bs"
    by (rule write_items_init [OF assms(1,2)])
  with assms(3) have wf: "blob_wf b" "\<not> measuring b" "contents b = ?bs" using assms(4) by auto
  have len: "length ?bs = unat (blob_size b)" "length ?bs < 2 ^ 63"
    using length_contents [OF wf(1,2)] blob_wf_size [OF wf(1,2)] wf(3) by auto
  have m0: "blob_wf ?m0" "measuring ?m0" "blob_size ?m0 = 0" "room ?m0 (length ?bs)"
    using len by (simp_all add: blob_init_fixed_def blob_wf_def measuring_def room_def)
  have f0: "blob_wf ?f0" "\<not> measuring ?f0" "blob_size ?f0 = 0" "room ?f0 (length ?bs)" "contents ?f0 = []"
    using len assms(5) by (simp_all add: blob_init_fixed_def blob_wf_def measuring_def room_def contents_def)
  obtain m where m: "write_items be fresh ?m0 items = Inr m" "extended ?m0 ?bs m"
    using write_items_extended [OF m0(1) assms(1,2), of be] m0 len by auto
  obtain f where f: "write_items be fresh ?f0 items = Inr f" "extended ?f0 ?bs f"
    using write_items_extended [OF f0(1) assms(1,2), of be] f0 by auto
  have "same_buffer ?m0 m"
    by (rule write_items_room [OF m0(1) assms(1,2) _ _ m(1)]) (use m0 len in simp_all)
  moreover have "same_buffer ?f0 f"
    by (rule write_items_room [OF f0(1) assms(1,2) _ _ f(1)]) (use f0 in simp_all)
  ultimately have oom: "\<not> out_of_memory m" "\<not> out_of_memory f" by (simp_all add: same_buffer_def)
  then have size: "blob_size m = blob_size b"
    using m(2) m0(3) len(1) by (auto simp: extended_def word_unat_eq_iff)
  have "contents f = contents b" using f(2) oom f0 wf(3) by (auto simp: extended_def)
  with m(1) f(1) oom size show ?thesis by auto
qed

theorem blob_measure_then_write_witness:
  "\<exists>b m f. write_items False (\<lambda>n. if unat n < 2 ^ 63 then Some (replicate (unat n) 0xaa) else None) blob_init
       [Bytes [5], Uint32 7] = Inr b \<and>
     write_items False (\<lambda>n. if unat n < 2 ^ 63 then Some (replicate (unat n) 0xaa) else None)
       (blob_init_fixed None SIZE_MAX) [Bytes [5], Uint32 7] = Inr m \<and>
     blob_size m = blob_size b \<and>
     write_items False (\<lambda>n. if unat n < 2 ^ 63 then Some (replicate (unat n) 0xaa) else None)
       (blob_init_fixed (Some [1, 2, 3, 4, 5, 6, 7, 8]) (blob_size m)) [Bytes [5], Uint32 7] = Inr f \<and>
     contents f = contents b"
proof -
  let ?fresh = "\<lambda>n :: u64. if unat n < 2 ^ 63 then Some (replicate (unat n) (0xaa :: u8)) else None"
  let ?items = "[Bytes [5], Uint32 7]"
  define b where "b = \<lparr>blob_data = Some ([5, 0, 0, 0, 7, 0, 0, 0] @ replicate 4088 0xaa), allocated = 4096,
    blob_size = 8, fixed_allocation = False, out_of_memory = False\<rparr>"
  have bytes: "word_bytes False (7 :: u32) = [7, 0, 0, 0]" by (simp add: word_bytes_def upt_rec)
  have three: "replicate 3 (0 :: u8) = [0, 0, 0]" by (simp add: numeral_eq_Suc)
  have b: "write_items False ?fresh blob_init ?items = Inr b"
    by (simp add: b_def blob_init_def blob_write_uint32_def blob_write_bytes_def grow_to_fit_def realloc_def
        store_at_def align_blob_def ALIGN_def bytes three)
  have "\<exists>m f. write_items False ?fresh (blob_init_fixed None SIZE_MAX) ?items = Inr m \<and>
      \<not> out_of_memory m \<and> blob_size m = blob_size b \<and>
      write_items False ?fresh (blob_init_fixed (Some [1, 2, 3, 4, 5, 6, 7, 8]) (blob_size m)) ?items = Inr f \<and>
      \<not> out_of_memory f \<and> contents f = contents b"
    by (rule blob_measure_then_write [OF _ _ b]) (simp_all add: b_def allocator_ok_def)
  with b show ?thesis by blast
qed

text \<open>
  C33: with any allocator, also one that fails, and with a growing or a fixed buffer, a sequence
  of writes keeps the blob well-formed and appends a prefix of the encoding to what was there;
  it appends all of it exactly unless \<^verbatim>\<open>out_of_memory\<close> is set in the end, and a blob that was out
  of memory is left alone.
\<close>

theorem blob_out_of_memory_prefix:
  assumes "blob_wf b" "\<not> measuring b" "allocator_ok fresh" "\<forall>x\<in>set items. item_ok x"
  shows "\<exists>b' k. write_items be fresh b items = Inr b' \<and> blob_wf b' \<and>
    contents b' = contents b @ take k (items_bytes be (length (contents b)) items) \<and>
    (out_of_memory b' \<or> k = length (items_bytes be (length (contents b)) items)) \<and>
    (out_of_memory b \<longrightarrow> b' = b)"
proof -
  have len: "length (contents b) = unat (blob_size b)" by (rule length_contents [OF assms(1,2)])
  obtain b' where "write_items be fresh b items = Inr b'"
    "extended b (items_bytes be (unat (blob_size b)) items) b'"
    using write_items_extended [OF assms(1,3,4), of be] assms(2) by auto
  then show ?thesis unfolding len using assms(2) by (auto simp: extended_def)
qed

theorem blob_out_of_memory_prefix_witness:
  "\<exists>b' k. write_items False (\<lambda>_. None) (blob_init_fixed (Some [9, 9, 9, 9, 9, 9]) 6) [Uint32 1, Uint32 2] = Inr b' \<and>
     blob_wf b' \<and>
     contents b' = take k (items_bytes False 0 [Uint32 1, Uint32 2]) \<and>
     (out_of_memory b' \<or> k = length (items_bytes False 0 [Uint32 1, Uint32 2]))"
  using blob_out_of_memory_prefix [of "blob_init_fixed (Some [9, 9, 9, 9, 9, 9]) 6" "\<lambda>_. None"
      "[Uint32 1, Uint32 2]" False]
  by (simp add: blob_wf_def measuring_def allocator_ok_def blob_init_fixed_def contents_def
      del: items_bytes.simps)

text \<open>
  the documented way to fill in a count afterwards. A 32-bit slot is reserved, more items
  are written, and the slot is overwritten at the offset that the reservation returned: this
  succeeds, changes only the four bytes of the slot, and the slot is aligned.
\<close>

lemma blob_reserve_overwrite:
  assumes "blob_wf b" "\<not> measuring b" "allocator_ok fresh" "\<forall>x\<in>set items. item_ok x"
    "blob_reserve_uint32 fresh b = Inr (Some off, b1)" "write_items be fresh b1 items = Inr b2"
  shows "\<exists>b3. blob_overwrite_uint32 be b2 off v = Inr (True, b3) \<and> blob_size b3 = blob_size b2 \<and>
    4 dvd unat off \<and>
    contents b3 = take (unat off) (contents b2) @ word_bytes be v @ drop (unat off + 4) (contents b2)"
proof -
  have nw: "no_wrap_size b n" if "n < 2 ^ 63" for n using assms(2) that by (simp add: no_wrap_size_def)
  have small: "unat (blob_size b) < 2 ^ 63" by (rule blob_size_less [OF assms(1) nw [of 0]]) simp
  then have al: "unat (ALIGN (blob_size b) 4) = round_up 4 (unat (blob_size b))" by (auto intro: unat_ALIGN)
  have "no_wrap_size b 8" by (rule nw) simp
  then obtain ok b0 where a: "align_blob fresh b 4 = Inr (ok, b0)"
    "extended b (replicate (pad_len 4 (unat (blob_size b))) 0) b0"
    using align_blob_extended [OF assms(1) _ assms(3) al] by auto
  then have res: "blob_reserve_bytes fresh b0 4 = (Some off, b1)"
    using assms(5) by (simp add: blob_reserve_uint32_def)
  then have oom: "\<not> out_of_memory b0" by (auto simp: blob_reserve_bytes_def grow_to_fit_def)
  have b0: "blob_wf b0" "\<not> measuring b0" "unat (blob_size b0) = round_up 4 (unat (blob_size b))"
    using a(2) oom assms(2) by (auto simp: extended_def round_up_pad)
  have "no_wrap_size b0 (unat (4 :: u64))" using b0(2) by (simp add: no_wrap_size_def)
  note r = blob_reserve_bytes_correct [OF b0(1,2) this assms(3) res]
  have off: "unat off = round_up 4 (unat (blob_size b))" using r(1) b0(3) by simp
  obtain junk where j: "length junk = 4" "contents b1 = contents b0 @ junk" using r(4) by auto
  obtain b2' where "write_items be fresh b1 items = Inr b2'"
    "extended b1 (items_bytes be (unat (blob_size b1)) items) b2'"
    using write_items_extended [OF r(2) assms(3,4), of be] r(3) by auto
  then have e2: "extended b1 (items_bytes be (unat (blob_size b1)) items) b2" using assms(6) by simp
  then obtain k where c2: "contents b2 = contents b0 @ junk @ take k (items_bytes be (unat (blob_size b1)) items)"
    and wf2: "blob_wf b2" "\<not> measuring b2"
    using r(3) j(2) by (auto simp: extended_def)
  have "length (contents b0) = unat off" using length_contents [OF b0(1,2)] off b0(3) by simp
  then have fit: "unat off + length (word_bytes be v) \<le> length (contents b2)" using c2 j(1) by simp
  have "4 dvd unat off" unfolding off by (rule dvd_round_up)
  moreover have "round_up 4 (unat off) = unat off"
    by (rule antisym [OF round_up_le round_up_ge]) (use \<open>4 dvd unat off\<close> in simp_all)
  moreover have "unat off \<le> 2 ^ 63 + 8"
    using small round_up_less [of 4 "unat (blob_size b)"] off by simp
  ultimately have "ALIGN off 4 = off" using unat_ALIGN(1) [of off] by (simp add: word_unat_eq_iff)
  then show ?thesis
    using blob_overwrite_bytes_correct [OF wf2 fit] \<open>4 dvd unat off\<close> by (auto simp: blob_overwrite_uint32_def)
qed

text \<open>
  C32: reading is safe on arbitrary bytes. Whatever sequence of reads and skips a client makes,
  and whatever sizes it asks for, no byte outside the data is read; without string reads the
  sequence always ends normally. A reader that has not overrun stands inside its data.
\<close>

theorem blob_reader_bounds:
  assumes "length data < 2 ^ 63"
  shows "run_reads be ops (blob_reader_init data (word_of_nat (length data))) \<noteq> Inl Bad_access \<and>
    (Field Kstring \<notin> set ops \<longrightarrow>
      (\<exists>r. run_reads be ops (blob_reader_init data (word_of_nat (length data))) = Inr r)) \<and>
    (\<forall>r. run_reads be ops (blob_reader_init data (word_of_nat (length data))) = Inr r \<longrightarrow> reader_wf r)"
proof -
  let ?r = "blob_reader_init data (word_of_nat (length data))"
  have "reader_wf ?r" using assms by (simp add: reader_wf_def blob_reader_init_def unat_of_nat)
  from run_reads_wf [OF this, of be ops] show ?thesis by auto
qed

theorem blob_reader_bounds_witness:
  "run_reads False [Field Kstring, Skip 1, Field Kuint32] (blob_reader_init [0x61, 0, 5] 3) \<noteq> Inl Bad_access"
  using blob_reader_bounds [of "[0x61, 0, 5]" False "[Field Kstring, Skip 1, Field Kuint32]"] by simp

section \<open>Divergences\<close>

text \<open>A failed read of an integer may move \<^verbatim>\<open>current\<close>, past the end of the data: the position is
  aligned before the size is checked.\<close>

lemma blob_read_uint32_failed_moves:
  "\<exists>r. blob_read_uint32 be (blob_reader_init [1, 2, 3, 4, 5] 5\<lparr>rd_current := 5\<rparr>) = Inr (0, r) \<and>
     overrun r \<and> rd_current r = 8"
  by (simp add: blob_read_uint32_def align_blob_reader_def ensure_can_read_def blob_reader_init_def ALIGN_def)

text \<open>After an overrun a string read fails its assertion while bytes are left.\<close>

lemma blob_read_string_after_overrun:
  "\<exists>r. blob_read_uint32 be (blob_reader_init [1, 0] 2) = Inr (0, r) \<and> overrun r \<and>
     blob_read_string r = Inl Assertion"
  by (simp add: blob_read_uint32_def align_blob_reader_def ensure_can_read_def blob_reader_init_def ALIGN_def
      blob_read_string_def load_at_def)

text \<open>A reservation whose size wraps the sum is granted and moves the size backwards.\<close>

lemma blob_reserve_bytes_wraps:
  "\<exists>b. blob_reserve_bytes fresh (blob_init_fixed (Some (replicate 32 0)) 32\<lparr>blob_size := 16\<rparr>) 0xfffffffffffffff8 =
     (Some 16, b) \<and> blob_size b = 8"
  by (simp add: blob_reserve_bytes_def grow_to_fit_def blob_init_fixed_def)

end
