(* ===== verification/Bigmath.thy ===== *)
theory Bigmath
  imports Mesa_Prelude
begin

text \<open>
  \<^verbatim>\<open>src/util/bigmath.h\<close>: addition and multiplication of little-endian arrays of 32-bit limbs
  into an array that may be too short for the result. An array is the list of its limbs, so
  the length arguments are the lengths of the lists; they are natural numbers because the
  callers pass \<^verbatim>\<open>ARRAY_SIZE\<close> of a local array. The destination does not overlap the operands.
  Both functions compute the result modulo the size of the destination. The overflow flag of
  the addition is exact. The flag of the multiplication is never raised without an overflow,
  and it is exact while at most one column falls outside the destination.
\<close>

section \<open>The code\<close>

text \<open>The loop over the limbs of the destination: the limbs written from position \<open>i\<close> on, and the
  last carry.\<close>

fun ubm_add_limbs :: "u32 list \<Rightarrow> u32 list \<Rightarrow> nat \<Rightarrow> u32 \<Rightarrow> nat \<Rightarrow> u32 list \<times> u32" where
  "ubm_add_limbs a b i carry 0 = ([], carry)"
| "ubm_add_limbs a b i carry (Suc n) =
     (let total = (ucast carry :: u64);
          total = (if i < length a then total + ucast (a ! i) else total);
          total = (if i < length b then total + ucast (b ! i) else total);
          (dst, c) = ubm_add_limbs a b (Suc i) (ucast (drop_bit 32 total)) n
      in (ucast total # dst, c))"

definition ubm_add_u32arr :: "nat \<Rightarrow> u32 list \<Rightarrow> u32 list \<Rightarrow> u32 list \<times> bool" where
  "ubm_add_u32arr dst_len a b =
     (let (dst, carry) = ubm_add_limbs a b 0 0 dst_len
      in (dst,
          if list_ex (\<lambda>x. x \<noteq> 0) (drop dst_len a) then True
          else if list_ex (\<lambda>x. x \<noteq> 0) (drop dst_len b) then True
          else carry \<noteq> 0))"

text \<open>The inner loop over the limbs of \<^verbatim>\<open>b\<close> from position \<open>j\<close> on: the carry, the destination and the
  overflow flag when the loop ends or breaks.\<close>

fun ubm_mul_inner :: "u32 \<Rightarrow> nat \<Rightarrow> u32 list \<Rightarrow> nat \<Rightarrow> u32 \<Rightarrow> u32 list \<Rightarrow> bool \<Rightarrow> u32 \<times> u32 list \<times> bool" where
  "ubm_mul_inner ai i [] j carry dst overflow = (carry, dst, overflow)"
| "ubm_mul_inner ai i (bj # bs) j carry dst overflow =
     (let tmp = ucast ai * ucast bj :: u64;
          tmp = tmp + ucast carry
      in if i + j < length dst
         then let tmp = tmp + ucast (dst ! (i + j))
              in ubm_mul_inner ai i bs (Suc j) (ucast (drop_bit 32 tmp)) (dst[i + j := ucast tmp]) overflow
         else (carry, dst, overflow \<or> tmp > 0))"

text \<open>One turn of the outer loop, for limb \<open>i\<close> of \<^verbatim>\<open>a\<close>.\<close>

definition ubm_mul_row :: "u32 list \<Rightarrow> u32 \<Rightarrow> nat \<Rightarrow> u32 list \<times> bool \<Rightarrow> u32 list \<times> bool" where
  "ubm_mul_row b ai i = (\<lambda>(dst, overflow).
     let (carry, dst, overflow) = ubm_mul_inner ai i b 0 0 dst overflow
     in if i + length b < length dst then (dst[i + length b := carry], overflow)
        else (dst, overflow \<or> carry > 0))"

fun ubm_mul_rows :: "u32 list \<Rightarrow> u32 list \<Rightarrow> nat \<Rightarrow> u32 list \<times> bool \<Rightarrow> u32 list \<times> bool" where
  "ubm_mul_rows b [] i s = s"
| "ubm_mul_rows b (ai # a) i s = ubm_mul_rows b a (Suc i) (ubm_mul_row b ai i s)"

definition ubm_mul_u32arr :: "nat \<Rightarrow> u32 list \<Rightarrow> u32 list \<Rightarrow> u32 list \<times> bool" where
  "ubm_mul_u32arr dst_len a b = ubm_mul_rows b a 0 (replicate dst_len 0, False)"

section \<open>The number an array stands for\<close>

primrec limbs_val :: "u32 list \<Rightarrow> nat" where
  "limbs_val [] = 0"
| "limbs_val (x # xs) = unat x + 2 ^ 32 * limbs_val xs"

abbreviation radix :: nat where
  "radix \<equiv> 2 ^ 32"

lemma limbs_val_append: "limbs_val (xs @ ys) = limbs_val xs + radix ^ length xs * limbs_val ys"
  by (induction xs) (simp_all add: algebra_simps)

lemma limbs_val_less: "limbs_val xs < radix ^ length xs"
proof (induction xs)
  case (Cons x xs)
  have "unat x < radix" using unat_lt2p [of x] by simp
  then have "unat x + radix * limbs_val xs < radix * Suc (limbs_val xs)" by simp
  also have "\<dots> \<le> radix * radix ^ length xs"
    using Cons.IH by (intro mult_le_mono2) simp
  finally show ?case by simp
qed simp

lemma limbs_val_eq_0: "limbs_val xs = 0 \<longleftrightarrow> \<not> list_ex (\<lambda>x. x \<noteq> 0) xs"
  by (induction xs) (auto simp: unat_eq_0)

lemma limbs_val_replicate_0 [simp]: "limbs_val (replicate n 0) = 0"
  by (induction n) simp_all

lemma limbs_val_take_drop: "limbs_val xs = limbs_val (take n xs) + radix ^ n * limbs_val (drop n xs)"
proof (cases "n \<le> length xs")
  case True
  then show ?thesis
    using limbs_val_append [of "take n xs" "drop n xs"] by simp
qed simp

lemma limbs_val_update:
  "k < length d \<Longrightarrow> limbs_val (d[k := x]) + unat (d ! k) * radix ^ k = limbs_val d + unat x * radix ^ k"
proof (induction d arbitrary: k)
  case (Cons y d)
  show ?case
  proof (cases k)
    case (Suc j)
    with Cons.prems Cons.IH [of j]
    have "limbs_val (d[j := x]) + unat (d ! j) * radix ^ j = limbs_val d + unat x * radix ^ j" by simp
    then have "radix * (limbs_val (d[j := x]) + unat (d ! j) * radix ^ j) =
        radix * (limbs_val d + unat x * radix ^ j)" by simp
    with Suc show ?thesis by (simp add: algebra_simps)
  qed simp
qed simp

section \<open>64-bit intermediate results\<close>

lemma unat_ucast_u64 [simp]: "unat (ucast (x :: u32) :: u64) = unat x"
  using unat_lt2p [of x] by (simp add: unat_ucast_eq)

lemma unat_split_u64: "unat (ucast (w :: u64) :: u32) + radix * unat (ucast (drop_bit 32 w) :: u32) = unat w"
proof -
  have "unat w div radix < radix" using unat_lt2p [of w] by (simp add: div_less_iff_less_mult)
  then show ?thesis by (simp add: unat_ucast_eq unat_drop_bit_eq drop_bit_eq_div unat_div)
qed

lemma u32_bound: "unat (x :: u32) \<le> 0xffffffff"
  using unat_lt2p [of x] by simp

lemma mul_acc_bound:
  fixes a b c d :: u32
  shows "unat a * unat b + unat c + unat d < 2 ^ 64"
proof -
  have "unat a * unat b \<le> 0xffffffff * 0xffffffff" by (intro mult_le_mono u32_bound)
  then show ?thesis using u32_bound [of c] u32_bound [of d] by simp
qed

lemma unat_mul_acc:
  fixes a b c d :: u32
  shows "unat (ucast a * ucast b + ucast c :: u64) = unat a * unat b + unat c"
    and "unat (ucast a * ucast b + ucast c + ucast d :: u64) = unat a * unat b + unat c + unat d"
proof -
  have m: "unat (ucast a * ucast b :: u64) = unat a * unat b"
    using mul_acc_bound [of a b c d] by (subst unat_mult_no_wrap) simp_all
  have s: "unat (ucast a * ucast b + ucast c :: u64) = unat a * unat b + unat c"
    using mul_acc_bound [of a b c d] by (subst unat_add_no_wrap) (simp_all add: m)
  then show "unat (ucast a * ucast b + ucast c :: u64) = unat a * unat b + unat c" .
  show "unat (ucast a * ucast b + ucast c + ucast d :: u64) = unat a * unat b + unat c + unat d"
    using mul_acc_bound [of a b c d] by (subst unat_add_no_wrap) (simp_all add: s)
qed

section \<open>Addition\<close>

definition limb :: "u32 list \<Rightarrow> nat \<Rightarrow> u32" where
  "limb a i = (if i < length a then a ! i else 0)"

lemma limbs_val_take_Suc:
  "limbs_val (take (Suc n) (drop i a)) = unat (limb a i) + radix * limbs_val (take n (drop (Suc i) a))"
  by (cases "i < length a") (simp_all add: limb_def flip: Cons_nth_drop_Suc)

lemma ubm_add_limbs_Suc:
  "ubm_add_limbs a b i carry (Suc n) =
     (let s = ucast carry + ucast (limb a i) + ucast (limb b i) :: u64;
          (dst, c) = ubm_add_limbs a b (Suc i) (ucast (drop_bit 32 s)) n
      in (ucast s # dst, c))"
  by (simp add: limb_def)

lemma unat_add3:
  fixes a b c :: u32
  shows "unat (ucast a + ucast b + ucast c :: u64) = unat a + unat b + unat c"
  using unat_mul_acc(2) [of 1 a b c] by simp

lemma ubm_add_limbs_val:
  "ubm_add_limbs a b i carry n = (dst, c) \<Longrightarrow>
   length dst = n \<and>
   limbs_val dst + radix ^ n * unat c =
     unat carry + limbs_val (take n (drop i a)) + limbs_val (take n (drop i b))"
proof (induction n arbitrary: i carry dst c)
  case (Suc n)
  let ?s = "ucast carry + ucast (limb a i) + ucast (limb b i) :: u64"
  obtain ds where rec: "ubm_add_limbs a b (Suc i) (ucast (drop_bit 32 ?s)) n = (ds, c)"
    and dst: "dst = ucast ?s # ds"
    using Suc.prems unfolding ubm_add_limbs_Suc by (auto simp: Let_def split: prod.splits)
  have s: "unat (ucast ?s :: u32) + radix * unat (ucast (drop_bit 32 ?s) :: u32) =
      unat carry + unat (limb a i) + unat (limb b i)"
    by (simp only: unat_split_u64 unat_add3)
  have "length ds = n" and "limbs_val ds + radix ^ n * unat c = unat (ucast (drop_bit 32 ?s) :: u32) +
      limbs_val (take n (drop (Suc i) a)) + limbs_val (take n (drop (Suc i) b))"
    using Suc.IH [OF rec] by blast+
  then have "radix * (limbs_val ds + radix ^ n * unat c) = radix * (unat (ucast (drop_bit 32 ?s) :: u32) +
      limbs_val (take n (drop (Suc i) a)) + limbs_val (take n (drop (Suc i) b)))" by (simp only:)
  then have "unat (ucast ?s :: u32) + radix * (limbs_val ds + radix ^ n * unat c) =
      unat carry + (unat (limb a i) + radix * limbs_val (take n (drop (Suc i) a))) +
      (unat (limb b i) + radix * limbs_val (take n (drop (Suc i) b)))"
    using s by (simp only: distrib_left)
  then show ?case
    using \<open>length ds = n\<close> unfolding dst limbs_val_take_Suc by (simp add: algebra_simps)
qed simp

lemma div_mod_sum:
  fixes v q m :: nat
  assumes "v < m"
  shows "(v + m * q) mod m = v" "m \<le> v + m * q \<longleftrightarrow> 0 < q"
proof -
  show "(v + m * q) mod m = v" using assms by simp
  show "m \<le> v + m * q \<longleftrightarrow> 0 < q"
    using assms mult_le_mono2 [of 1 q m] trans_le_add2 [of m "m * q" v] by (cases "q = 0") auto
qed


section \<open>Multiplication\<close>

text \<open>While the columns stay inside the destination, the inner loop adds the product of \<^verbatim>\<open>a[i]\<close>
  and the limbs of \<^verbatim>\<open>b\<close> to it, up to the last carry.\<close>

lemma ubm_mul_inner_fits:
  "i + j + length bs \<le> length dst \<Longrightarrow> ubm_mul_inner ai i bs j carry dst ov = (c, d, ov') \<Longrightarrow>
   ov' = ov \<and> length d = length dst \<and> (\<forall>k\<ge>i + j + length bs. d ! k = dst ! k) \<and>
   limbs_val d + unat c * radix ^ (i + j + length bs) =
     limbs_val dst + (unat carry + unat ai * limbs_val bs) * radix ^ (i + j)"
proof (induction bs arbitrary: j carry dst)
  case (Cons bj bs)
  let ?t = "ucast ai * ucast bj + ucast carry + ucast (dst ! (i + j)) :: u64"
  let ?d = "dst[i + j := ucast ?t]" and ?c = "ucast (drop_bit 32 ?t) :: u32"
  have at: "i + j < length dst" using Cons.prems by simp
  with Cons.prems have rec: "ubm_mul_inner ai i bs (Suc j) ?c ?d ov = (c, d, ov')"
    by (simp add: Let_def)
  have "unat (ucast ?t :: u32) + radix * unat ?c =
      unat ai * unat bj + unat carry + unat (dst ! (i + j))"
    by (simp only: unat_split_u64 unat_mul_acc)
  then have t: "(unat (ucast ?t :: u32) + radix * unat ?c) * radix ^ (i + j) =
      (unat ai * unat bj + unat carry + unat (dst ! (i + j))) * radix ^ (i + j)" by (simp only:)
  have u: "limbs_val ?d + unat (dst ! (i + j)) * radix ^ (i + j) =
      limbs_val dst + unat (ucast ?t :: u32) * radix ^ (i + j)"
    by (rule limbs_val_update [OF at])
  have IH: "ov' = ov" "length d = length dst" "\<forall>k\<ge>i + Suc j + length bs. d ! k = ?d ! k"
    "limbs_val d + unat c * radix ^ (i + Suc j + length bs) =
       limbs_val ?d + (unat ?c + unat ai * limbs_val bs) * radix ^ (i + Suc j)"
    using Cons.IH [OF _ rec] Cons.prems(1) by simp_all
  have "limbs_val d + unat c * radix ^ (i + j + length (bj # bs)) =
      limbs_val dst + (unat carry + unat ai * limbs_val (bj # bs)) * radix ^ (i + j)"
    using IH(4) t u by (simp add: algebra_simps)
  then show ?case using IH by simp
qed simp

text \<open>Outside the destination the loop breaks at once.\<close>

lemma ubm_mul_inner_break:
  "length dst \<le> i + j \<Longrightarrow> bs \<noteq> [] \<Longrightarrow>
   ubm_mul_inner ai i bs j carry dst ov = (carry, dst, ov \<or> 0 < unat ai * unat (hd bs) + unat carry)"
  by (cases bs) (simp_all add: word_less_nat_alt unat_mul_acc del: unat_gt_0)

lemma ubm_mul_inner_append:
  "i + j + length xs \<le> length dst \<Longrightarrow>
   ubm_mul_inner ai i (xs @ ys) j carry dst ov =
     (case ubm_mul_inner ai i xs j carry dst ov of
        (c, d, ov) \<Rightarrow> ubm_mul_inner ai i ys (j + length xs) c d ov)"
  by (induction xs arbitrary: j carry dst) (simp_all add: Let_def)


text \<open>
  What one turn of the outer loop does to the number in the destination: \<open>lost\<close> is the part
  that falls outside. The flag is raised only if something is lost, and always when only one
  column lies outside.
\<close>

definition row_effect :: "nat \<Rightarrow> nat \<Rightarrow> nat \<Rightarrow> u32 list \<times> bool \<Rightarrow> u32 list \<times> bool \<Rightarrow> bool" where
  "row_effect hi addend col = (\<lambda>(dst, ov) (dst', ov').
     \<exists>lost. length dst' = length dst \<and>
       limbs_val dst' + lost * radix ^ length dst = limbs_val dst + addend \<and>
       (ov \<longrightarrow> ov') \<and> (ov' \<longrightarrow> ov \<or> 0 < lost) \<and>
       (col \<le> Suc (length dst) \<longrightarrow> 0 < lost \<longrightarrow> ov') \<and>
       (\<forall>k\<ge>hi. k < length dst \<longrightarrow> dst' ! k = dst ! k))"

lemma ubm_mul_row_fits:
  assumes "i + length b \<le> length dst" "i + length b < length dst \<longrightarrow> dst ! (i + length b) = 0"
  shows "row_effect (Suc (i + length b)) (unat ai * limbs_val b * radix ^ i) (i + length b)
    (dst, ov) (ubm_mul_row b ai i (dst, ov))"
proof -
  obtain c d ov' where inner: "ubm_mul_inner ai i b 0 0 dst ov = (c, d, ov')"
    by (cases "ubm_mul_inner ai i b 0 0 dst ov")
  have e: "ov' = ov" "length d = length dst" "\<forall>k\<ge>i + length b. d ! k = dst ! k"
    "limbs_val d + unat c * radix ^ (i + length b) = limbs_val dst + unat ai * limbs_val b * radix ^ i"
    using ubm_mul_inner_fits [OF _ inner] assms(1) by simp_all
  show ?thesis
  proof (cases "i + length b < length dst")
    case True
    with e assms(2) have "limbs_val (d[i + length b := c]) =
        limbs_val dst + unat ai * limbs_val b * radix ^ i"
      using limbs_val_update [of "i + length b" d c] by simp
    with True e show ?thesis
      by (auto simp: row_effect_def ubm_mul_row_def inner intro: exI [of _ 0])
  next
    case False
    with e assms(1) show ?thesis
      by (auto simp: row_effect_def ubm_mul_row_def inner word_less_nat_alt simp del: unat_gt_0
          intro: exI [of _ "unat c"])
  qed
qed

lemma ubm_mul_row_cut:
  assumes "i \<le> length dst" "length dst < i + length b"
  shows "row_effect (Suc (i + length b)) (unat ai * limbs_val b * radix ^ i) (i + length b)
    (dst, ov) (ubm_mul_row b ai i (dst, ov))"
proof -
  let ?n = "length dst"
  let ?xs = "take (?n - i) b" and ?ys = "drop (?n - i) b"
  have len: "length ?xs = ?n - i" "?ys \<noteq> []" using assms by auto
  obtain c d ov' where inner: "ubm_mul_inner ai i ?xs 0 0 dst ov = (c, d, ov')"
    by (cases "ubm_mul_inner ai i ?xs 0 0 dst ov")
  have "i + 0 + length ?xs = ?n" using len assms(1) by simp
  then have e: "ov' = ov" "length d = ?n" "\<forall>k\<ge>?n. d ! k = dst ! k"
    "limbs_val d + unat c * radix ^ ?n = limbs_val dst + unat ai * limbs_val ?xs * radix ^ i"
    using ubm_mul_inner_fits [OF _ inner] by simp_all
  have "ubm_mul_inner ai i b 0 0 dst ov = ubm_mul_inner ai i ?ys (?n - i) c d ov"
    using ubm_mul_inner_append [of i 0 ?xs dst ai ?ys 0 ov] assms(1) len(1) inner e(1) by simp
  also have "\<dots> = (c, d, ov \<or> 0 < unat ai * unat (hd ?ys) + unat c)"
    by (rule ubm_mul_inner_break) (use e(2) assms(1) len(2) in auto)
  finally have row: "ubm_mul_row b ai i (dst, ov) =
      (d, (ov \<or> 0 < unat ai * unat (hd ?ys) + unat c) \<or> 0 < unat c)"
    using assms(2) e(2) by (simp add: ubm_mul_row_def word_less_nat_alt del: unat_gt_0)
  have "radix ^ (?n - i) * radix ^ i = radix ^ ?n" using assms(1) by (simp flip: power_add)
  then have "limbs_val b * radix ^ i = limbs_val ?xs * radix ^ i + limbs_val ?ys * radix ^ ?n"
    using limbs_val_take_drop [of b "?n - i"] by (simp add: algebra_simps)
  then have "unat ai * (limbs_val b * radix ^ i) =
      unat ai * (limbs_val ?xs * radix ^ i + limbs_val ?ys * radix ^ ?n)" by (simp only:)
  then have val: "limbs_val d + (unat c + unat ai * limbs_val ?ys) * radix ^ ?n =
      limbs_val dst + unat ai * limbs_val b * radix ^ i"
    using e(4) by (simp add: algebra_simps)
  obtain y zs where ys: "?ys = y # zs" using len(2) by (cases ?ys) auto
  have "Suc (length zs) = length b - (?n - i)" using ys length_drop [of "?n - i" b] by simp
  then have "zs = []" if "i + length b \<le> Suc ?n" using that assms by (cases zs) simp_all
  with val e(2) assms show ?thesis
    unfolding row_effect_def row ys
    by (auto simp: ys intro!: exI [of _ "unat c + unat ai * limbs_val ?ys"] simp del: unat_gt_0)
qed


lemma ubm_mul_row_outside:
  assumes "length dst < i"
  shows "row_effect (Suc (i + length b)) (unat ai * limbs_val b * radix ^ i) (i + length b)
    (dst, ov) (ubm_mul_row b ai i (dst, ov))"
proof (cases b)
  case Nil
  with assms show ?thesis by (simp add: row_effect_def ubm_mul_row_def)
next
  case (Cons y bs)
  let ?lost = "unat ai * limbs_val b * radix ^ (i - length dst)"
  have inner: "ubm_mul_inner ai i b 0 0 dst ov = (0, dst, ov \<or> 0 < unat ai * unat (hd b) + unat (0 :: u32))"
    by (rule ubm_mul_inner_break) (use assms Cons in simp_all)
  have row: "ubm_mul_row b ai i (dst, ov) = (dst, ov \<or> 0 < unat ai * unat y)"
    unfolding ubm_mul_row_def using assms Cons by (simp add: inner [unfolded Cons] del: ubm_mul_inner.simps)
  have "radix ^ (i - length dst) * radix ^ length dst = radix ^ i"
    using assms by (simp flip: power_add)
  then have "?lost * radix ^ length dst = unat ai * limbs_val b * radix ^ i" by simp
  with assms Cons show ?thesis
    unfolding row_effect_def row by (auto intro!: exI [of _ ?lost])
qed

lemma ubm_mul_row_effect:
  assumes "i + length b < length dst \<longrightarrow> dst ! (i + length b) = 0"
  shows "row_effect (Suc (i + length b)) (unat ai * limbs_val b * radix ^ i) (i + length b)
    (dst, ov) (ubm_mul_row b ai i (dst, ov))"
proof -
  consider "i + length b \<le> length dst" | "i \<le> length dst" "length dst < i + length b" | "length dst < i"
    by linarith
  then show ?thesis
  proof cases
    case 1
    then show ?thesis by (rule ubm_mul_row_fits) (rule assms)
  next
    case 2
    then show ?thesis by (rule ubm_mul_row_cut)
  next
    case 3
    then show ?thesis by (rule ubm_mul_row_outside)
  qed
qed

lemma row_effect_trans:
  assumes "row_effect h x c s t" "row_effect h' y c' t u" "h \<le> h'" "c \<le> c'"
  shows "row_effect h' (x + y) c' s u"
proof -
  obtain dst ov where s: "s = (dst, ov)" by (cases s)
  obtain dst1 ov1 where t: "t = (dst1, ov1)" by (cases t)
  obtain dst2 ov2 where u: "u = (dst2, ov2)" by (cases u)
  obtain l where 1: "length dst1 = length dst"
    "limbs_val dst1 + l * radix ^ length dst = limbs_val dst + x"
    "ov \<longrightarrow> ov1" "ov1 \<longrightarrow> ov \<or> 0 < l" "c \<le> Suc (length dst) \<longrightarrow> 0 < l \<longrightarrow> ov1"
    "\<forall>k\<ge>h. k < length dst \<longrightarrow> dst1 ! k = dst ! k"
    using assms(1) unfolding row_effect_def s t by blast
  obtain l' where 2: "length dst2 = length dst1"
    "limbs_val dst2 + l' * radix ^ length dst1 = limbs_val dst1 + y"
    "ov1 \<longrightarrow> ov2" "ov2 \<longrightarrow> ov1 \<or> 0 < l'" "c' \<le> Suc (length dst1) \<longrightarrow> 0 < l' \<longrightarrow> ov2"
    "\<forall>k\<ge>h'. k < length dst1 \<longrightarrow> dst2 ! k = dst1 ! k"
    using assms(2) unfolding row_effect_def t u by blast
  have "limbs_val dst2 + (l + l') * radix ^ length dst = limbs_val dst + (x + y)"
    using 1(1,2) 2(2) by (simp add: algebra_simps)
  with 1 2 assms(3,4) show ?thesis
    unfolding row_effect_def s u by (auto intro!: exI [of _ "l + l'"])
qed

lemma ubm_mul_rows_effect:
  assumes "\<forall>k\<ge>i + length b. k < length dst \<longrightarrow> dst ! k = 0"
  shows "row_effect (i + length a + length b) (limbs_val a * limbs_val b * radix ^ i)
    (i + length a + length b - 1) (dst, ov) (ubm_mul_rows b a i (dst, ov))"
  using assms
proof (induction a arbitrary: i dst ov)
  case Nil
  then show ?case by (simp add: row_effect_def)
next
  case (Cons ai a)
  obtain d o' where row: "ubm_mul_row b ai i (dst, ov) = (d, o')"
    by (cases "ubm_mul_row b ai i (dst, ov)")
  have e: "row_effect (Suc (i + length b)) (unat ai * limbs_val b * radix ^ i) (i + length b) (dst, ov) (d, o')"
    using ubm_mul_row_effect [of i b dst ai ov] Cons.prems unfolding row by simp
  then have "\<forall>k\<ge>Suc i + length b. k < length d \<longrightarrow> d ! k = 0"
    using Cons.prems unfolding row_effect_def by auto
  from Cons.IH [OF this, of o'] have "row_effect (i + length (ai # a) + length b)
      (limbs_val a * limbs_val b * radix ^ Suc i) (i + length (ai # a) + length b - 1)
      (d, o') (ubm_mul_rows b a (Suc i) (d, o'))" by simp
  from row_effect_trans [OF e this] have "row_effect (i + length (ai # a) + length b)
      (unat ai * limbs_val b * radix ^ i + limbs_val a * limbs_val b * radix ^ Suc i)
      (i + length (ai # a) + length b - 1) (dst, ov) (ubm_mul_rows b a (Suc i) (d, o'))" by simp
  moreover have "unat ai * limbs_val b * radix ^ i + limbs_val a * limbs_val b * radix ^ Suc i =
      limbs_val (ai # a) * limbs_val b * radix ^ i" by (simp add: algebra_simps)
  ultimately show ?case using row by (simp del: limbs_val.simps)
qed

section \<open>Properties\<close>

text \<open>
  C36: \<open>ubm_add_u32arr\<close> writes the sum of the two numbers modulo the size of the destination, and
  returns true exactly when the sum does not fit, for operands and destination of any
  lengths.
\<close>

theorem ubm_add_u32arr_correct:
  "limbs_val (fst (ubm_add_u32arr n a b)) = (limbs_val a + limbs_val b) mod 2 ^ (32 * n) \<and>
   (snd (ubm_add_u32arr n a b) \<longleftrightarrow> 2 ^ (32 * n) \<le> limbs_val a + limbs_val b)"
proof -
  obtain dst c where loop: "ubm_add_limbs a b 0 0 n = (dst, c)"
    by (cases "ubm_add_limbs a b 0 0 n")
  let ?q = "unat c + limbs_val (drop n a) + limbs_val (drop n b)"
  have m: "radix ^ n = 2 ^ (32 * n)" by (simp only: power_mult)
  have v: "length dst = n"
    "limbs_val dst + radix ^ n * unat c = limbs_val (take n a) + limbs_val (take n b)"
    using ubm_add_limbs_val [OF loop] by simp_all
  have sum: "limbs_val a + limbs_val b = limbs_val dst + radix ^ n * ?q"
    using v(2) limbs_val_take_drop [of a n] limbs_val_take_drop [of b n] by (simp add: algebra_simps)
  have "limbs_val dst < radix ^ n" using limbs_val_less [of dst] v(1) by simp
  note dm = div_mod_sum [OF this, of ?q]
  have "ubm_add_u32arr n a b = (dst, 0 < ?q)"
    using limbs_val_eq_0 [of "drop n a"] limbs_val_eq_0 [of "drop n b"]
    by (auto simp: ubm_add_u32arr_def loop unat_eq_0)
  with dm show ?thesis unfolding sum m by simp
qed

text \<open>
  C35: \<open>ubm_mul_u32arr\<close> writes the product of the two numbers modulo the size of the destination
  and never reports an overflow that did not happen; when the operands have together at most
  two limbs more than the destination, it reports every overflow.
\<close>

theorem ubm_mul_u32arr_correct:
  "limbs_val (fst (ubm_mul_u32arr n a b)) = (limbs_val a * limbs_val b) mod 2 ^ (32 * n) \<and>
   (snd (ubm_mul_u32arr n a b) \<longrightarrow> 2 ^ (32 * n) \<le> limbs_val a * limbs_val b) \<and>
   (length a + length b \<le> n + 2 \<longrightarrow>
      (snd (ubm_mul_u32arr n a b) \<longleftrightarrow> 2 ^ (32 * n) \<le> limbs_val a * limbs_val b))"
proof -
  obtain dst ov where mul: "ubm_mul_u32arr n a b = (dst, ov)"
    by (cases "ubm_mul_u32arr n a b")
  have m: "radix ^ n = 2 ^ (32 * n)" by (simp only: power_mult)
  have "row_effect (length a + length b) (limbs_val a * limbs_val b) (length a + length b - 1)
      (replicate n 0, False) (dst, ov)"
    using ubm_mul_rows_effect [of 0 b "replicate n 0" a False] mul by (simp add: ubm_mul_u32arr_def)
  then obtain lost where len: "length dst = length (replicate n (0 :: u32))"
    and val: "limbs_val dst + lost * radix ^ length (replicate n (0 :: u32)) =
      limbs_val (replicate n 0) + limbs_val a * limbs_val b"
    and ov: "ov \<longrightarrow> False \<or> 0 < lost"
      "length a + length b - 1 \<le> Suc (length (replicate n (0 :: u32))) \<longrightarrow> 0 < lost \<longrightarrow> ov"
    unfolding row_effect_def prod.case by blast
  have prod: "limbs_val a * limbs_val b = limbs_val dst + radix ^ n * lost"
    using val by (simp add: mult.commute)
  have "limbs_val dst < radix ^ n" using limbs_val_less [of dst] len by simp
  note dm = div_mod_sum [OF this, of lost]
  show ?thesis using dm ov unfolding prod m mul by auto
qed

theorem ubm_mul_u32arr_correct_witness:
  "ubm_mul_u32arr 2 [0xffffffff, 0xffffffff] [0xffffffff, 1] = ([1, 0xfffffffe], True) \<and>
   2 ^ 64 \<le> limbs_val [0xffffffff, 0xffffffff] * limbs_val [0xffffffff, 1]"
proof -
  have two: "replicate 2 (0 :: u32) = [0, 0]" by (simp add: numeral_2_eq_2)
  have ev: "ubm_mul_u32arr 2 [0xffffffff, 0xffffffff] [0xffffffff, 1] = ([1, 0xfffffffe], True)"
    unfolding ubm_mul_u32arr_def two by (simp add: ubm_mul_row_def)
  with ubm_mul_u32arr_correct [of 2 "[0xffffffff, 0xffffffff]" "[0xffffffff, 1]"] show ?thesis by simp
qed

section \<open>An overflow that is not reported\<close>

text \<open>The \<^verbatim>\<open>break\<close> at the first column outside the destination looks at one product only: when
  that product is zero, larger ones behind it are skipped. The square of \<open>2 ^ 32\<close> in one limb.\<close>

lemma ubm_mul_u32arr_missed_overflow:
  "ubm_mul_u32arr 1 [0, 1] [0, 1] = ([0], False) \<and> limbs_val [0, 1] * limbs_val [0, 1] = 2 ^ 64"
  by (simp add: ubm_mul_u32arr_def ubm_mul_row_def)

end
