(* ===== verification/Crc32.thy ===== *)
theory Crc32
  imports Mesa_Prelude
begin

text \<open>
  \<^verbatim>\<open>src/util/crc32.c\<close>: the table-driven 32-bit cyclic redundancy check. The reference is the
  shift register that consumes the message bit by bit, least significant bit of every byte
  first, with the polynomial of IEEE 802.3. The table loop computes that register, and a
  difference confined to four consecutive bytes always changes the result. The call of
  \<^verbatim>\<open>crc32\<close> of zlib in a build with \<^verbatim>\<open>HAVE_ZLIB\<close> is a parameter.
\<close>

section \<open>The code\<close>

definition util_crc32_table :: "u32 list" where
  "util_crc32_table =
     [
      0x00000000, 0x77073096, 0xee0e612c, 0x990951ba, 0x076dc419, 0x706af48f, 0xe963a535, 0x9e6495a3,
      0x0edb8832, 0x79dcb8a4, 0xe0d5e91e, 0x97d2d988, 0x09b64c2b, 0x7eb17cbd, 0xe7b82d07, 0x90bf1d91,
      0x1db71064, 0x6ab020f2, 0xf3b97148, 0x84be41de, 0x1adad47d, 0x6ddde4eb, 0xf4d4b551, 0x83d385c7,
      0x136c9856, 0x646ba8c0, 0xfd62f97a, 0x8a65c9ec, 0x14015c4f, 0x63066cd9, 0xfa0f3d63, 0x8d080df5,
      0x3b6e20c8, 0x4c69105e, 0xd56041e4, 0xa2677172, 0x3c03e4d1, 0x4b04d447, 0xd20d85fd, 0xa50ab56b,
      0x35b5a8fa, 0x42b2986c, 0xdbbbc9d6, 0xacbcf940, 0x32d86ce3, 0x45df5c75, 0xdcd60dcf, 0xabd13d59,
      0x26d930ac, 0x51de003a, 0xc8d75180, 0xbfd06116, 0x21b4f4b5, 0x56b3c423, 0xcfba9599, 0xb8bda50f,
      0x2802b89e, 0x5f058808, 0xc60cd9b2, 0xb10be924, 0x2f6f7c87, 0x58684c11, 0xc1611dab, 0xb6662d3d,
      0x76dc4190, 0x01db7106, 0x98d220bc, 0xefd5102a, 0x71b18589, 0x06b6b51f, 0x9fbfe4a5, 0xe8b8d433,
      0x7807c9a2, 0x0f00f934, 0x9609a88e, 0xe10e9818, 0x7f6a0dbb, 0x086d3d2d, 0x91646c97, 0xe6635c01,
      0x6b6b51f4, 0x1c6c6162, 0x856530d8, 0xf262004e, 0x6c0695ed, 0x1b01a57b, 0x8208f4c1, 0xf50fc457,
      0x65b0d9c6, 0x12b7e950, 0x8bbeb8ea, 0xfcb9887c, 0x62dd1ddf, 0x15da2d49, 0x8cd37cf3, 0xfbd44c65,
      0x4db26158, 0x3ab551ce, 0xa3bc0074, 0xd4bb30e2, 0x4adfa541, 0x3dd895d7, 0xa4d1c46d, 0xd3d6f4fb,
      0x4369e96a, 0x346ed9fc, 0xad678846, 0xda60b8d0, 0x44042d73, 0x33031de5, 0xaa0a4c5f, 0xdd0d7cc9,
      0x5005713c, 0x270241aa, 0xbe0b1010, 0xc90c2086, 0x5768b525, 0x206f85b3, 0xb966d409, 0xce61e49f,
      0x5edef90e, 0x29d9c998, 0xb0d09822, 0xc7d7a8b4, 0x59b33d17, 0x2eb40d81, 0xb7bd5c3b, 0xc0ba6cad,
      0xedb88320, 0x9abfb3b6, 0x03b6e20c, 0x74b1d29a, 0xead54739, 0x9dd277af, 0x04db2615, 0x73dc1683,
      0xe3630b12, 0x94643b84, 0x0d6d6a3e, 0x7a6a5aa8, 0xe40ecf0b, 0x9309ff9d, 0x0a00ae27, 0x7d079eb1,
      0xf00f9344, 0x8708a3d2, 0x1e01f268, 0x6906c2fe, 0xf762575d, 0x806567cb, 0x196c3671, 0x6e6b06e7,
      0xfed41b76, 0x89d32be0, 0x10da7a5a, 0x67dd4acc, 0xf9b9df6f, 0x8ebeeff9, 0x17b7be43, 0x60b08ed5,
      0xd6d6a3e8, 0xa1d1937e, 0x38d8c2c4, 0x4fdff252, 0xd1bb67f1, 0xa6bc5767, 0x3fb506dd, 0x48b2364b,
      0xd80d2bda, 0xaf0a1b4c, 0x36034af6, 0x41047a60, 0xdf60efc3, 0xa867df55, 0x316e8eef, 0x4669be79,
      0xcb61b38c, 0xbc66831a, 0x256fd2a0, 0x5268e236, 0xcc0c7795, 0xbb0b4703, 0x220216b9, 0x5505262f,
      0xc5ba3bbe, 0xb2bd0b28, 0x2bb45a92, 0x5cb36a04, 0xc2d7ffa7, 0xb5d0cf31, 0x2cd99e8b, 0x5bdeae1d,
      0x9b64c2b0, 0xec63f226, 0x756aa39c, 0x026d930a, 0x9c0906a9, 0xeb0e363f, 0x72076785, 0x05005713,
      0x95bf4a82, 0xe2b87a14, 0x7bb12bae, 0x0cb61b38, 0x92d28e9b, 0xe5d5be0d, 0x7cdcefb7, 0x0bdbdf21,
      0x86d3d2d4, 0xf1d4e242, 0x68ddb3f8, 0x1fda836e, 0x81be16cd, 0xf6b9265b, 0x6fb077e1, 0x18b74777,
      0x88085ae6, 0xff0f6a70, 0x66063bca, 0x11010b5c, 0x8f659eff, 0xf862ae69, 0x616bffd3, 0x166ccf45,
      0xa00ae278, 0xd70dd2ee, 0x4e048354, 0x3903b3c2, 0xa7672661, 0xd06016f7, 0x4969474d, 0x3e6e77db,
      0xaed16a4a, 0xd9d65adc, 0x40df0b66, 0x37d83bf0, 0xa9bcae53, 0xdebb9ec5, 0x47b2cf7f, 0x30b5ffe9,
      0xbdbdf21c, 0xcabac28a, 0x53b39330, 0x24b4a3a6, 0xbad03605, 0xcdd70693, 0x54de5729, 0x23d967bf,
      0xb3667a2e, 0xc4614ab8, 0x5d681b02, 0x2a6f2b94, 0xb40bbe37, 0xc30c8ea1, 0x5a05df1b, 0x2d02ef8d
     ]"

text \<open>One turn of \<^verbatim>\<open>while (size--)\<close>; the loop runs over the bytes at \<^verbatim>\<open>data\<close>.\<close>

definition crc32_step :: "u32 \<Rightarrow> u8 \<Rightarrow> u32" where
  "crc32_step crc b =
     (util_crc32_table ! unat ((crc XOR ucast b) AND 0xff)) XOR drop_bit 8 crc"

text \<open>
  The message is the list of the \<^verbatim>\<open>size\<close> bytes at \<^verbatim>\<open>data\<close>. With \<^verbatim>\<open>HAVE_ZLIB\<close> the parameter is
  \<open>Some\<close> of the library's \<^verbatim>\<open>crc32\<close>, which is called only when \<^verbatim>\<open>size\<close> survives the conversion to
  \<^verbatim>\<open>uInt\<close>.
\<close>

definition util_hash_crc32 :: "(u32 \<Rightarrow> u8 list \<Rightarrow> u32) option \<Rightarrow> u8 list \<Rightarrow> u32" where
  "util_hash_crc32 zlib data =
     (case zlib of
        Some crc32 \<Rightarrow>
          if length data < 2 ^ 32 then NOT (crc32 0 data)
          else foldl crc32_step 0xffffffff data
      | None \<Rightarrow> foldl crc32_step 0xffffffff data)"

section \<open>The shift register\<close>

definition crc_shift :: "u32 \<Rightarrow> u32" where
  "crc_shift s = drop_bit 1 s XOR (if bit s 0 then 0xEDB88320 else 0)"

definition lfsr :: "u32 \<Rightarrow> bool \<Rightarrow> u32" where
  "lfsr s b = crc_shift (s XOR of_bool b)"

definition byte_bits :: "u8 \<Rightarrow> bool list" where
  "byte_bits b = map (bit b) [0..<8]"

definition message_bits :: "u8 list \<Rightarrow> bool list" where
  "message_bits data = concat (map byte_bits data)"

text \<open>What the documentation of zlib says of \<^verbatim>\<open>crc32 (0, data, size)\<close>: the register is
  complemented before and after.\<close>

definition zlib_crc32_law :: "(u32 \<Rightarrow> u8 list \<Rightarrow> u32) \<Rightarrow> bool" where
  "zlib_crc32_law crc32 \<longleftrightarrow>
     (\<forall>data. length data < 2 ^ 32 \<longrightarrow> crc32 0 data = NOT (foldl lfsr (NOT 0) (message_bits data)))"

section \<open>Linearity of the register\<close>

lemma crc_shift_xor: "crc_shift (x XOR y) = crc_shift x XOR crc_shift y"
  by (rule bit_word_eqI) (auto simp: crc_shift_def bit_simps)

lemma crc_shift_even: "\<not> bit s 0 \<Longrightarrow> crc_shift s = drop_bit 1 s"
  by (simp add: crc_shift_def)

lemma crc_shift_top: "bit (crc_shift s) 31 \<longleftrightarrow> bit s 0"
  using bit_imp_le_length [of s 32] by (auto simp: crc_shift_def bit_simps)

lemma crc_shift_0 [simp]: "crc_shift 0 = 0"
  by (simp add: crc_shift_def)

lemma crc_shift_eq_0: "crc_shift s = 0 \<Longrightarrow> s = 0"
proof -
  assume z: "crc_shift s = 0"
  then have low: "\<not> bit s 0" by (simp flip: crc_shift_top)
  with z have "drop_bit 1 s = 0" by (simp add: crc_shift_even)
  then have "bit (drop_bit 1 s) k = False" for k by simp
  then have high: "\<not> bit s (Suc k)" for k by (simp add: bit_simps)
  show "s = 0"
  proof (rule bit_word_eqI)
    fix n show "bit s n = bit 0 n" using low high by (cases n) simp_all
  qed
qed

lemma inj_crc_shift: "inj crc_shift"
proof (rule injI)
  fix x y assume "crc_shift x = crc_shift y"
  then have "crc_shift (x XOR y) = 0" by (simp add: crc_shift_xor)
  then have "x XOR y = 0" by (rule crc_shift_eq_0)
  then show "x = y" by (metis xor.right_neutral xor_self_eq bit.xor_left_self)
qed

lemma funpow_crc_shift_xor: "(crc_shift ^^ n) (x XOR y) = (crc_shift ^^ n) x XOR (crc_shift ^^ n) y"
  by (induction n) (simp_all add: crc_shift_xor)

lemma inj_funpow_crc_shift: "inj (crc_shift ^^ n)"
  by (induction n) (auto intro!: inj_compose [OF inj_crc_shift, unfolded comp_def] simp: comp_def)

text \<open>Up to 32 message bits may be added to the register before it is shifted.\<close>

abbreviation bits_word :: "bool list \<Rightarrow> u32" where
  "bits_word bs \<equiv> horner_sum of_bool 2 bs"

lemma bit_bits_word: "bit (bits_word bs) n \<longleftrightarrow> n < 32 \<and> n < length bs \<and> bs ! n"
  by (auto simp: bit_horner_sum_bit_iff)

lemma crc_shift_Cons:
  assumes "length bs < 32"
  shows "crc_shift (s XOR bits_word (b # bs)) = lfsr s b XOR bits_word bs"
proof -
  have "s XOR bits_word (b # bs) = (s XOR of_bool b) XOR push_bit 1 (bits_word bs)"
    by (rule bit_word_eqI)
      (auto simp: bit_xor_iff bit_push_bit_iff bit_of_bool_iff bit_bits_word nth_Cons'
         simp del: horner_sum_simps push_bit_of_Suc_0 push_bit_Suc)
  moreover have "crc_shift (push_bit 1 (bits_word bs)) = drop_bit 1 (push_bit 1 (bits_word bs))"
    by (rule crc_shift_even) (simp only: bit_push_bit_iff, simp)
  moreover have "drop_bit 1 (push_bit 1 (bits_word bs)) = bits_word bs"
    using assms by (intro bit_word_eqI) (auto simp only: bit_drop_bit_eq bit_push_bit_iff o_apply bit_bits_word, auto)
  ultimately show ?thesis by (simp only: crc_shift_xor lfsr_def)
qed

lemma foldl_lfsr: "length bs \<le> 32 \<Longrightarrow> foldl lfsr s bs = (crc_shift ^^ length bs) (s XOR bits_word bs)"
proof (induction bs arbitrary: s)
  case (Cons b bs)
  have "foldl lfsr s (b # bs) = (crc_shift ^^ length bs) (lfsr s b XOR bits_word bs)"
    using Cons by simp
  also have "lfsr s b XOR bits_word bs = crc_shift (s XOR bits_word (b # bs))"
    using Cons.prems by (intro crc_shift_Cons [symmetric]) simp
  finally show ?case by (simp only: list.size funpow_Suc_right o_apply add_0_right add_Suc_right)
qed simp

lemma length_byte_bits [simp]: "length (byte_bits b) = 8"
  by (simp add: byte_bits_def)

lemma bits_word_byte: "bits_word (byte_bits b) = ucast b"
proof (rule bit_word_eqI)
  fix n
  have "bit b n \<Longrightarrow> n < 8" by (drule bit_imp_le_length) simp
  then show "bit (bits_word (byte_bits b)) n = bit (ucast b :: u32) n"
    by (auto simp: bit_bits_word byte_bits_def bit_simps)
qed

section \<open>The table\<close>

text \<open>The second half of the first \<open>2 ^ Suc k\<close> entries is the first half plus one more generator.\<close>

lemma word_of_nat_add_exp:
  assumes "i < 2 ^ k"
  shows "(word_of_nat (i + 2 ^ k) :: 'a::len word) = word_of_nat i XOR 2 ^ k"
proof -
  have "bit i j \<Longrightarrow> j \<noteq> k" for j
    using assms by (metis bit_nat_def div_less dvd_0_right)
  then have "i + 2 ^ k = i XOR 2 ^ k"
    by (intro disjunctive_add_eq_xor) (auto intro!: bit_eqI simp: bit_simps)
  then show ?thesis by (simp add: of_nat_xor_eq)
qed

lemma map_linear_double:
  assumes "\<And>x y. f (x XOR y) = f x XOR f y"
  shows "map (\<lambda>n. f (word_of_nat n :: 'a::len word)) [0..<2 ^ Suc k] =
    map (\<lambda>n. f (word_of_nat n)) [0..<2 ^ k] @
    map (\<lambda>w. w XOR f (2 ^ k)) (map (\<lambda>n. f (word_of_nat n)) [0..<2 ^ k])"
proof -
  have "[0..<2 ^ Suc k] = [0..<2 ^ k] @ map (\<lambda>i. i + 2 ^ k) [0..<2 ^ k]"
    by (simp add: map_add_upt mult_2 flip: upt_add_eq_append)
  moreover have "f (word_of_nat (i + 2 ^ k)) = f (word_of_nat i) XOR f (2 ^ k)" if "i < 2 ^ k" for i
    by (simp only: word_of_nat_add_exp [OF that] assms)
  ultimately show ?thesis by (simp only: map_append map_map o_def) (auto simp del: of_nat_add)
qed

lemma crc_shift_chain:
  "crc_shift 128 = 64"
  "crc_shift 64 = 32"
  "crc_shift 32 = 16"
  "crc_shift 16 = 8"
  "crc_shift 8 = 4"
  "crc_shift 4 = 2"
  "crc_shift 2 = 1"
  "crc_shift 1 = 0xedb88320"
  "crc_shift 0xedb88320 = 0x76dc4190"
  "crc_shift 0x76dc4190 = 0x3b6e20c8"
  "crc_shift 0x3b6e20c8 = 0x1db71064"
  "crc_shift 0x1db71064 = 0x0edb8832"
  "crc_shift 0xedb8832 = 0x076dc419"
  "crc_shift 0x76dc419 = 0xee0e612c"
  "crc_shift 0xee0e612c = 0x77073096"
  by (simp_all add: crc_shift_def)

lemma funpow_8: "(f ^^ 8) x = f (f (f (f (f (f (f (f x)))))))"
  by (simp add: numeral_eq_Suc)

lemmas crc_shift_generators = funpow_8 [of crc_shift] crc_shift_chain

lemma util_crc32_table_shift:
  "util_crc32_table = map (\<lambda>n. (crc_shift ^^ 8) (word_of_nat n)) [0..<256]"
proof -
  define f where "f = crc_shift ^^ 8"
  define t where "t k = map (\<lambda>n. f (word_of_nat n)) [0..<2 ^ k]" for k
  have lin: "f (x XOR y) = f x XOR f y" for x y
    by (simp add: f_def funpow_crc_shift_xor)
  have f:
    "f 1 = 0x77073096"
    "f 2 = 0xee0e612c"
    "f 4 = 0x076dc419"
    "f 8 = 0x0edb8832"
    "f 16 = 0x1db71064"
    "f 32 = 0x3b6e20c8"
    "f 64 = 0x76dc4190"
    "f 128 = 0xedb88320"
    by (simp_all only: f_def crc_shift_generators)
  have "t 0 = [0]" by (simp add: t_def f_def funpow_8)
  moreover have double: "t (Suc k) = t k @ map (\<lambda>w. w XOR f (2 ^ k)) (t k)" for k
    unfolding t_def by (rule map_linear_double) (rule lin)
  ultimately have t4: "t 4 = take 16 util_crc32_table"
    using double [of 0] double [of 1] double [of 2] double [of 3]
    by (simp add: f util_crc32_table_def eval_nat_numeral)
  have "t 8 = util_crc32_table"
    using double [of 4] double [of 5] double [of 6] double [of 7] t4
    by (simp add: f util_crc32_table_def)
  then show ?thesis by (simp add: t_def f_def)
qed

lemma funpow_crc_shift_push: "\<forall>j. bit w j \<longrightarrow> j + k < 32 \<Longrightarrow> (crc_shift ^^ k) (push_bit k w) = w"
proof (induction k)
  case (Suc k)
  have "\<not> bit (push_bit (Suc k) w) 0" by (simp only: bit_push_bit_iff) simp
  then have "crc_shift (push_bit (Suc k) w) = drop_bit 1 (push_bit (Suc k) w)"
    by (rule crc_shift_even)
  also have "\<dots> = push_bit k w"
    using Suc.prems
    by (intro bit_word_eqI) (auto simp only: bit_drop_bit_eq bit_push_bit_iff o_apply, auto)
  finally have "(crc_shift ^^ Suc k) (push_bit (Suc k) w) = (crc_shift ^^ k) (push_bit k w)"
    by (simp only: funpow_Suc_right o_apply)
  also have "\<dots> = w" using Suc.prems by (intro Suc.IH) auto
  finally show ?case .
qed simp

lemma and_ff_eq_take_bit: "w AND 0xff = take_bit 8 (w :: u32)"
  by (simp add: take_bit_eq_mask mask_numeral)

lemma unat_and_ff: "unat (w AND 0xff :: u32) < 256"
  using take_bit_nat_less_exp [of 8 "unat w"] by (simp add: and_ff_eq_take_bit unsigned_take_bit_eq)

lemma xor_byte_split:
  "crc XOR ucast (b :: u8) = ((crc XOR ucast b) AND 0xff) XOR push_bit 8 (drop_bit 8 (crc :: u32))"
proof (rule bit_word_eqI)
  fix n assume "n < LENGTH(32)"
  moreover have "bit b n \<Longrightarrow> n < 8" by (drule bit_imp_le_length) simp
  ultimately show "bit (crc XOR ucast b) n =
      bit (((crc XOR ucast b) AND 0xff) XOR push_bit 8 (drop_bit 8 crc)) n"
    unfolding and_ff_eq_take_bit
    by (auto simp: bit_xor_iff bit_take_bit_iff bit_push_bit_iff bit_drop_bit_eq bit_ucast_iff)
qed

lemma crc32_step_shift: "crc32_step crc b = (crc_shift ^^ 8) (crc XOR ucast b)"
proof -
  let ?x = "crc XOR ucast b"
  have "(crc_shift ^^ 8) ?x = (crc_shift ^^ 8) (?x AND 0xff) XOR (crc_shift ^^ 8) (push_bit 8 (drop_bit 8 crc))"
    by (subst xor_byte_split) (rule funpow_crc_shift_xor)
  also have "(crc_shift ^^ 8) (push_bit 8 (drop_bit 8 crc)) = drop_bit 8 crc"
    by (rule funpow_crc_shift_push) (auto simp: bit_drop_bit_eq dest: bit_imp_le_length)
  finally show ?thesis
    unfolding crc32_step_def util_crc32_table_shift using unat_and_ff [of ?x] by simp
qed

lemma crc32_step_lfsr: "crc32_step crc b = foldl lfsr crc (byte_bits b)"
  by (simp add: crc32_step_shift foldl_lfsr bits_word_byte)

lemma crc32_loop_lfsr: "foldl crc32_step crc data = foldl lfsr crc (message_bits data)"
  by (induction data arbitrary: crc) (simp_all add: message_bits_def crc32_step_lfsr)

lemma xor_cancel:
  fixes a b c :: "'a::len word"
  shows "a XOR b = a XOR c \<longleftrightarrow> b = c" "b XOR a = c XOR a \<longleftrightarrow> b = c"
  by (auto simp: bit_eq_iff bit_xor_iff)

lemma inj_lfsr: "inj (\<lambda>s. lfsr s b)"
  by (rule injI) (simp add: lfsr_def inj_eq [OF inj_crc_shift] xor_cancel)

lemma inj_foldl_lfsr: "inj (\<lambda>s. foldl lfsr s bs)"
proof (induction bs)
  case (Cons b bs)
  then show ?case
    using inj_compose [OF Cons inj_lfsr [of b]] by (simp add: comp_def)
qed simp

lemma foldl_lfsr_inj_bits:
  assumes "foldl lfsr s bs = foldl lfsr s cs" "length bs = length cs" "length bs \<le> 32"
  shows "bs = cs"
proof -
  have len: "length cs \<le> 32" using assms(2,3) by simp
  have "(crc_shift ^^ length cs) (s XOR bits_word bs) = (crc_shift ^^ length cs) (s XOR bits_word cs)"
    using assms(1) unfolding foldl_lfsr [OF assms(3)] foldl_lfsr [OF len] assms(2) .
  then have eq: "bits_word bs = bits_word cs"
    by (simp only: inj_eq [OF inj_funpow_crc_shift] xor_cancel)
  show ?thesis
  proof (rule nth_equalityI [OF assms(2)])
    fix n assume n: "n < length bs"
    have "bit (bits_word bs) n = bit (bits_word cs) n" by (simp only: eq)
    then show "bs ! n = cs ! n"
      unfolding bit_bits_word using n assms(2,3) by simp
  qed
qed

lemma byte_bits_inject: "byte_bits b = byte_bits c \<Longrightarrow> b = c"
  by (rule bit_word_eqI) (simp add: byte_bits_def)

lemma length_message_bits: "length (message_bits data) = 8 * length data"
  by (induction data) (simp_all add: message_bits_def)

lemma message_bits_append [simp]: "message_bits (xs @ ys) = message_bits xs @ message_bits ys"
  by (simp add: message_bits_def)

lemma message_bits_inject: "message_bits xs = message_bits ys \<Longrightarrow> xs = ys"
proof (induction xs arbitrary: ys)
  case Nil
  then show ?case by (cases ys) (auto simp: message_bits_def byte_bits_def)
next
  case (Cons x xs)
  from Cons.prems obtain y ys' where ys: "ys = y # ys'"
    by (cases ys) (auto simp: message_bits_def byte_bits_def)
  with Cons show ?case by (auto simp: message_bits_def dest: byte_bits_inject)
qed

section \<open>Properties\<close>

text \<open>
  C37: the table loop of \<open>util_hash_crc32\<close> computes the bitwise shift register of the CRC
  polynomial on the message bits from the all-ones state; and when zlib's \<^verbatim>\<open>crc32\<close> is as its
  documentation says, the build with zlib returns the same hash as the build without it, for
  messages of any length.
\<close>

theorem util_hash_crc32_correct:
  assumes "zlib_crc32_law crc32"
  shows "util_hash_crc32 None data = foldl lfsr (NOT 0) (message_bits data) \<and>
    util_hash_crc32 (Some crc32) data = util_hash_crc32 None data"
proof
  have ones: "(0xffffffff :: u32) = NOT 0" by simp
  show loop: "util_hash_crc32 None data = foldl lfsr (NOT 0) (message_bits data)"
    unfolding util_hash_crc32_def ones by (simp only: option.case crc32_loop_lfsr)
  show "util_hash_crc32 (Some crc32) data = util_hash_crc32 None data"
    using assms unfolding loop unfolding util_hash_crc32_def zlib_crc32_law_def ones
    by (simp only: option.case crc32_loop_lfsr bit.double_compl split: if_split) simp
qed

theorem util_hash_crc32_correct_witness:
  "util_hash_crc32 (Some (\<lambda>_ data. NOT (foldl lfsr (NOT 0) (message_bits data))))
     [0x31, 0x32, 0x33, 0x34, 0x35, 0x36, 0x37, 0x38, 0x39] = 0x340bc6d9"
proof -
  let ?zlib = "\<lambda>_ data. NOT (foldl lfsr (NOT 0) (message_bits data)) :: u32"
  let ?data = "[0x31, 0x32, 0x33, 0x34, 0x35, 0x36, 0x37, 0x38, 0x39] :: u8 list"
  have "zlib_crc32_law ?zlib" by (simp only: zlib_crc32_law_def) simp
  then have "util_hash_crc32 (Some ?zlib) ?data = util_hash_crc32 None ?data"
    by (rule conjunct2 [OF util_hash_crc32_correct])
  also have "\<dots> = 0x340bc6d9"
    by (simp add: util_hash_crc32_def crc32_step_def util_crc32_table_def)
  finally show ?thesis .
qed

text \<open>
  C38: two messages that differ only inside a window of at most four bytes have different
  hashes.
\<close>

theorem util_hash_crc32_burst:
  assumes "length x = length y" "length x \<le> 4" "x \<noteq> y"
  shows "util_hash_crc32 None (p @ x @ q) \<noteq> util_hash_crc32 None (p @ y @ q)"
proof
  let ?s = "foldl lfsr 0xffffffff (message_bits p)"
  assume "util_hash_crc32 None (p @ x @ q) = util_hash_crc32 None (p @ y @ q)"
  then have "foldl lfsr (foldl lfsr ?s (message_bits x)) (message_bits q) =
      foldl lfsr (foldl lfsr ?s (message_bits y)) (message_bits q)"
    unfolding util_hash_crc32_def by (simp only: option.case crc32_loop_lfsr message_bits_append foldl_append)
  then have "foldl lfsr ?s (message_bits x) = foldl lfsr ?s (message_bits y)"
    by (rule injD [OF inj_foldl_lfsr])
  then have "message_bits x = message_bits y"
    by (rule foldl_lfsr_inj_bits) (use assms(1,2) in \<open>simp_all add: length_message_bits\<close>)
  then show False using message_bits_inject assms(3) by blast
qed


theorem util_hash_crc32_burst_witness:
  "util_hash_crc32 None ([1] @ [2, 3] @ [4]) \<noteq> util_hash_crc32 None ([1] @ [3, 2] @ [4])"
  by (rule util_hash_crc32_burst) simp_all

end
