(* ===== verification/U_Vector.thy ===== *)
theory U_Vector
  imports Umath C_Memory
begin

text \<open>
  \<^verbatim>\<open>src/util/u_vector.c\<close> and \<^verbatim>\<open>u_vector.h\<close>: a growing circular buffer of elements of a fixed size.
  Both indices are free-running 32-bit byte counts, reduced modulo the buffer size when the
  buffer is accessed. The functions return the place of an element; reading or writing the
  element there is up to the client, so the queue operations below add those accesses. The
  locale \<open>fifo\<close> is the contract of a bounded-use queue; the vector is an instance of it.
\<close>

section \<open>The code\<close>

record u_vector =
  vec_head :: u32
  vec_tail :: u32
  vec_element_size :: u32
  vec_size :: u32
  vec_data :: "u8 list option"

definition u_align_u32 :: "u32 \<Rightarrow> u32 \<Rightarrow> c_error + u32" where
  "u_align_u32 v a =
     (if a \<noteq> 0 \<and> a = a AND - a then Inr ((v + a - 1) AND NOT (a - 1)) else Inl Assertion)"

definition u_vector_init :: "allocator \<Rightarrow> u32 \<Rightarrow> u32 \<Rightarrow> c_error + bool \<times> u_vector" where
  "u_vector_init fresh element_size sz =
     (if \<not> util_is_power_of_two_nonzero sz then Inl Assertion
      else if \<not> (element_size < sz \<and> util_is_power_of_two_nonzero element_size) then Inl Assertion
      else let data = fresh (ucast sz)
           in Inr (data \<noteq> None, \<lparr>vec_head = 0, vec_tail = 0, vec_element_size = element_size,
                     vec_size = sz, vec_data = data\<rparr>))"

text \<open>\<^verbatim>\<open>memcpy\<close> of \<open>n\<close> bytes from one block to another.\<close>

definition copy_block :: "u8 list \<Rightarrow> u32 \<Rightarrow> u8 list option \<Rightarrow> u32 \<Rightarrow> u32 \<Rightarrow> c_error + u8 list" where
  "copy_block dst to src from n =
     (case src of
        None \<Rightarrow> Inl Bad_access
      | Some mem \<Rightarrow> (case load_at mem (unat from) (unat n) of
            Inl e \<Rightarrow> Inl e
          | Inr bs \<Rightarrow> store_at dst (unat to) bs))"

text \<open>The copy of a full vector into a block of twice its size.\<close>

definition u_vector_copy :: "u_vector \<Rightarrow> u32 \<Rightarrow> u8 list \<Rightarrow> c_error + u8 list" where
  "u_vector_copy vector sz data =
     (let src_tail = vec_tail vector AND (vec_size vector - 1);
          dst_tail = vec_tail vector AND (sz - 1)
      in if src_tail = 0
         then copy_block data dst_tail (vec_data vector) 0 (vec_size vector)
         else case u_align_u32 (vec_tail vector) (vec_size vector) of
             Inl e \<Rightarrow> Inl e
           | Inr split \<Rightarrow>
               if \<not> (vec_tail vector \<le> split \<and> split < vec_head vector) then Inl Assertion
               else case copy_block data dst_tail (vec_data vector) src_tail (split - vec_tail vector) of
                   Inl e \<Rightarrow> Inl e
                 | Inr data \<Rightarrow>
                     copy_block data (split AND (sz - 1)) (vec_data vector) 0 (vec_head vector - split))"

text \<open>The offset of the new element, or \<open>None\<close> for a null pointer.\<close>

definition u_vector_add :: "allocator \<Rightarrow> u_vector \<Rightarrow> c_error + u32 option \<times> u_vector" where
  "u_vector_add fresh vector =
     (let grown =
        (if vec_head vector - vec_tail vector = vec_size vector
         then let sz = vec_size vector * 2
              in case fresh (ucast sz) of
                   None \<Rightarrow> Inr None
                 | Some data \<Rightarrow> (case u_vector_copy vector sz data of
                       Inl e \<Rightarrow> Inl e
                     | Inr data \<Rightarrow> Inr (Some (vector\<lparr>vec_data := Some data, vec_size := sz\<rparr>)))
         else Inr (Some vector))
      in case grown of
           Inl e \<Rightarrow> Inl e
         | Inr None \<Rightarrow> Inr (None, vector)
         | Inr (Some vector) \<Rightarrow>
             if \<not> vec_head vector - vec_tail vector < vec_size vector then Inl Assertion
             else Inr (Some (vec_head vector AND (vec_size vector - 1)),
                       vector\<lparr>vec_head := vec_head vector + vec_element_size vector\<rparr>))"

definition u_vector_remove :: "u_vector \<Rightarrow> c_error + u32 option \<times> u_vector" where
  "u_vector_remove vector =
     (if vec_head vector = vec_tail vector then Inr (None, vector)
      else if \<not> vec_head vector - vec_tail vector \<le> vec_size vector then Inl Assertion
      else Inr (Some (vec_tail vector AND (vec_size vector - 1)),
                vector\<lparr>vec_tail := vec_tail vector + vec_element_size vector\<rparr>))"

definition u_vector_length :: "u_vector \<Rightarrow> u32" where
  "u_vector_length queue = (vec_head queue - vec_tail queue) div vec_element_size queue"

definition u_vector_head :: "u_vector \<Rightarrow> c_error + u32" where
  "u_vector_head vector =
     (if vec_tail vector < vec_head vector
      then Inr ((vec_head vector - vec_element_size vector) AND (vec_size vector - 1))
      else Inl Assertion)"

definition u_vector_tail :: "u_vector \<Rightarrow> u32" where
  "u_vector_tail vector = vec_tail vector AND (vec_size vector - 1)"

text \<open>The block handed to \<^verbatim>\<open>free\<close>.\<close>

definition u_vector_finish :: "u_vector \<Rightarrow> u8 list option" where
  "u_vector_finish queue = vec_data queue"

text \<open>The offsets that the loop of \<^verbatim>\<open>u_vector_foreach\<close> visits from an index on; \<open>None\<close> if it does not
  end.\<close>

partial_function (option) u_vector_foreach :: "u_vector \<Rightarrow> u32 \<Rightarrow> u32 list option" where
  "u_vector_foreach queue offset =
     (if offset < vec_head queue
      then Option.bind (u_vector_foreach queue (offset + vec_element_size queue))
             (\<lambda>rest. Some ((offset AND (vec_size queue - 1)) # rest))
      else Some [])"

section \<open>Clients\<close>

text \<open>Adding an element and writing it; removing an element and reading it.\<close>

definition vec_push :: "allocator \<Rightarrow> u_vector \<Rightarrow> u8 list \<Rightarrow> c_error + bool \<times> u_vector" where
  "vec_push fresh v x =
     (case u_vector_add fresh v of
        Inl e \<Rightarrow> Inl e
      | Inr (None, v') \<Rightarrow> Inr (False, v')
      | Inr (Some off, v') \<Rightarrow> (case vec_data v' of
            None \<Rightarrow> Inl Bad_access
          | Some mem \<Rightarrow> (case store_at mem (unat off) x of
                Inl e \<Rightarrow> Inl e
              | Inr mem' \<Rightarrow> Inr (True, v'\<lparr>vec_data := Some mem'\<rparr>))))"

definition vec_pop :: "u_vector \<Rightarrow> c_error + u8 list option \<times> u_vector" where
  "vec_pop v =
     (case u_vector_remove v of
        Inl e \<Rightarrow> Inl e
      | Inr (None, v') \<Rightarrow> Inr (None, v')
      | Inr (Some off, v') \<Rightarrow> (case vec_data v' of
            None \<Rightarrow> Inl Bad_access
          | Some mem \<Rightarrow> (case load_at mem (unat off) (unat (vec_element_size v)) of
                Inl e \<Rightarrow> Inl e
              | Inr x \<Rightarrow> Inr (Some x, v'))))"

section \<open>The contract of a queue\<close>

datatype 'a queue_op = Push 'a | Pop

text \<open>What a sequence of operations returns: for every push whether it succeeded, for every pop
  the element or nothing.\<close>

datatype 'a queue_result = Pushed bool | Popped "'a option"

fun queue_spec :: "'a list \<Rightarrow> 'a queue_op list \<Rightarrow> 'a queue_result list \<Rightarrow> bool" where
  "queue_spec xs [] rs \<longleftrightarrow> rs = []"
| "queue_spec xs (Push x # ops) (Pushed True # rs) \<longleftrightarrow> queue_spec (xs @ [x]) ops rs"
| "queue_spec xs (Push x # ops) (Pushed False # rs) \<longleftrightarrow> queue_spec xs ops rs"
| "queue_spec [] (Pop # ops) (Popped None # rs) \<longleftrightarrow> queue_spec [] ops rs"
| "queue_spec (x # xs) (Pop # ops) (Popped (Some y) # rs) \<longleftrightarrow> x = y \<and> queue_spec xs ops rs"
| "queue_spec _ _ _ \<longleftrightarrow> False"

fun run_queue :: "('q \<Rightarrow> 'a \<Rightarrow> c_error + bool \<times> 'q) \<Rightarrow> ('q \<Rightarrow> c_error + 'a option \<times> 'q) \<Rightarrow>
    'q \<Rightarrow> 'a queue_op list \<Rightarrow> c_error + 'a queue_result list \<times> 'q" where
  "run_queue push pop q [] = Inr ([], q)"
| "run_queue push pop q (Push x # ops) =
     (case push q x of
        Inl e \<Rightarrow> Inl e
      | Inr (ok, q') \<Rightarrow> (case run_queue push pop q' ops of
            Inl e \<Rightarrow> Inl e
          | Inr (rs, q'') \<Rightarrow> Inr (Pushed ok # rs, q'')))"
| "run_queue push pop q (Pop # ops) =
     (case pop q of
        Inl e \<Rightarrow> Inl e
      | Inr (r, q') \<Rightarrow> (case run_queue push pop q' ops of
            Inl e \<Rightarrow> Inl e
          | Inr (rs, q'') \<Rightarrow> Inr (Popped r # rs, q'')))"

fun pushes :: "'a queue_op list \<Rightarrow> 'a list" where
  "pushes [] = []"
| "pushes (Push x # ops) = x # pushes ops"
| "pushes (Pop # ops) = pushes ops"

text \<open>The state \<open>q\<close> represents the list \<open>xs\<close> after \<open>n\<close> pushes; the queue may be used for \<open>limit\<close> pushes.\<close>

locale fifo =
  fixes push :: "'q \<Rightarrow> 'a \<Rightarrow> c_error + bool \<times> 'q"
    and pop :: "'q \<Rightarrow> c_error + 'a option \<times> 'q"
    and repr :: "'q \<Rightarrow> nat \<Rightarrow> 'a list \<Rightarrow> bool"
    and valid :: "'a \<Rightarrow> bool"
    and limit :: nat
  assumes push_repr: "repr q n xs \<Longrightarrow> valid x \<Longrightarrow> n < limit \<Longrightarrow>
      \<exists>ok q'. push q x = Inr (ok, q') \<and> repr q' (Suc n) (if ok then xs @ [x] else xs)"
    and pop_repr: "repr q n xs \<Longrightarrow>
      \<exists>q'. pop q = Inr (case xs of [] \<Rightarrow> None | x # _ \<Rightarrow> Some x, q') \<and> repr q' n (tl xs)"
begin

lemma run_queue_repr:
  assumes "repr q n xs" "\<forall>x\<in>set (pushes ops). valid x" "n + length (pushes ops) \<le> limit"
  shows "\<exists>rs q' xs'. run_queue push pop q ops = Inr (rs, q') \<and> queue_spec xs ops rs \<and>
    repr q' (n + length (pushes ops)) xs'"
  using assms
proof (induction ops arbitrary: q n xs)
  case Nil
  then show ?case by auto
next
  case (Cons op ops)
  show ?case
  proof (cases op)
    case (Push x)
    then obtain ok q1 where p: "push q x = Inr (ok, q1)" and r1: "repr q1 (Suc n) (if ok then xs @ [x] else xs)"
      using push_repr [OF Cons.prems(1), of x] Cons.prems(2,3) by auto
    from Cons.IH [OF r1] obtain rs q' xs' where "run_queue push pop q1 ops = Inr (rs, q')"
      "queue_spec (if ok then xs @ [x] else xs) ops rs" "repr q' (Suc n + length (pushes ops)) xs'"
      using Cons.prems(2,3) Push by auto
    with p Push show ?thesis by (cases ok) auto
  next
    case Pop
    obtain q1 where p: "pop q = Inr (case xs of [] \<Rightarrow> None | x # _ \<Rightarrow> Some x, q1)" and r1: "repr q1 n (tl xs)"
      using pop_repr [OF Cons.prems(1)] by auto
    from Cons.IH [OF r1] obtain rs q' xs' where "run_queue push pop q1 ops = Inr (rs, q')"
      "queue_spec (tl xs) ops rs" "repr q' (n + length (pushes ops)) xs'"
      using Cons.prems(2,3) Pop by auto
    with p Pop show ?thesis by (cases xs) auto
  qed
qed

end

section \<open>Positions in the ring\<close>

lemma unat_and_size:
  assumes "k < 32"
  shows "unat (v AND (2 ^ k - 1) :: u32) = unat v mod 2 ^ k"
proof -
  have "v AND (2 ^ k - 1) = take_bit k v" by (simp add: take_bit_eq_mask mask_eq_exp_minus_1)
  then show ?thesis using assms by (simp only: unsigned_take_bit_eq) (simp add: take_bit_eq_mod)
qed

lemma mod_add_offset: "a mod m + j < m \<Longrightarrow> (a + j) mod m = a mod m + (j :: nat)"
  by (metis mod_add_left_eq mod_less)

lemma mod_eq_near: "(p :: nat) mod m = q mod m \<Longrightarrow> p < q + m \<Longrightarrow> q < p + m \<Longrightarrow> p = q"
proof -
  assume "p mod m = q mod m" "p < q + m" "q < p + m"
  then show "p = q"
  proof (induction p q rule: linorder_wlog)
    case (le a b)
    then have "m dvd b - a" by (metis mod_eq_dvd_iff_nat)
    with le show ?case using dvd_imp_le [of m "b - a"] by (cases "a = b") auto
  qed auto
qed

text \<open>The bytes of the positions from \<open>a\<close> to \<open>b\<close> in a ring of the length of the block.\<close>

definition ring :: "u8 list \<Rightarrow> nat \<Rightarrow> nat \<Rightarrow> u8 list" where
  "ring mem a b = map (\<lambda>p. mem ! (p mod length mem)) [a..<b]"

lemma length_ring [simp]: "length (ring mem a b) = b - a"
  by (simp add: ring_def)

lemma ring_append: "a \<le> b \<Longrightarrow> b \<le> c \<Longrightarrow> ring mem a b @ ring mem b c = ring mem a c"
  unfolding ring_def by (simp flip: map_append) (metis le_Suc_ex upt_add_eq_append)

lemma ring_cong:
  assumes "\<And>p. a \<le> p \<Longrightarrow> p < b \<Longrightarrow> mem ! (p mod length mem) = mem' ! (p mod length mem')"
  shows "ring mem a b = ring mem' a b"
  using assms by (simp add: ring_def)

text \<open>A piece that does not cross the end of the block.\<close>

lemma ring_contiguous:
  assumes "a mod length mem + n \<le> length mem"
  shows "load_at mem (a mod length mem) n = Inr (ring mem a (a + n))"
proof -
  have "take n (drop (a mod length mem) mem) = ring mem a (a + n)"
  proof (rule nth_equalityI)
    fix i assume "i < length (take n (drop (a mod length mem) mem))"
    then have "i < n" by simp
    moreover have "(a + i) mod length mem = a mod length mem + i"
      using assms \<open>i < n\<close> by (intro mod_add_offset) simp
    ultimately show "take n (drop (a mod length mem) mem) ! i = ring mem a (a + n) ! i"
      using assms by (simp add: ring_def)
  qed (use assms in simp)
  with assms show ?thesis by (simp add: load_at_def)
qed

text \<open>Storing such a piece just after the used part of the ring.\<close>

lemma ring_store:
  assumes fit: "b mod length mem + length x \<le> length mem" and used: "a \<le> b" "b + length x \<le> a + length mem"
  obtains mem' where "store_at mem (b mod length mem) x = Inr mem'" "length mem' = length mem"
    "ring mem' a b = ring mem a b" "ring mem' b (b + length x) = x"
proof -
  let ?m = "length mem" and ?o = "b mod length mem"
  obtain mem' where st: "store_at mem ?o x = Inr mem'" and len: "length mem' = ?m"
    and nth: "\<And>q. q < ?m \<Longrightarrow> mem' ! q = (if ?o \<le> q \<and> q < ?o + length x then x ! (q - ?o) else mem ! q)"
    using store_at_nth [OF fit] by metis
  have "mem ! (p mod ?m) = mem' ! (p mod ?m)" if p: "a \<le> p" "p < b" for p
  proof -
    have "0 < ?m" using p fit used by (cases "?m = 0") auto
    have "\<not> (?o \<le> p mod ?m \<and> p mod ?m < ?o + length x)"
    proof
      assume c: "?o \<le> p mod ?m \<and> p mod ?m < ?o + length x"
      define j where "j = p mod ?m - ?o"
      have "j < length x" "p mod ?m = ?o + j" using c by (auto simp: j_def)
      moreover from this have "(b + j) mod ?m = ?o + j" using fit by (intro mod_add_offset) simp
      ultimately have "p = b + j" using p used by (intro mod_eq_near [of p ?m]) auto
      with p show False by simp
    qed
    with nth [of "p mod ?m"] \<open>0 < ?m\<close> show ?thesis by simp
  qed
  then have "ring mem' a b = ring mem a b" by (intro ring_cong) (simp add: len)
  moreover have "ring mem' b (b + length x) = x"
  proof (rule nth_equalityI)
    fix i assume "i < length (ring mem' b (b + length x))"
    then have i: "i < length x" by simp
    then have "(b + i) mod ?m = ?o + i" using fit by (intro mod_add_offset) simp
    with i nth [of "?o + i"] fit show "ring mem' b (b + length x) ! i = x ! i" by (simp add: ring_def len)
  qed simp
  ultimately show thesis using that st len by blast
qed

section \<open>Growing\<close>

text \<open>Moving a full ring into a block of twice the size, in one or two pieces.\<close>

lemma ring_move:
  assumes len: "length dst = 2 * length mem" and fit: "b mod length dst + (c - b) \<le> length dst"
    "b mod length mem + (c - b) \<le> length mem"
    and bc: "a \<le> b" "b \<le> c" "c \<le> a + length mem" and same: "ring dst a b = ring mem a b"
  obtains dst' where "store_at dst (b mod length dst) (ring mem b c) = Inr dst'" "length dst' = length dst"
    "ring dst' a c = ring mem a c"
proof -
  obtain dst' where "store_at dst (b mod length dst) (ring mem b c) = Inr dst'" "length dst' = length dst"
    "ring dst' a b = ring dst a b" "ring dst' b (b + length (ring mem b c)) = ring mem b c"
    using ring_store [of b dst "ring mem b c" a] len fit bc by auto
  moreover from this have "ring dst' a c = ring mem a c"
    using bc same ring_append [of a b c dst'] ring_append [of a b c mem] by simp
  ultimately show thesis using that by blast
qed

lemma mod_double: "(a :: nat) mod (2 * s) \<le> s + a mod s"
proof -
  have "a mod (s * 2) = s * (a div s mod 2) + a mod s" by (rule mod_mult2_eq)
  moreover have "s * (a div s mod 2) \<le> s * 1" by (intro mult_le_mono2) simp
  ultimately show ?thesis by (simp add: mult.commute)
qed

text \<open>The first multiple of \<open>s\<close> behind a number that is none.\<close>

lemma next_multiple:
  fixes s t :: nat
  assumes "0 < s" "0 < t mod s"
  shows "t < (t + s - 1) div s * s" "(t + s - 1) div s * s < t + s"
    "(t + s - 1) div s * s - t = s - t mod s" "t + s - (t + s - 1) div s * s = t mod s"
proof -
  let ?q = "t div s" and ?r = "t mod s"
  have t: "t = s * ?q + ?r" by simp
  have r: "?r < s" using assms(1) by simp
  have "s * (?q + 1) = s * ?q + s" by simp
  then have "t + s - 1 = (?r - 1) + s * (?q + 1)" using t assms(2) by linarith
  then have "(t + s - 1) div s = ?q + 1" using assms r by (simp only: div_mult_self2) simp
  then have p: "(t + s - 1) div s * s = s * ?q + s" by (simp only:) simp
  show "t < (t + s - 1) div s * s" "(t + s - 1) div s * s < t + s"
    "(t + s - 1) div s * s - t = s - t mod s" "t + s - (t + s - 1) div s * s = t mod s"
    unfolding p using t r assms(2) by linarith+
qed

lemma exp_and_minus: "k < 32 \<Longrightarrow> (2 ^ k :: u32) AND - (2 ^ k) = 2 ^ k"
  unfolding minus_eq_not_minus_1
  by (rule bit_word_eqI) (auto simp: bit_simps simp flip: mask_eq_exp_minus_1)

lemma u_align_u32_exp:
  assumes "k < 32" "unat v + 2 ^ k - 1 < 2 ^ 32"
  shows "\<exists>r. u_align_u32 v (2 ^ k) = Inr r \<and> unat r = (unat v + 2 ^ k - 1) div 2 ^ k * 2 ^ k"
proof -
  have "u_align_u32 v (2 ^ k) = Inr (align v (2 ^ k))"
    using assms(1) exp_and_minus [OF assms(1)] by (simp add: u_align_u32_def align_def)
  then show ?thesis using align_unat [OF assms] by blast
qed

text \<open>The vector in natural numbers: size \<open>2 ^ k\<close>, indices that have not wrapped.\<close>

definition vec_shape :: "u_vector \<Rightarrow> nat \<Rightarrow> u8 list \<Rightarrow> bool" where
  "vec_shape v k mem \<longleftrightarrow> k < 32 \<and> vec_size v = 2 ^ k \<and> vec_data v = Some mem \<and> length mem = 2 ^ k \<and>
     unat (vec_tail v) \<le> unat (vec_head v) \<and> unat (vec_head v) \<le> unat (vec_tail v) + 2 ^ k"

text \<open>Copying one more piece of a full ring into a block of twice the size.\<close>

lemma copy_block_ring:
  assumes mem: "vec_data v = Some mem" and len: "length dst = 2 * length mem"
    and args: "unat from = b mod length mem" "unat n = c - b" "unat to = b mod length dst"
    and fit: "b mod length dst + (c - b) \<le> length dst" "b mod length mem + (c - b) \<le> length mem"
    and pos: "a \<le> b" "b \<le> c" "c \<le> a + length mem" and same: "ring dst a b = ring mem a b"
  shows "\<exists>dst'. copy_block dst to (vec_data v) from n = Inr dst' \<and> length dst' = length dst \<and>
    ring dst' a c = ring mem a c"
proof -
  obtain dst' where "store_at dst (b mod length dst) (ring mem b c) = Inr dst'" "length dst' = length dst"
    "ring dst' a c = ring mem a c"
    by (rule ring_move [OF len fit pos same])
  moreover have "load_at mem (b mod length mem) (c - b) = Inr (ring mem b c)"
    using ring_contiguous [OF fit(2)] pos(2) by simp
  ultimately show ?thesis using mem args by (simp add: copy_block_def)
qed

lemma u_vector_copy_linear:
  assumes v: "vec_shape v k mem" "k < 31" and full: "unat (vec_head v) = unat (vec_tail v) + 2 ^ k"
    and dst: "length dst = 2 * length mem" and zero: "unat (vec_tail v) mod 2 ^ k = 0"
  shows "\<exists>dst'. u_vector_copy v (2 ^ Suc k) dst = Inr dst' \<and> length dst' = length dst \<and>
    ring dst' (unat (vec_tail v)) (unat (vec_head v)) = ring mem (unat (vec_tail v)) (unat (vec_head v))"
proof -
  let ?t = "unat (vec_tail v)" and ?h = "unat (vec_head v)"
  have mem: "vec_data v = Some mem" "length mem = 2 ^ k" "vec_size v = 2 ^ k"
    using v by (simp_all add: vec_shape_def)
  have "vec_tail v AND (2 ^ k - 1) = 0"
    using unat_and_size [of k "vec_tail v"] v(2) zero by (simp add: unat_eq_0)
  then have "u_vector_copy v (2 ^ Suc k) dst =
      copy_block dst (vec_tail v AND (2 ^ Suc k - 1)) (vec_data v) 0 (2 ^ k)"
    using mem(3) by (simp add: u_vector_copy_def)
  moreover have "\<exists>dst'. copy_block dst (vec_tail v AND (2 ^ Suc k - 1)) (vec_data v) 0 (2 ^ k) = Inr dst' \<and>
      length dst' = length dst \<and> ring dst' ?t ?h = ring mem ?t ?h"
  proof (rule copy_block_ring [OF mem(1) dst, of _ ?t])
    show "unat (vec_tail v AND (2 ^ Suc k - 1)) = ?t mod length dst"
      using unat_and_size [of "Suc k" "vec_tail v"] v(2) mem(2) dst by (simp only:) simp
    show "?t mod length dst + (?h - ?t) \<le> length dst"
      using mod_double [of ?t "length mem"] zero full mem dst by simp
  qed (use zero full mem v(2) in \<open>auto simp: ring_def\<close>)
  ultimately show ?thesis by simp
qed

lemma u_vector_copy_split:
  assumes v: "vec_shape v k mem" "k < 31" and full: "unat (vec_head v) = unat (vec_tail v) + 2 ^ k"
    and small: "unat (vec_head v) < 2 ^ 31" and dst: "length dst = 2 * length mem"
    and pos: "0 < unat (vec_tail v) mod 2 ^ k"
  shows "\<exists>dst'. u_vector_copy v (2 ^ Suc k) dst = Inr dst' \<and> length dst' = length dst \<and>
    ring dst' (unat (vec_tail v)) (unat (vec_head v)) = ring mem (unat (vec_tail v)) (unat (vec_head v))"
proof -
  let ?t = "unat (vec_tail v)" and ?h = "unat (vec_head v)" and ?s = "2 ^ k :: nat"
  define m where "m = (?t + ?s - 1) div ?s * ?s"
  have mem: "vec_data v = Some mem" "length mem = ?s" "vec_size v = 2 ^ k"
    using v by (simp_all add: vec_shape_def)
  have tm: "?t mod ?s < ?s" by simp
  have p: "?t < m" "m < ?h" "m - ?t = ?s - ?t mod ?s" "?h - m = ?t mod ?s" "m mod ?s = 0"
    using next_multiple [of ?s ?t] pos full by (simp_all add: m_def)
  have st: "unat (vec_tail v AND (2 ^ k - 1)) = ?t mod length mem"
    using unat_and_size [of k "vec_tail v"] v mem by simp
  have dt: "unat (w AND (2 ^ Suc k - 1)) = unat w mod (2 * length mem)" for w :: u32
    using unat_and_size [of "Suc k" w] v(2) mem by (simp only:) simp
  have "?t + 2 ^ k - 1 < 2 ^ 32" using small full by simp
  then obtain split where sp: "u_align_u32 (vec_tail v) (2 ^ k) = Inr split" and up: "unat split = m"
    using u_align_u32_exp [of k "vec_tail v"] v(2) by (force simp: m_def)
  have "\<exists>d1. copy_block dst (vec_tail v AND (2 ^ Suc k - 1)) (vec_data v) (vec_tail v AND (2 ^ k - 1))
      (split - vec_tail v) = Inr d1 \<and> length d1 = length dst \<and> ring d1 ?t m = ring mem ?t m"
    by (rule copy_block_ring [OF mem(1) dst st])
      (use mod_double [of ?t "length mem"] p tm up mem dt dst full in \<open>auto simp: no_wrap ring_def\<close>)
  then obtain d1 where c1: "copy_block dst (vec_tail v AND (2 ^ Suc k - 1)) (vec_data v)
      (vec_tail v AND (2 ^ k - 1)) (split - vec_tail v) = Inr d1"
    and d1: "length d1 = 2 * length mem" "ring d1 ?t m = ring mem ?t m" using dst by auto
  have z: "m mod length mem = 0" using p(5) mem(2) by simp
  then have "m mod (2 * length mem) \<le> length mem" using mod_double [of m "length mem"] by simp
  then have fit: "m mod length d1 + (?h - m) \<le> length d1" unfolding d1(1) p(4) using tm mem(2) by linarith
  have "\<exists>d2. copy_block d1 (split AND (2 ^ Suc k - 1)) (vec_data v) 0 (vec_head v - split) = Inr d2 \<and>
      length d2 = length d1 \<and> ring d2 ?t ?h = ring mem ?t ?h"
    by (rule copy_block_ring [OF mem(1) d1(1) _ _ _ fit _ _ _ _ d1(2)])
      (use p up z mem(2) d1(1) dt full in \<open>auto simp: no_wrap\<close>)
  moreover have "vec_tail v AND (2 ^ k - 1) \<noteq> 0" using st pos mem(2) by auto
  moreover have "vec_tail v \<le> split" "split < vec_head v"
    using up p(1,2) by (simp_all add: word_le_nat_alt word_less_nat_alt)
  ultimately show ?thesis using c1 sp d1(1) dst mem(3) by (auto simp: u_vector_copy_def Let_def)
qed

lemma u_vector_copy_ring:
  assumes "vec_shape v k mem" "k < 31" "unat (vec_head v) = unat (vec_tail v) + 2 ^ k"
    "unat (vec_head v) < 2 ^ 31" "length dst = 2 ^ Suc k"
  shows "\<exists>dst'. u_vector_copy v (2 ^ Suc k) dst = Inr dst' \<and> length dst' = 2 ^ Suc k \<and>
    ring dst' (unat (vec_tail v)) (unat (vec_head v)) = ring mem (unat (vec_tail v)) (unat (vec_head v))"
proof -
  have "length dst = 2 * length mem" using assms(1,5) by (simp add: vec_shape_def)
  then show ?thesis
    using u_vector_copy_linear [OF assms(1-3)] u_vector_copy_split [OF assms(1-4)] assms(5)
    by (cases "unat (vec_tail v) mod 2 ^ k = 0") auto
qed

section \<open>The vector as a queue\<close>

definition vec_repr :: "u32 \<Rightarrow> u_vector \<Rightarrow> nat \<Rightarrow> u8 list list \<Rightarrow> bool" where
  "vec_repr es v n xs \<longleftrightarrow> (\<exists>k e mem. vec_shape v k mem \<and> vec_element_size v = es \<and> es = 2 ^ e \<and> e < k \<and>
     2 ^ e dvd unat (vec_head v) \<and> 2 ^ e dvd unat (vec_tail v) \<and> unat (vec_head v) \<le> n * 2 ^ e \<and>
     concat xs = ring mem (unat (vec_tail v)) (unat (vec_head v)) \<and> (\<forall>x\<in>set xs. length x = 2 ^ e))"

lemma dvd_less_add: "(d :: nat) dvd a \<Longrightarrow> d dvd b \<Longrightarrow> a < b \<Longrightarrow> a + d \<le> b"
  by (auto elim!: dvdE) (metis Suc_leI mult.commute mult_Suc mult_le_mono2 add.commute)

lemma mod_slot_fits:
  assumes "2 ^ e dvd (a :: nat)" "e < k"
  shows "a mod 2 ^ k + 2 ^ e \<le> 2 ^ k"
proof (rule dvd_less_add)
  have "(2 :: nat) ^ e dvd 2 ^ k" using assms(2) by (simp add: le_imp_power_dvd)
  then show "2 ^ e dvd a mod 2 ^ k" "(2 :: nat) ^ e dvd 2 ^ k" using assms(1) by (simp_all add: dvd_mod)
qed simp

lemma vec_shape_diff:
  assumes "vec_shape v k mem"
  shows "unat (vec_head v - vec_tail v) = unat (vec_head v) - unat (vec_tail v)" "unat (vec_size v) = 2 ^ k"
  using assms by (auto simp: vec_shape_def no_wrap)

text \<open>Adding to a vector that is not full.\<close>

lemma vec_push_room:
  assumes v: "vec_shape v k mem" and es: "vec_element_size v = 2 ^ e" "e < k" "length x = 2 ^ e"
    and al: "2 ^ e dvd unat (vec_head v)" "2 ^ e dvd unat (vec_tail v)"
    and room: "unat (vec_head v) < unat (vec_tail v) + 2 ^ k" and small: "unat (vec_head v) + 2 ^ e < 2 ^ 32"
  shows "\<exists>mem'. vec_push fresh v x =
      Inr (True, v\<lparr>vec_head := vec_head v + 2 ^ e, vec_data := Some mem'\<rparr>) \<and>
    vec_shape (v\<lparr>vec_head := vec_head v + 2 ^ e, vec_data := Some mem'\<rparr>) k mem' \<and>
    unat (vec_head v + 2 ^ e) = unat (vec_head v) + 2 ^ e \<and>
    ring mem' (unat (vec_tail v)) (unat (vec_head v) + 2 ^ e) = ring mem (unat (vec_tail v)) (unat (vec_head v)) @ x"
proof -
  let ?t = "unat (vec_tail v)" and ?h = "unat (vec_head v)"
  have k: "k < 32" and mem: "vec_size v = 2 ^ k" "vec_data v = Some mem" "length mem = 2 ^ k" "?t \<le> ?h"
    using v by (simp_all add: vec_shape_def)
  have "(2 :: nat) ^ e dvd ?t + 2 ^ k" using al(2) es(2) by (simp add: le_imp_power_dvd)
  then have fit: "?h + 2 ^ e \<le> ?t + 2 ^ k" using al(1) room by (intro dvd_less_add)
  obtain mem' where st: "store_at mem (?h mod length mem) x = Inr mem'" "length mem' = length mem"
    "ring mem' ?t ?h = ring mem ?t ?h" "ring mem' ?h (?h + length x) = x"
    by (rule ring_store [of ?h mem x ?t]) (use mod_slot_fits [OF al(1) es(2)] mem es(3) fit in auto)
  have nf: "vec_head v - vec_tail v < vec_size v"
    using vec_shape_diff [OF v] room mem(4) by (simp add: word_less_nat_alt)
  then have "u_vector_add fresh v = Inr (Some (vec_head v AND (2 ^ k - 1)), v\<lparr>vec_head := vec_head v + 2 ^ e\<rparr>)"
    using mem(1) es(1) less_imp_neq [OF nf] by (simp add: u_vector_add_def)
  moreover have "unat (vec_head v AND (2 ^ k - 1)) = ?h mod length mem"
    using unat_and_size [OF k] mem(3) by simp
  ultimately have push: "vec_push fresh v x = Inr (True, v\<lparr>vec_head := vec_head v + 2 ^ e, vec_data := Some mem'\<rparr>)"
    using st(1) mem(2) by (simp add: vec_push_def)
  have h: "unat (vec_head v + 2 ^ e) = ?h + 2 ^ e"
    using small es(2) k by (subst unat_add_no_wrap) simp_all
  have "vec_shape (v\<lparr>vec_head := vec_head v + 2 ^ e, vec_data := Some mem'\<rparr>) k mem'"
    using v st(2) fit mem h by (simp add: vec_shape_def)
  moreover have "ring mem' ?t (?h + 2 ^ e) = ring mem ?t ?h @ x"
    using ring_append [of ?t ?h "?h + 2 ^ e" mem'] st(3,4) es(3) mem(4) by simp
  ultimately show ?thesis using push h by blast
qed

text \<open>A full vector that can grow behaves as the grown vector.\<close>

lemma vec_push_grown:
  assumes "vec_head v - vec_tail v = vec_size v" "fresh (ucast (vec_size v * 2)) = Some data"
    "u_vector_copy v (vec_size v * 2) data = Inr data'"
    "v' = v\<lparr>vec_data := Some data', vec_size := vec_size v * 2\<rparr>" "vec_head v - vec_tail v \<noteq> vec_size v * 2"
  shows "vec_push fresh v x = vec_push fresh v' x"
proof -
  have "u_vector_add fresh v = u_vector_add fresh v'"
    using assms by (simp add: u_vector_add_def Let_def)
  then show ?thesis by (simp add: vec_push_def)
qed

lemma vec_grow:
  assumes v: "vec_shape v k mem" and full: "unat (vec_head v) = unat (vec_tail v) + 2 ^ k"
    and small: "unat (vec_head v) < 2 ^ 31"
    and fresh: "allocator_ok fresh" "fresh (ucast (vec_size v * 2)) = Some data"
  obtains w d where "vec_push fresh v x = vec_push fresh w x" "vec_shape w (Suc k) d"
    "w = v\<lparr>vec_data := Some d, vec_size := 2 ^ Suc k\<rparr>"
    "ring d (unat (vec_tail v)) (unat (vec_head v)) = ring mem (unat (vec_tail v)) (unat (vec_head v))"
proof -
  let ?t = "unat (vec_tail v)" and ?h = "unat (vec_head v)"
  have "(2 :: nat) ^ k < 2 ^ 31" using full small by linarith
  then have k31: "k < 31" by (subst (asm) power_strict_increasing_iff) simp_all
  have u: "unat (2 ^ Suc k :: u32) = 2 ^ Suc k" using k31 by (intro unat_power_lower) simp
  have sz: "vec_size v * 2 = 2 ^ Suc k" "unat (ucast (2 ^ Suc k :: u32) :: u64) = 2 ^ Suc k"
  proof -
    show "vec_size v * 2 = 2 ^ Suc k" using v by (simp add: vec_shape_def)
    have "(2 :: nat) ^ Suc k < 2 ^ 64" using k31 by (intro power_strict_increasing) simp_all
    then show "unat (ucast (2 ^ Suc k :: u32) :: u64) = 2 ^ Suc k"
      unfolding unat_ucast_eq u by simp
  qed
  have f: "vec_head v - vec_tail v = vec_size v" and ne: "vec_head v - vec_tail v \<noteq> vec_size v * 2"
    using vec_shape_diff [OF v] full u unfolding sz(1) by (simp_all add: word_unat_eq_iff)
  have "length data = unat (ucast (vec_size v * 2) :: u64)"
    using fresh by (simp add: allocator_ok_def)
  then have "length data = 2 ^ Suc k" unfolding sz .
  then obtain d where d: "u_vector_copy v (2 ^ Suc k) data = Inr d" "length d = 2 ^ Suc k"
    "ring d ?t ?h = ring mem ?t ?h"
    using u_vector_copy_ring [OF v k31 full small] by blast
  let ?w = "v\<lparr>vec_data := Some d, vec_size := vec_size v * 2\<rparr>"
  have "vec_push fresh v x = vec_push fresh ?w x"
    by (rule vec_push_grown [where fresh = fresh, OF f fresh(2) d(1) [folded sz(1)] refl ne])
  moreover have "vec_shape ?w (Suc k) d" using v d(2) k31 sz(1) full by (simp add: vec_shape_def)
  ultimately show thesis using that [of ?w d] d(3) unfolding sz(1) by blast
qed

lemma vec_push_room_repr:
  assumes w: "vec_shape w l m" "vec_element_size w = es" "es = 2 ^ e" "e < l" "length x = 2 ^ e"
    and al: "2 ^ e dvd unat (vec_head w)" "2 ^ e dvd unat (vec_tail w)"
    and h: "unat (vec_head w) \<le> n * 2 ^ e" "unat (vec_head w) + 2 ^ e \<le> 2 ^ 31"
      "unat (vec_head w) < unat (vec_tail w) + 2 ^ l"
    and xs: "concat xs = ring m (unat (vec_tail w)) (unat (vec_head w))" "\<forall>x\<in>set xs. length x = 2 ^ e"
  shows "\<exists>v'. vec_push fresh w x = Inr (True, v') \<and> vec_repr es v' (Suc n) (xs @ [x])"
proof -
  let ?t = "unat (vec_tail w)" and ?h = "unat (vec_head w)"
  obtain m' where p: "vec_push fresh w x = Inr (True, w\<lparr>vec_head := vec_head w + 2 ^ e, vec_data := Some m'\<rparr>)"
    "vec_shape (w\<lparr>vec_head := vec_head w + 2 ^ e, vec_data := Some m'\<rparr>) l m'"
    "unat (vec_head w + 2 ^ e) = ?h + 2 ^ e" "ring m' ?t (?h + 2 ^ e) = ring m ?t ?h @ x"
    using vec_push_room [OF w(1), of e x fresh] w al h by auto
  then show ?thesis unfolding vec_repr_def using w al h xs
    by (intro exI [of _ "w\<lparr>vec_head := vec_head w + 2 ^ e, vec_data := Some m'\<rparr>"] conjI exI [of _ l]
        exI [of _ e] exI [of _ m']) auto
qed

lemma vec_push_repr:
  assumes fresh: "allocator_ok fresh" and r: "vec_repr es v n xs" and x: "length x = unat es"
    and n: "n < 2 ^ 31 div unat es"
  shows "\<exists>ok v'. vec_push fresh v x = Inr (ok, v') \<and> vec_repr es v' (Suc n) (if ok then xs @ [x] else xs)"
proof -
  obtain k e mem where v: "vec_shape v k mem" "vec_element_size v = es" "es = 2 ^ e" "e < k"
    and al: "2 ^ e dvd unat (vec_head v)" "2 ^ e dvd unat (vec_tail v)"
    and h: "unat (vec_head v) \<le> n * 2 ^ e"
    and xs: "concat xs = ring mem (unat (vec_tail v)) (unat (vec_head v))" "\<forall>x\<in>set xs. length x = 2 ^ e"
    using r unfolding vec_repr_def by blast
  let ?t = "unat (vec_tail v)" and ?h = "unat (vec_head v)"
  have k: "k < 32" "?h \<le> ?t + 2 ^ k" using v(1) by (simp_all add: vec_shape_def)
  have es: "unat es = 2 ^ e" "length x = 2 ^ e" using v(3,4) k(1) x by simp_all
  have "Suc n * 2 ^ e \<le> 2 ^ 31 div 2 ^ e * 2 ^ e" using n es(1) by (intro mult_le_mono1) simp
  also have "\<dots> \<le> 2 ^ 31" by (rule div_times_less_eq_dividend)
  finally have small: "?h + 2 ^ e \<le> 2 ^ 31" using h by simp
  show ?thesis
  proof (cases "?h = ?t + 2 ^ k")
    case False
    then have "?h < ?t + 2 ^ k" using k(2) by simp
    from vec_push_room_repr [OF v es(2) al h small this xs, of fresh] show ?thesis by auto
  next
    case full: True
    show ?thesis
    proof (cases "fresh (ucast (vec_size v * 2))")
      case None
      then have "vec_push fresh v x = Inr (False, v)"
        using vec_shape_diff [OF v(1)] full by (simp add: vec_push_def u_vector_add_def Let_def word_unat_eq_iff)
      moreover have "vec_repr es v (Suc n) xs" using r unfolding vec_repr_def by fastforce
      ultimately show ?thesis by auto
    next
      case (Some data)
      have "?h < 2 ^ 31" using small zero_less_power [of "2 :: nat" e] by linarith
      then obtain w d where w: "vec_push fresh v x = vec_push fresh w x" "vec_shape w (Suc k) d"
        "w = v\<lparr>vec_data := Some d, vec_size := 2 ^ Suc k\<rparr>" "ring d ?t ?h = ring mem ?t ?h"
        by (rule vec_grow [OF v(1) full _ fresh Some])
      have "\<exists>v'. vec_push fresh w x = Inr (True, v') \<and> vec_repr es v' (Suc n) (xs @ [x])"
        by (rule vec_push_room_repr [OF w(2) _ v(3) _ es(2)]) (use w(3,4) v(2,4) al h small full xs in simp_all)
      then show ?thesis unfolding w(1) by auto
    qed
  qed
qed

lemma concat_eq_Nil_slots: "\<forall>x\<in>set xs. length x = 2 ^ e \<Longrightarrow> concat xs = [] \<longleftrightarrow> xs = []"
  by (cases xs) auto

lemma vec_pop_repr:
  assumes r: "vec_repr es v n xs"
  shows "\<exists>v'. vec_pop v = Inr (case xs of [] \<Rightarrow> None | x # _ \<Rightarrow> Some x, v') \<and> vec_repr es v' n (tl xs)"
proof -
  obtain k e mem where v: "vec_shape v k mem" "vec_element_size v = es" "es = 2 ^ e" "e < k"
    and al: "2 ^ e dvd unat (vec_head v)" "2 ^ e dvd unat (vec_tail v)"
    and h: "unat (vec_head v) \<le> n * 2 ^ e"
    and xs: "concat xs = ring mem (unat (vec_tail v)) (unat (vec_head v))" "\<forall>x\<in>set xs. length x = 2 ^ e"
    using r unfolding vec_repr_def by blast
  let ?t = "unat (vec_tail v)" and ?h = "unat (vec_head v)"
  have k: "k < 32" and mem: "vec_size v = 2 ^ k" "vec_data v = Some mem" "length mem = 2 ^ k" "?t \<le> ?h" "?h \<le> ?t + 2 ^ k"
    using v(1) by (simp_all add: vec_shape_def)
  show ?thesis
  proof (cases xs)
    case Nil
    then have "vec_head v = vec_tail v" using xs(1) mem(4) by (auto simp: ring_def word_unat_eq_iff)
    then have "vec_pop v = Inr (None, v)" by (simp add: vec_pop_def u_vector_remove_def)
    then show ?thesis using Nil r by auto
  next
    case (Cons x ys)
    have "0 < length (concat xs)" using Cons xs(2) by simp
    then have less: "?t < ?h" unfolding xs(1) by simp
    then have le: "?t + 2 ^ e \<le> ?h" by (rule dvd_less_add [OF al(2,1)])
    have ring: "ring mem ?t (?t + 2 ^ e) @ ring mem (?t + 2 ^ e) ?h = x @ concat ys"
      using ring_append [of ?t "?t + 2 ^ e" ?h mem] le xs(1) Cons by simp
    then have x: "ring mem ?t (?t + 2 ^ e) = x" "ring mem (?t + 2 ^ e) ?h = concat ys"
      using Cons xs(2) by (simp_all add: append_eq_append_conv)
    have ld: "load_at mem (?t mod length mem) (2 ^ e) = Inr x"
      using ring_contiguous [of ?t mem "2 ^ e"] mod_slot_fits [OF al(2) v(4)] mem(3) x(1) by simp
    have off: "unat (vec_tail v AND (2 ^ k - 1)) = ?t mod length mem"
      using unat_and_size [OF k] mem(3) by simp
    have es: "unat es = 2 ^ e" using v(3,4) k by simp
    have t: "unat (vec_tail v + es) = ?t + 2 ^ e"
      using le unat_lt2p [of "vec_head v"] by (subst unat_add_no_wrap) (simp_all add: es)
    have "vec_head v \<noteq> vec_tail v" "vec_head v - vec_tail v \<le> vec_size v"
      using less vec_shape_diff [OF v(1)] mem(5) by (auto simp: word_le_nat_alt)
    then have "vec_pop v = Inr (Some x, v\<lparr>vec_tail := vec_tail v + es\<rparr>)"
      using ld off es mem(1,2) v(2) by (simp add: vec_pop_def u_vector_remove_def)
    moreover have "vec_repr es (v\<lparr>vec_tail := vec_tail v + es\<rparr>) n ys"
    proof -
      have "vec_shape (v\<lparr>vec_tail := vec_tail v + es\<rparr>) k mem"
        using v(1) t le mem(5) by (simp add: vec_shape_def)
      then show ?thesis unfolding vec_repr_def using v al h xs(2) Cons t x(2)
        by (intro exI [of _ k] exI [of _ e] exI [of _ mem]) auto
    qed
    ultimately show ?thesis using Cons by auto
  qed
qed

interpretation vec: fifo "vec_push fresh" vec_pop "\<lambda>v n xs. allocator_ok fresh \<and> vec_repr es v n xs"
  "\<lambda>x. length x = unat es" "2 ^ 31 div unat es"
  for fresh es
proof unfold_locales
  fix q n xs and x :: "u8 list"
  assume "allocator_ok fresh \<and> vec_repr es q n xs" "length x = unat es" "n < 2 ^ 31 div unat es"
  then show "\<exists>ok q'. vec_push fresh q x = Inr (ok, q') \<and>
      allocator_ok fresh \<and> vec_repr es q' (Suc n) (if ok then xs @ [x] else xs)"
    using vec_push_repr by blast
next
  fix q n xs assume "allocator_ok fresh \<and> vec_repr es q n xs"
  then show "\<exists>q'. vec_pop q = Inr (case xs of [] \<Rightarrow> None | x # _ \<Rightarrow> Some x, q') \<and>
      allocator_ok fresh \<and> vec_repr es q' n (tl xs)"
    using vec_pop_repr by blast
qed

lemma u_vector_init_repr:
  assumes "util_is_power_of_two_nonzero sz" "util_is_power_of_two_nonzero es" "es < sz" "allocator_ok fresh"
    "u_vector_init fresh es sz = Inr (True, v)"
  shows "vec_repr es v 0 []"
proof -
  obtain k where k: "k < 32" "sz = 2 ^ k" using assms(1) by (auto simp: util_is_power_of_two_nonzero_iff)
  obtain e where e: "e < 32" "es = 2 ^ e" using assms(2) by (auto simp: util_is_power_of_two_nonzero_iff)
  have "(2 :: nat) ^ e < 2 ^ k" using assms(3) k e by (simp add: word_less_nat_alt)
  then have ek: "e < k" by simp
  have "(2 :: nat) ^ k < 2 ^ 64" using k(1) by (intro power_strict_increasing) simp_all
  moreover have "unat (2 ^ k :: u32) = 2 ^ k" using k(1) by simp
  ultimately have u: "unat (ucast sz :: u64) = 2 ^ k" unfolding k(2) by (simp only: unat_ucast_eq) simp
  obtain mem where "fresh (ucast sz) = Some mem" "v = \<lparr>vec_head = 0, vec_tail = 0, vec_element_size = es,
      vec_size = sz, vec_data = Some mem\<rparr>"
    using assms by (auto simp: u_vector_init_def Let_def split: if_splits)
  moreover from this have "length mem = 2 ^ k" using assms(4) u by (simp add: allocator_ok_def)
  ultimately show ?thesis unfolding vec_repr_def using k e ek
    by (intro exI [of _ k] exI [of _ e] exI [of _ mem]) (simp add: vec_shape_def ring_def)
qed

section \<open>Properties\<close>

text \<open>
  C39: a vector that was initialized with power-of-two sizes behaves as a first-in first-out
  queue, through every growth of its buffer: any sequence of additions and removals that adds
  less than \<open>2 ^ 31\<close> bytes fails no assertion, touches no memory outside the buffer, and every
  removal returns what the queue of the successfully added elements returns.
\<close>

theorem u_vector_refines_queue:
  assumes "allocator_ok fresh" "util_is_power_of_two_nonzero sz" "util_is_power_of_two_nonzero es" "es < sz"
    "u_vector_init fresh es sz = Inr (True, v)"
    "\<forall>x\<in>set (pushes ops). length x = unat es" "length (pushes ops) \<le> 2 ^ 31 div unat es"
  shows "\<exists>rs v'. run_queue (vec_push fresh) vec_pop v ops = Inr (rs, v') \<and> queue_spec [] ops rs"
proof -
  have "allocator_ok fresh \<and> vec_repr es v 0 []"
    using assms u_vector_init_repr by blast
  from vec.run_queue_repr [OF this assms(6)] assms(7) show ?thesis by auto
qed

theorem u_vector_refines_queue_witness:
  "\<exists>rs v v'. u_vector_init (\<lambda>n. if unat n < 2 ^ 63 then Some (replicate (unat n) 0) else None) 1 2 = Inr (True, v) \<and>
     run_queue (vec_push (\<lambda>n. if unat n < 2 ^ 63 then Some (replicate (unat n) 0) else None)) vec_pop v
       [Push [1], Push [2], Pop, Push [3], Push [4], Pop, Pop, Pop, Pop] = Inr (rs, v') \<and>
     queue_spec [] [Push [1], Push [2], Pop, Push [3], Push [4], Pop, Pop, Pop, Pop] rs"
proof -
  let ?fresh = "\<lambda>n :: u64. if unat n < 2 ^ 63 then Some (replicate (unat n) (0 :: u8)) else None"
  let ?ops = "[Push [1], Push [2], Pop, Push [3], Push [4], Pop, Pop, Pop, Pop]"
  define v where "v = \<lparr>vec_head = 0, vec_tail = 0, vec_element_size = 1, vec_size = 2, vec_data = Some (replicate 2 0)\<rparr>"
  have init: "u_vector_init ?fresh 1 2 = Inr (True, v)"
    by (simp add: u_vector_init_def util_is_power_of_two_nonzero_def v_def)
  have "\<exists>rs v'. run_queue (vec_push ?fresh) vec_pop v ?ops = Inr (rs, v') \<and> queue_spec [] ?ops rs"
    by (rule u_vector_refines_queue [OF _ _ _ _ init])
      (simp_all add: allocator_ok_def util_is_power_of_two_nonzero_def)
  with init show ?thesis by blast
qed

section \<open>Looking at a vector\<close>

lemma u_vector_foreach_repr:
  assumes v: "vec_shape v k mem" "vec_element_size v = 2 ^ e" "e < k"
    and al: "2 ^ e dvd unat (vec_head v)" "2 ^ e dvd unat off"
    and off: "unat off \<le> unat (vec_head v)" "concat xs = ring mem (unat off) (unat (vec_head v))"
    and xs: "\<forall>x\<in>set xs. length x = 2 ^ e"
  shows "\<exists>offs. u_vector_foreach v off = Some offs \<and>
    map (\<lambda>i. load_at mem (unat i) (2 ^ e)) offs = map Inr xs"
  using al(2) off xs
proof (induction xs arbitrary: off)
  case Nil
  then have "\<not> off < vec_head v" by (auto simp: ring_def word_less_nat_alt)
  then show ?case by (subst u_vector_foreach.simps) simp
next
  case (Cons x xs)
  let ?o = "unat off" and ?h = "unat (vec_head v)"
  have k: "k < 32" and mem: "vec_size v = 2 ^ k" "length mem = 2 ^ k" using v(1) by (simp_all add: vec_shape_def)
  have "0 < length (concat (x # xs))" using Cons.prems(4) by simp
  then have less: "?o < ?h" unfolding Cons.prems(3) by simp
  then have le: "?o + 2 ^ e \<le> ?h" by (rule dvd_less_add [OF Cons.prems(1) al(1)])
  have nxt: "unat (off + 2 ^ e) = ?o + 2 ^ e"
    using le unat_lt2p [of "vec_head v"] v(3) k by (subst unat_add_no_wrap) simp_all
  have "ring mem ?o (?o + 2 ^ e) @ ring mem (?o + 2 ^ e) ?h = x @ concat xs"
    using ring_append [of ?o "?o + 2 ^ e" ?h mem] le Cons.prems(3) by simp
  then have x: "ring mem ?o (?o + 2 ^ e) = x" "ring mem (?o + 2 ^ e) ?h = concat xs"
    using Cons.prems(4) by (simp_all add: append_eq_append_conv)
  obtain offs where offs: "u_vector_foreach v (off + 2 ^ e) = Some offs"
    "map (\<lambda>i. load_at mem (unat i) (2 ^ e)) offs = map Inr xs"
    using Cons.IH [of "off + 2 ^ e"] Cons.prems(1,4) le x(2) by (auto simp: nxt)
  have "load_at mem (unat (off AND (2 ^ k - 1))) (2 ^ e) = Inr x"
    using ring_contiguous [of ?o mem "2 ^ e"] mod_slot_fits [OF Cons.prems(1) v(3)] unat_and_size [OF k] mem(2) x(1)
    by simp
  with offs less show ?case
    by (subst u_vector_foreach.simps) (simp add: word_less_nat_alt v(2) mem(1))
qed

lemma length_concat_slots: "\<forall>x\<in>set xs. length x = n \<Longrightarrow> length (concat xs) = n * length xs"
  by (induction xs) auto

text \<open>
  On a vector that represents a queue, \<open>u_vector_length\<close> is the number of elements, and the loop
  of \<^verbatim>\<open>u_vector_foreach\<close> ends and visits the elements in order, oldest first.
\<close>

lemma u_vector_foreach_correct:
  assumes "vec_repr es v n xs" "vec_data v = Some mem"
  shows "unat (u_vector_length v) = length xs \<and>
    (\<exists>offs. u_vector_foreach v (vec_tail v) = Some offs \<and>
       map (\<lambda>i. load_at mem (unat i) (unat es)) offs = map Inr xs)"
proof -
  obtain k e where v: "vec_shape v k mem" "vec_element_size v = es" "es = 2 ^ e" "e < k"
    and al: "2 ^ e dvd unat (vec_head v)" "2 ^ e dvd unat (vec_tail v)"
    and xs: "concat xs = ring mem (unat (vec_tail v)) (unat (vec_head v))" "\<forall>x\<in>set xs. length x = 2 ^ e"
    using assms unfolding vec_repr_def vec_shape_def by force
  have le: "unat (vec_tail v) \<le> unat (vec_head v)" and k: "k < 32" using v(1) by (simp_all add: vec_shape_def)
  have es: "unat es = 2 ^ e" using v(3,4) k by simp
  have "unat (vec_head v) - unat (vec_tail v) = 2 ^ e * length xs"
    using length_concat_slots [OF xs(2)] unfolding xs(1) by simp
  then have "unat (u_vector_length v) = length xs"
    using vec_shape_diff(1) [OF v(1)] es v(2) by (simp add: u_vector_length_def unat_div)
  moreover have "\<exists>offs. u_vector_foreach v (vec_tail v) = Some offs \<and>
      map (\<lambda>i. load_at mem (unat i) (2 ^ e)) offs = map Inr xs"
    by (rule u_vector_foreach_repr [OF v(1) _ v(4) al le xs]) (use v(2,3) in simp)
  ultimately show ?thesis by (simp only: es)
qed

section \<open>Wrap-around of the indices\<close>

text \<open>A full vector whose head has wrapped fails the assertion on the split point when it grows.\<close>

definition wrapped_vector :: u_vector where
  "wrapped_vector = \<lparr>vec_head = 4, vec_tail = 0xfffffffc, vec_element_size = 4, vec_size = 8,
     vec_data = Some (replicate 8 0)\<rparr>"

lemma wrapped_vector_add:
  "u_vector_add (\<lambda>n. Some (replicate (unat n) 0)) wrapped_vector = Inl Assertion"
  by (simp add: u_vector_add_def wrapped_vector_def u_vector_copy_def u_align_u32_def)

text \<open>Its two elements are not visited by the loop, and \<open>u_vector_head\<close> fails its assertion.\<close>

lemma wrapped_vector_foreach:
  "u_vector_length wrapped_vector = 2" "u_vector_foreach wrapped_vector (vec_tail wrapped_vector) = Some []"
  "u_vector_head wrapped_vector = Inl Assertion"
  by (simp_all add: wrapped_vector_def u_vector_length_def u_vector_foreach.simps u_vector_head_def)

end
