(* ===== verification/Slab.thy ===== *)
theory Slab
  imports C_Memory
begin

text \<open>
  \<^verbatim>\<open>src/util/slab.c\<close> and \<^verbatim>\<open>slab.h\<close>: pools of objects of one size. Threads allocate from child pools of
  their own, may free an object through another child of the same parent, and may destroy a
  child while its objects are in use. The model is the build with \<^verbatim>\<open>DEBUG\<close>, so that elements carry
  the magic number and every check of it is an assertion.

  Memory is explicit: element headers, page headers and child pools are found by their
  addresses, list links are the \<^verbatim>\<open>next\<close> fields, and the \<^verbatim>\<open>owner\<close> word carries the orphan tag in its
  lowest bit. An access to an address without an object is \<open>Bad_access\<close>; freeing a page removes
  its elements, so a use after free is such an access. The functions are divided at the places
  where another thread can intervene: a free looks at the owner, then acts under the parent's
  mutex, then possibly drops its element from an orphaned page; the destruction of a child
  orphans its pages under the mutex and then drops its free list without it.
\<close>

section \<open>Data\<close>

record slab_element_header =
  elt_next :: ptr
  owner :: u64
  magic :: u64

text \<open>The union of the page header: the next page of the pool, or the number of remaining elements
  of an orphaned page.\<close>

datatype slab_page_header = Next ptr | Num_remaining u32

record slab_parent_pool =
  element_size :: u32
  num_elements :: u32

record slab_child_pool =
  pool_parent :: ptr
  pool_pages :: ptr
  pool_free :: ptr
  pool_migrated :: ptr

record slab_heap =
  elts :: "ptr \<Rightarrow> slab_element_header option"
  page_hdrs :: "ptr \<Rightarrow> slab_page_header option"
  pools :: "ptr \<Rightarrow> slab_child_pool option"

definition SLAB_MAGIC_ALLOCATED :: u64 where
  "SLAB_MAGIC_ALLOCATED = 0xcafe4321"

definition SLAB_MAGIC_FREE :: u64 where
  "SLAB_MAGIC_FREE = 0x7ee01234"

text \<open>\<^verbatim>\<open>sizeof (struct slab_element_header)\<close> and \<^verbatim>\<open>sizeof (struct slab_page_header)\<close>.\<close>

abbreviation elt_header_size :: u64 where
  "elt_header_size \<equiv> 24"

abbreviation page_header_size :: u64 where
  "page_header_size \<equiv> 8"

definition slab_get_element :: "slab_parent_pool \<Rightarrow> ptr \<Rightarrow> u32 \<Rightarrow> ptr" where
  "slab_get_element parent page index = page + page_header_size + ucast (element_size parent * index)"

section \<open>Memory access\<close>

definition bind_result :: "c_error + 'a \<Rightarrow> ('a \<Rightarrow> c_error + 'b) \<Rightarrow> c_error + 'b" where
  "bind_result m f = (case m of Inl e \<Rightarrow> Inl e | Inr x \<Rightarrow> f x)"

lemma bind_result_simps [simp]: "bind_result (Inl e) f = Inl e" "bind_result (Inr x) f = f x"
  by (simp_all add: bind_result_def)

definition read_elt :: "slab_heap \<Rightarrow> ptr \<Rightarrow> c_error + slab_element_header" where
  "read_elt h e = (case elts h e of None \<Rightarrow> Inl Bad_access | Some x \<Rightarrow> Inr x)"

definition read_pool :: "slab_heap \<Rightarrow> ptr \<Rightarrow> c_error + slab_child_pool" where
  "read_pool h p = (case pools h p of None \<Rightarrow> Inl Bad_access | Some q \<Rightarrow> Inr q)"

definition set_elt :: "ptr \<Rightarrow> slab_element_header \<Rightarrow> slab_heap \<Rightarrow> slab_heap" where
  "set_elt e x h = h\<lparr>elts := (elts h)(e \<mapsto> x)\<rparr>"

definition set_page :: "ptr \<Rightarrow> slab_page_header \<Rightarrow> slab_heap \<Rightarrow> slab_heap" where
  "set_page pg x h = h\<lparr>page_hdrs := (page_hdrs h)(pg \<mapsto> x)\<rparr>"

definition set_pool :: "ptr \<Rightarrow> slab_child_pool \<Rightarrow> slab_heap \<Rightarrow> slab_heap" where
  "set_pool p q h = h\<lparr>pools := (pools h)(p \<mapsto> q)\<rparr>"

text \<open>The elements of a page, and \<^verbatim>\<open>free (page)\<close>.\<close>

definition page_elements :: "slab_parent_pool \<Rightarrow> ptr \<Rightarrow> ptr list" where
  "page_elements parent page =
     map (\<lambda>i. slab_get_element parent page (word_of_nat i)) [0..<unat (num_elements parent)]"

definition free_page :: "slab_parent_pool \<Rightarrow> ptr \<Rightarrow> slab_heap \<Rightarrow> slab_heap" where
  "free_page parent page h =
     h\<lparr>elts := (\<lambda>e. if e \<in> set (page_elements parent page) then None else elts h e),
       page_hdrs := (page_hdrs h)(page := None)\<rparr>"

section \<open>Pools\<close>

definition slab_free_orphaned :: "slab_parent_pool \<Rightarrow> slab_heap \<Rightarrow> ptr \<Rightarrow> c_error + slab_heap" where
  "slab_free_orphaned parent h elt =
     bind_result (read_elt h elt) (\<lambda>x.
       if owner x AND 1 = 0 then Inl Assertion
       else let page = owner x AND NOT 1
            in case page_hdrs h page of
                 Some (Num_remaining n) \<Rightarrow>
                   if n - 1 = 0 then Inr (free_page parent page h)
                   else Inr (set_page page (Num_remaining (n - 1)) h)
               | _ \<Rightarrow> Inl Bad_access)"

definition slab_create_parent :: "u32 \<Rightarrow> u32 \<Rightarrow> slab_parent_pool" where
  "slab_create_parent item_size num_items =
     \<lparr>element_size = ucast ((elt_header_size + ucast item_size + 8 - 1) AND NOT (8 - 1) :: u64),
      num_elements = num_items\<rparr>"

definition slab_create_child :: "slab_heap \<Rightarrow> ptr \<Rightarrow> ptr \<Rightarrow> slab_heap" where
  "slab_create_child h pool parent =
     set_pool pool \<lparr>pool_parent = parent, pool_pages = NULL, pool_free = NULL, pool_migrated = NULL\<rparr> h"

text \<open>A loop of atomic turns: a turn returns \<open>False\<close> when the loop condition fails. \<open>None\<close> is a loop
  that does not end.\<close>

partial_function (option) run_loop ::
  "(slab_heap \<Rightarrow> c_error + bool \<times> slab_heap) \<Rightarrow> slab_heap \<Rightarrow> (c_error + slab_heap) option" where
  "run_loop turn h =
     (case turn h of
        Inl e \<Rightarrow> Some (Inl e)
      | Inr (again, h') \<Rightarrow> if again then run_loop turn h' else Some (Inr h'))"

text \<open>The \<^verbatim>\<open>for\<close> loop that hands the elements of a page over to the page.\<close>

fun orphan_elements :: "slab_parent_pool \<Rightarrow> ptr \<Rightarrow> nat \<Rightarrow> nat \<Rightarrow> slab_heap \<Rightarrow> c_error + slab_heap" where
  "orphan_elements parent page i 0 h = Inr h"
| "orphan_elements parent page i (Suc k) h =
     (let elt = slab_get_element parent page (word_of_nat i)
      in bind_result (read_elt h elt) (\<lambda>x.
           orphan_elements parent page (Suc i) k (set_elt elt (x\<lparr>owner := page OR 1\<rparr>) h)))"

text \<open>One turn of each loop of \<^verbatim>\<open>slab_destroy_child\<close>: over the pages, the migrated and the free
  elements.\<close>

definition destroy_page :: "slab_parent_pool \<Rightarrow> ptr \<Rightarrow> slab_heap \<Rightarrow> c_error + bool \<times> slab_heap" where
  "destroy_page parent pool h =
     bind_result (read_pool h pool) (\<lambda>q.
       if pool_pages q = NULL then Inr (False, h)
       else let page = pool_pages q
            in case page_hdrs h page of
                 Some (Next nxt) \<Rightarrow>
                   bind_result
                     (orphan_elements parent page 0 (unat (num_elements parent))
                        (set_page page (Num_remaining (num_elements parent))
                           (set_pool pool (q\<lparr>pool_pages := nxt\<rparr>) h)))
                     (\<lambda>h'. Inr (True, h'))
               | _ \<Rightarrow> Inl Bad_access)"

definition destroy_migrated :: "slab_parent_pool \<Rightarrow> ptr \<Rightarrow> slab_heap \<Rightarrow> c_error + bool \<times> slab_heap" where
  "destroy_migrated parent pool h =
     bind_result (read_pool h pool) (\<lambda>q.
       if pool_migrated q = NULL then Inr (False, h)
       else let elt = pool_migrated q
            in bind_result (read_elt h elt) (\<lambda>x.
                 bind_result (slab_free_orphaned parent (set_pool pool (q\<lparr>pool_migrated := elt_next x\<rparr>) h) elt)
                   (\<lambda>h'. Inr (True, h'))))"

definition destroy_free :: "slab_parent_pool \<Rightarrow> ptr \<Rightarrow> slab_heap \<Rightarrow> c_error + bool \<times> slab_heap" where
  "destroy_free parent pool h =
     bind_result (read_pool h pool) (\<lambda>q.
       if pool_free q = NULL then Inr (False, h)
       else let elt = pool_free q
            in bind_result (read_elt h elt) (\<lambda>x.
                 bind_result (slab_free_orphaned parent (set_pool pool (q\<lparr>pool_free := elt_next x\<rparr>) h) elt)
                   (\<lambda>h'. Inr (True, h'))))"

text \<open>
  The calls are run by one thread while the others stand still. \<open>locked\<close> says that another thread holds
  the mutex of the parent; then \<^verbatim>\<open>mtx_lock\<close> does not return, which is \<open>None\<close>. Where the mutex is free it is
  released again before the call returns.
\<close>

definition under_mutex :: "bool \<Rightarrow> 'a option \<Rightarrow> 'a option" where
  "under_mutex locked section = (if locked then None else section)"

text \<open>The part of \<^verbatim>\<open>slab_destroy_child\<close> under the mutex.\<close>

definition destroy_locked :: "slab_parent_pool \<Rightarrow> slab_heap \<Rightarrow> ptr \<Rightarrow> (c_error + slab_heap) option" where
  "destroy_locked parent h pool =
     Option.bind (run_loop (destroy_page parent pool) h) (\<lambda>r. case r of
         Inl e \<Rightarrow> Some (Inl e)
       | Inr h' \<Rightarrow> run_loop (destroy_migrated parent pool) h')"

definition slab_destroy_child :: "bool \<Rightarrow> slab_parent_pool \<Rightarrow> slab_heap \<Rightarrow> ptr \<Rightarrow> (c_error + slab_heap) option" where
  "slab_destroy_child locked parent h pool =
     (case read_pool h pool of
        Inl e \<Rightarrow> Some (Inl e)
      | Inr q \<Rightarrow>
          if pool_parent q = NULL then Some (Inr h)
          else Option.bind (under_mutex locked (destroy_locked parent h pool)) (\<lambda>r. case r of
                   Inl e \<Rightarrow> Some (Inl e)
                 | Inr h' \<Rightarrow> Option.bind (run_loop (destroy_free parent pool) h') (\<lambda>r. case r of
                       Inl e \<Rightarrow> Some (Inl e)
                     | Inr h'' \<Rightarrow> Some (bind_result (read_pool h'' pool) (\<lambda>q.
                         Inr (set_pool pool (q\<lparr>pool_parent := NULL\<rparr>) h''))))))"

text \<open>The loop over the elements of a new page. The elements come into being with their first
  write.\<close>

fun add_elements :: "slab_parent_pool \<Rightarrow> ptr \<Rightarrow> ptr \<Rightarrow> nat \<Rightarrow> nat \<Rightarrow> slab_heap \<Rightarrow> c_error + slab_heap" where
  "add_elements parent pool page i 0 h = Inr h"
| "add_elements parent pool page i (Suc k) h =
     (let elt = slab_get_element parent page (word_of_nat i)
      in if pool AND 1 \<noteq> 0 then Inl Assertion
         else bind_result (read_pool h pool) (\<lambda>q.
           add_elements parent pool page (Suc i) k
             (set_pool pool (q\<lparr>pool_free := elt\<rparr>)
                (set_elt elt \<lparr>elt_next = pool_free q, owner = pool, magic = SLAB_MAGIC_FREE\<rparr> h))))"

text \<open>The size that is asked of \<^verbatim>\<open>malloc\<close>: the product has 32 bits, the sum 64.\<close>

definition slab_page_bytes :: "slab_parent_pool \<Rightarrow> u64" where
  "slab_page_bytes parent = page_header_size + ucast (num_elements parent * element_size parent)"

text \<open>The argument \<open>page\<close> is what \<^verbatim>\<open>malloc (slab_page_bytes parent)\<close> returns.\<close>

definition slab_add_new_page :: "slab_parent_pool \<Rightarrow> slab_heap \<Rightarrow> ptr \<Rightarrow> ptr \<Rightarrow> c_error + bool \<times> slab_heap" where
  "slab_add_new_page parent h pool page =
     (if page = NULL then Inr (False, h)
      else bind_result (add_elements parent pool page 0 (unat (num_elements parent)) h) (\<lambda>h.
             bind_result (read_pool h pool) (\<lambda>q.
               Inr (True, set_pool pool (q\<lparr>pool_pages := page\<rparr>) (set_page page (Next (pool_pages q)) h)))))"

text \<open>The first part of \<^verbatim>\<open>slab_alloc\<close> makes sure that the free list is not empty; the result is
  \<open>False\<close> when no page can be had.\<close>

definition slab_refill :: "slab_parent_pool \<Rightarrow> slab_heap \<Rightarrow> ptr \<Rightarrow> ptr \<Rightarrow> c_error + bool \<times> slab_heap" where
  "slab_refill parent h pool page =
     bind_result (read_pool h pool) (\<lambda>q.
       if pool_free q \<noteq> NULL then Inr (True, h)
       else let h = set_pool pool (q\<lparr>pool_free := pool_migrated q, pool_migrated := NULL\<rparr>) h
            in if pool_migrated q \<noteq> NULL then Inr (True, h)
               else slab_add_new_page parent h pool page)"

definition slab_take :: "slab_heap \<Rightarrow> ptr \<Rightarrow> c_error + ptr \<times> slab_heap" where
  "slab_take h pool =
     bind_result (read_pool h pool) (\<lambda>q.
       let elt = pool_free q
       in bind_result (read_elt h elt) (\<lambda>x.
            if magic x \<noteq> SLAB_MAGIC_FREE then Inl Assertion
            else Inr (elt + elt_header_size,
                      set_elt elt (x\<lparr>magic := SLAB_MAGIC_ALLOCATED\<rparr>)
                        (set_pool pool (q\<lparr>pool_free := elt_next x\<rparr>) h))))"

definition slab_alloc :: "bool \<Rightarrow> slab_parent_pool \<Rightarrow> slab_heap \<Rightarrow> ptr \<Rightarrow> ptr \<Rightarrow> (c_error + ptr \<times> slab_heap) option" where
  "slab_alloc locked parent h pool page =
     (case read_pool h pool of
        Inl e \<Rightarrow> Some (Inl e)
      | Inr q \<Rightarrow>
          if pool_free q \<noteq> NULL then Some (slab_take h pool)
          else under_mutex locked (Some (bind_result (slab_refill parent h pool page) (\<lambda>(ok, h).
                 if ok then slab_take h pool else Inr (NULL, h)))))"

text \<open>The part of \<^verbatim>\<open>slab_free\<close> before the mutex is taken; \<open>True\<close> when it returns there.\<close>

definition slab_free_begin :: "slab_heap \<Rightarrow> ptr \<Rightarrow> ptr \<Rightarrow> c_error + bool \<times> slab_heap" where
  "slab_free_begin h pool p =
     (let elt = p - elt_header_size
      in bind_result (read_elt h elt) (\<lambda>x.
           if magic x \<noteq> SLAB_MAGIC_ALLOCATED then Inl Assertion
           else let x = x\<lparr>magic := SLAB_MAGIC_FREE\<rparr>
                in if owner x = pool
                   then bind_result (read_pool h pool) (\<lambda>q.
                          Inr (True, set_pool pool (q\<lparr>pool_free := elt\<rparr>)
                                       (set_elt elt (x\<lparr>elt_next := pool_free q\<rparr>) h)))
                   else Inr (False, set_elt elt x h)))"

text \<open>The part under the mutex; \<open>False\<close> when the element belongs to an orphaned page.\<close>

definition slab_free_locked :: "slab_heap \<Rightarrow> ptr \<Rightarrow> c_error + bool \<times> slab_heap" where
  "slab_free_locked h elt =
     bind_result (read_elt h elt) (\<lambda>x.
       if owner x AND 1 = 0
       then bind_result (read_pool h (owner x)) (\<lambda>q.
              Inr (True, set_pool (owner x) (q\<lparr>pool_migrated := elt\<rparr>)
                           (set_elt elt (x\<lparr>elt_next := pool_migrated q\<rparr>) h)))
       else Inr (False, h))"

definition slab_free :: "bool \<Rightarrow> slab_parent_pool \<Rightarrow> slab_heap \<Rightarrow> ptr \<Rightarrow> ptr \<Rightarrow> (c_error + slab_heap) option" where
  "slab_free locked parent h pool p =
     (case slab_free_begin h pool p of
        Inl e \<Rightarrow> Some (Inl e)
      | Inr (True, h) \<Rightarrow> Some (Inr h)
      | Inr (False, h) \<Rightarrow>
          under_mutex locked (Some (bind_result (slab_free_locked h (p - elt_header_size)) (\<lambda>(finished, h).
            if finished then Inr h else slab_free_orphaned parent h (p - elt_header_size)))))"

section \<open>Single-threaded pools\<close>

text \<open>Nobody else knows the parent of such a pool, so its mutex is free.\<close>

record slab_mempool =
  mempool_parent :: slab_parent_pool
  mempool_child :: ptr

definition slab_create :: "slab_heap \<Rightarrow> ptr \<Rightarrow> ptr \<Rightarrow> u32 \<Rightarrow> u32 \<Rightarrow> slab_mempool \<times> slab_heap" where
  "slab_create h child parent item_size num_items =
     (\<lparr>mempool_parent = slab_create_parent item_size num_items, mempool_child = child\<rparr>,
      slab_create_child h child parent)"

definition slab_destroy :: "slab_heap \<Rightarrow> slab_mempool \<Rightarrow> (c_error + slab_heap) option" where
  "slab_destroy h mempool = slab_destroy_child False (mempool_parent mempool) h (mempool_child mempool)"

definition slab_alloc_st :: "slab_heap \<Rightarrow> slab_mempool \<Rightarrow> ptr \<Rightarrow> (c_error + ptr \<times> slab_heap) option" where
  "slab_alloc_st h mempool page = slab_alloc False (mempool_parent mempool) h (mempool_child mempool) page"

definition slab_free_st :: "slab_heap \<Rightarrow> slab_mempool \<Rightarrow> ptr \<Rightarrow> (c_error + slab_heap) option" where
  "slab_free_st h mempool p = slab_free False (mempool_parent mempool) h (mempool_child mempool) p"

section \<open>Geometry of pages\<close>

text \<open>At least one element, elements of at least the size of a header, and a page size that the
  32-bit product does not wrap.\<close>

definition parent_ok :: "slab_parent_pool \<Rightarrow> bool" where
  "parent_ok par \<longleftrightarrow> 0 < num_elements par \<and> 24 \<le> unat (element_size par) \<and>
     unat (element_size par) * unat (num_elements par) < 2 ^ 32"

abbreviation page_size :: "slab_parent_pool \<Rightarrow> nat" where
  "page_size par \<equiv> 8 + unat (element_size par) * unat (num_elements par)"

lemma slab_page_bytes_eq: "parent_ok par \<Longrightarrow> unat (slab_page_bytes par) = page_size par"
proof -
  assume par: "parent_ok par"
  then have p: "unat (element_size par) * unat (num_elements par) < 2 ^ 32" by (simp add: parent_ok_def)
  then have "unat (num_elements par * element_size par) = unat (element_size par) * unat (num_elements par)"
    by (subst unat_mult_no_wrap) (simp_all add: mult.commute)
  then have "unat (ucast (num_elements par * element_size par) :: u64) = unat (element_size par) * unat (num_elements par)"
    using p by (simp add: unat_ucast_eq)
  then show ?thesis
    using p unfolding slab_page_bytes_def by (subst unat_add_no_wrap) simp_all
qed

text \<open>Beyond that, the page asked for is smaller than its elements.\<close>

lemma slab_page_bytes_wraps:
  "slab_page_bytes \<lparr>element_size = 65536, num_elements = 65537\<rparr> = 65544"
  by (simp add: slab_page_bytes_def)

definition page_block :: "slab_parent_pool \<Rightarrow> ptr \<Rightarrow> nat set" where
  "page_block par pg = {unat pg..<unat pg + page_size par}"

text \<open>What \<^verbatim>\<open>malloc\<close> promises of a block: it is aligned and lies inside the address space, and it does
  not overlap a block in use.\<close>

definition page_ok :: "slab_parent_pool \<Rightarrow> ptr \<Rightarrow> bool" where
  "page_ok par pg \<longleftrightarrow> pg \<noteq> NULL \<and> \<not> bit pg 0 \<and> unat pg + page_size par < 2 ^ 64"

definition malloc_ok :: "slab_parent_pool \<Rightarrow> slab_heap \<Rightarrow> ptr \<Rightarrow> bool" where
  "malloc_ok par h pg \<longleftrightarrow> page_ok par pg \<and>
     (\<forall>pg'\<in>dom (page_hdrs h). page_block par pg \<inter> page_block par pg' = {})"

abbreviation elements :: "slab_parent_pool \<Rightarrow> ptr \<Rightarrow> ptr set" where
  "elements par pg \<equiv> set (page_elements par pg)"

lemma unat_slab_get_element:
  assumes "parent_ok par" "page_ok par pg" "i < unat (num_elements par)"
  shows "unat (slab_get_element par pg (word_of_nat i)) = unat pg + 8 + unat (element_size par) * i"
proof -
  let ?s = "unat (element_size par)" and ?n = "unat (num_elements par)"
  have i: "unat (word_of_nat i :: u32) = i"
    using assms(3) unat_lt2p [of "num_elements par"] by (simp add: unat_of_nat)
  have "?s * i \<le> ?s * ?n" using assms(3) by simp
  moreover have "?s * ?n < 2 ^ 32" "unat pg + (8 + ?s * ?n) < 2 ^ 64"
    using assms(1,2) by (simp_all add: parent_ok_def page_ok_def)
  ultimately have lt: "?s * i < 2 ^ 32" "unat pg + 8 + ?s * i < 2 ^ 64" by linarith+
  have m: "unat (element_size par * word_of_nat i) = ?s * i"
    using lt(1) i by (subst unat_mult_no_wrap) simp_all
  then have c: "unat (ucast (element_size par * word_of_nat i) :: u64) = ?s * i"
    using lt(1) by (simp add: unat_ucast_eq)
  have p: "unat (pg + 8) = unat pg + 8" using lt(2) by (subst unat_add_no_wrap) simp_all
  show ?thesis unfolding slab_get_element_def
    using lt(2) by (subst unat_add_no_wrap) (simp_all add: p c)
qed

lemma elements_in_block:
  assumes "parent_ok par" "page_ok par pg" "e \<in> elements par pg"
  shows "unat e \<in> page_block par pg" "e \<noteq> NULL"
proof -
  obtain i where i: "i < unat (num_elements par)" "e = slab_get_element par pg (word_of_nat i)"
    using assms(3) by (auto simp: page_elements_def)
  have "unat (element_size par) * i < unat (element_size par) * unat (num_elements par)"
    using i(1) assms(1) by (simp add: parent_ok_def)
  then show "unat e \<in> page_block par pg" "e \<noteq> NULL"
    using unat_slab_get_element [OF assms(1,2) i(1)] i(2) by (auto simp: page_block_def)
qed

lemma distinct_page_elements:
  assumes "parent_ok par" "page_ok par pg"
  shows "distinct (page_elements par pg)"
  unfolding page_elements_def distinct_map
proof (intro conjI inj_onI)
  fix i j assume ij: "i \<in> set [0..<unat (num_elements par)]" "j \<in> set [0..<unat (num_elements par)]"
    and eq: "slab_get_element par pg (word_of_nat i) = slab_get_element par pg (word_of_nat j)"
  have "unat pg + 8 + unat (element_size par) * i = unat pg + 8 + unat (element_size par) * j"
  proof -
    have "i < unat (num_elements par)" "j < unat (num_elements par)" using ij by simp_all
    from this [THEN unat_slab_get_element [OF assms]] show ?thesis unfolding eq by linarith
  qed
  then have "unat (element_size par) * i = unat (element_size par) * j" by linarith
  moreover have "0 < unat (element_size par)" using assms(1) unfolding parent_ok_def by linarith
  ultimately show "i = j" using mult_cancel1 [of "unat (element_size par)" i j] by linarith
qed simp

lemma length_page_elements [simp]: "length (page_elements par pg) = unat (num_elements par)"
  by (simp add: page_elements_def)

lemma card_elements: "parent_ok par \<Longrightarrow> page_ok par pg \<Longrightarrow> card (elements par pg) = unat (num_elements par)"
  by (simp add: distinct_card distinct_page_elements)

lemma elements_nonempty: "parent_ok par \<Longrightarrow> elements par pg \<noteq> {}"
  by (auto simp: page_elements_def parent_ok_def unat_gt_0)

section \<open>Linked lists\<close>

primrec linked :: "(ptr \<Rightarrow> slab_element_header option) \<Rightarrow> ptr \<Rightarrow> ptr list \<Rightarrow> bool" where
  "linked m x [] \<longleftrightarrow> x = NULL"
| "linked m x (e # es) \<longleftrightarrow> x = e \<and> e \<noteq> NULL \<and> (\<exists>y. m e = Some y \<and> linked m (elt_next y) es)"

primrec chained :: "(ptr \<Rightarrow> slab_page_header option) \<Rightarrow> ptr \<Rightarrow> ptr list \<Rightarrow> bool" where
  "chained m x [] \<longleftrightarrow> x = NULL"
| "chained m x (pg # pgs) \<longleftrightarrow> x = pg \<and> pg \<noteq> NULL \<and> (\<exists>nxt. m pg = Some (Next nxt) \<and> chained m nxt pgs)"

lemma linked_NULL: "linked m x es \<Longrightarrow> x = NULL \<longleftrightarrow> es = []"
  by (cases es) auto

lemma chained_NULL: "chained m x pgs \<Longrightarrow> x = NULL \<longleftrightarrow> pgs = []"
  by (cases pgs) auto

lemma linked_cong:
  "\<forall>e\<in>set es. map_option elt_next (m' e) = map_option elt_next (m e) \<Longrightarrow> linked m' x es \<longleftrightarrow> linked m x es"
proof (induction es arbitrary: x)
  case (Cons e es)
  then have "map_option elt_next (m' e) = map_option elt_next (m e)" by simp
  with Cons show ?case by (cases "m' e"; cases "m e") auto
qed simp

lemma chained_cong: "\<forall>pg\<in>set pgs. m' pg = m pg \<Longrightarrow> chained m' x pgs \<longleftrightarrow> chained m x pgs"
  by (induction pgs arbitrary: x) auto

lemma chained_Next: "chained m x pgs \<Longrightarrow> pg \<in> set pgs \<Longrightarrow> \<exists>nxt. m pg = Some (Next nxt)"
  by (induction pgs arbitrary: x) auto

section \<open>The invariant\<close>

text \<open>Where an element is: in the free or the migrated list of a pool, in the hands of a client, on
  its way through a function, taken out of an orphaned page for good, or given back to it.\<close>

datatype place = InFree ptr | InMig ptr | Held | Pending | Orphaning | Gone

definition memory_inv :: "slab_parent_pool \<Rightarrow> slab_heap \<Rightarrow> bool" where
  "memory_inv par h \<longleftrightarrow> (\<forall>pg\<in>dom (page_hdrs h). page_ok par pg) \<and>
     (\<forall>pg\<in>dom (page_hdrs h). \<forall>pg'\<in>dom (page_hdrs h). pg \<noteq> pg' \<longrightarrow> page_block par pg \<inter> page_block par pg' = {}) \<and>
     dom (elts h) = (\<Union>pg\<in>dom (page_hdrs h). elements par pg) \<and>
     (\<forall>p\<in>dom (pools h). p \<noteq> NULL \<and> \<not> bit p 0)"

fun elt_ok :: "slab_element_header option \<Rightarrow> place \<Rightarrow> bool" where
  "elt_ok None s \<longleftrightarrow> s = Gone"
| "elt_ok (Some x) s \<longleftrightarrow> (s = Held \<longrightarrow> magic x = SLAB_MAGIC_ALLOCATED) \<and>
     (s = Pending \<or> (\<exists>p. s = InFree p \<or> s = InMig p) \<longrightarrow> magic x = SLAB_MAGIC_FREE)"

definition place_inv :: "slab_heap \<Rightarrow> (ptr \<Rightarrow> place) \<Rightarrow> bool" where
  "place_inv h st \<longleftrightarrow> (\<forall>e. elt_ok (elts h e) (st e))"

definition orphan_inv :: "slab_parent_pool \<Rightarrow> ptr set \<Rightarrow> slab_heap \<Rightarrow> (ptr \<Rightarrow> place) \<Rightarrow> bool" where
  "orphan_inv par dying h st \<longleftrightarrow> (\<forall>pg r. page_hdrs h pg = Some (Num_remaining r) \<longrightarrow>
     0 < r \<and> unat r = card {e \<in> elements par pg. st e \<noteq> Gone} \<and>
     (\<forall>e\<in>elements par pg. (\<exists>x. elts h e = Some x \<and> owner x = pg OR 1) \<and>
        (\<forall>p. st e = InFree p \<or> st e = InMig p \<longrightarrow> p \<in> dying)))"

definition pool_inv ::
  "slab_parent_pool \<Rightarrow> slab_heap \<Rightarrow> (ptr \<Rightarrow> place) \<Rightarrow> ptr list \<Rightarrow> ptr list \<Rightarrow> ptr list \<Rightarrow> ptr \<Rightarrow> slab_child_pool \<Rightarrow> bool"
where
  "pool_inv par h st fl ml pl p q \<longleftrightarrow>
     linked (elts h) (pool_free q) fl \<and> distinct fl \<and> set fl = {e. st e = InFree p} \<and>
     linked (elts h) (pool_migrated q) ml \<and> distinct ml \<and> set ml = {e. st e = InMig p} \<and>
     chained (page_hdrs h) (pool_pages q) pl \<and> distinct pl \<and>
     (\<forall>pg\<in>set pl. \<forall>e\<in>elements par pg. (\<exists>x. elts h e = Some x \<and> owner x = p) \<and>
        st e \<in> {InFree p, InMig p, Held, Pending})"

definition slab_inv :: "slab_parent_pool \<Rightarrow> ptr set \<Rightarrow> slab_heap \<Rightarrow> (ptr \<Rightarrow> place) \<Rightarrow>
    (ptr \<Rightarrow> ptr list) \<Rightarrow> (ptr \<Rightarrow> ptr list) \<Rightarrow> (ptr \<Rightarrow> ptr list) \<Rightarrow> bool" where
  "slab_inv par dying h st FL MG PL \<longleftrightarrow> memory_inv par h \<and> place_inv h st \<and> orphan_inv par dying h st \<and>
     (\<forall>p q. pools h p = Some q \<longrightarrow> pool_inv par h st (FL p) (MG p) (PL p) p q) \<and>
     (\<forall>pg nxt. page_hdrs h pg = Some (Next nxt) \<longrightarrow> (\<exists>p\<in>dom (pools h). pg \<in> set (PL p))) \<and>
     dying \<subseteq> dom (pools h)"

lemma slab_invI:
  assumes "memory_inv par h" "place_inv h st" "orphan_inv par dying h st"
    "\<And>p q. pools h p = Some q \<Longrightarrow> pool_inv par h st (FL p) (MG p) (PL p) p q"
    "\<And>pg nxt. page_hdrs h pg = Some (Next nxt) \<Longrightarrow> \<exists>p\<in>dom (pools h). pg \<in> set (PL p)"
    "dying \<subseteq> dom (pools h)"
  shows "slab_inv par dying h st FL MG PL"
  using assms by (simp add: slab_inv_def)

lemma slab_invD:
  assumes "slab_inv par dying h st FL MG PL"
  shows "memory_inv par h" "place_inv h st" "orphan_inv par dying h st"
    "pools h p = Some q \<Longrightarrow> pool_inv par h st (FL p) (MG p) (PL p) p q"
    "page_hdrs h pg = Some (Next nxt) \<Longrightarrow> \<exists>p\<in>dom (pools h). pg \<in> set (PL p)"
    "dying \<subseteq> dom (pools h)"
  using assms by (simp_all add: slab_inv_def)

lemma pool_invD:
  assumes "pool_inv par h st fl ml pl p q"
  shows "linked (elts h) (pool_free q) fl" "distinct fl" "set fl = {e. st e = InFree p}"
    "linked (elts h) (pool_migrated q) ml" "distinct ml" "set ml = {e. st e = InMig p}"
    "chained (page_hdrs h) (pool_pages q) pl" "distinct pl"
    "pg \<in> set pl \<Longrightarrow> e \<in> elements par pg \<Longrightarrow> \<exists>x. elts h e = Some x \<and> owner x = p"
    "pg \<in> set pl \<Longrightarrow> e \<in> elements par pg \<Longrightarrow> st e \<in> {InFree p, InMig p, Held, Pending}"
  using assms by (auto simp: pool_inv_def)

lemma orphan_invD:
  assumes "orphan_inv par dying h st" "page_hdrs h pg = Some (Num_remaining r)"
  shows "0 < r" "unat r = card {e \<in> elements par pg. st e \<noteq> Gone}"
    "e \<in> elements par pg \<Longrightarrow> \<exists>x. elts h e = Some x \<and> owner x = pg OR 1"
    "e \<in> elements par pg \<Longrightarrow> st e = InFree p \<or> st e = InMig p \<Longrightarrow> p \<in> dying"
  using assms by (auto simp: orphan_inv_def)

text \<open>Every element in use lies in exactly one page.\<close>

lemma page_of_element:
  assumes "memory_inv par h" "elts h e = Some x"
  obtains pg hdr where "page_hdrs h pg = Some hdr" "e \<in> elements par pg"
proof -
  have "e \<in> (\<Union>pg\<in>dom (page_hdrs h). elements par pg)"
    using assms unfolding memory_inv_def by blast
  then show thesis using that by auto
qed

lemma elements_disjoint:
  assumes "memory_inv par h" "parent_ok par" "page_hdrs h pg = Some hdr" "page_hdrs h pg' = Some hdr'"
    "e \<in> elements par pg" "e \<in> elements par pg'"
  shows "pg = pg'"
proof (rule ccontr)
  assume ne: "pg \<noteq> pg'"
  have ok: "page_ok par pg" "page_ok par pg'" using assms(1,3,4) by (auto simp: memory_inv_def)
  have "unat e \<in> page_block par pg \<inter> page_block par pg'"
    using elements_in_block(1) [OF assms(2) ok(1) assms(5)] elements_in_block(1) [OF assms(2) ok(2) assms(6)] by simp
  moreover have "page_block par pg \<inter> page_block par pg' = {}"
    using assms(1,3,4) ne by (auto simp: memory_inv_def)
  ultimately show False by simp
qed

end
