(* ===== verification/Slab_Invariant.thy ===== *)
theory Slab_Invariant
  imports Slab
begin

text \<open>
  The slab allocator keeps its invariant: the atomic parts of its functions, and then every
  interleaving of them by any number of threads. No function fails an assertion or touches
  memory outside a live page, no element is handed out twice, and pages are given back when
  their last element is.
\<close>

section \<open>Owners\<close>

lemma and_1_eq_0: "(w :: u64) AND 1 = 0 \<longleftrightarrow> \<not> bit w 0"
  by (simp add: and_one_eq even_iff_mod_2_eq_zero [symmetric] bit_0)

lemma bit_or_1 [simp]: "bit (w OR 1 :: u64) 0"
  by (simp add: bit_or_iff)

lemma or_1_and_not_1: "\<not> bit w 0 \<Longrightarrow> (w OR 1) AND NOT 1 = (w :: u64)"
  by (rule bit_word_eqI) (auto simp: bit_simps intro: gr0I)

lemma map_option_dom: "(\<And>e. map_option f (m' e) = map_option f (m e)) \<Longrightarrow> dom m' = dom m"
  by (auto simp: dom_def) (metis map_option_eq_Some)+

lemma pool_even: "slab_inv par dying h st FL MG PL \<Longrightarrow> pools h p = Some q \<Longrightarrow> \<not> bit p 0 \<and> p \<noteq> NULL"
  by (auto simp: slab_inv_def memory_inv_def)

text \<open>The owner tells the kind of page an element lies in.\<close>

lemma owner_cases:
  assumes inv: "slab_inv par dying h st FL MG PL" and x: "elts h e = Some x"
  obtains (owned) pg q where "\<not> bit (owner x) 0" "pools h (owner x) = Some q" "pg \<in> set (PL (owner x))" "e \<in> elements par pg"
  | (orphaned) pg r where "bit (owner x) 0" "owner x = pg OR 1" "page_hdrs h pg = Some (Num_remaining r)" "e \<in> elements par pg"
proof -
  obtain pg hdr where pg: "page_hdrs h pg = Some hdr" "e \<in> elements par pg"
    using page_of_element [OF slab_invD(1) [OF inv] x] .
  show thesis
  proof (cases hdr)
    case (Next nxt)
    then obtain p where p: "p \<in> dom (pools h)" "pg \<in> set (PL p)" using slab_invD(5) [OF inv] pg(1) by blast
    then obtain q where q: "pools h p = Some q" by blast
    have "owner x = p" using pool_invD(9) [OF slab_invD(4) [OF inv q] p(2) pg(2)] x by simp
    with owned p(2) pg(2) q pool_even [OF inv q] show thesis by blast
  next
    case (Num_remaining r)
    then have "owner x = pg OR 1" using orphan_invD(3) [OF slab_invD(3) [OF inv] _ pg(2)] pg(1) x by simp
    with orphaned pg Num_remaining show thesis by simp
  qed
qed

lemma not_Gone: "slab_inv par dying h st FL MG PL \<Longrightarrow> st e \<noteq> Gone \<Longrightarrow> \<exists>x. elts h e = Some x"
  by (cases "elts h e") (auto simp: slab_inv_def place_inv_def dest: spec [of _ e])

section \<open>Moving elements\<close>

text \<open>
  Elements move between places while pages and owners stay: the invariant is kept if the lists
  of every pool are, and an element enters a list of a pool only from a page of that pool.
\<close>

lemma slab_inv_relink:
  assumes inv: "slab_inv par dying h st FL MG PL"
    and pages: "page_hdrs h' = page_hdrs h"
    and owners: "\<And>e. map_option owner (elts h' e) = map_option owner (elts h e)"
    and pool_pages: "\<And>p. map_option pool_pages (pools h' p) = map_option pool_pages (pools h p)"
    and gone: "\<And>e. st' e = Gone \<longleftrightarrow> st e = Gone"
    and enter: "\<And>e p. st' e = InFree p \<or> st' e = InMig p \<Longrightarrow>
      st e = InFree p \<or> st e = InMig p \<or> (\<exists>x. elts h e = Some x \<and> owner x = p \<and> p \<in> dom (pools h))"
    and orphaning: "\<And>e. st' e = Orphaning \<Longrightarrow> st e = Orphaning \<or> (\<exists>x. elts h e = Some x \<and> bit (owner x) 0)"
    and place: "place_inv h' st'"
    and free: "\<And>p q. pools h' p = Some q \<Longrightarrow>
      linked (elts h') (pool_free q) (FL' p) \<and> distinct (FL' p) \<and> set (FL' p) = {e. st' e = InFree p}"
    and mig: "\<And>p q. pools h' p = Some q \<Longrightarrow>
      linked (elts h') (pool_migrated q) (MG' p) \<and> distinct (MG' p) \<and> set (MG' p) = {e. st' e = InMig p}"
  shows "slab_inv par dying h' st' FL' MG' PL"
proof -
  have dom_e: "dom (elts h') = dom (elts h)"
    by (rule map_option_dom [OF owners])
  have dom_p: "dom (pools h') = dom (pools h)"
    by (rule map_option_dom [OF pool_pages])
  have own: "\<exists>x'. elts h' e = Some x' \<and> owner x' = owner x" if "elts h e = Some x" for e x
    using owners [of e] that by auto
  show ?thesis
  proof (rule slab_invI)
    show "memory_inv par h'"
      using slab_invD(1) [OF inv] by (simp add: memory_inv_def pages dom_e dom_p)
    show "place_inv h' st'" by (rule place)
    show "dying \<subseteq> dom (pools h')" using slab_invD(6) [OF inv] dom_p by simp
    show "\<exists>p\<in>dom (pools h'). pg \<in> set (PL p)" if "page_hdrs h' pg = Some (Next nxt)" for pg nxt
      using slab_invD(5) [OF inv] that by (simp add: pages dom_p)
    show "orphan_inv par dying h' st'"
      unfolding orphan_inv_def
    proof (intro allI impI)
      fix pg r assume "page_hdrs h' pg = Some (Num_remaining r)"
      then have hdr: "page_hdrs h pg = Some (Num_remaining r)" by (simp add: pages)
      note o = orphan_invD [OF slab_invD(3) [OF inv] hdr]
      have "p \<in> dying" if e: "e \<in> elements par pg" and "st' e = InFree p \<or> st' e = InMig p" for e p
        using enter [OF that(2)]
      proof (elim disjE exE conjE)
        fix x assume x: "elts h e = Some x" "owner x = p" and "p \<in> dom (pools h)"
        then obtain q where "pools h p = Some q" by blast
        then have "\<not> bit p 0" using pool_even [OF inv] by blast
        moreover have "p = pg OR 1" using o(3) [OF e] x by simp
        ultimately show ?thesis by simp
      qed (use o(4) [OF e] in blast)+
      moreover have "\<exists>x. elts h' e = Some x \<and> owner x = pg OR 1" if "e \<in> elements par pg" for e
        using o(3) [OF that] own by fastforce
      ultimately show "0 < r \<and> unat r = card {e \<in> elements par pg. st' e \<noteq> Gone} \<and>
          (\<forall>e\<in>elements par pg. (\<exists>x. elts h' e = Some x \<and> owner x = pg OR 1) \<and>
             (\<forall>p. st' e = InFree p \<or> st' e = InMig p \<longrightarrow> p \<in> dying))"
        using o(1,2) unfolding gone by blast
    qed
    fix p q assume q: "pools h' p = Some q"
    then obtain q0 where q0: "pools h p = Some q0" "pool_pages q0 = pool_pages q"
      using pool_pages [of p] by (cases "pools h p") auto
    note P = pool_invD [OF slab_invD(4) [OF inv q0(1)]]
    have pl: "(\<exists>x. elts h' e = Some x \<and> owner x = p) \<and> st' e \<in> {InFree p, InMig p, Held, Pending}"
      if e: "pg \<in> set (PL p)" "e \<in> elements par pg" for pg e
    proof -
      obtain x where x: "elts h e = Some x" "owner x = p" using P(9) [OF e] by blast
      have "st' e \<noteq> Gone" using P(10) [OF e] gone by auto
      moreover have "st' e \<noteq> Orphaning"
        using orphaning [of e] P(10) [OF e] x pool_even [OF inv q0(1)] by auto
      moreover have "p' = p" if "st' e = InFree p' \<or> st' e = InMig p'" for p'
        using enter [OF that] P(10) [OF e] x by auto
      ultimately show ?thesis using own [OF x(1)] x(2) by (cases "st' e") auto
    qed
    then show "pool_inv par h' st' (FL' p) (MG' p) (PL p) p q"
      using free [OF q] mig [OF q] P(7,8) unfolding pool_inv_def pages q0(2) by blast
  qed
qed

text \<open>An element that is in no list may be written to, as long as its owner stays.\<close>

lemma linked_set_elt: "e \<notin> set es \<Longrightarrow> linked ((elts h)(e \<mapsto> x)) y es \<longleftrightarrow> linked (elts h) y es"
  by (rule linked_cong) auto

lemma list_elements:
  assumes "slab_inv par dying h st FL MG PL" "pools h p = Some q"
  shows "e \<in> set (FL p) \<longleftrightarrow> st e = InFree p" "e \<in> set (MG p) \<longleftrightarrow> st e = InMig p"
  using pool_invD(3,6) [OF slab_invD(4) [OF assms]] by auto

lemma place_inv_upd:
  assumes "place_inv h st" "elts h e = Some x0" "s = Held \<longrightarrow> magic x = SLAB_MAGIC_ALLOCATED"
    "s = Pending \<or> (\<exists>p. s = InFree p \<or> s = InMig p) \<longrightarrow> magic x = SLAB_MAGIC_FREE"
  shows "place_inv (set_elt e x h) (st(e := s))"
  using assms by (simp add: place_inv_def set_elt_def)

lemma place_inv_pools: "place_inv (set_pool p q h) st \<longleftrightarrow> place_inv h st"
  by (simp add: place_inv_def set_pool_def)

lemma set_elt_inv:
  assumes inv: "slab_inv par dying h st FL MG PL" and x0: "elts h e = Some x0" "owner x = owner x0"
    and st: "st e \<in> {Held, Pending}" "s \<in> {Held, Pending}" "s = Held \<longrightarrow> magic x = SLAB_MAGIC_ALLOCATED"
      "s = Pending \<longrightarrow> magic x = SLAB_MAGIC_FREE"
  shows "slab_inv par dying (set_elt e x h) (st(e := s)) FL MG PL"
proof (rule slab_inv_relink [OF inv])
  show "place_inv (set_elt e x h) (st(e := s))"
    by (rule place_inv_upd [OF slab_invD(2) [OF inv] x0(1)]) (use st in auto)
  fix p q assume "pools (set_elt e x h) p = Some q"
  then have q: "pools h p = Some q" by (simp add: set_elt_def)
  note P = pool_invD [OF slab_invD(4) [OF inv q]]
  have "e \<notin> set (FL p)" "e \<notin> set (MG p)" using list_elements [OF inv q] st(1) by auto
  then show "linked (elts (set_elt e x h)) (pool_free q) (FL p) \<and> distinct (FL p) \<and>
      set (FL p) = {a. (st(e := s)) a = InFree p}"
    "linked (elts (set_elt e x h)) (pool_migrated q) (MG p) \<and> distinct (MG p) \<and>
      set (MG p) = {a. (st(e := s)) a = InMig p}"
    using P(1-6) st by (auto simp: set_elt_def linked_set_elt)
qed (use x0 st in \<open>auto simp: set_elt_def split: if_splits\<close>)

lemma place_inv_pending:
  assumes "place_inv h st" "st e = InFree p \<or> st e = InMig p"
  shows "place_inv h (st(e := Pending))"
proof -
  have "elt_ok (elts h e) (st e)" using assms(1) by (simp add: place_inv_def)
  then have "elt_ok (elts h e) Pending" using assms(2) by (cases "elts h e") auto
  then show ?thesis using assms(1) by (simp add: place_inv_def)
qed

lemma pop_free_inv:
  assumes inv: "slab_inv par dying h st FL MG PL" and q: "pools h p = Some q" "FL p = e # es"
    and x: "elts h e = Some x"
  shows "slab_inv par dying (set_pool p (q\<lparr>pool_free := elt_next x\<rparr>) h) (st(e := Pending)) (FL(p := es)) MG PL"
proof (rule slab_inv_relink [OF inv])
  note P = pool_invD [OF slab_invD(4) [OF inv q(1)]]
  have st: "st e = InFree p" using list_elements(1) [OF inv q(1)] q(2) by auto
  show "place_inv (set_pool p (q\<lparr>pool_free := elt_next x\<rparr>) h) (st(e := Pending))"
    unfolding place_inv_pools by (rule place_inv_pending [OF slab_invD(2) [OF inv]]) (simp add: st)
  show "(st(e := Pending)) a = Gone \<longleftrightarrow> st a = Gone" for a using st by simp
  fix r r' assume "pools (set_pool p (q\<lparr>pool_free := elt_next x\<rparr>) h) r = Some r'"
  then have r: "r = p \<and> r' = q\<lparr>pool_free := elt_next x\<rparr> \<or> r \<noteq> p \<and> pools h r = Some r'"
    by (auto simp: set_pool_def split: if_splits)
  have "r \<noteq> p \<Longrightarrow> pools h r = Some r' \<Longrightarrow> e \<notin> set (FL r)" "r \<noteq> p \<Longrightarrow> pools h r = Some r' \<Longrightarrow> e \<notin> set (MG r)"
    using list_elements [OF inv] st by fastforce+
  then show "linked (elts (set_pool p (q\<lparr>pool_free := elt_next x\<rparr>) h)) (pool_free r') ((FL(p := es)) r) \<and>
      distinct ((FL(p := es)) r) \<and> set ((FL(p := es)) r) = {a. (st(e := Pending)) a = InFree r}"
    using r P(1-3) q(2) x st pool_invD(1-3) [OF slab_invD(4) [OF inv]]
    by (auto simp: set_pool_def)
  show "linked (elts (set_pool p (q\<lparr>pool_free := elt_next x\<rparr>) h)) (pool_migrated r') (MG r) \<and>
      distinct (MG r) \<and> set (MG r) = {a. (st(e := Pending)) a = InMig r}"
    using r P(4-6) st pool_invD(4-6) [OF slab_invD(4) [OF inv]] by (auto simp: set_pool_def)
qed (use q in \<open>auto simp: set_pool_def split: if_splits\<close>)

lemma pop_migrated_inv:
  assumes inv: "slab_inv par dying h st FL MG PL" and q: "pools h p = Some q" "MG p = e # es"
    and x: "elts h e = Some x"
  shows "slab_inv par dying (set_pool p (q\<lparr>pool_migrated := elt_next x\<rparr>) h) (st(e := Pending)) FL (MG(p := es)) PL"
proof (rule slab_inv_relink [OF inv])
  note P = pool_invD [OF slab_invD(4) [OF inv q(1)]]
  have st: "st e = InMig p" using list_elements(2) [OF inv q(1)] q(2) by auto
  show "place_inv (set_pool p (q\<lparr>pool_migrated := elt_next x\<rparr>) h) (st(e := Pending))"
    unfolding place_inv_pools by (rule place_inv_pending [OF slab_invD(2) [OF inv]]) (simp add: st)
  show "(st(e := Pending)) a = Gone \<longleftrightarrow> st a = Gone" for a using st by simp
  fix r r' assume "pools (set_pool p (q\<lparr>pool_migrated := elt_next x\<rparr>) h) r = Some r'"
  then have r: "r = p \<and> r' = q\<lparr>pool_migrated := elt_next x\<rparr> \<or> r \<noteq> p \<and> pools h r = Some r'"
    by (auto simp: set_pool_def split: if_splits)
  have "r \<noteq> p \<Longrightarrow> pools h r = Some r' \<Longrightarrow> e \<notin> set (MG r)"
    using list_elements(2) [OF inv] st by fastforce
  then show "linked (elts (set_pool p (q\<lparr>pool_migrated := elt_next x\<rparr>) h)) (pool_migrated r') ((MG(p := es)) r) \<and>
      distinct ((MG(p := es)) r) \<and> set ((MG(p := es)) r) = {a. (st(e := Pending)) a = InMig r}"
    using r P(4-6) q(2) x st pool_invD(4-6) [OF slab_invD(4) [OF inv]]
    by (auto simp: set_pool_def)
  show "linked (elts (set_pool p (q\<lparr>pool_migrated := elt_next x\<rparr>) h)) (pool_free r') (FL r) \<and>
      distinct (FL r) \<and> set (FL r) = {a. (st(e := Pending)) a = InFree r}"
    using r P(1-3) st pool_invD(1-3) [OF slab_invD(4) [OF inv]] by (auto simp: set_pool_def)
qed (use q in \<open>auto simp: set_pool_def split: if_splits\<close>)

lemma element_not_NULL:
  "parent_ok par \<Longrightarrow> slab_inv par dying h st FL MG PL \<Longrightarrow> elts h e = Some x \<Longrightarrow> e \<noteq> NULL"
proof -
  assume par: "parent_ok par" and inv: "slab_inv par dying h st FL MG PL" and x: "elts h e = Some x"
  obtain pg hdr where pg: "page_hdrs h pg = Some hdr" "e \<in> elements par pg"
    using page_of_element [OF slab_invD(1) [OF inv] x] .
  then have "page_ok par pg" using slab_invD(1) [OF inv] by (auto simp: memory_inv_def)
  from elements_in_block(2) [OF par this pg(2)] show "e \<noteq> NULL" .
qed

lemma push_free_inv:
  assumes par: "parent_ok par" and inv: "slab_inv par dying h st FL MG PL" and q: "pools h p = Some q"
    and x0: "elts h e = Some x0" "owner x0 = p" "st e = Pending"
    and x: "owner x = p" "magic x = SLAB_MAGIC_FREE" "elt_next x = pool_free q"
  shows "slab_inv par dying (set_pool p (q\<lparr>pool_free := e\<rparr>) (set_elt e x h)) (st(e := InFree p))
    (FL(p := e # FL p)) MG PL"
proof (rule slab_inv_relink [OF inv])
  let ?h = "set_pool p (q\<lparr>pool_free := e\<rparr>) (set_elt e x h)"
  have e: "e \<noteq> NULL" by (rule element_not_NULL [OF par inv x0(1)])
  show "place_inv ?h (st(e := InFree p))"
    unfolding place_inv_pools by (rule place_inv_upd [OF slab_invD(2) [OF inv] x0(1)]) (use x in auto)
  show "(st(e := InFree p)) a = Gone \<longleftrightarrow> st a = Gone" for a using x0(3) by simp
  show "map_option owner (elts ?h a) = map_option owner (elts h a)" for a
    using x0 x by (simp add: set_pool_def set_elt_def)
  show "map_option pool_pages (pools ?h a) = map_option pool_pages (pools h a)" for a
    using q by (simp add: set_pool_def set_elt_def)
  show "st a = InFree r \<or> st a = InMig r \<or> (\<exists>x. elts h a = Some x \<and> owner x = r \<and> r \<in> dom (pools h))"
    if "(st(e := InFree p)) a = InFree r \<or> (st(e := InFree p)) a = InMig r" for a r
    using that x0 q by (auto split: if_splits)
  fix r r' assume "pools ?h r = Some r'"
  then have r: "r = p \<and> r' = q\<lparr>pool_free := e\<rparr> \<or> r \<noteq> p \<and> pools h r = Some r'"
    by (auto simp: set_pool_def set_elt_def split: if_splits)
  note P = pool_invD [OF slab_invD(4) [OF inv q]]
  have old: "e \<notin> set (FL s)" "e \<notin> set (MG s)" if "pools h s = Some t" for s t
    using list_elements [OF inv that] x0(3) by auto
  show "linked (elts ?h) (pool_free r') ((FL(p := e # FL p)) r) \<and> distinct ((FL(p := e # FL p)) r) \<and>
      set ((FL(p := e # FL p)) r) = {a. (st(e := InFree p)) a = InFree r}"
    using r P(1-3) e x(3) old [OF q] old [of r r'] pool_invD(1-3) [OF slab_invD(4) [OF inv, of r r']] x0(3)
    by (auto simp: set_pool_def set_elt_def linked_set_elt)
  show "linked (elts ?h) (pool_migrated r') (MG r) \<and> distinct (MG r) \<and> set (MG r) = {a. (st(e := InFree p)) a = InMig r}"
    using r P(4-6) old [OF q] old [of r r'] pool_invD(4-6) [OF slab_invD(4) [OF inv, of r r']] x0(3)
    by (auto simp: set_pool_def set_elt_def linked_set_elt)
qed (auto simp: set_pool_def set_elt_def split: if_splits)

lemma push_migrated_inv:
  assumes par: "parent_ok par" and inv: "slab_inv par dying h st FL MG PL" and q: "pools h p = Some q"
    and x0: "elts h e = Some x0" "owner x0 = p" "st e = Pending"
    and x: "owner x = p" "magic x = SLAB_MAGIC_FREE" "elt_next x = pool_migrated q"
  shows "slab_inv par dying (set_pool p (q\<lparr>pool_migrated := e\<rparr>) (set_elt e x h)) (st(e := InMig p))
    FL (MG(p := e # MG p)) PL"
proof (rule slab_inv_relink [OF inv])
  let ?h = "set_pool p (q\<lparr>pool_migrated := e\<rparr>) (set_elt e x h)"
  have e: "e \<noteq> NULL" by (rule element_not_NULL [OF par inv x0(1)])
  show "place_inv ?h (st(e := InMig p))"
    unfolding place_inv_pools by (rule place_inv_upd [OF slab_invD(2) [OF inv] x0(1)]) (use x in auto)
  show "(st(e := InMig p)) a = Gone \<longleftrightarrow> st a = Gone" for a using x0(3) by simp
  show "map_option owner (elts ?h a) = map_option owner (elts h a)" for a
    using x0 x by (simp add: set_pool_def set_elt_def)
  show "map_option pool_pages (pools ?h a) = map_option pool_pages (pools h a)" for a
    using q by (simp add: set_pool_def set_elt_def)
  show "st a = InFree r \<or> st a = InMig r \<or> (\<exists>x. elts h a = Some x \<and> owner x = r \<and> r \<in> dom (pools h))"
    if "(st(e := InMig p)) a = InFree r \<or> (st(e := InMig p)) a = InMig r" for a r
    using that x0 q by (auto split: if_splits)
  fix r r' assume "pools ?h r = Some r'"
  then have r: "r = p \<and> r' = q\<lparr>pool_migrated := e\<rparr> \<or> r \<noteq> p \<and> pools h r = Some r'"
    by (auto simp: set_pool_def set_elt_def split: if_splits)
  note P = pool_invD [OF slab_invD(4) [OF inv q]]
  have old: "e \<notin> set (FL s)" "e \<notin> set (MG s)" if "pools h s = Some t" for s t
    using list_elements [OF inv that] x0(3) by auto
  show "linked (elts ?h) (pool_migrated r') ((MG(p := e # MG p)) r) \<and> distinct ((MG(p := e # MG p)) r) \<and>
      set ((MG(p := e # MG p)) r) = {a. (st(e := InMig p)) a = InMig r}"
    using r P(4-6) e x(3) old [OF q] old [of r r'] pool_invD(4-6) [OF slab_invD(4) [OF inv, of r r']] x0(3)
    by (auto simp: set_pool_def set_elt_def linked_set_elt)
  show "linked (elts ?h) (pool_free r') (FL r) \<and> distinct (FL r) \<and> set (FL r) = {a. (st(e := InMig p)) a = InFree r}"
    using r P(1-3) old [OF q] old [of r r'] pool_invD(1-3) [OF slab_invD(4) [OF inv, of r r']] x0(3)
    by (auto simp: set_pool_def set_elt_def linked_set_elt)
qed (auto simp: set_pool_def set_elt_def split: if_splits)

text \<open>The migrated elements become the free list.\<close>

definition collected :: "ptr \<Rightarrow> (ptr \<Rightarrow> place) \<Rightarrow> ptr \<Rightarrow> place" where
  "collected p st = (\<lambda>e. if st e = InMig p then InFree p else st e)"

lemma collect_inv:
  assumes inv: "slab_inv par dying h st FL MG PL" and q: "pools h p = Some q" "FL p = []"
  shows "slab_inv par dying (set_pool p (q\<lparr>pool_free := pool_migrated q, pool_migrated := NULL\<rparr>) h) (collected p st)
    (FL(p := MG p)) (MG(p := [])) PL"
proof (rule slab_inv_relink [OF inv])
  let ?h = "set_pool p (q\<lparr>pool_free := pool_migrated q, pool_migrated := NULL\<rparr>) h"
  note P = pool_invD [OF slab_invD(4) [OF inv q(1)]]
  have none: "st e \<noteq> InFree p" for e using list_elements(1) [OF inv q(1), of e] q(2) by simp
  show "place_inv ?h (collected p st)"
    unfolding place_inv_pools using slab_invD(2) [OF inv] unfolding place_inv_def
  proof (intro allI)
    fix e assume "\<forall>e. elt_ok (elts h e) (st e)"
    then have "elt_ok (elts h e) (st e)" by blast
    then show "elt_ok (elts h e) (collected p st e)"
      by (cases "elts h e") (auto simp: collected_def)
  qed
  fix r r' assume "pools ?h r = Some r'"
  then have r: "r = p \<and> r' = q\<lparr>pool_free := pool_migrated q, pool_migrated := NULL\<rparr> \<or> r \<noteq> p \<and> pools h r = Some r'"
    by (auto simp: set_pool_def split: if_splits)
  show "linked (elts ?h) (pool_free r') ((FL(p := MG p)) r) \<and> distinct ((FL(p := MG p)) r) \<and>
      set ((FL(p := MG p)) r) = {a. collected p st a = InFree r}"
    using r P(4-6) none pool_invD(1-3) [OF slab_invD(4) [OF inv, of r r']]
    by (auto simp: set_pool_def collected_def)
  show "linked (elts ?h) (pool_migrated r') ((MG(p := [])) r) \<and> distinct ((MG(p := [])) r) \<and>
      set ((MG(p := [])) r) = {a. collected p st a = InMig r}"
    using r pool_invD(4-6) [OF slab_invD(4) [OF inv, of r r']]
    by (auto simp: set_pool_def collected_def)
qed (use q in \<open>auto simp: set_pool_def collected_def split: if_splits\<close>)

section \<open>Giving elements back to an orphaned page\<close>

lemma count_Gone:
  assumes "finite E" "e \<in> E" "st e \<noteq> Gone"
  shows "card {a \<in> E. st a \<noteq> Gone} = Suc (card {a \<in> E. (st(e := Gone)) a \<noteq> Gone})"
proof -
  have "{a \<in> E. st a \<noteq> Gone} = insert e {a \<in> E. (st(e := Gone)) a \<noteq> Gone}" using assms(2,3) by auto
  then show ?thesis using assms(1) by simp
qed

text \<open>The places after an element has gone.\<close>

lemma gone_places:
  assumes "st e \<in> {Pending, Orphaning}"
  shows "(st(e := Gone)) a = InFree p \<longleftrightarrow> st a = InFree p" "(st(e := Gone)) a = InMig p \<longleftrightarrow> st a = InMig p"
    "(st(e := Gone)) a = Gone \<longleftrightarrow> a = e \<or> st a = Gone"
  using assms by auto

lemma other_page:
  assumes "parent_ok par" "slab_inv par dying h st FL MG PL" "page_hdrs h pg = Some hdr"
    "page_hdrs h pg' = Some hdr'" "a \<in> elements par pg'" "pg' \<noteq> pg"
  shows "a \<notin> elements par pg"
  using elements_disjoint [OF slab_invD(1) [OF assms(2)] assms(1,3,4) _ assms(5)] assms(6) by blast

lemma owned_page:
  assumes "parent_ok par" "slab_inv par dying h st FL MG PL" "page_hdrs h pg = Some (Num_remaining r)"
    "pools h p = Some q" "pg' \<in> set (PL p)"
  shows "pg' \<noteq> pg" "a \<in> elements par pg' \<Longrightarrow> a \<notin> elements par pg"
proof -
  obtain nxt where nxt: "page_hdrs h pg' = Some (Next nxt)"
    using chained_Next [OF pool_invD(7) [OF slab_invD(4) [OF assms(2,4)]] assms(5)] by blast
  then show ne: "pg' \<noteq> pg" using assms(3) by auto
  show "a \<in> elements par pg' \<Longrightarrow> a \<notin> elements par pg" by (rule other_page [OF assms(1-3) nxt _ ne])
qed

lemma UN_minus: "(\<And>x. x \<in> D \<Longrightarrow> x \<noteq> a \<Longrightarrow> f x \<inter> f a = {}) \<Longrightarrow> (\<Union>x\<in>D. f x) - f a = (\<Union>x\<in>D - {a}. f x)"
  by auto

text \<open>The last element: the page is freed.\<close>

lemma drop_last_inv:
  assumes par: "parent_ok par" and inv: "slab_inv par dying h st FL MG PL"
    and pg: "page_hdrs h pg = Some (Num_remaining r)" "e \<in> elements par pg" "st e \<in> {Pending, Orphaning}"
    and last: "\<And>a. a \<in> elements par pg \<Longrightarrow> (st(e := Gone)) a = Gone"
  shows "slab_inv par dying (free_page par pg h) (st(e := Gone)) FL MG PL"
proof (rule slab_invI)
  let ?h = "free_page par pg h" and ?st = "st(e := Gone)"
  note M = slab_invD(1) [OF inv] and other = other_page [OF par inv pg(1)] and G = gone_places [where st = st and e = e, OF pg(3)]
  have "dom (elts ?h) = dom (elts h) - elements par pg"
    by (auto simp: free_page_def split: if_splits)
  also have "\<dots> = (\<Union>pg'\<in>dom (page_hdrs h) - {pg}. elements par pg')"
  proof -
    have "dom (elts h) = (\<Union>pg'\<in>dom (page_hdrs h). elements par pg')" using M by (simp add: memory_inv_def)
    moreover have "(\<Union>pg'\<in>dom (page_hdrs h). elements par pg') - elements par pg =
        (\<Union>pg'\<in>dom (page_hdrs h) - {pg}. elements par pg')"
    proof (rule UN_minus)
      fix pg' assume "pg' \<in> dom (page_hdrs h)" "pg' \<noteq> pg"
      then show "elements par pg' \<inter> elements par pg = {}" using other by blast
    qed
    ultimately show ?thesis by simp
  qed
  finally show "memory_inv par ?h" using M by (auto simp: memory_inv_def free_page_def)
  show "place_inv ?h ?st"
    unfolding place_inv_def
  proof
    fix a show "elt_ok (elts ?h a) (?st a)"
    proof (cases "a \<in> elements par pg")
      case True
      then show ?thesis using last [OF True] by (simp only: free_page_def) simp
    next
      case False
      then show ?thesis using slab_invD(2) [OF inv] pg(2) by (auto simp: place_inv_def free_page_def)
    qed
  qed
  show "orphan_inv par dying ?h ?st"
    unfolding orphan_inv_def
  proof (intro allI impI)
    fix pg' r' assume "page_hdrs ?h pg' = Some (Num_remaining r')"
    then have pg': "page_hdrs h pg' = Some (Num_remaining r')" "pg' \<noteq> pg"
      by (auto simp: free_page_def split: if_splits)
    note o' = orphan_invD [OF slab_invD(3) [OF inv] pg'(1)]
    have "{a \<in> elements par pg'. ?st a \<noteq> Gone} = {a \<in> elements par pg'. st a \<noteq> Gone}"
      using other [OF pg'(1) _ pg'(2)] pg(2) by auto
    then show "0 < r' \<and> unat r' = card {a \<in> elements par pg'. ?st a \<noteq> Gone} \<and>
        (\<forall>a\<in>elements par pg'. (\<exists>x. elts ?h a = Some x \<and> owner x = pg' OR 1) \<and>
          (\<forall>p. ?st a = InFree p \<or> ?st a = InMig p \<longrightarrow> p \<in> dying))"
      using o' other [OF pg'(1) _ pg'(2)] unfolding G by (auto simp: free_page_def)
  qed
  fix p q assume "pools ?h p = Some q"
  then have q: "pools h p = Some q" by (simp add: free_page_def)
  note P = pool_invD [OF slab_invD(4) [OF inv q]] and own = owned_page [OF par inv pg(1) q]
  have "a \<notin> elements par pg" if "st a = InFree p \<or> st a = InMig p" for a
    using last [of a] that pg(3) by (auto split: if_splits)
  then have "linked (elts ?h) y (FL p) \<longleftrightarrow> linked (elts h) y (FL p)" "linked (elts ?h) y (MG p) \<longleftrightarrow> linked (elts h) y (MG p)" for y
    using P(3,6) by (auto intro!: linked_cong simp: free_page_def)
  moreover have "chained (page_hdrs ?h) y (PL p) \<longleftrightarrow> chained (page_hdrs h) y (PL p)" for y
    by (rule chained_cong) (use own(1) in \<open>auto simp: free_page_def\<close>)
  moreover have "a \<notin> elements par pg" "a \<noteq> e" if "pg' \<in> set (PL p)" "a \<in> elements par pg'" for pg' a
    using own(2) [OF that] pg(2) by auto
  ultimately show "pool_inv par ?h ?st (FL p) (MG p) (PL p) p q"
    using P unfolding pool_inv_def G by (auto simp: free_page_def)
qed (use slab_invD(5,6) [OF inv] in \<open>auto simp: free_page_def split: if_splits\<close>)

lemma drop_more_inv:
  assumes par: "parent_ok par" and inv: "slab_inv par dying h st FL MG PL"
    and pg: "page_hdrs h pg = Some (Num_remaining r)" "e \<in> elements par pg" "st e \<in> {Pending, Orphaning}"
    and more: "unat r' = card {a \<in> elements par pg. (st(e := Gone)) a \<noteq> Gone}" "0 < r'"
  shows "slab_inv par dying (set_page pg (Num_remaining r') h) (st(e := Gone)) FL MG PL"
proof (rule slab_invI)
  let ?h = "set_page pg (Num_remaining r') h" and ?st = "st(e := Gone)"
  note M = slab_invD(1) [OF inv] and other = other_page [OF par inv pg(1)] and G = gone_places [where st = st and e = e, OF pg(3)]
  have "dom (page_hdrs ?h) = dom (page_hdrs h)" using pg(1) by (auto simp: set_page_def)
  then show "memory_inv par ?h" using M by (simp add: memory_inv_def) (simp add: set_page_def)
  obtain x where x: "elts h e = Some x" using orphan_invD(3) [OF slab_invD(3) [OF inv] pg(1,2)] by blast
  show "place_inv ?h ?st"
    using slab_invD(2) [OF inv] x by (auto simp: place_inv_def set_page_def)
  show "orphan_inv par dying ?h ?st"
    unfolding orphan_inv_def
  proof (intro allI impI)
    fix pg' s assume s: "page_hdrs ?h pg' = Some (Num_remaining s)"
    then obtain s0 where pg': "page_hdrs h pg' = Some (Num_remaining s0)"
      using pg(1) by (auto simp: set_page_def split: if_splits)
    note o' = orphan_invD [OF slab_invD(3) [OF inv] pg']
    have "0 < s \<and> unat s = card {a \<in> elements par pg'. ?st a \<noteq> Gone}"
    proof (cases "pg' = pg")
      case True
      then show ?thesis using s more by (simp add: set_page_def)
    next
      case False
      then have "{a \<in> elements par pg'. ?st a \<noteq> Gone} = {a \<in> elements par pg'. st a \<noteq> Gone}"
        using other [OF pg' _ False] pg(2) by auto
      moreover have "s = s0" using s pg' False by (simp add: set_page_def)
      ultimately show ?thesis using o'(1,2) by simp
    qed
    then show "0 < s \<and> unat s = card {a \<in> elements par pg'. ?st a \<noteq> Gone} \<and>
        (\<forall>a\<in>elements par pg'. (\<exists>x. elts ?h a = Some x \<and> owner x = pg' OR 1) \<and>
          (\<forall>p. ?st a = InFree p \<or> ?st a = InMig p \<longrightarrow> p \<in> dying))"
      using o'(3,4) unfolding G by (simp add: set_page_def)
  qed
  fix p q assume "pools ?h p = Some q"
  then have q: "pools h p = Some q" by (simp add: set_page_def)
  note P = pool_invD [OF slab_invD(4) [OF inv q]] and own = owned_page [OF par inv pg(1) q]
  have "chained (page_hdrs ?h) y (PL p) \<longleftrightarrow> chained (page_hdrs h) y (PL p)" for y
    by (rule chained_cong) (use own(1) in \<open>auto simp: set_page_def\<close>)
  moreover have "a \<noteq> e" if "pg' \<in> set (PL p)" "a \<in> elements par pg'" for pg' a
    using own(2) [OF that] pg(2) by auto
  ultimately show "pool_inv par ?h ?st (FL p) (MG p) (PL p) p q"
    using P unfolding pool_inv_def G by (auto simp: set_page_def)
qed (use slab_invD(5,6) [OF inv] in \<open>auto simp: set_page_def split: if_splits\<close>)

lemma slab_free_orphaned_inv:
  assumes par: "parent_ok par" and inv: "slab_inv par dying h st FL MG PL"
    and x: "elts h e = Some x" "bit (owner x) 0" and st: "st e \<in> {Pending, Orphaning}"
  shows "\<exists>h'. slab_free_orphaned par h e = Inr h' \<and> slab_inv par dying h' (st(e := Gone)) FL MG PL \<and> pools h' = pools h"
  using inv x(1)
proof (cases rule: owner_cases)
  case (owned pg q)
  with x(2) show ?thesis by simp
next
  case (orphaned pg r)
  have "page_ok par pg" using slab_invD(1) [OF inv] orphaned(3) by (auto simp: memory_inv_def)
  then have pg: "owner x AND NOT 1 = pg" unfolding orphaned(2) page_ok_def by (intro or_1_and_not_1) blast
  have "unat r = Suc (card {a \<in> elements par pg. (st(e := Gone)) a \<noteq> Gone})"
    using orphan_invD(2) [OF slab_invD(3) [OF inv] orphaned(3)] count_Gone [of "elements par pg" e st] orphaned(4) st
    by auto
  then have r1: "unat (r - 1) = card {a \<in> elements par pg. (st(e := Gone)) a \<noteq> Gone}"
    by (subst unat_sub_no_wrap) simp_all
  have run: "slab_free_orphaned par h e =
      (if r - 1 = 0 then Inr (free_page par pg h) else Inr (set_page pg (Num_remaining (r - 1)) h))"
    unfolding slab_free_orphaned_def read_elt_def x(1) option.case bind_result_simps and_1_eq_0 Let_def pg
      orphaned(3) slab_page_header.case
    using x(2) by simp
  show ?thesis
  proof (cases "r - 1 = 0")
    case True
    then have "(st(e := Gone)) a = Gone" if "a \<in> elements par pg" for a using r1 that by auto
    from drop_last_inv [OF par inv orphaned(3,4) st this] True run show ?thesis by (simp add: free_page_def)
  next
    case False
    then have "0 < r - 1" unfolding word_neq_0_conv .
    from drop_more_inv [OF par inv orphaned(3,4) st r1 this] False run show ?thesis by (simp add: set_page_def)
  qed
qed

section \<open>Loops\<close>

text \<open>A loop whose turns consume a list.\<close>

lemma run_loop_list:
  assumes nil: "\<And>h. I h [] \<Longrightarrow> turn h = Inr (False, h)"
    and cons: "\<And>h x xs. I h (x # xs) \<Longrightarrow> \<exists>h'. turn h = Inr (True, h') \<and> I h' xs"
  shows "I h xs \<Longrightarrow> \<exists>h'. run_loop turn h = Some (Inr h') \<and> I h' []"
proof (induction xs arbitrary: h)
  case Nil
  then show ?case using nil [OF Nil] by (subst run_loop.simps) simp
next
  case (Cons x xs)
  obtain h1 where h1: "turn h = Inr (True, h1)" "I h1 xs" using cons [OF Cons.prems] by blast
  then show ?case using Cons.IH [OF h1(2)] by (subst run_loop.simps) simp
qed

section \<open>Orphaning pages\<close>

definition reown :: "ptr set \<Rightarrow> ptr \<Rightarrow> slab_heap \<Rightarrow> slab_heap" where
  "reown es pg h =
     h\<lparr>elts := (\<lambda>e. if e \<in> es then map_option (\<lambda>x. x\<lparr>owner := pg OR 1\<rparr>) (elts h e) else elts h e)\<rparr>"

lemma orphan_elements_reown:
  "\<forall>j\<in>{i..<i + k}. elts h (slab_get_element par pg (word_of_nat j)) \<noteq> None \<Longrightarrow>
   orphan_elements par pg i k h = Inr (reown ((\<lambda>j. slab_get_element par pg (word_of_nat j)) ` {i..<i + k}) pg h)"
proof (induction k arbitrary: i h)
  case 0
  then show ?case by (simp add: reown_def)
next
  case (Suc k)
  let ?g = "\<lambda>j. slab_get_element par pg (word_of_nat j)"
  obtain x where x: "elts h (?g i) = Some x" using Suc.prems by fastforce
  let ?h = "set_elt (?g i) (x\<lparr>owner := pg OR 1\<rparr>) h"
  have "\<forall>j\<in>{Suc i..<Suc i + k}. elts ?h (?g j) \<noteq> None" using Suc.prems by (auto simp: set_elt_def)
  from Suc.IH [OF this] have "orphan_elements par pg i (Suc k) h = Inr (reown (?g ` {Suc i..<Suc i + k}) pg ?h)"
    using x by (simp add: read_elt_def Let_def)
  moreover have "reown (?g ` {Suc i..<Suc i + k}) pg ?h = reown (?g ` {i..<i + Suc k}) pg h"
  proof -
    have "{i..<i + Suc k} = insert i {Suc i..<Suc i + k}" by auto
    then show ?thesis using x by (auto simp: reown_def set_elt_def fun_eq_iff)
  qed
  ultimately show ?case by simp
qed

text \<open>The memory after a turn of the loop over the pages.\<close>

definition orphan_page :: "slab_parent_pool \<Rightarrow> ptr \<Rightarrow> slab_child_pool \<Rightarrow> ptr \<Rightarrow> ptr \<Rightarrow> slab_heap \<Rightarrow> slab_heap" where
  "orphan_page par p q pg nxt h = reown (elements par pg) pg
     (set_page pg (Num_remaining (num_elements par)) (set_pool p (q\<lparr>pool_pages := nxt\<rparr>) h))"

lemma orphan_page_sel:
  "page_hdrs (orphan_page par p q pg nxt h) = (page_hdrs h)(pg \<mapsto> Num_remaining (num_elements par))"
  "pools (orphan_page par p q pg nxt h) = (pools h)(p \<mapsto> q\<lparr>pool_pages := nxt\<rparr>)"
  "elts (orphan_page par p q pg nxt h) e =
     (if e \<in> elements par pg then map_option (\<lambda>x. x\<lparr>owner := pg OR 1\<rparr>) (elts h e) else elts h e)"
  by (simp_all add: orphan_page_def reown_def set_page_def set_pool_def)

lemma destroy_page_run:
  assumes inv: "slab_inv par dying h st FL MG PL" and q: "pools h p = Some q" "PL p = pg # pgs"
  obtains nxt where "page_hdrs h pg = Some (Next nxt)" "chained (page_hdrs h) nxt pgs"
    "destroy_page par p h = Inr (True, orphan_page par p q pg nxt h)"
proof -
  note P = pool_invD [OF slab_invD(4) [OF inv q(1)]]
  obtain nxt where nxt: "pool_pages q = pg" "pg \<noteq> NULL" "page_hdrs h pg = Some (Next nxt)" "chained (page_hdrs h) nxt pgs"
    using P(7) q(2) by auto
  let ?h = "set_page pg (Num_remaining (num_elements par)) (set_pool p (q\<lparr>pool_pages := nxt\<rparr>) h)"
  have el: "elements par pg = (\<lambda>j. slab_get_element par pg (word_of_nat j)) ` {0..<0 + unat (num_elements par)}"
    by (simp add: page_elements_def)
  have "\<forall>e\<in>elements par pg. elts ?h e \<noteq> None"
    using P(9) [of pg] q(2) by (force simp: set_page_def set_pool_def)
  then have "orphan_elements par pg 0 (unat (num_elements par)) ?h = Inr (reown (elements par pg) pg ?h)"
    unfolding el by (intro orphan_elements_reown) blast
  then show thesis using that nxt q(1) by (simp add: destroy_page_def read_pool_def Let_def orphan_page_def)
qed

text \<open>A pool whose lists keep their links, and whose remaining pages keep their elements.\<close>

lemma pool_inv_transfer:
  assumes inv: "pool_inv par h st fl ml pl p q"
    and links: "\<And>e. map_option elt_next (elts h' e) = map_option elt_next (elts h e)"
    and lists: "pool_free q' = pool_free q" "pool_migrated q' = pool_migrated q"
    and pages: "chained (page_hdrs h') (pool_pages q') pl'" "distinct pl'" "set pl' \<subseteq> set pl"
    and elts: "\<And>pg e. pg \<in> set pl' \<Longrightarrow> e \<in> elements par pg \<Longrightarrow> elts h' e = elts h e"
  shows "pool_inv par h' st fl ml pl' p q'"
proof -
  note P = pool_invD [OF inv]
  have l: "linked (elts h') y es \<longleftrightarrow> linked (elts h) y es" for y es
    by (rule linked_cong) (use links in blast)
  have "(\<exists>x. elts h' e = Some x \<and> owner x = p) \<and> st e \<in> {InFree p, InMig p, Held, Pending}"
    if e: "pg \<in> set pl'" "e \<in> elements par pg" for pg e
    using P(9,10) [OF _ e(2)] e(1) pages(3) elts [OF e] by auto
  then show ?thesis using P(1-6) pages(1,2) unfolding pool_inv_def l lists by blast
qed

lemma reown_chain:
  assumes inv: "slab_inv par dying h st FL MG PL" and par: "parent_ok par"
    and q: "pools h p = Some q" "PL p = pg # pgs" and r: "pools h r = Some q'" "r \<noteq> p"
  shows "pg \<notin> set (PL r)"
proof
  assume pg: "pg \<in> set (PL r)"
  obtain e where e: "e \<in> elements par pg" using elements_nonempty [OF par, of pg] by (meson ex_in_conv)
  show False
    using pool_invD(9) [OF slab_invD(4) [OF inv q(1)] _ e] pool_invD(9) [OF slab_invD(4) [OF inv r(1)] pg e] q(2) r(2)
    by auto
qed

lemma orphan_page_orphan_inv:
  assumes par: "parent_ok par" and inv: "slab_inv par dying h st FL MG PL"
    and q: "pools h p = Some q" "pg \<in> set (PL p)" "p \<in> dying" and hdr: "page_hdrs h pg = Some hdr"
  shows "orphan_inv par dying (orphan_page par p q pg nxt h) st"
  unfolding orphan_inv_def
proof (intro allI impI)
  let ?h = "orphan_page par p q pg nxt h"
  fix pg' r assume r: "page_hdrs ?h pg' = Some (Num_remaining r)"
  show "0 < r \<and> unat r = card {e \<in> elements par pg'. st e \<noteq> Gone} \<and>
    (\<forall>e\<in>elements par pg'. (\<exists>x. elts ?h e = Some x \<and> owner x = pg' OR 1) \<and>
      (\<forall>p. st e = InFree p \<or> st e = InMig p \<longrightarrow> p \<in> dying))"
  proof (cases "pg' = pg")
    case True
    note mine = pool_invD(9,10) [OF slab_invD(4) [OF inv q(1)] q(2)]
    have "{e \<in> elements par pg. st e \<noteq> Gone} = elements par pg" using mine(2) by fastforce
    moreover have "page_ok par pg" using slab_invD(1) [OF inv] hdr by (auto simp: memory_inv_def)
    ultimately have "unat (num_elements par) = card {e \<in> elements par pg. st e \<noteq> Gone}"
      using card_elements [OF par] by simp
    moreover have "\<exists>x. elts ?h e = Some x \<and> owner x = pg OR 1" "st e = InFree a \<or> st e = InMig a \<longrightarrow> a \<in> dying"
      if "e \<in> elements par pg" for e a using mine [OF that] q(3) that by (auto simp: orphan_page_sel)
    ultimately show ?thesis using True r par by (auto simp: orphan_page_sel parent_ok_def)
  next
    case False
    then have r': "page_hdrs h pg' = Some (Num_remaining r)" using r by (simp add: orphan_page_sel)
    show ?thesis using orphan_invD [OF slab_invD(3) [OF inv] r'] other_page [OF par inv hdr r' _ False]
      by (simp add: orphan_page_sel)
  qed
qed

lemma orphan_page_pool_inv:
  assumes par: "parent_ok par" and inv: "slab_inv par dying h st FL MG PL"
    and q: "pools h p = Some q" "PL p = pg # pgs" and hdr: "page_hdrs h pg = Some (Next nxt)" "chained (page_hdrs h) nxt pgs"
    and a: "pools (orphan_page par p q pg nxt h) a = Some qa"
  shows "pool_inv par (orphan_page par p q pg nxt h) st (FL a) (MG a) ((PL(p := pgs)) a) a qa"
proof -
  let ?h = "orphan_page par p q pg nxt h"
  have links: "map_option elt_next (elts ?h e) = map_option elt_next (elts h e)" for e
    by (simp add: orphan_page_sel option.map_comp comp_def)
  have pgs: "pg \<notin> set pgs" "distinct pgs" using pool_invD(8) [OF slab_invD(4) [OF inv q(1)]] q(2) by auto
  have away: "elts ?h e = elts h e"
    if pl: "chained (page_hdrs h) y pl" "pg \<notin> set pl" "pg' \<in> set pl" "e \<in> elements par pg'" for y pl pg' e
  proof -
    obtain nxt' where "page_hdrs h pg' = Some (Next nxt')" using chained_Next [OF pl(1,3)] by blast
    from other_page [OF par inv hdr(1) this pl(4)] show ?thesis using pl(2,3) by (auto simp: orphan_page_sel)
  qed
  have chain: "chained (page_hdrs ?h) y pl" if "chained (page_hdrs h) y pl" "pg \<notin> set pl" for y pl
    using that by (subst chained_cong) (auto simp: orphan_page_sel)
  show ?thesis
  proof (cases "a = p")
    case True
    then show ?thesis
      using a q(2) chain [OF hdr(2) pgs(1)] away [OF hdr(2) pgs(1)] pgs(2) links unfolding orphan_page_sel(2)
      by (intro pool_inv_transfer [OF slab_invD(4) [OF inv, of a q]]) (auto simp: q(1))
  next
    case False
    then have a': "pools h a = Some qa" using a by (simp add: orphan_page_sel)
    note P' = pool_invD [OF slab_invD(4) [OF inv a']]
    have pg: "pg \<notin> set (PL a)" by (rule reown_chain [OF inv par q(1,2) a' False])
    show ?thesis
      using False chain [OF P'(7) pg] away [OF P'(7) pg] P'(8) links
      by (intro pool_inv_transfer [OF slab_invD(4) [OF inv a']]) auto
  qed
qed

lemma destroy_page_inv:
  assumes par: "parent_ok par" and inv: "slab_inv par dying h st FL MG PL"
    and q: "pools h p = Some q" "PL p = pg # pgs" "p \<in> dying"
  shows "\<exists>h'. destroy_page par p h = Inr (True, h') \<and> slab_inv par dying h' st FL MG (PL(p := pgs)) \<and>
    (\<forall>a. map_option pool_parent (pools h' a) = map_option pool_parent (pools h a))"
proof -
  note M = slab_invD(1) [OF inv]
  obtain nxt where nxt: "page_hdrs h pg = Some (Next nxt)" "chained (page_hdrs h) nxt pgs"
    and run: "destroy_page par p h = Inr (True, orphan_page par p q pg nxt h)"
    by (rule destroy_page_run [OF inv q(1,2)])
  let ?h = "orphan_page par p q pg nxt h"
  have "slab_inv par dying ?h st FL MG (PL(p := pgs))"
  proof (rule slab_invI)
    have "dom (elts ?h) = dom (elts h)" by (auto simp: orphan_page_sel split: if_splits)
    moreover have "dom (page_hdrs ?h) = dom (page_hdrs h)" "dom (pools ?h) = dom (pools h)"
      using nxt(1) q(1) unfolding orphan_page_sel by auto
    ultimately show "memory_inv par ?h" "dying \<subseteq> dom (pools ?h)"
      using M slab_invD(6) [OF inv] by (simp_all add: memory_inv_def)
    show "place_inv ?h st" unfolding place_inv_def
    proof
      fix e have "elt_ok (elts h e) (st e)" using slab_invD(2) [OF inv] by (simp add: place_inv_def)
      then show "elt_ok (elts ?h e) (st e)" by (cases "elts h e") (simp_all add: orphan_page_sel)
    qed
    show "\<exists>r\<in>dom (pools ?h). pg' \<in> set ((PL(p := pgs)) r)" if "page_hdrs ?h pg' = Some (Next nxt')" for pg' nxt'
    proof -
      have pg': "pg' \<noteq> pg" "page_hdrs h pg' = Some (Next nxt')"
        using that unfolding orphan_page_sel by (auto split: if_splits)
      then obtain r where "r \<in> dom (pools h)" "pg' \<in> set (PL r)" using slab_invD(5) [OF inv] by blast
      then show ?thesis using pg'(1) q(2) unfolding orphan_page_sel by (intro bexI [of _ r]) auto
    qed
    show "orphan_inv par dying ?h st"
      by (rule orphan_page_orphan_inv [OF par inv q(1) _ q(3) nxt(1)]) (simp add: q(2))
    show "pool_inv par ?h st (FL a) (MG a) ((PL(p := pgs)) a) a qa" if "pools ?h a = Some qa" for a qa
      by (rule orphan_page_pool_inv [OF par inv q(1,2) nxt that])
  qed
  then show ?thesis using run q(1) by (auto simp: orphan_page_sel)
qed

section \<open>Dropping the lists of a destroyed pool\<close>

text \<open>Once its pages are orphaned, every element in a list of the pool has an orphaned page.\<close>

lemma listed_orphaned:
  assumes inv: "slab_inv par dying h st FL MG PL" and x: "elts h e = Some x"
    and st: "st e = InFree p \<or> st e = InMig p" and pl: "PL p = []"
  shows "bit (owner x) 0"
  using inv x
proof (cases rule: owner_cases)
  case (owned pg q)
  have "owner x = p" using pool_invD(10) [OF slab_invD(4) [OF inv owned(2)] owned(3,4)] st by auto
  then show ?thesis using owned(3) pl by simp
qed simp

lemma destroy_nil:
  assumes "slab_inv par dying h st FL MG PL" "pools h p = Some q"
  shows "PL p = [] \<Longrightarrow> destroy_page par p h = Inr (False, h)"
    "MG p = [] \<Longrightarrow> destroy_migrated par p h = Inr (False, h)"
    "FL p = [] \<Longrightarrow> destroy_free par p h = Inr (False, h)"
  using pool_invD(1,4,7) [OF slab_invD(4) [OF assms]] assms(2)
  by (simp_all add: destroy_page_def destroy_migrated_def destroy_free_def read_pool_def)

lemma destroy_migrated_inv:
  assumes par: "parent_ok par" and inv: "slab_inv par dying h st FL MG PL"
    and q: "pools h p = Some q" "MG p = e # es" "PL p = []"
  shows "\<exists>h'. destroy_migrated par p h = Inr (True, h') \<and> slab_inv par dying h' (st(e := Gone)) FL (MG(p := es)) PL \<and>
    (\<forall>a. map_option pool_parent (pools h' a) = map_option pool_parent (pools h a))"
proof -
  obtain x where x: "pool_migrated q = e" "e \<noteq> NULL" "elts h e = Some x"
    using pool_invD(4) [OF slab_invD(4) [OF inv q(1)]] q(2) by auto
  let ?h = "set_pool p (q\<lparr>pool_migrated := elt_next x\<rparr>) h"
  have st: "st e = InMig p" using list_elements(2) [OF inv q(1)] q(2) by auto
  have odd: "bit (owner x) 0" using listed_orphaned [OF inv x(3) _ q(3)] st by blast
  have "elts ?h e = Some x" using x(3) by (simp add: set_pool_def)
  from slab_free_orphaned_inv [OF par pop_migrated_inv [OF inv q(1,2) x(3)] this odd]
  obtain h' where h': "slab_free_orphaned par ?h e = Inr h'" "pools h' = pools ?h"
    "slab_inv par dying h' (st(e := Gone)) FL (MG(p := es)) PL"
    by auto
  have "destroy_migrated par p h = Inr (True, h')"
    using q(1) x h'(1) by (simp add: destroy_migrated_def read_pool_def read_elt_def)
  then show ?thesis using h'(2,3) q(1) by (auto simp: set_pool_def)
qed

lemma destroy_free_inv:
  assumes par: "parent_ok par" and inv: "slab_inv par dying h st FL MG PL"
    and q: "pools h p = Some q" "FL p = e # es" "PL p = []"
  shows "\<exists>h'. destroy_free par p h = Inr (True, h') \<and> slab_inv par dying h' (st(e := Gone)) (FL(p := es)) MG PL \<and>
    (\<forall>a. map_option pool_parent (pools h' a) = map_option pool_parent (pools h a))"
proof -
  obtain x where x: "pool_free q = e" "e \<noteq> NULL" "elts h e = Some x"
    using pool_invD(1) [OF slab_invD(4) [OF inv q(1)]] q(2) by auto
  let ?h = "set_pool p (q\<lparr>pool_free := elt_next x\<rparr>) h"
  have st: "st e = InFree p" using list_elements(1) [OF inv q(1)] q(2) by auto
  have odd: "bit (owner x) 0" using listed_orphaned [OF inv x(3) _ q(3)] st by blast
  have "elts ?h e = Some x" using x(3) by (simp add: set_pool_def)
  from slab_free_orphaned_inv [OF par pop_free_inv [OF inv q(1,2) x(3)] this odd]
  obtain h' where h': "slab_free_orphaned par ?h e = Inr h'" "pools h' = pools ?h"
    "slab_inv par dying h' (st(e := Gone)) (FL(p := es)) MG PL"
    by auto
  have "destroy_free par p h = Inr (True, h')"
    using q(1) x h'(1) by (simp add: destroy_free_def read_pool_def read_elt_def)
  then show ?thesis using h'(2,3) q(1) by (auto simp: set_pool_def)
qed

section \<open>Creating and retiring pools\<close>

lemma listed_pool:
  assumes inv: "slab_inv par dying h st FL MG PL" and st: "st e = InFree p \<or> st e = InMig p"
  shows "p \<in> dom (pools h)"
proof -
  have "st e \<noteq> Gone" using st by auto
  then obtain x where x: "elts h e = Some x" using not_Gone [OF inv] by blast
  show ?thesis using inv x
  proof (cases rule: owner_cases)
    case (owned pg q)
    then show ?thesis using pool_invD(10) [OF slab_invD(4) [OF inv owned(2)] owned(3,4)] st by auto
  next
    case (orphaned pg r)
    then show ?thesis using orphan_invD(4) [OF slab_invD(3) [OF inv] orphaned(3,4) st] slab_invD(6) [OF inv] by blast
  qed
qed

lemma slab_inv_dying:
  assumes "slab_inv par dying h st FL MG PL" "p \<in> dom (pools h)"
  shows "slab_inv par (insert p dying) h st FL MG PL"
  using assms by (simp add: slab_inv_def orphan_inv_def)

lemma slab_create_child_inv:
  assumes inv: "slab_inv par dying h st FL MG PL" and p: "pools h p = None" "p \<noteq> NULL" "\<not> bit p 0"
  shows "slab_inv par dying (slab_create_child h p parent) st (FL(p := [])) (MG(p := [])) (PL(p := []))"
proof (rule slab_invI)
  let ?h = "slab_create_child h p parent"
  have h: "elts ?h = elts h" "page_hdrs ?h = page_hdrs h"
    "pools ?h = (pools h)(p \<mapsto> \<lparr>pool_parent = parent, pool_pages = NULL, pool_free = NULL, pool_migrated = NULL\<rparr>)"
    by (simp_all add: slab_create_child_def set_pool_def)
  show "memory_inv par ?h" using slab_invD(1) [OF inv] p by (simp add: memory_inv_def h)
  show "place_inv ?h st" "orphan_inv par dying ?h st"
    using slab_invD(2,3) [OF inv] by (simp_all add: place_inv_def orphan_inv_def h)
  show "dying \<subseteq> dom (pools ?h)" using slab_invD(6) [OF inv] by (auto simp: h)
  show "\<exists>r\<in>dom (pools ?h). pg \<in> set ((PL(p := [])) r)" if hdr: "page_hdrs ?h pg = Some (Next nxt)" for pg nxt
  proof -
    obtain r where "r \<in> dom (pools h)" "pg \<in> set (PL r)" using slab_invD(5) [OF inv] hdr unfolding h(2) by blast
    then show ?thesis using p(1) by (intro bexI [of _ r]) (auto simp: h)
  qed
  fix r q assume q: "pools ?h r = Some q"
  show "pool_inv par ?h st ((FL(p := [])) r) ((MG(p := [])) r) ((PL(p := [])) r) r q"
  proof (cases "r = p")
    case True
    have "st e \<noteq> InFree p" "st e \<noteq> InMig p" for e using listed_pool [OF inv] p(1) by blast+
    then show ?thesis using True q by (auto simp: pool_inv_def h)
  next
    case False
    then show ?thesis using slab_invD(4) [OF inv, of r q] q by (simp add: pool_inv_def h)
  qed
qed

text \<open>A pool without lists and pages can go.\<close>

lemma retire_inv:
  assumes inv: "slab_inv par dying h st FL MG PL" and q: "pools h p = Some q" "FL p = []" "MG p = []" "PL p = []"
  shows "slab_inv par (dying - {p}) (h\<lparr>pools := (pools h)(p := None)\<rparr>) st FL MG PL"
proof (rule slab_invI)
  let ?h = "h\<lparr>pools := (pools h)(p := None)\<rparr>"
  have none: "st e \<noteq> InFree p" "st e \<noteq> InMig p" for e using list_elements [OF inv q(1), of e] q(2,3) by auto
  show "memory_inv par ?h" using slab_invD(1) [OF inv] by (simp add: memory_inv_def)
  show "place_inv ?h st" using slab_invD(2) [OF inv] by (simp add: place_inv_def)
  show "orphan_inv par (dying - {p}) ?h st" using slab_invD(3) [OF inv] none by (auto simp: orphan_inv_def)
  show "dying - {p} \<subseteq> dom (pools ?h)" using slab_invD(6) [OF inv] by auto
  show "\<exists>r\<in>dom (pools ?h). pg \<in> set (PL r)" if hdr: "page_hdrs ?h pg = Some (Next nxt)" for pg nxt
  proof -
    obtain r where "r \<in> dom (pools h)" "pg \<in> set (PL r)" using slab_invD(5) [OF inv, of pg nxt] hdr by auto
    then show ?thesis using q(4) by (intro bexI [of _ r]) auto
  qed
  fix r q assume "pools ?h r = Some q"
  then show "pool_inv par ?h st (FL r) (MG r) (PL r) r q"
    using slab_invD(4) [OF inv, of r q] by (auto simp: pool_inv_def split: if_splits)
qed

section \<open>A new page\<close>

lemma add_elements_run:
  assumes "\<not> bit p 0" "pools h p = Some q" "linked (elts h) (pool_free q) es"
    "xs = map (\<lambda>j. slab_get_element par pg (word_of_nat j)) [i..<i + k]"
    "distinct xs" "set xs \<inter> set es = {}" "NULL \<notin> set xs"
  shows "\<exists>h' f. add_elements par p pg i k h = Inr h' \<and> pools h' = (pools h)(p \<mapsto> q\<lparr>pool_free := f\<rparr>) \<and>
    linked (elts h') f (rev xs @ es) \<and> page_hdrs h' = page_hdrs h \<and> (\<forall>e. e \<notin> set xs \<longrightarrow> elts h' e = elts h e) \<and>
    (\<forall>e\<in>set xs. \<exists>x. elts h' e = Some x \<and> owner x = p \<and> magic x = SLAB_MAGIC_FREE)"
  using assms(2-7)
proof (induction k arbitrary: i h q es xs)
  case 0
  then show ?case by (auto intro!: exI [of _ "pool_free q"])
next
  case (Suc k)
  let ?e = "slab_get_element par pg (word_of_nat i)"
  let ?x = "\<lparr>elt_next = pool_free q, owner = p, magic = SLAB_MAGIC_FREE\<rparr>"
  let ?h = "set_pool p (q\<lparr>pool_free := ?e\<rparr>) (set_elt ?e ?x h)"
  define ys where "ys = map (\<lambda>j. slab_get_element par pg (word_of_nat j)) [Suc i..<Suc i + k]"
  have "[i..<i + Suc k] = i # [Suc i..<Suc i + k]" by (subst upt_conv_Cons) simp_all
  then have xs: "xs = ?e # ys" using Suc.prems(3) by (simp add: ys_def)
  have "linked (elts ?h) (pool_free (q\<lparr>pool_free := ?e\<rparr>)) (?e # es)"
    using Suc.prems(2,5,6) unfolding xs by (simp add: set_pool_def set_elt_def linked_set_elt)
  moreover have "pools ?h p = Some (q\<lparr>pool_free := ?e\<rparr>)" by (simp add: set_pool_def)
  moreover have "distinct ys" "set ys \<inter> set (?e # es) = {}" "NULL \<notin> set ys" using Suc.prems(4-6) unfolding xs by auto
  ultimately obtain h' f where h': "add_elements par p pg (Suc i) k ?h = Inr h'"
    "pools h' = (pools ?h)(p \<mapsto> q\<lparr>pool_free := ?e\<rparr>\<lparr>pool_free := f\<rparr>)"
    "linked (elts h') f (rev ys @ ?e # es)" "page_hdrs h' = page_hdrs ?h" "\<forall>e. e \<notin> set ys \<longrightarrow> elts h' e = elts ?h e"
    "\<forall>e\<in>set ys. \<exists>x. elts h' e = Some x \<and> owner x = p \<and> magic x = SLAB_MAGIC_FREE"
    using Suc.IH [OF _ _ ys_def] by blast
  have "elts h' ?e = Some ?x" using h'(5) Suc.prems(4) unfolding xs by (simp add: set_pool_def set_elt_def)
  moreover have "add_elements par p pg i (Suc k) h = Inr h'"
    using assms(1) Suc.prems(1) h'(1) by (simp add: and_1_eq_0 read_pool_def Let_def)
  ultimately show ?case
    using h'(2-6) unfolding xs by (intro exI [of _ h'] exI [of _ f]) (simp add: set_pool_def set_elt_def)
qed

definition fresh_places :: "slab_parent_pool \<Rightarrow> ptr \<Rightarrow> ptr \<Rightarrow> (ptr \<Rightarrow> place) \<Rightarrow> ptr \<Rightarrow> place" where
  "fresh_places par p pg st = (\<lambda>e. if e \<in> elements par pg then InFree p else st e)"

text \<open>A block that \<^verbatim>\<open>malloc\<close> returns shares nothing with the pages in use.\<close>

lemma fresh_block:
  assumes par: "parent_ok par" and inv: "slab_inv par dying h st FL MG PL" and pg: "malloc_ok par h pg"
  shows "page_hdrs h pg = None" "e \<in> elements par pg \<Longrightarrow> elts h e = None \<and> st e = Gone"
    "page_hdrs h pg' = Some hdr \<Longrightarrow> e \<in> elements par pg' \<Longrightarrow> e \<notin> elements par pg"
proof -
  note M = slab_invD(1) [OF inv]
  have ok: "page_ok par pg" using pg by (simp add: malloc_ok_def)
  have "unat pg \<in> page_block par pg" by (simp add: page_block_def)
  then show "page_hdrs h pg = None" using pg by (auto simp: malloc_ok_def)
  have apart: "e \<notin> elements par pg" if "page_hdrs h pg' = Some hdr" "e \<in> elements par pg'" for e pg' hdr
  proof
    assume e: "e \<in> elements par pg"
    have "page_ok par pg'" using M that(1) by (auto simp: memory_inv_def)
    from elements_in_block(1) [OF par this that(2)] elements_in_block(1) [OF par ok e]
    show False using pg that(1) by (auto simp: malloc_ok_def)
  qed
  then show "page_hdrs h pg' = Some hdr \<Longrightarrow> e \<in> elements par pg' \<Longrightarrow> e \<notin> elements par pg" .
  assume e: "e \<in> elements par pg"
  have "elts h e = None"
  proof (rule ccontr)
    assume "elts h e \<noteq> None"
    then obtain x where "elts h e = Some x" by blast
    then obtain pg' hdr where "page_hdrs h pg' = Some hdr" "e \<in> elements par pg'" by (rule page_of_element [OF M])
    with apart e show False by blast
  qed
  moreover have "elt_ok (elts h e) (st e)" using slab_invD(2) [OF inv] by (simp add: place_inv_def)
  ultimately show "elts h e = None \<and> st e = Gone" by simp
qed

lemma slab_add_new_page_run:
  assumes par: "parent_ok par" and inv: "slab_inv par dying h st FL MG PL" and q: "pools h p = Some q"
    and pg: "malloc_ok par h pg"
  obtains h' f where "slab_add_new_page par h p pg = Inr (True, h')"
    "pools h' = (pools h)(p \<mapsto> q\<lparr>pool_free := f, pool_pages := pg\<rparr>)"
    "linked (elts h') f (rev (page_elements par pg) @ FL p)"
    "page_hdrs h' = (page_hdrs h)(pg \<mapsto> Next (pool_pages q))"
    "\<forall>e. e \<notin> elements par pg \<longrightarrow> elts h' e = elts h e"
    "\<forall>e\<in>elements par pg. \<exists>x. elts h' e = Some x \<and> owner x = p \<and> magic x = SLAB_MAGIC_FREE"
proof -
  have ok: "page_ok par pg" using pg by (simp add: malloc_ok_def)
  have "elements par pg \<inter> set (FL p) = {}"
    using fresh_block(2) [OF par inv pg] list_elements(1) [OF inv q] by fastforce
  moreover have "NULL \<notin> elements par pg" using elements_in_block(2) [OF par ok] by blast
  moreover have "page_elements par pg = map (\<lambda>j. slab_get_element par pg (word_of_nat j)) [0..<0 + unat (num_elements par)]"
    by (simp add: page_elements_def)
  ultimately obtain h' f where h': "add_elements par p pg 0 (unat (num_elements par)) h = Inr h'"
    "pools h' = (pools h)(p \<mapsto> q\<lparr>pool_free := f\<rparr>)" "linked (elts h') f (rev (page_elements par pg) @ FL p)"
    "page_hdrs h' = page_hdrs h" "\<forall>e. e \<notin> elements par pg \<longrightarrow> elts h' e = elts h e"
    "\<forall>e\<in>elements par pg. \<exists>x. elts h' e = Some x \<and> owner x = p \<and> magic x = SLAB_MAGIC_FREE"
    using add_elements_run [OF _ q pool_invD(1) [OF slab_invD(4) [OF inv q]] _ distinct_page_elements [OF par ok]]
      pool_even [OF inv q] by blast
  let ?h = "set_pool p (q\<lparr>pool_free := f, pool_pages := pg\<rparr>) (set_page pg (Next (pool_pages q)) h')"
  have "slab_add_new_page par h p pg = Inr (True, ?h)"
    using h'(1,2) ok by (simp add: slab_add_new_page_def page_ok_def read_pool_def)
  from that [OF this] show thesis using h' by (simp add: set_pool_def set_page_def)
qed

lemma fresh_memory_inv:
  assumes M: "memory_inv par h" and pg: "malloc_ok par h pg"
    and h': "page_hdrs h' = (page_hdrs h)(pg \<mapsto> hdr)" "dom (elts h') = dom (elts h) \<union> elements par pg" "dom (pools h') = dom (pools h)"
  shows "memory_inv par h'"
  unfolding memory_inv_def
proof (intro conjI ballI impI)
  have dom: "dom (page_hdrs h') = insert pg (dom (page_hdrs h))" by (simp add: h'(1))
  show "page_ok par a" if "a \<in> dom (page_hdrs h')" for a
    using that M pg unfolding dom by (auto simp: memory_inv_def malloc_ok_def)
  show "page_block par a \<inter> page_block par b = {}"
    if "a \<in> dom (page_hdrs h')" "b \<in> dom (page_hdrs h')" "a \<noteq> b" for a b
  proof -
    have new: "page_block par pg \<inter> page_block par c = {}" if "c \<in> dom (page_hdrs h)" for c
      using pg that by (simp add: malloc_ok_def)
    consider "a = pg" "b \<in> dom (page_hdrs h)" | "b = pg" "a \<in> dom (page_hdrs h)"
      | "a \<in> dom (page_hdrs h)" "b \<in> dom (page_hdrs h)"
      using \<open>a \<in> _\<close> \<open>b \<in> _\<close> \<open>a \<noteq> b\<close> unfolding dom by blast
    then show ?thesis
    proof cases
      case 1 then show ?thesis using new by simp
    next
      case 2 then show ?thesis using new by (simp add: Int_commute)
    next
      case 3 then show ?thesis using M \<open>a \<noteq> b\<close> by (simp add: memory_inv_def)
    qed
  qed
  show "dom (elts h') = (\<Union>pg\<in>dom (page_hdrs h'). elements par pg)"
    using M unfolding dom h'(2) by (simp add: memory_inv_def Un_commute)
  fix p assume "p \<in> dom (pools h')"
  then show "p \<noteq> NULL" "\<not> bit p 0" using M unfolding h'(3) by (simp_all add: memory_inv_def)
qed

lemma fresh_pool_inv:
  assumes par: "parent_ok par" and inv: "slab_inv par dying h st FL MG PL" and q: "pools h p = Some q"
    and pg: "malloc_ok par h pg" and pgs: "page_hdrs h' = (page_hdrs h)(pg \<mapsto> Next (pool_pages q))"
    and f: "linked (elts h') f (rev (page_elements par pg) @ FL p)"
    and old: "\<forall>e. e \<notin> elements par pg \<longrightarrow> elts h' e = elts h e"
    and new: "\<forall>e\<in>elements par pg. \<exists>x. elts h' e = Some x \<and> owner x = p \<and> magic x = SLAB_MAGIC_FREE"
    and r: "((pools h)(p \<mapsto> q\<lparr>pool_free := f, pool_pages := pg\<rparr>)) r = Some r'"
  shows "pool_inv par h' (fresh_places par p pg st) ((FL(p := rev (page_elements par pg) @ FL p)) r) (MG r)
    ((PL(p := pg # PL p)) r) r r'"
proof -
  note B = fresh_block [OF par inv pg]
  have ok: "page_ok par pg" using pg by (simp add: malloc_ok_def)
  have keep: "linked (elts h') y es \<longleftrightarrow> linked (elts h) y es" if "\<forall>e\<in>set es. st e \<noteq> Gone" for y es
    using that old B(2) by (intro linked_cong) (metis)
  have chain: "chained (page_hdrs h') y pl \<longleftrightarrow> chained (page_hdrs h) y pl" "pg \<notin> set pl"
    "\<forall>pg'\<in>set pl. \<forall>e\<in>elements par pg'. e \<notin> elements par pg"
    if pl: "chained (page_hdrs h) y pl" for y pl
  proof -
    show n: "pg \<notin> set pl" using chained_Next [OF pl, of pg] B(1) by auto
    then show "chained (page_hdrs h') y pl \<longleftrightarrow> chained (page_hdrs h) y pl" unfolding pgs by (intro chained_cong) auto
    show "\<forall>pg'\<in>set pl. \<forall>e\<in>elements par pg'. e \<notin> elements par pg" using chained_Next [OF pl] B(3) by blast
  qed
  obtain q0 where q0: "pools h r = Some q0" using r q by (cases "r = p") auto
  note P = pool_invD [OF slab_invD(4) [OF inv q0]]
  note C = chain [OF P(7)]
  have ml: "linked (elts h') (pool_migrated q0) (MG r)" "set (MG r) = {e. fresh_places par p pg st e = InMig r}"
    using P(4,6) keep [of "MG r"] B(2) by (auto simp: fresh_places_def)
  have fl: "\<forall>e\<in>set (FL r). st e \<noteq> Gone" using P(3) by auto
  have els: "(\<exists>x. elts h' e = Some x \<and> owner x = r) \<and> fresh_places par p pg st e \<in> {InFree r, InMig r, Held, Pending}"
    if "pg' \<in> set (PL r)" "e \<in> elements par pg'" for pg' e
    using P(9,10) [OF that] C(3) that old by (auto simp: fresh_places_def)
  show ?thesis
  proof (cases "r = p")
    case True
    have "set (rev (page_elements par pg) @ FL p) = {e. fresh_places par p pg st e = InFree p}"
      using P(3) True by (auto simp: fresh_places_def)
    moreover have "distinct (rev (page_elements par pg) @ FL p)"
      using distinct_page_elements [OF par ok] P(2,3) B(2) True by auto
    moreover have "pg \<noteq> NULL" using ok by (simp add: page_ok_def)
    moreover have "(\<exists>x. elts h' e = Some x \<and> owner x = p) \<and> fresh_places par p pg st e \<in> {InFree p, InMig p, Held, Pending}"
      if "e \<in> elements par pg" for e using new that by (auto simp: fresh_places_def)
    moreover have "q0 = q" "r' = q\<lparr>pool_free := f, pool_pages := pg\<rparr>" using r q0 q True by auto
    ultimately show ?thesis
      using True f ml P(5,7,8) C(1,2) els by (simp add: pool_inv_def pgs)
  next
    case False
    then have "set (FL r) = {e. fresh_places par p pg st e = InFree r}" using P(3) B(2) by (auto simp: fresh_places_def)
    moreover have "r' = q0" using r q0 False by simp
    ultimately show ?thesis
      using False ml P(1,2,5,7,8) keep [OF fl] C(1) els by (simp add: pool_inv_def)
  qed
qed

lemma slab_add_new_page_inv:
  assumes par: "parent_ok par" and inv: "slab_inv par dying h st FL MG PL" and q: "pools h p = Some q"
    and pg: "malloc_ok par h pg"
  shows "\<exists>h'. slab_add_new_page par h p pg = Inr (True, h') \<and>
    slab_inv par dying h' (fresh_places par p pg st) (FL(p := rev (page_elements par pg) @ FL p)) MG (PL(p := pg # PL p)) \<and>
    (\<forall>a. map_option pool_parent (pools h' a) = map_option pool_parent (pools h a))"
proof -
  obtain h' f where run: "slab_add_new_page par h p pg = Inr (True, h')"
    and po: "pools h' = (pools h)(p \<mapsto> q\<lparr>pool_free := f, pool_pages := pg\<rparr>)"
    and f: "linked (elts h') f (rev (page_elements par pg) @ FL p)"
    and pgs: "page_hdrs h' = (page_hdrs h)(pg \<mapsto> Next (pool_pages q))"
    and old: "\<forall>e. e \<notin> elements par pg \<longrightarrow> elts h' e = elts h e"
    and new: "\<forall>e\<in>elements par pg. \<exists>x. elts h' e = Some x \<and> owner x = p \<and> magic x = SLAB_MAGIC_FREE"
    by (rule slab_add_new_page_run [OF par inv q pg])
  note B = fresh_block [OF par inv pg]
  have "slab_inv par dying h' (fresh_places par p pg st) (FL(p := rev (page_elements par pg) @ FL p)) MG (PL(p := pg # PL p))"
  proof (rule slab_invI)
    have "dom (elts h') = dom (elts h) \<union> elements par pg"
    proof (intro set_eqI)
      show "e \<in> dom (elts h') \<longleftrightarrow> e \<in> dom (elts h) \<union> elements par pg" for e
        using old new by (cases "e \<in> elements par pg") auto
    qed
    moreover have dom: "dom (pools h') = dom (pools h)" using q unfolding po by auto
    ultimately show "memory_inv par h'" using fresh_memory_inv [OF slab_invD(1) [OF inv] pg pgs] by blast
    show "dying \<subseteq> dom (pools h')" using slab_invD(6) [OF inv] dom by simp
    show "place_inv h' (fresh_places par p pg st)" unfolding place_inv_def
    proof
      fix e have "elt_ok (elts h e) (st e)" using slab_invD(2) [OF inv] by (simp add: place_inv_def)
      then show "elt_ok (elts h' e) (fresh_places par p pg st e)"
        using old new by (cases "e \<in> elements par pg") (auto simp: fresh_places_def)
    qed
    show "\<exists>r\<in>dom (pools h'). a \<in> set ((PL(p := pg # PL p)) r)" if hdr: "page_hdrs h' a = Some (Next nxt)" for a nxt
    proof (cases "a = pg")
      case True
      then show ?thesis using q unfolding dom by (intro bexI [of _ p]) auto
    next
      case False
      then obtain r where "r \<in> dom (pools h)" "a \<in> set (PL r)" using hdr slab_invD(5) [OF inv, of a nxt] unfolding pgs by auto
      then show ?thesis unfolding dom by (intro bexI [of _ r]) auto
    qed
    show "orphan_inv par dying h' (fresh_places par p pg st)" unfolding orphan_inv_def
    proof (intro allI impI)
      fix a r assume "page_hdrs h' a = Some (Num_remaining r)"
      then have a: "page_hdrs h a = Some (Num_remaining r)" unfolding pgs by (auto split: if_splits)
      have "\<forall>e\<in>elements par a. fresh_places par p pg st e = st e \<and> elts h' e = elts h e"
        using B(3) [OF a] old by (auto simp: fresh_places_def)
      moreover from this have "{e \<in> elements par a. fresh_places par p pg st e \<noteq> Gone} = {e \<in> elements par a. st e \<noteq> Gone}"
        by auto
      ultimately show "0 < r \<and> unat r = card {e \<in> elements par a. fresh_places par p pg st e \<noteq> Gone} \<and>
        (\<forall>e\<in>elements par a. (\<exists>x. elts h' e = Some x \<and> owner x = a OR 1) \<and>
          (\<forall>r. fresh_places par p pg st e = InFree r \<or> fresh_places par p pg st e = InMig r \<longrightarrow> r \<in> dying))"
        using orphan_invD [OF slab_invD(3) [OF inv] a] by simp
    qed
  qed (use fresh_pool_inv [OF par inv q pg pgs f old new] po in simp)
  then show ?thesis using run q po by auto
qed

section \<open>Allocation and release\<close>

definition same_control :: "(ptr \<Rightarrow> place) \<Rightarrow> (ptr \<Rightarrow> place) \<Rightarrow> bool" where
  "same_control st st' \<longleftrightarrow> (\<forall>e. \<forall>s\<in>{Held, Pending, Orphaning}. st' e = s \<longleftrightarrow> st e = s)"

lemma same_control_refl: "same_control st st"
  by (simp add: same_control_def)

lemma same_control_collected: "same_control st (collected p st)"
  by (auto simp: same_control_def collected_def)

lemma same_control_fresh:
  assumes "\<And>e. e \<in> elements par pg \<Longrightarrow> st e = Gone"
  shows "same_control st (fresh_places par p pg st)"
  using assms by (auto simp: same_control_def fresh_places_def)

lemma same_control_trans: "same_control st st' \<Longrightarrow> same_control st' st'' \<Longrightarrow> same_control st st''"
  by (simp add: same_control_def)

lemma slab_refill_inv:
  assumes par: "parent_ok par" and inv: "slab_inv par dying h st FL MG PL" and q: "pools h p = Some q"
    and pg: "pg = NULL \<or> malloc_ok par h pg"
  shows "\<exists>ok h' st' FL' MG' PL'. slab_refill par h p pg = Inr (ok, h') \<and> slab_inv par dying h' st' FL' MG' PL' \<and>
    (ok \<longleftrightarrow> FL' p \<noteq> []) \<and> (pg \<noteq> NULL \<longrightarrow> ok) \<and> same_control st st' \<and>
    (\<forall>a. a \<noteq> p \<longrightarrow> FL' a = FL a \<and> MG' a = MG a \<and> PL' a = PL a) \<and>
    (\<forall>a. map_option pool_parent (pools h' a) = map_option pool_parent (pools h a))"
proof (cases "FL p = []")
  case False
  then have "slab_refill par h p pg = Inr (True, h)"
    using q linked_NULL [OF pool_invD(1) [OF slab_invD(4) [OF inv q]]] by (simp add: slab_refill_def read_pool_def)
  then show ?thesis using inv same_control_refl False by blast
next
  case True
  note P = pool_invD [OF slab_invD(4) [OF inv q]]
  let ?q = "q\<lparr>pool_free := pool_migrated q, pool_migrated := NULL\<rparr>"
  let ?h = "set_pool p ?q h"
  have c: "slab_inv par dying ?h (collected p st) (FL(p := MG p)) (MG(p := [])) PL" by (rule collect_inv [OF inv q True])
  have parents: "map_option pool_parent (pools ?h a) = map_option pool_parent (pools h a)" for a
    using q by (simp add: set_pool_def)
  have run: "slab_refill par h p pg = (if MG p \<noteq> [] then Inr (True, ?h) else slab_add_new_page par ?h p pg)"
    using q linked_NULL [OF P(1)] linked_NULL [OF P(4)] True by (simp add: slab_refill_def read_pool_def Let_def)
  consider "MG p \<noteq> []" | "MG p = []" "pg = NULL" | "MG p = []" "malloc_ok par h pg" using pg by blast
  then show ?thesis
  proof cases
    case 1
    then show ?thesis using run c parents same_control_collected [of st p]
      by (intro exI [of _ True] exI [of _ ?h] exI [of _ "collected p st"] exI [of _ "FL(p := MG p)"]
          exI [of _ "MG(p := [])"] exI [of _ PL]) simp
  next
    case 2
    then show ?thesis using run c parents same_control_collected [of st p]
      by (intro exI [of _ False] exI [of _ ?h] exI [of _ "collected p st"] exI [of _ "FL(p := MG p)"]
          exI [of _ "MG(p := [])"] exI [of _ PL]) (simp add: slab_add_new_page_def)
  next
    case 3
    have m: "malloc_ok par ?h pg" using 3(2) by (simp add: malloc_ok_def set_pool_def)
    have q': "pools ?h p = Some ?q" by (simp add: set_pool_def)
    obtain h' where h': "slab_add_new_page par ?h p pg = Inr (True, h')"
      "slab_inv par dying h' (fresh_places par p pg (collected p st))
         ((FL(p := MG p))(p := rev (page_elements par pg) @ MG p)) (MG(p := [])) (PL(p := pg # PL p))"
      "\<And>a. map_option pool_parent (pools h' a) = map_option pool_parent (pools ?h a)"
      using slab_add_new_page_inv [OF par c q' m] by auto
    have "same_control st (fresh_places par p pg (collected p st))"
      using same_control_trans [OF same_control_collected same_control_fresh] fresh_block(2) [OF par c m] by blast
    moreover have "page_elements par pg \<noteq> []" using elements_nonempty [OF par, of pg] by auto
    ultimately show ?thesis
      using run 3(1) h' parents
      by (intro exI [of _ True] exI [of _ h'] exI [of _ "fresh_places par p pg (collected p st)"]
          exI [of _ "(FL(p := MG p))(p := rev (page_elements par pg) @ MG p)"]
          exI [of _ "MG(p := [])"] exI [of _ "PL(p := pg # PL p)"]) simp
  qed
qed

lemma slab_take_inv:
  assumes inv: "slab_inv par dying h st FL MG PL" and q: "pools h p = Some q" "FL p = e # es"
  shows "\<exists>h'. slab_take h p = Inr (e + elt_header_size, h') \<and> slab_inv par dying h' (st(e := Held)) (FL(p := es)) MG PL \<and>
    (\<forall>a. map_option pool_parent (pools h' a) = map_option pool_parent (pools h a))"
proof -
  obtain x where x: "pool_free q = e" "elts h e = Some x"
    using pool_invD(1) [OF slab_invD(4) [OF inv q(1)]] q(2) by auto
  have "elt_ok (elts h e) (st e)" "st e = InFree p"
    using slab_invD(2) [OF inv] list_elements(1) [OF inv q(1)] q(2) by (auto simp: place_inv_def)
  then have m: "magic x = SLAB_MAGIC_FREE" using x(2) by auto
  let ?h = "set_pool p (q\<lparr>pool_free := elt_next x\<rparr>) h"
  have "elts ?h e = Some x" using x(2) by (simp add: set_pool_def)
  from set_elt_inv [OF pop_free_inv [OF inv q x(2)] this, of "x\<lparr>magic := SLAB_MAGIC_ALLOCATED\<rparr>" Held]
  have "slab_inv par dying (set_elt e (x\<lparr>magic := SLAB_MAGIC_ALLOCATED\<rparr>) ?h) (st(e := Held)) (FL(p := es)) MG PL" by simp
  then show ?thesis
    using q(1) x m by (auto simp: slab_take_def read_pool_def read_elt_def set_elt_def set_pool_def Let_def)
qed

lemma set_elt_set_elt [simp]: "set_elt e x (set_elt e y h) = set_elt e x h"
  by (simp add: set_elt_def)

lemma slab_free_begin_inv:
  assumes par: "parent_ok par" and inv: "slab_inv par dying h st FL MG PL" and q: "pools h p = Some q"
    and e: "st e = Held"
  shows "\<exists>finished h'. slab_free_begin h p (e + elt_header_size) = Inr (finished, h') \<and>
    (if finished then slab_inv par dying h' (st(e := InFree p)) (FL(p := e # FL p)) MG PL
     else slab_inv par dying h' (st(e := Pending)) FL MG PL) \<and>
    (\<forall>a. map_option pool_parent (pools h' a) = map_option pool_parent (pools h a))"
proof -
  obtain x where x: "elts h e = Some x" using not_Gone [OF inv, of e] e by auto
  have "elt_ok (elts h e) (st e)" using slab_invD(2) [OF inv] by (simp add: place_inv_def)
  then have m: "magic x = SLAB_MAGIC_ALLOCATED" using x e by simp
  let ?x = "x\<lparr>magic := SLAB_MAGIC_FREE\<rparr>"
  let ?h = "set_elt e ?x h"
  have p: "slab_inv par dying ?h (st(e := Pending)) FL MG PL"
    by (rule set_elt_inv [OF inv x]) (simp_all add: e)
  show ?thesis
  proof (cases "owner x = p")
    case True
    let ?h' = "set_pool p (q\<lparr>pool_free := e\<rparr>) (set_elt e (?x\<lparr>elt_next := pool_free q\<rparr>) h)"
    have "pools ?h p = Some q" "elts ?h e = Some ?x" using q by (simp_all add: set_elt_def)
    from push_free_inv [OF par p this, of "?x\<lparr>elt_next := pool_free q\<rparr>"]
    have "slab_inv par dying ?h' (st(e := InFree p)) (FL(p := e # FL p)) MG PL" using True by simp
    then show ?thesis using True x m q
      by (intro exI [of _ True] exI [of _ ?h'])
        (simp add: slab_free_begin_def read_elt_def read_pool_def Let_def set_pool_def set_elt_def)
  next
    case False
    then show ?thesis using p x m
      by (intro exI [of _ False] exI [of _ ?h]) (simp add: slab_free_begin_def read_elt_def Let_def set_elt_def)
  qed
qed

lemma orphaning_inv:
  assumes inv: "slab_inv par dying h st FL MG PL" and e: "st e = Pending" "elts h e = Some x" "bit (owner x) 0"
  shows "slab_inv par dying h (st(e := Orphaning)) FL MG PL"
proof (rule slab_inv_relink [OF inv])
  show "place_inv h (st(e := Orphaning))" using slab_invD(2) [OF inv] e(2) by (simp add: place_inv_def)
  fix p q assume q: "pools h p = Some q"
  note P = pool_invD [OF slab_invD(4) [OF inv q]]
  show "linked (elts h) (pool_free q) (FL p) \<and> distinct (FL p) \<and> set (FL p) = {a. (st(e := Orphaning)) a = InFree p}"
    "linked (elts h) (pool_migrated q) (MG p) \<and> distinct (MG p) \<and> set (MG p) = {a. (st(e := Orphaning)) a = InMig p}"
    using P(1-6) e(1) by auto
qed (use e in \<open>auto split: if_splits\<close>)

lemma slab_free_locked_inv:
  assumes par: "parent_ok par" and inv: "slab_inv par dying h st FL MG PL" and e: "st e = Pending"
  shows "(\<exists>h' p. slab_free_locked h e = Inr (True, h') \<and> PL p \<noteq> [] \<and>
      slab_inv par dying h' (st(e := InMig p)) FL (MG(p := e # MG p)) PL \<and>
      (\<forall>a. map_option pool_parent (pools h' a) = map_option pool_parent (pools h a))) \<or>
    slab_free_locked h e = Inr (False, h) \<and> slab_inv par dying h (st(e := Orphaning)) FL MG PL"
proof -
  obtain x where x: "elts h e = Some x" using not_Gone [OF inv, of e] e by auto
  have "elt_ok (elts h e) (st e)" using slab_invD(2) [OF inv] by (simp add: place_inv_def)
  then have m: "magic x = SLAB_MAGIC_FREE" using x e by simp
  show ?thesis using inv x
  proof (cases rule: owner_cases)
    case (owned pg q)
    let ?h' = "set_pool (owner x) (q\<lparr>pool_migrated := e\<rparr>) (set_elt e (x\<lparr>elt_next := pool_migrated q\<rparr>) h)"
    from push_migrated_inv [OF par inv owned(2) x _ e, of "x\<lparr>elt_next := pool_migrated q\<rparr>"]
    have "slab_inv par dying ?h' (st(e := InMig (owner x))) FL (MG(owner x := e # MG (owner x))) PL" using m by simp
    then show ?thesis using owned x
      by (intro disjI1 exI [of _ ?h'] exI [of _ "owner x"])
        (auto simp: slab_free_locked_def read_elt_def read_pool_def and_1_eq_0 set_pool_def set_elt_def)
  next
    case (orphaned pg r)
    then show ?thesis using orphaning_inv [OF inv e x orphaned(1)] x
      by (simp add: slab_free_locked_def read_elt_def and_1_eq_0)
  qed
qed

end
