(* ===== verification/Slab_Machine.thy ===== *)
theory Slab_Machine
  imports Slab_Invariant
begin

text \<open>
  Every interleaving of slab calls by any number of threads. A machine state holds the memory,
  where each pool stands in its calls, which destruction holds the parent's mutex, the objects
  in the hands of clients and the elements on their way through \<^verbatim>\<open>slab_free\<close>. A call is divided into
  the atomic parts of the model of \<^verbatim>\<open>slab.c\<close>: what happens under the mutex or touches only the
  pool of the calling thread is one part, and each turn of the loops of \<^verbatim>\<open>slab_destroy_child\<close> is one.
  The memory of a pool is released as soon as its destruction is over.
\<close>

section \<open>The machine\<close>

datatype phase = Idle | Taking | Orphan_pages | Drop_migrated | Drop_free

record slab_state =
  heap :: slab_heap
  phases :: "ptr \<Rightarrow> phase option"
  mutex :: "ptr option"
  held :: "ptr set"
  pending :: "ptr set"
  orphaning :: "ptr set"

text \<open>The calls: the first part of \<^verbatim>\<open>slab_alloc\<close> with the block that \<^verbatim>\<open>malloc\<close> returns if asked, and the
  second; the three parts of \<^verbatim>\<open>slab_free\<close>; the beginning and one turn of \<^verbatim>\<open>slab_destroy_child\<close>.\<close>

datatype slab_call =
    Create ptr ptr
  | Refill ptr ptr
  | Take ptr
  | Free_begin ptr ptr
  | Free_locked ptr
  | Free_orphaned ptr
  | Destroy ptr
  | Destroy_turn ptr

text \<open>What clients and the mutex allow: one thread at a time in a pool, only objects in use are
  freed, blocks of \<^verbatim>\<open>malloc\<close> are fresh, and nobody enters the mutex while it is held.\<close>

definition enabled :: "slab_parent_pool \<Rightarrow> slab_state \<Rightarrow> slab_call \<Rightarrow> bool" where
  "enabled par s c = (case c of
      Create p parent \<Rightarrow> phases s p = None \<and> p \<noteq> NULL \<and> \<not> bit p 0 \<and> parent \<noteq> NULL
    | Refill p page \<Rightarrow> phases s p = Some Idle \<and>
        (mutex s = None \<or> map_option pool_free (pools (heap s) p) \<noteq> Some NULL) \<and>
        (page = NULL \<or> malloc_ok par (heap s) page)
    | Take p \<Rightarrow> phases s p = Some Taking
    | Free_begin p obj \<Rightarrow> phases s p = Some Idle \<and> obj \<in> held s
    | Free_locked e \<Rightarrow> e \<in> pending s \<and> mutex s = None
    | Free_orphaned e \<Rightarrow> e \<in> orphaning s
    | Destroy p \<Rightarrow> phases s p = Some Idle \<and> mutex s = None
    | Destroy_turn p \<Rightarrow> phases s p \<in> {Some Orphan_pages, Some Drop_migrated, Some Drop_free})"

definition destroy_turn :: "slab_parent_pool \<Rightarrow> ptr \<Rightarrow> phase \<Rightarrow> slab_heap \<Rightarrow> c_error + bool \<times> slab_heap" where
  "destroy_turn par p ph h = (case ph of
      Orphan_pages \<Rightarrow> destroy_page par p h
    | Drop_migrated \<Rightarrow> destroy_migrated par p h
    | _ \<Rightarrow> destroy_free par p h)"

text \<open>The end of each loop: the next loop, the release of the mutex, the end of the destruction.\<close>

definition finish_loop :: "ptr \<Rightarrow> phase \<Rightarrow> slab_state \<Rightarrow> c_error + slab_state" where
  "finish_loop p ph s = (case ph of
      Orphan_pages \<Rightarrow> Inr (s\<lparr>phases := (phases s)(p \<mapsto> Drop_migrated)\<rparr>)
    | Drop_migrated \<Rightarrow> Inr (s\<lparr>phases := (phases s)(p \<mapsto> Drop_free), mutex := None\<rparr>)
    | _ \<Rightarrow> bind_result (read_pool (heap s) p) (\<lambda>q.
        Inr (s\<lparr>heap := (heap s)\<lparr>pools := (pools (set_pool p (q\<lparr>pool_parent := NULL\<rparr>) (heap s)))(p := None)\<rparr>,
               phases := (phases s)(p := None)\<rparr>)))"

definition exec :: "slab_parent_pool \<Rightarrow> slab_call \<Rightarrow> slab_state \<Rightarrow> c_error + slab_state" where
  "exec par c s = (case c of
      Create p parent \<Rightarrow>
        Inr (s\<lparr>heap := slab_create_child (heap s) p parent, phases := (phases s)(p \<mapsto> Idle)\<rparr>)
    | Refill p page \<Rightarrow> bind_result (slab_refill par (heap s) p page) (\<lambda>(ok, h).
        Inr (s\<lparr>heap := h, phases := (phases s)(p \<mapsto> if ok then Taking else Idle)\<rparr>))
    | Take p \<Rightarrow> bind_result (slab_take (heap s) p) (\<lambda>(obj, h).
        Inr (s\<lparr>heap := h, phases := (phases s)(p \<mapsto> Idle), held := insert obj (held s)\<rparr>))
    | Free_begin p obj \<Rightarrow> bind_result (slab_free_begin (heap s) p obj) (\<lambda>(finished, h).
        Inr (s\<lparr>heap := h, held := held s - {obj},
               pending := if finished then pending s else insert (obj - elt_header_size) (pending s)\<rparr>))
    | Free_locked e \<Rightarrow> bind_result (slab_free_locked (heap s) e) (\<lambda>(finished, h).
        Inr (s\<lparr>heap := h, pending := pending s - {e},
               orphaning := if finished then orphaning s else insert e (orphaning s)\<rparr>))
    | Free_orphaned e \<Rightarrow> bind_result (slab_free_orphaned par (heap s) e) (\<lambda>h.
        Inr (s\<lparr>heap := h, orphaning := orphaning s - {e}\<rparr>))
    | Destroy p \<Rightarrow> bind_result (read_pool (heap s) p) (\<lambda>q.
        if pool_parent q = NULL then Inr s
        else Inr (s\<lparr>phases := (phases s)(p \<mapsto> Orphan_pages), mutex := Some p\<rparr>))
    | Destroy_turn p \<Rightarrow> (case phases s p of
          None \<Rightarrow> Inl Bad_access
        | Some ph \<Rightarrow> bind_result (destroy_turn par p ph (heap s)) (\<lambda>(again, h).
            if again then Inr (s\<lparr>heap := h\<rparr>) else finish_loop p ph (s\<lparr>heap := h\<rparr>))))"

definition start :: slab_state where
  "start = \<lparr>heap = \<lparr>elts = Map.empty, page_hdrs = Map.empty, pools = Map.empty\<rparr>, phases = Map.empty,
            mutex = None, held = {}, pending = {}, orphaning = {}\<rparr>"

inductive slab_reach :: "slab_parent_pool \<Rightarrow> slab_state \<Rightarrow> slab_state \<Rightarrow> bool" for par s0 where
  refl: "slab_reach par s0 s0"
| step: "slab_reach par s0 s \<Longrightarrow> enabled par s c \<Longrightarrow> exec par c s = Inr s' \<Longrightarrow> slab_reach par s0 s'"

abbreviation reachable :: "slab_parent_pool \<Rightarrow> slab_state \<Rightarrow> bool" where
  "reachable par s \<equiv> slab_reach par start s"

lemma slab_reach_trans: "slab_reach par s1 s2 \<Longrightarrow> slab_reach par s0 s1 \<Longrightarrow> slab_reach par s0 s2"
  by (induction rule: slab_reach.induct) (auto intro: slab_reach.intros)

section \<open>The invariant of the machine\<close>

definition dying_pools :: "slab_state \<Rightarrow> ptr set" where
  "dying_pools s = {p. phases s p \<in> {Some Orphan_pages, Some Drop_migrated, Some Drop_free}}"

text \<open>The control state agrees with the places of the elements and with the lists.\<close>

definition control_inv ::
  "slab_state \<Rightarrow> (ptr \<Rightarrow> place) \<Rightarrow> (ptr \<Rightarrow> ptr list) \<Rightarrow> (ptr \<Rightarrow> ptr list) \<Rightarrow> (ptr \<Rightarrow> ptr list) \<Rightarrow> bool"
where
  "control_inv s st FL MG PL \<longleftrightarrow>
     held s = (\<lambda>e. e + elt_header_size) ` {e. st e = Held} \<and> pending s = {e. st e = Pending} \<and>
     orphaning s = {e. st e = Orphaning} \<and>
     (\<forall>p. phases s p = Some Taking \<longrightarrow> FL p \<noteq> []) \<and>
     (\<forall>p. phases s p \<in> {Some Drop_migrated, Some Drop_free} \<longrightarrow> PL p = []) \<and>
     (\<forall>p. phases s p = Some Drop_free \<longrightarrow> MG p = []) \<and>
     dom (phases s) = dom (pools (heap s)) \<and> (\<forall>q\<in>ran (pools (heap s)). pool_parent q \<noteq> NULL)"

definition machine_inv ::
  "slab_parent_pool \<Rightarrow> slab_state \<Rightarrow> (ptr \<Rightarrow> place) \<Rightarrow> (ptr \<Rightarrow> ptr list) \<Rightarrow> (ptr \<Rightarrow> ptr list) \<Rightarrow> (ptr \<Rightarrow> ptr list) \<Rightarrow> bool"
where
  "machine_inv par s st FL MG PL \<longleftrightarrow>
     slab_inv par (dying_pools s) (heap s) st FL MG PL \<and> control_inv s st FL MG PL"

lemma machine_invI:
  assumes "slab_inv par (dying_pools s) (heap s) st FL MG PL" "control_inv s st FL MG PL"
  shows "machine_inv par s st FL MG PL"
  using assms by (simp add: machine_inv_def)

lemma machine_invD:
  assumes "machine_inv par s st FL MG PL"
  shows "slab_inv par (dying_pools s) (heap s) st FL MG PL" "control_inv s st FL MG PL"
  using assms by (simp_all add: machine_inv_def)

lemma control_invD:
  assumes "control_inv s st FL MG PL"
  shows "held s = (\<lambda>e. e + elt_header_size) ` {e. st e = Held}" "pending s = {e. st e = Pending}"
    "orphaning s = {e. st e = Orphaning}" "phases s p = Some Taking \<Longrightarrow> FL p \<noteq> []"
    "phases s p \<in> {Some Drop_migrated, Some Drop_free} \<Longrightarrow> PL p = []" "phases s p = Some Drop_free \<Longrightarrow> MG p = []"
    "dom (phases s) = dom (pools (heap s))" "\<forall>q\<in>ran (pools (heap s)). pool_parent q \<noteq> NULL"
  using assms by (auto simp: control_inv_def)

lemma phase_pool: "control_inv s st FL MG PL \<Longrightarrow> phases s p = Some ph \<Longrightarrow> \<exists>q. pools (heap s) p = Some q"
  by (drule control_invD(7)) blast

definition same_parents :: "slab_heap \<Rightarrow> slab_heap \<Rightarrow> bool" where
  "same_parents h h' \<longleftrightarrow> (\<forall>a. map_option pool_parent (pools h' a) = map_option pool_parent (pools h a))"

lemma same_parentsD:
  assumes "same_parents h h'"
  shows "dom (pools h') = dom (pools h)"
    "\<forall>q\<in>ran (pools h). pool_parent q \<noteq> NULL \<Longrightarrow> \<forall>q\<in>ran (pools h'). pool_parent q \<noteq> NULL"
proof -
  have eq: "map_option pool_parent (pools h' a) = map_option pool_parent (pools h a)" for a
    using assms by (simp add: same_parents_def)
  show "dom (pools h') = dom (pools h)" by (rule map_option_dom [OF eq])
  assume nn: "\<forall>q\<in>ran (pools h). pool_parent q \<noteq> NULL"
  show "\<forall>q\<in>ran (pools h'). pool_parent q \<noteq> NULL"
  proof
    fix q assume "q \<in> ran (pools h')"
    then obtain a where a: "pools h' a = Some q" by (auto simp: ran_def)
    then obtain q0 where "pools h a = Some q0" "pool_parent q0 = pool_parent q"
      using eq [of a] by (cases "pools h a") auto
    then show "pool_parent q \<noteq> NULL" using nn by (auto simp: ran_def)
  qed
qed

text \<open>A part that changes lists of the live pools only.\<close>

lemma control_inv_step:
  assumes inv: "control_inv s st FL MG PL" and h: "same_parents (heap s) h'"
    and control: "held' = (\<lambda>e. e + elt_header_size) ` {e. st' e = Held}" "pending' = {e. st' e = Pending}"
      "orphaning' = {e. st' e = Orphaning}"
    and dom: "dom phases' = dom (phases s)"
    and lists: "\<And>p. phases' p = Some Taking \<Longrightarrow> FL' p \<noteq> []"
      "\<And>p. phases' p \<in> {Some Drop_migrated, Some Drop_free} \<Longrightarrow> PL' p = []"
      "\<And>p. phases' p = Some Drop_free \<Longrightarrow> MG' p = []"
  shows "control_inv \<lparr>heap = h', phases = phases', mutex = m, held = held', pending = pending', orphaning = orphaning'\<rparr>
    st' FL' MG' PL'"
  using lists control_invD(7,8) [OF inv] same_parentsD [OF h] by (simp add: control_inv_def control dom)

lemma Create_inv:
  assumes inv: "machine_inv par s st FL MG PL" and en: "enabled par s (Create p parent)"
  shows "\<exists>s' st' FL' MG' PL'. exec par (Create p parent) s = Inr s' \<and> machine_inv par s' st' FL' MG' PL'"
proof -
  note M = machine_invD [OF inv] and C = control_invD [OF machine_invD(2) [OF inv]]
  have p: "phases s p = None" "p \<noteq> NULL" "\<not> bit p 0" "parent \<noteq> NULL" using en by (simp_all add: enabled_def)
  let ?s = "s\<lparr>heap := slab_create_child (heap s) p parent, phases := (phases s)(p \<mapsto> Idle)\<rparr>"
  have none: "pools (heap s) p = None" using p(1) C(7) by blast
  have "dying_pools ?s = dying_pools s" using p(1) by (auto simp: dying_pools_def)
  then have "slab_inv par (dying_pools ?s) (heap ?s) st (FL(p := [])) (MG(p := [])) (PL(p := []))"
    using slab_create_child_inv [OF M(1) none p(2,3)] by simp
  moreover have "control_inv ?s st (FL(p := [])) (MG(p := [])) (PL(p := []))"
    using C p(4) by (auto simp: control_inv_def slab_create_child_def set_pool_def ran_def)
  ultimately have "machine_inv par ?s st (FL(p := [])) (MG(p := [])) (PL(p := []))" by (rule machine_invI)
  moreover have "exec par (Create p parent) s = Inr ?s" by (simp add: exec_def)
  ultimately show ?thesis by blast
qed

lemma Refill_inv:
  assumes par: "parent_ok par" and inv: "machine_inv par s st FL MG PL" and en: "enabled par s (Refill p pg)"
  shows "\<exists>s' st' FL' MG' PL'. exec par (Refill p pg) s = Inr s' \<and> machine_inv par s' st' FL' MG' PL'"
proof -
  note M = machine_invD [OF inv] and C = control_invD [OF machine_invD(2) [OF inv]]
  have p: "phases s p = Some Idle" "pg = NULL \<or> malloc_ok par (heap s) pg" using en by (simp_all add: enabled_def)
  obtain q where q: "pools (heap s) p = Some q" using phase_pool [OF M(2) p(1)] by blast
  obtain ok h' st' FL' MG' PL' where r: "slab_refill par (heap s) p pg = Inr (ok, h')"
    "slab_inv par (dying_pools s) h' st' FL' MG' PL'" "ok \<longleftrightarrow> FL' p \<noteq> []" "same_control st st'"
    "\<forall>a. a \<noteq> p \<longrightarrow> FL' a = FL a \<and> MG' a = MG a \<and> PL' a = PL a" "same_parents (heap s) h'"
    using slab_refill_inv [OF par M(1) q p(2)] unfolding same_parents_def by blast
  let ?ph = "(phases s)(p \<mapsto> if ok then Taking else Idle)"
  let ?s = "s\<lparr>heap := h', phases := ?ph\<rparr>"
  have "control_inv \<lparr>heap = h', phases = ?ph, mutex = mutex s, held = held s, pending = pending s, orphaning = orphaning s\<rparr>
      st' FL' MG' PL'"
  proof (rule control_inv_step [OF M(2) r(6)])
    show "held s = (\<lambda>e. e + elt_header_size) ` {e. st' e = Held}" "pending s = {e. st' e = Pending}"
      "orphaning s = {e. st' e = Orphaning}"
      using C(1-3) r(4) by (simp_all add: same_control_def)
    show "dom ?ph = dom (phases s)" using p(1) by auto
    fix a
    show "?ph a = Some Taking \<Longrightarrow> FL' a \<noteq> []" "?ph a \<in> {Some Drop_migrated, Some Drop_free} \<Longrightarrow> PL' a = []"
      "?ph a = Some Drop_free \<Longrightarrow> MG' a = []"
      using r(3,5) C(4-6) [of a] by (auto split: if_splits)
  qed
  then have "control_inv ?s st' FL' MG' PL'" by (cases s) simp
  moreover have "dying_pools ?s = dying_pools s" using p(1) by (auto simp: dying_pools_def)
  ultimately have "machine_inv par ?s st' FL' MG' PL'" using r(2) by (intro machine_invI) simp_all
  moreover have "exec par (Refill p pg) s = Inr ?s" using r(1) by (simp add: exec_def)
  ultimately show ?thesis by blast
qed

lemma Take_inv:
  assumes inv: "machine_inv par s st FL MG PL" and en: "enabled par s (Take p)"
  shows "\<exists>s' st' FL' MG' PL'. exec par (Take p) s = Inr s' \<and> machine_inv par s' st' FL' MG' PL'"
proof -
  note M = machine_invD [OF inv] and C = control_invD [OF machine_invD(2) [OF inv]]
  have p: "phases s p = Some Taking" using en by (simp add: enabled_def)
  obtain q where q: "pools (heap s) p = Some q" using phase_pool [OF M(2) p] by blast
  obtain e es where e: "FL p = e # es" using C(4) [OF p] by (cases "FL p") auto
  obtain h' where r: "slab_take (heap s) p = Inr (e + elt_header_size, h')"
    "slab_inv par (dying_pools s) h' (st(e := Held)) (FL(p := es)) MG PL" "same_parents (heap s) h'"
    using slab_take_inv [OF M(1) q e] unfolding same_parents_def by blast
  have st: "st e = InFree p" using list_elements(1) [OF M(1) q] e by auto
  let ?ph = "(phases s)(p \<mapsto> Idle)" and ?held = "insert (e + elt_header_size) (held s)"
  let ?s = "s\<lparr>heap := h', phases := ?ph, held := ?held\<rparr>"
  have "control_inv \<lparr>heap = h', phases = ?ph, mutex = mutex s, held = ?held, pending = pending s, orphaning = orphaning s\<rparr>
      (st(e := Held)) (FL(p := es)) MG PL"
  proof (rule control_inv_step [OF M(2) r(3)])
    have "{a. (st(e := Held)) a = Held} = insert e {a. st a = Held}" by auto
    then show "?held = (\<lambda>e. e + elt_header_size) ` {a. (st(e := Held)) a = Held}" using C(1) by simp
    show "pending s = {a. (st(e := Held)) a = Pending}" "orphaning s = {a. (st(e := Held)) a = Orphaning}"
      using C(2,3) st by auto
    show "dom ?ph = dom (phases s)" using p by auto
    fix a
    show "?ph a = Some Taking \<Longrightarrow> (FL(p := es)) a \<noteq> []" "?ph a \<in> {Some Drop_migrated, Some Drop_free} \<Longrightarrow> PL a = []"
      "?ph a = Some Drop_free \<Longrightarrow> MG a = []"
      using C(4-6) [of a] by (auto split: if_splits)
  qed
  then have "control_inv ?s (st(e := Held)) (FL(p := es)) MG PL" by (cases s) simp
  moreover have "dying_pools ?s = dying_pools s" using p by (auto simp: dying_pools_def)
  ultimately have "machine_inv par ?s (st(e := Held)) (FL(p := es)) MG PL" using r(2) by (intro machine_invI) simp_all
  moreover have "exec par (Take p) s = Inr ?s" using r(1) by (simp add: exec_def)
  ultimately show ?thesis by blast
qed

lemma Free_begin_inv:
  assumes par: "parent_ok par" and inv: "machine_inv par s st FL MG PL" and en: "enabled par s (Free_begin p obj)"
  shows "\<exists>s' st' FL' MG' PL'. exec par (Free_begin p obj) s = Inr s' \<and> machine_inv par s' st' FL' MG' PL'"
proof -
  note M = machine_invD [OF inv] and C = control_invD [OF machine_invD(2) [OF inv]]
  have p: "phases s p = Some Idle" "obj \<in> held s" using en by (simp_all add: enabled_def)
  obtain q where q: "pools (heap s) p = Some q" using phase_pool [OF M(2) p(1)] by blast
  obtain e where e: "obj = e + elt_header_size" "st e = Held" using p(2) C(1) by auto
  obtain fin h' where r': "slab_free_begin (heap s) p obj = Inr (fin, h') \<and>
    (if fin then slab_inv par (dying_pools s) h' (st(e := InFree p)) (FL(p := e # FL p)) MG PL
     else slab_inv par (dying_pools s) h' (st(e := Pending)) FL MG PL) \<and> same_parents (heap s) h'"
    using slab_free_begin_inv [OF par M(1) q e(2)] unfolding same_parents_def e(1) by (elim exE)
  note r = r' [THEN conjunct1] r' [THEN conjunct2, THEN conjunct2] r' [THEN conjunct2, THEN conjunct1]
  define st' where "st' = st(e := if fin then InFree p else Pending)"
  define FL' where "FL' = (if fin then FL(p := e # FL p) else FL)"
  have S: "slab_inv par (dying_pools s) h' st' FL' MG PL" using r(3) by (simp add: st'_def FL'_def split: if_splits)
  let ?pe = "if fin then pending s else insert e (pending s)"
  let ?s = "s\<lparr>heap := h', held := held s - {obj}, pending := ?pe\<rparr>"
  have "control_inv \<lparr>heap = h', phases = phases s, mutex = mutex s, held = held s - {obj}, pending = ?pe,
      orphaning = orphaning s\<rparr> st' FL' MG PL"
  proof (rule control_inv_step [OF M(2) r(2)])
    have "{a. st' a = Held} = {a. st a = Held} - {e}" by (auto simp: st'_def)
    then show "held s - {obj} = (\<lambda>e. e + elt_header_size) ` {a. st' a = Held}" using C(1) e(1)
      by (simp add: image_set_diff)
    show "?pe = {a. st' a = Pending}" "orphaning s = {a. st' a = Orphaning}"
      using C(2,3) e(2) by (auto simp: st'_def)
    show "phases s a = Some Taking \<Longrightarrow> FL' a \<noteq> []" "phases s a \<in> {Some Drop_migrated, Some Drop_free} \<Longrightarrow> PL a = []"
      "phases s a = Some Drop_free \<Longrightarrow> MG a = []" for a
      using C(4-6) [of a] by (simp_all add: FL'_def)
  qed simp
  then have "control_inv ?s st' FL' MG PL" by (cases s) simp
  then have "machine_inv par ?s st' FL' MG PL" using S by (intro machine_invI) (simp_all add: dying_pools_def)
  moreover have "exec par (Free_begin p obj) s = Inr ?s" using r(1) by (simp add: exec_def e(1))
  ultimately show ?thesis by blast
qed

lemma Free_locked_inv:
  assumes par: "parent_ok par" and inv: "machine_inv par s st FL MG PL" and en: "enabled par s (Free_locked e)"
  shows "\<exists>s' st' FL' MG' PL'. exec par (Free_locked e) s = Inr s' \<and> machine_inv par s' st' FL' MG' PL'"
proof -
  note M = machine_invD [OF inv] and C = control_invD [OF machine_invD(2) [OF inv]]
  have e: "st e = Pending" using en C(2) by (simp add: enabled_def)
  consider h' p where "slab_free_locked (heap s) e = Inr (True, h')" "PL p \<noteq> []" "same_parents (heap s) h'"
      "slab_inv par (dying_pools s) h' (st(e := InMig p)) FL (MG(p := e # MG p)) PL"
    | "slab_free_locked (heap s) e = Inr (False, heap s)" "slab_inv par (dying_pools s) (heap s) (st(e := Orphaning)) FL MG PL"
    using slab_free_locked_inv [OF par M(1) e] unfolding same_parents_def by blast
  then show ?thesis
  proof cases
    case (1 h' p)
    let ?s = "s\<lparr>heap := h', pending := pending s - {e}\<rparr>"
    have "control_inv \<lparr>heap = h', phases = phases s, mutex = mutex s, held = held s, pending = pending s - {e},
        orphaning = orphaning s\<rparr> (st(e := InMig p)) FL (MG(p := e # MG p)) PL"
    proof (rule control_inv_step [OF M(2) 1(3)])
      show "phases s a = Some Drop_free \<Longrightarrow> (MG(p := e # MG p)) a = []" for a using C(5,6) [of a] 1(2) by auto
      have "{a. (st(e := InMig p)) a = Held} = {a. st a = Held}" using e by auto
      then show "held s = (\<lambda>e. e + elt_header_size) ` {a. (st(e := InMig p)) a = Held}" using C(1) by simp
      show "phases s a = Some Taking \<Longrightarrow> FL a \<noteq> []" "phases s a \<in> {Some Drop_migrated, Some Drop_free} \<Longrightarrow> PL a = []" for a
        using C(4,5) [of a] by simp_all
    qed (use C(2,3) e in auto)
    then have "control_inv ?s (st(e := InMig p)) FL (MG(p := e # MG p)) PL" by (cases s) simp
    then have "machine_inv par ?s (st(e := InMig p)) FL (MG(p := e # MG p)) PL"
      using 1(4) by (intro machine_invI) (simp_all add: dying_pools_def)
    moreover have "exec par (Free_locked e) s = Inr ?s" using 1(1) by (simp add: exec_def)
    ultimately show ?thesis by blast
  next
    case 2
    let ?s = "s\<lparr>pending := pending s - {e}, orphaning := insert e (orphaning s)\<rparr>"
    have "{a. (st(e := Orphaning)) a = Held} = {a. st a = Held}" using e by auto
    then have "control_inv ?s (st(e := Orphaning)) FL MG PL" using C e by (auto simp: control_inv_def)
    then have "machine_inv par ?s (st(e := Orphaning)) FL MG PL"
      using 2(2) by (intro machine_invI) (simp_all add: dying_pools_def)
    moreover have "exec par (Free_locked e) s = Inr ?s" using 2(1) by (simp add: exec_def)
    ultimately show ?thesis by blast
  qed
qed

lemma Free_orphaned_inv:
  assumes par: "parent_ok par" and inv: "machine_inv par s st FL MG PL" and en: "enabled par s (Free_orphaned e)"
  shows "\<exists>s' st' FL' MG' PL'. exec par (Free_orphaned e) s = Inr s' \<and> machine_inv par s' st' FL' MG' PL'"
proof -
  note M = machine_invD [OF inv] and C = control_invD [OF machine_invD(2) [OF inv]]
  have e: "st e = Orphaning" using en C(3) by (simp add: enabled_def)
  obtain x where x: "elts (heap s) e = Some x" using not_Gone [OF M(1), of e] e by auto
  have "bit (owner x) 0" using M(1) x
  proof (cases rule: owner_cases)
    case (owned pg q)
    then show ?thesis using pool_invD(10) [OF slab_invD(4) [OF M(1) owned(2)] owned(3,4)] e by simp
  qed simp
  then obtain h' where r: "slab_free_orphaned par (heap s) e = Inr h'"
    "slab_inv par (dying_pools s) h' (st(e := Gone)) FL MG PL" "pools h' = pools (heap s)"
    using slab_free_orphaned_inv [OF par M(1) x] e by auto
  let ?s = "s\<lparr>heap := h', orphaning := orphaning s - {e}\<rparr>"
  have "{a. (st(e := Gone)) a = Held} = {a. st a = Held}" using e by auto
  then have "control_inv ?s (st(e := Gone)) FL MG PL" using C e r(3) by (auto simp: control_inv_def)
  then have "machine_inv par ?s (st(e := Gone)) FL MG PL" using r(2) by (intro machine_invI) (simp_all add: dying_pools_def)
  moreover have "exec par (Free_orphaned e) s = Inr ?s" using r(1) by (simp add: exec_def)
  ultimately show ?thesis by blast
qed

lemma Destroy_inv:
  assumes inv: "machine_inv par s st FL MG PL" and en: "enabled par s (Destroy p)"
  shows "exec par (Destroy p) s = Inr (s\<lparr>phases := (phases s)(p \<mapsto> Orphan_pages), mutex := Some p\<rparr>) \<and>
    machine_inv par (s\<lparr>phases := (phases s)(p \<mapsto> Orphan_pages), mutex := Some p\<rparr>) st FL MG PL"
proof -
  note M = machine_invD [OF inv] and C = control_invD [OF machine_invD(2) [OF inv]]
  have p: "phases s p = Some Idle" using en by (simp add: enabled_def)
  obtain q where q: "pools (heap s) p = Some q" using phase_pool [OF M(2) p] by blast
  let ?s = "s\<lparr>phases := (phases s)(p \<mapsto> Orphan_pages), mutex := Some p\<rparr>"
  have "pool_parent q \<noteq> NULL" using q C(8) by (auto simp: ran_def)
  then have "exec par (Destroy p) s = Inr ?s" using q by (simp add: exec_def read_pool_def)
  moreover have "dying_pools ?s = insert p (dying_pools s)" using p by (auto simp: dying_pools_def)
  then have "slab_inv par (dying_pools ?s) (heap ?s) st FL MG PL"
    using slab_inv_dying [OF M(1), of p] q by auto
  moreover have "control_inv ?s st FL MG PL" using C q by (auto simp: control_inv_def)
  ultimately show ?thesis using machine_invI by blast
qed

text \<open>A turn of a destruction loop: the turn does its work, or it ends the loop.\<close>

lemma turn_work:
  assumes M: "slab_inv par (dying_pools s) (heap s) st FL MG PL" "control_inv s st FL MG PL"
    and p: "phases s p = Some ph" and h: "same_parents (heap s) h'"
    and slab: "slab_inv par (dying_pools s) h' st' FL' MG' PL'"
    and control: "{e. st' e = Held} = {e. st e = Held}" "{e. st' e = Pending} = {e. st e = Pending}"
      "{e. st' e = Orphaning} = {e. st e = Orphaning}"
    and lists: "\<And>a. a \<noteq> p \<Longrightarrow> FL' a = FL a" "\<And>a. PL a = [] \<Longrightarrow> PL' a = []" "\<And>a. MG a = [] \<Longrightarrow> MG' a = []"
    and ph: "ph \<noteq> Taking"
  shows "machine_inv par (s\<lparr>heap := h'\<rparr>) st' FL' MG' PL'"
proof (rule machine_invI)
  note C = control_invD [OF M(2)]
  show "slab_inv par (dying_pools (s\<lparr>heap := h'\<rparr>)) (heap (s\<lparr>heap := h'\<rparr>)) st' FL' MG' PL'"
    using slab by (simp add: dying_pools_def)
  have "control_inv \<lparr>heap = h', phases = phases s, mutex = mutex s, held = held s, pending = pending s,
      orphaning = orphaning s\<rparr> st' FL' MG' PL'"
  proof (rule control_inv_step [OF M(2) h])
    fix a
    show "FL' a \<noteq> []" if "phases s a = Some Taking"
    proof -
      have "a \<noteq> p" using that p ph by auto
      then show ?thesis using lists(1) C(4) [OF that] by simp
    qed
    show "phases s a \<in> {Some Drop_migrated, Some Drop_free} \<Longrightarrow> PL' a = []" using C(5) [of a] lists(2) [of a] by blast
    show "phases s a = Some Drop_free \<Longrightarrow> MG' a = []" using C(6) [of a] lists(3) [of a] by blast
  qed (use C(1-3) control in simp_all)
  then show "control_inv (s\<lparr>heap := h'\<rparr>) st' FL' MG' PL'" by (cases s) simp
qed

lemma gone_control:
  assumes "st e = InFree p \<or> st e = InMig p"
  shows "{a. (st(e := Gone)) a = Held} = {a. st a = Held}" "{a. (st(e := Gone)) a = Pending} = {a. st a = Pending}"
    "{a. (st(e := Gone)) a = Orphaning} = {a. st a = Orphaning}"
  using assms by auto

lemma Orphan_pages_inv:
  assumes par: "parent_ok par" and inv: "machine_inv par s st FL MG PL" and p: "phases s p = Some Orphan_pages"
  shows "\<exists>s' st' FL' MG' PL'. exec par (Destroy_turn p) s = Inr s' \<and> machine_inv par s' st' FL' MG' PL'"
proof -
  note M = machine_invD [OF inv]
  obtain q where q: "pools (heap s) p = Some q" using phase_pool [OF M(2) p] by blast
  have d: "p \<in> dying_pools s" using p by (simp add: dying_pools_def)
  show ?thesis
  proof (cases "PL p")
    case Nil
    let ?s = "s\<lparr>phases := (phases s)(p \<mapsto> Drop_migrated)\<rparr>"
    have "exec par (Destroy_turn p) s = Inr ?s"
      using destroy_nil(1) [OF M(1) q Nil] p by (simp add: exec_def destroy_turn_def finish_loop_def)
    moreover have "dying_pools ?s = dying_pools s" using p by (auto simp: dying_pools_def)
    moreover have "control_inv ?s st FL MG PL"
      using control_invD [OF M(2)] p Nil by (auto simp: control_inv_def)
    ultimately have "exec par (Destroy_turn p) s = Inr ?s \<and> machine_inv par ?s st FL MG PL"
      using M(1) by (simp add: machine_inv_def)
    then show ?thesis by blast
  next
    case (Cons pg pgs)
    obtain h' where h': "destroy_page par p (heap s) = Inr (True, h')"
      "slab_inv par (dying_pools s) h' st FL MG (PL(p := pgs))" "same_parents (heap s) h'"
      using destroy_page_inv [OF par M(1) q Cons d] unfolding same_parents_def by blast
    have "machine_inv par (s\<lparr>heap := h'\<rparr>) st FL MG (PL(p := pgs))"
      by (rule turn_work [OF M p h'(3,2)]) (auto simp: Cons)
    moreover have "exec par (Destroy_turn p) s = Inr (s\<lparr>heap := h'\<rparr>)"
      using h'(1) p by (simp add: exec_def destroy_turn_def)
    ultimately show ?thesis by blast
  qed
qed

lemma Drop_migrated_inv:
  assumes par: "parent_ok par" and inv: "machine_inv par s st FL MG PL" and p: "phases s p = Some Drop_migrated"
  shows "\<exists>s' st' FL' MG' PL'. exec par (Destroy_turn p) s = Inr s' \<and> machine_inv par s' st' FL' MG' PL'"
proof -
  note M = machine_invD [OF inv]
  obtain q where q: "pools (heap s) p = Some q" using phase_pool [OF M(2) p] by blast
  have pl: "PL p = []" using control_invD(5) [OF M(2), of p] p by simp
  show ?thesis
  proof (cases "MG p")
    case Nil
    let ?s = "s\<lparr>phases := (phases s)(p \<mapsto> Drop_free), mutex := None\<rparr>"
    have "exec par (Destroy_turn p) s = Inr ?s"
      using destroy_nil(2) [OF M(1) q Nil] p by (simp add: exec_def destroy_turn_def finish_loop_def)
    moreover have "dying_pools ?s = dying_pools s" using p by (auto simp: dying_pools_def)
    moreover have "control_inv ?s st FL MG PL"
      using control_invD [OF M(2)] p Nil pl by (auto simp: control_inv_def)
    ultimately have "exec par (Destroy_turn p) s = Inr ?s \<and> machine_inv par ?s st FL MG PL"
      using M(1) by (simp add: machine_inv_def)
    then show ?thesis by blast
  next
    case (Cons e es)
    obtain h' where h': "destroy_migrated par p (heap s) = Inr (True, h')"
      "slab_inv par (dying_pools s) h' (st(e := Gone)) FL (MG(p := es)) PL" "same_parents (heap s) h'"
      using destroy_migrated_inv [OF par M(1) q Cons pl] unfolding same_parents_def by blast
    have "st e = InFree p \<or> st e = InMig p" using list_elements(2) [OF M(1) q, of e] Cons by auto
    note G = gone_control [of st e p, OF this]
    have "machine_inv par (s\<lparr>heap := h'\<rparr>) (st(e := Gone)) FL (MG(p := es)) PL"
      by (rule turn_work [OF M p h'(3,2) G]) (auto simp: Cons)
    moreover have "exec par (Destroy_turn p) s = Inr (s\<lparr>heap := h'\<rparr>)"
      using h'(1) p by (simp add: exec_def destroy_turn_def)
    ultimately show ?thesis by blast
  qed
qed

lemma Drop_free_inv:
  assumes par: "parent_ok par" and inv: "machine_inv par s st FL MG PL" and p: "phases s p = Some Drop_free"
  shows "\<exists>s' st' FL' MG' PL'. exec par (Destroy_turn p) s = Inr s' \<and> machine_inv par s' st' FL' MG' PL'"
proof -
  note M = machine_invD [OF inv]
  obtain q where q: "pools (heap s) p = Some q" using phase_pool [OF M(2) p] by blast
  have pl: "PL p = []" "MG p = []" using control_invD(5,6) [OF M(2), of p] p by simp_all
  show ?thesis
  proof (cases "FL p")
    case Nil
    let ?h = "(heap s)\<lparr>pools := (pools (heap s))(p := None)\<rparr>"
    let ?s = "s\<lparr>heap := ?h, phases := (phases s)(p := None)\<rparr>"
    have "exec par (Destroy_turn p) s = Inr ?s"
      using destroy_nil(3) [OF M(1) q Nil] p q
      by (simp add: exec_def destroy_turn_def finish_loop_def read_pool_def set_pool_def)
    moreover have "dying_pools ?s = dying_pools s - {p}" by (auto simp: dying_pools_def)
    then have "slab_inv par (dying_pools ?s) (heap ?s) st FL MG PL" using retire_inv [OF M(1) q Nil pl(2,1)] by simp
    moreover have "control_inv ?s st FL MG PL"
      using control_invD [OF M(2)] p by (auto simp: control_inv_def ran_def)
    ultimately show ?thesis using machine_invI [of par ?s] by blast
  next
    case (Cons e es)
    obtain h' where h': "destroy_free par p (heap s) = Inr (True, h')"
      "slab_inv par (dying_pools s) h' (st(e := Gone)) (FL(p := es)) MG PL" "same_parents (heap s) h'"
      using destroy_free_inv [OF par M(1) q Cons pl(1)] unfolding same_parents_def by blast
    have "st e = InFree p \<or> st e = InMig p" using list_elements(1) [OF M(1) q, of e] Cons by auto
    note G = gone_control [of st e p, OF this]
    have "machine_inv par (s\<lparr>heap := h'\<rparr>) (st(e := Gone)) (FL(p := es)) MG PL"
      by (rule turn_work [OF M p h'(3,2) G]) (auto simp: Cons)
    moreover have "exec par (Destroy_turn p) s = Inr (s\<lparr>heap := h'\<rparr>)"
      using h'(1) p by (simp add: exec_def destroy_turn_def)
    ultimately show ?thesis by blast
  qed
qed

section \<open>Every interleaving\<close>

lemma exec_inv:
  assumes par: "parent_ok par" and inv: "machine_inv par s st FL MG PL" and en: "enabled par s c"
  shows "\<exists>s' st' FL' MG' PL'. exec par c s = Inr s' \<and> machine_inv par s' st' FL' MG' PL'"
proof (cases c)
  case (Destroy p)
  then show ?thesis using Destroy_inv [OF inv] en by blast
next
  case (Destroy_turn p)
  then show ?thesis
    using en Orphan_pages_inv [OF par inv] Drop_migrated_inv [OF par inv] Drop_free_inv [OF par inv]
    by (auto simp: enabled_def)
qed (use en Create_inv [OF inv] Refill_inv [OF par inv] Take_inv [OF inv] Free_begin_inv [OF par inv]
      Free_locked_inv [OF par inv] Free_orphaned_inv [OF par inv] in blast)+

lemma start_inv: "machine_inv par start (\<lambda>_. Gone) (\<lambda>_. []) (\<lambda>_. []) (\<lambda>_. [])"
  by (simp add: machine_inv_def control_inv_def start_def slab_inv_def memory_inv_def place_inv_def orphan_inv_def dying_pools_def)

lemma reachable_inv:
  assumes par: "parent_ok par" and "reachable par s"
  obtains st FL MG PL where "machine_inv par s st FL MG PL"
proof -
  have "\<exists>st FL MG PL. machine_inv par s st FL MG PL"
    using assms(2)
  proof (induction rule: slab_reach.induct)
    case refl
    then show ?case using start_inv by blast
  next
    case (step s c s')
    then obtain st FL MG PL where "machine_inv par s st FL MG PL" by blast
    from exec_inv [OF par this step.hyps(2)] show ?case using step.hyps(3) by auto
  qed
  then show thesis using that by blast
qed

section \<open>Objects\<close>

text \<open>The memory of an object: its header and the item behind it.\<close>

definition object_block :: "slab_parent_pool \<Rightarrow> ptr \<Rightarrow> nat set" where
  "object_block par obj = {unat (obj - elt_header_size)..<unat (obj - elt_header_size) + unat (element_size par)}"

lemma slots_apart: "i < j \<Longrightarrow> b + (s :: nat) * i + s \<le> b + s * j"
  using mult_le_mono2 [of "Suc i" j s] by simp

lemma object_in_page:
  assumes "parent_ok par" "page_ok par pg" "e \<in> elements par pg"
  shows "object_block par (e + elt_header_size) \<subseteq> page_block par pg"
proof -
  obtain i where i: "i < unat (num_elements par)" "e = slab_get_element par pg (word_of_nat i)"
    using assms(3) by (auto simp: page_elements_def)
  show ?thesis
    using unat_slab_get_element [OF assms(1,2) i(1)] slots_apart [OF i(1), of "unat pg + 8" "unat (element_size par)"] i(2)
    by (auto simp: object_block_def page_block_def)
qed

lemma objects_apart:
  assumes "parent_ok par" "page_ok par pg" "e \<in> elements par pg" "e' \<in> elements par pg" "e \<noteq> e'"
  shows "object_block par (e + elt_header_size) \<inter> object_block par (e' + elt_header_size) = {}"
proof -
  obtain i j where ij: "i < unat (num_elements par)" "e = slab_get_element par pg (word_of_nat i)"
    "j < unat (num_elements par)" "e' = slab_get_element par pg (word_of_nat j)"
    using assms(3,4) by (auto simp: page_elements_def)
  then have "i < j \<or> j < i" using assms(5) nat_neq_iff by blast
  then show ?thesis
    using unat_slab_get_element [OF assms(1,2) ij(1)] unat_slab_get_element [OF assms(1,2) ij(3)] ij(2,4)
      slots_apart [of i j "unat pg + 8" "unat (element_size par)"] slots_apart [of j i "unat pg + 8" "unat (element_size par)"]
    by (auto simp: object_block_def)
qed

lemma held_page:
  assumes inv: "machine_inv par s st FL MG PL" and obj: "obj \<in> held s"
  obtains e pg hdr where "obj = e + elt_header_size" "st e = Held" "page_hdrs (heap s) pg = Some hdr"
    "e \<in> elements par pg" "page_ok par pg"
proof -
  note M = machine_invD [OF inv]
  obtain e where e: "obj = e + elt_header_size" "st e = Held" using obj control_invD(1) [OF M(2)] by auto
  obtain x where "elts (heap s) e = Some x" using not_Gone [OF M(1), of e] e(2) by auto
  then obtain pg hdr where pg: "page_hdrs (heap s) pg = Some hdr" "e \<in> elements par pg"
    by (rule page_of_element [OF slab_invD(1) [OF M(1)]])
  have "page_ok par pg" using slab_invD(1) [OF M(1)] pg(1) by (auto simp: memory_inv_def)
  with that e pg show thesis by blast
qed

lemma held_apart:
  assumes par: "parent_ok par" and inv: "machine_inv par s st FL MG PL"
    and obj: "obj \<in> held s" "obj' \<in> held s" "obj \<noteq> obj'"
  shows "object_block par obj \<inter> object_block par obj' = {}"
proof -
  note M = slab_invD(1) [OF machine_invD(1) [OF inv]]
  obtain e pg hdr where e: "obj = e + elt_header_size" "page_hdrs (heap s) pg = Some hdr" "e \<in> elements par pg" "page_ok par pg"
    using held_page [OF inv obj(1)] by metis
  obtain e' pg' hdr' where e': "obj' = e' + elt_header_size" "page_hdrs (heap s) pg' = Some hdr'" "e' \<in> elements par pg'"
      "page_ok par pg'"
    using held_page [OF inv obj(2)] by metis
  show ?thesis
  proof (cases "pg = pg'")
    case True
    then show ?thesis using objects_apart [OF par e(4,3), of e'] e'(3) obj(3) unfolding e(1) e'(1) by blast
  next
    case False
    then have "page_block par pg \<inter> page_block par pg' = {}" using M e(2) e'(2) by (auto simp: memory_inv_def)
    then show ?thesis
      using object_in_page [OF par e(4,3)] object_in_page [OF par e'(4,3)] unfolding e(1) e'(1) by blast
  qed
qed

lemma Take_fresh:
  assumes inv: "machine_inv par s st FL MG PL" and en: "enabled par s (Take p)" and s': "exec par (Take p) s = Inr s'"
  shows "\<exists>obj. obj \<notin> held s \<and> held s' = insert obj (held s)"
proof -
  note M = machine_invD [OF inv]
  have p: "phases s p = Some Taking" using en by (simp add: enabled_def)
  obtain q where q: "pools (heap s) p = Some q" using phase_pool [OF M(2) p] by blast
  obtain e es where e: "FL p = e # es" using control_invD(4) [OF M(2) p] by (cases "FL p") auto
  obtain h' where "slab_take (heap s) p = Inr (e + elt_header_size, h')" using slab_take_inv [OF M(1) q e] by blast
  then have "held s' = insert (e + elt_header_size) (held s)" using s' by (auto simp: exec_def)
  moreover have "e + elt_header_size \<notin> held s"
    using control_invD(1) [OF M(2)] list_elements(1) [OF M(1) q, of e] e by auto
  ultimately show ?thesis by blast
qed

section \<open>The entry points run alone\<close>

lemma loop_keeps:
  assumes "same_parents h0 h" "\<forall>a. map_option pool_parent (pools h' a) = map_option pool_parent (pools h a)"
  shows "same_parents h0 h'"
  using assms by (simp add: same_parents_def)

lemma same_parents_pool: "same_parents h h' \<Longrightarrow> pools h p = Some q \<Longrightarrow> \<exists>q'. pools h' p = Some q'"
  by (drule same_parentsD(1)) blast

lemma destroy_pages_loop:
  assumes par: "parent_ok par" and inv: "slab_inv par dying h st FL MG PL" and q: "pools h p = Some q" and p: "p \<in> dying"
  shows "\<exists>h'. run_loop (destroy_page par p) h = Some (Inr h') \<and> same_parents h h' \<and> slab_inv par dying h' st FL MG (PL(p := []))"
proof -
  define I where "I = (\<lambda>h' xs. same_parents h h' \<and> slab_inv par dying h' st FL MG (PL(p := xs)))"
  have "\<exists>h'. run_loop (destroy_page par p) h = Some (Inr h') \<and> I h' []"
  proof (rule run_loop_list)
    show "I h (PL p)" using inv by (simp add: I_def same_parents_def)
    fix h' assume "I h' []"
    then show "destroy_page par p h' = Inr (False, h')"
      using destroy_nil(1) same_parents_pool [OF _ q] unfolding I_def by (metis fun_upd_same)
  next
    fix h' x xs assume I: "I h' (x # xs)"
    obtain q' where q': "pools h' p = Some q'" using I same_parents_pool [OF _ q] unfolding I_def by blast
    show "\<exists>h''. destroy_page par p h' = Inr (True, h'') \<and> I h'' xs"
      using destroy_page_inv [OF par _ q' _ p, of st FL MG "PL(p := x # xs)" x xs] I loop_keeps unfolding I_def by fastforce
  qed
  then show ?thesis by (simp add: I_def)
qed

lemma destroy_migrated_loop:
  assumes par: "parent_ok par" and inv: "slab_inv par dying h st FL MG PL" and q: "pools h p = Some q" and p: "PL p = []"
  shows "\<exists>h' st'. run_loop (destroy_migrated par p) h = Some (Inr h') \<and> same_parents h h' \<and>
    slab_inv par dying h' st' FL (MG(p := [])) PL"
proof -
  define I where "I = (\<lambda>h' xs. same_parents h h' \<and> (\<exists>st. slab_inv par dying h' st FL (MG(p := xs)) PL))"
  have "\<exists>h'. run_loop (destroy_migrated par p) h = Some (Inr h') \<and> I h' []"
  proof (rule run_loop_list)
    show "I h (MG p)" using inv by (auto simp: I_def same_parents_def)
    fix h' assume "I h' []"
    then show "destroy_migrated par p h' = Inr (False, h')"
      using destroy_nil(2) same_parents_pool [OF _ q] unfolding I_def by (metis fun_upd_same)
  next
    fix h' x xs assume I: "I h' (x # xs)"
    obtain q' where q': "pools h' p = Some q'" using I same_parents_pool [OF _ q] unfolding I_def by blast
    obtain st' where "slab_inv par dying h' st' FL (MG(p := x # xs)) PL" using I unfolding I_def by blast
    from destroy_migrated_inv [OF par this q' _ p, of x xs] show "\<exists>h''. destroy_migrated par p h' = Inr (True, h'') \<and> I h'' xs"
      using I loop_keeps unfolding I_def by fastforce
  qed
  then show ?thesis by (auto simp: I_def)
qed

lemma destroy_free_loop:
  assumes par: "parent_ok par" and inv: "slab_inv par dying h st FL MG PL" and q: "pools h p = Some q" and p: "PL p = []"
  shows "\<exists>h' st'. run_loop (destroy_free par p) h = Some (Inr h') \<and> same_parents h h' \<and>
    slab_inv par dying h' st' (FL(p := [])) MG PL"
proof -
  define I where "I = (\<lambda>h' xs. same_parents h h' \<and> (\<exists>st. slab_inv par dying h' st (FL(p := xs)) MG PL))"
  have "\<exists>h'. run_loop (destroy_free par p) h = Some (Inr h') \<and> I h' []"
  proof (rule run_loop_list)
    show "I h (FL p)" using inv by (auto simp: I_def same_parents_def)
    fix h' assume "I h' []"
    then show "destroy_free par p h' = Inr (False, h')"
      using destroy_nil(3) same_parents_pool [OF _ q] unfolding I_def by (metis fun_upd_same)
  next
    fix h' x xs assume I: "I h' (x # xs)"
    obtain q' where q': "pools h' p = Some q'" using I same_parents_pool [OF _ q] unfolding I_def by blast
    obtain st' where "slab_inv par dying h' st' (FL(p := x # xs)) MG PL" using I unfolding I_def by blast
    from destroy_free_inv [OF par this q' _ p, of x xs] show "\<exists>h''. destroy_free par p h' = Inr (True, h'') \<and> I h'' xs"
      using I loop_keeps unfolding I_def by fastforce
  qed
  then show ?thesis by (auto simp: I_def)
qed

lemma slab_destroy_child_returns:
  assumes par: "parent_ok par" and inv: "slab_inv par dying h st FL MG PL" and q: "pools h p = Some q" "pool_parent q \<noteq> NULL"
  shows "\<exists>h'. slab_destroy_child False par h p = Some (Inr h') \<and>
    pools h' p = Some \<lparr>pool_parent = NULL, pool_pages = NULL, pool_free = NULL, pool_migrated = NULL\<rparr>"
proof -
  have "p \<in> dom (pools h)" using q(1) by blast
  note inv0 = slab_inv_dying [OF inv this]
  obtain h1 where h1: "run_loop (destroy_page par p) h = Some (Inr h1)" "same_parents h h1"
    "slab_inv par (insert p dying) h1 st FL MG (PL(p := []))" using destroy_pages_loop [OF par inv0 q(1)] by blast
  obtain q1 where q1: "pools h1 p = Some q1" using same_parents_pool [OF h1(2) q(1)] by blast
  obtain h2 st2 where h2: "run_loop (destroy_migrated par p) h1 = Some (Inr h2)" "same_parents h1 h2"
    "slab_inv par (insert p dying) h2 st2 FL (MG(p := [])) (PL(p := []))" using destroy_migrated_loop [OF par h1(3) q1] by auto
  obtain q2 where q2: "pools h2 p = Some q2" using same_parents_pool [OF h2(2) q1] by blast
  obtain h3 st3 where h3: "run_loop (destroy_free par p) h2 = Some (Inr h3)" "same_parents h2 h3"
    "slab_inv par (insert p dying) h3 st3 (FL(p := [])) (MG(p := [])) (PL(p := []))"
    using destroy_free_loop [OF par h2(3) q2] by auto
  obtain q3 where q3: "pools h3 p = Some q3" using same_parents_pool [OF h3(2) q2] by blast
  have "pool_free q3 = NULL" "pool_migrated q3 = NULL" "pool_pages q3 = NULL"
    using pool_invD(1,4,7) [OF slab_invD(4) [OF h3(3) q3]] by simp_all
  then show ?thesis
    using q h1(1) h2(1) h3(1) q3 by (simp add: slab_destroy_child_def under_mutex_def destroy_locked_def read_pool_def set_pool_def)
qed

section \<open>Parents\<close>

lemma and_not_7: "unat ((x :: u64) AND NOT 7) = unat x - unat x mod 8"
proof -
  have "x AND NOT 7 = push_bit 3 (drop_bit 3 x)"
  proof (rule bit_word_eqI)
    fix n assume n: "n < LENGTH(64)"
    have "(7 :: u64) = mask 3" by (simp add: mask_eq_exp_minus_1)
    then have "bit (7 :: u64) n \<longleftrightarrow> n < 3" using n by (simp only: bit_mask_iff) simp
    then show "bit (x AND NOT 7) n \<longleftrightarrow> bit (push_bit 3 (drop_bit 3 x)) n"
      using n by (auto simp: bit_simps not_less)
  qed
  also have "\<dots> = x - take_bit 3 x" using bits_ident [of 3 x] by (simp add: algebra_simps)
  finally have "x AND NOT 7 = x - take_bit 3 x" .
  moreover have "unat (take_bit 3 x) = unat x mod 8" by (simp add: take_bit_eq_mod unat_mod)
  moreover have "take_bit 3 x \<le> x" using \<open>unat (take_bit 3 x) = unat x mod 8\<close> by (simp add: word_le_nat_alt)
  ultimately show ?thesis by (simp add: unat_sub)
qed

text \<open>A new parent is fit for use when a page of its objects, rounded up, stays below 4 GB.\<close>

lemma slab_create_parent_ok:
  assumes "0 < num_items" "(unat item_size + 31) * unat num_items < 2 ^ 32"
  shows "parent_ok (slab_create_parent item_size num_items)"
proof -
  let ?x = "elt_header_size + ucast item_size + 8 - 1 :: u64"
  let ?i = "unat item_size"
  have n: "1 \<le> unat num_items" using assms(1) by (simp add: word_less_nat_alt)
  have "(?i + 31) * 1 \<le> (?i + 31) * unat num_items" using n by (rule mult_le_mono2)
  also note assms(2)
  finally have i: "?i + 31 < 2 ^ 32" by simp
  have c: "unat (ucast item_size :: u64) = ?i" using i by (simp add: unat_ucast_eq)
  have "?x = 31 + ucast item_size" by simp
  then have x: "unat ?x = ?i + 31" using i by (simp only:) (subst unat_add_no_wrap, simp_all add: c)
  define y where "y = ?x AND NOT 7"
  have y: "unat y = ?i + 31 - (?i + 31) mod 8" unfolding y_def and_not_7 x ..
  have m: "(?i + 31) mod 8 < 8" by simp
  have b: "24 \<le> unat y" "unat y \<le> ?i + 31" using y m by linarith+
  have "unat (ucast y :: u32) = unat y" using b(2) i by (simp add: unat_ucast_eq)
  moreover have "unat y * unat num_items < 2 ^ 32"
    using mult_le_mono1 [OF b(2)] assms(2) by (rule le_less_trans)
  moreover have "slab_create_parent item_size num_items = \<lparr>element_size = ucast y, num_elements = num_items\<rparr>"
    by (simp add: slab_create_parent_def y_def)
  ultimately show ?thesis using assms b(1) by (simp add: parent_ok_def)
qed

lemma object_not_NULL:
  assumes par: "parent_ok par" and inv: "slab_inv par dying h st FL MG PL" and e: "st e \<noteq> Gone"
  shows "e + elt_header_size \<noteq> NULL"
proof -
  obtain x where "elts h e = Some x" using not_Gone [OF inv e] by blast
  then obtain pg hdr where pg: "page_hdrs h pg = Some hdr" "e \<in> elements par pg"
    by (rule page_of_element [OF slab_invD(1) [OF inv]])
  have ok: "page_ok par pg" using slab_invD(1) [OF inv] pg(1) by (auto simp: memory_inv_def)
  have "24 \<le> unat (element_size par)" using par by (simp add: parent_ok_def)
  then have "unat e + 23 \<in> object_block par (e + elt_header_size)" by (simp add: object_block_def)
  then have "unat e + 24 < 2 ^ 64"
    using object_in_page [OF par ok pg(2)] ok by (auto simp: page_block_def page_ok_def)
  then have "unat (e + elt_header_size) = unat e + 24" by (subst unat_add_no_wrap) simp_all
  then show ?thesis by auto
qed

lemma slab_alloc_returns:
  assumes par: "parent_ok par" and inv: "slab_inv par dying h st FL MG PL" and q: "pools h p = Some q"
    and pg: "page = NULL \<or> malloc_ok par h page"
  shows "if locked \<and> pool_free q = NULL then slab_alloc locked par h p page = None
    else \<exists>obj h'. slab_alloc locked par h p page = Some (Inr (obj, h')) \<and> (page \<noteq> NULL \<longrightarrow> obj \<noteq> NULL) \<and>
      (obj \<noteq> NULL \<longrightarrow> obj \<notin> (\<lambda>e. e + elt_header_size) ` {e. st e = Held})"
proof -
  obtain ok h1 st1 FL1 MG1 PL1 where r: "slab_refill par h p page = Inr (ok, h1)" "slab_inv par dying h1 st1 FL1 MG1 PL1"
    "ok \<longleftrightarrow> FL1 p \<noteq> []" "page \<noteq> NULL \<longrightarrow> ok" "same_control st st1" "same_parents h h1"
    using slab_refill_inv [OF par inv q pg] unfolding same_parents_def by blast
  let ?run = "bind_result (slab_refill par h p page) (\<lambda>(ok, h). if ok then slab_take h p else Inr (NULL, h))"
  have eq: "slab_alloc locked par h p page = (if locked \<and> pool_free q = NULL then None else Some ?run)"
    using q by (simp add: slab_alloc_def read_pool_def under_mutex_def slab_refill_def)
  have "\<exists>obj h'. ?run = Inr (obj, h') \<and> (page \<noteq> NULL \<longrightarrow> obj \<noteq> NULL) \<and>
      (obj \<noteq> NULL \<longrightarrow> obj \<notin> (\<lambda>e. e + elt_header_size) ` {e. st e = Held})"
  proof (cases "FL1 p")
    case Nil
    then show ?thesis using r(1,3,4) by simp
  next
    case (Cons e es)
    obtain q1 where q1: "pools h1 p = Some q1" using same_parents_pool [OF r(6) q] by blast
    obtain h' where h': "slab_take h1 p = Inr (e + elt_header_size, h')" using slab_take_inv [OF r(2) q1 Cons] by blast
    have e: "st1 e = InFree p" using list_elements(1) [OF r(2) q1, of e] Cons by simp
    then have "st e \<noteq> Held" using r(5) unfolding same_control_def by (metis insertCI place.distinct(3))
    moreover have "e + elt_header_size \<noteq> NULL" using object_not_NULL [OF par r(2), of e] e by simp
    ultimately show ?thesis using r(1,3) Cons h' by auto
  qed
  then show ?thesis unfolding eq by auto
qed

text \<open>The object belongs to the pool, so that giving it back does not need the mutex.\<close>

definition own_object :: "slab_heap \<Rightarrow> ptr \<Rightarrow> ptr \<Rightarrow> bool" where
  "own_object h p obj \<longleftrightarrow> map_option owner (elts h (obj - elt_header_size)) = Some p"

lemma slab_free_returns:
  assumes par: "parent_ok par" and inv: "slab_inv par dying h st FL MG PL" and q: "pools h p = Some q" and e: "st e = Held"
  shows "if locked \<and> \<not> own_object h p (e + elt_header_size) then slab_free locked par h p (e + elt_header_size) = None
    else \<exists>h'. slab_free locked par h p (e + elt_header_size) = Some (Inr h')"
proof -
  obtain fin h1 where h1: "slab_free_begin h p (e + elt_header_size) = Inr (fin, h1)"
    "\<not> fin \<Longrightarrow> slab_inv par dying h1 (st(e := Pending)) FL MG PL"
    using slab_free_begin_inv [OF par inv q e] by (elim exE conjE) (simp split: if_splits)
  have fin: "fin \<longleftrightarrow> own_object h p (e + elt_header_size)"
    using h1(1) q by (auto simp: slab_free_begin_def own_object_def read_elt_def read_pool_def Let_def split: option.splits if_splits)
  show ?thesis
  proof (cases fin)
    case True
    then show ?thesis using h1(1) fin by (simp add: slab_free_def)
  next
    case False
    note inv1 = h1(2) [OF False]
    let ?run = "bind_result (slab_free_locked h1 e) (\<lambda>(finished, h). if finished then Inr h else slab_free_orphaned par h e)"
    have eq: "slab_free locked par h p (e + elt_header_size) = (if locked then None else Some ?run)"
      using h1(1) False by (simp add: slab_free_def under_mutex_def cong: if_cong)
    consider h2 where "slab_free_locked h1 e = Inr (True, h2)"
      | "slab_free_locked h1 e = Inr (False, h1)" "slab_inv par dying h1 ((st(e := Pending))(e := Orphaning)) FL MG PL"
      using slab_free_locked_inv [OF par inv1, of e] by auto
    then have "\<exists>h'. ?run = Inr h'"
    proof cases
      case 1
      then show ?thesis by simp
    next
      case 2
      obtain x where x: "elts h1 e = Some x" using not_Gone [OF inv1, of e] by auto
      have "owner x AND 1 \<noteq> 0" using 2(1) x
        by (auto simp: slab_free_locked_def read_elt_def read_pool_def split: if_splits option.splits)
      then have "bit (owner x) 0" by (simp add: and_1_eq_0)
      then obtain h3 where "slab_free_orphaned par h1 e = Inr h3"
        using slab_free_orphaned_inv [OF par inv1 x] by auto
      then show ?thesis using 2(1) by simp
    qed
    then show ?thesis unfolding eq using fin False by auto
  qed
qed

section \<open>Properties\<close>

text \<open>
  C5: In every state that any number of threads can reach by any interleaving of calls, with pools created
  and destroyed at will and objects freed through other pools than their own, each next part of
  a call runs without a failed assertion and without an access to memory that is not a live
  page or pool.
\<close>

theorem slab_interleaving_safe:
  assumes "parent_ok par" "reachable par s" "enabled par s c"
  shows "\<exists>s'. exec par c s = Inr s'"
  using reachable_inv [OF assms(1,2)] exec_inv [OF assms(1) _ assms(3)] by metis

text \<open>
  C8: In every reachable state the objects in the hands of clients lie in live pages and do not
  overlap, headers included, and an allocation hands out an object nobody holds.
\<close>

theorem slab_objects_disjoint:
  assumes "parent_ok par" "reachable par s"
  shows "(\<forall>obj\<in>held s. (\<exists>pg\<in>dom (page_hdrs (heap s)). object_block par obj \<subseteq> page_block par pg) \<and>
      (\<forall>obj'\<in>held s. obj \<noteq> obj' \<longrightarrow> object_block par obj \<inter> object_block par obj' = {})) \<and>
    (\<forall>p s'. enabled par s (Take p) \<and> exec par (Take p) s = Inr s' \<longrightarrow>
      (\<exists>obj. obj \<notin> held s \<and> held s' = insert obj (held s)))"
proof -
  obtain st FL MG PL where inv: "machine_inv par s st FL MG PL" using reachable_inv [OF assms] .
  have "\<exists>pg\<in>dom (page_hdrs (heap s)). object_block par obj \<subseteq> page_block par pg" if "obj \<in> held s" for obj
    using held_page [OF inv that] object_in_page [OF assms(1)] by (metis domI)
  then show ?thesis using held_apart [OF assms(1) inv] Take_fresh [OF inv] by blast
qed

text \<open>
  C9: Memory is given back. Once the last pool is destroyed, the counter of every page that is left is the number
  of its objects in use or on their way back, at least one; when there are none, no page is left.
\<close>

theorem slab_no_leak:
  assumes "parent_ok par" "reachable par s" "phases s = Map.empty"
  shows "(\<forall>pg\<in>dom (page_hdrs (heap s)). \<exists>r. page_hdrs (heap s) pg = Some (Num_remaining r) \<and> 0 < r \<and>
      unat r = card {e \<in> elements par pg. e + elt_header_size \<in> held s \<or> e \<in> pending s \<or> e \<in> orphaning s}) \<and>
    (held s = {} \<and> pending s = {} \<and> orphaning s = {} \<longrightarrow> page_hdrs (heap s) = Map.empty \<and> elts (heap s) = Map.empty)"
proof -
  obtain st FL MG PL where inv: "machine_inv par s st FL MG PL" using reachable_inv [OF assms(1,2)] .
  note M = machine_invD [OF inv] and C = control_invD [OF machine_invD(2) [OF inv]]
  have none: "pools (heap s) p = None" for p using C(7) assms(3) by auto
  have st: "e + elt_header_size \<in> held s \<or> e \<in> pending s \<or> e \<in> orphaning s \<longleftrightarrow> st e \<noteq> Gone" for e
    using listed_pool [OF M(1), of e] none C(1-3) by (cases "st e") auto
  have pages: "\<exists>r. page_hdrs (heap s) pg = Some (Num_remaining r) \<and> 0 < r \<and>
      unat r = card {e \<in> elements par pg. e + elt_header_size \<in> held s \<or> e \<in> pending s \<or> e \<in> orphaning s}"
    if pg: "pg \<in> dom (page_hdrs (heap s))" for pg
  proof -
    obtain hdr where hdr: "page_hdrs (heap s) pg = Some hdr" using pg by blast
    show ?thesis
    proof (cases hdr)
      case (Next nxt)
      then show ?thesis using slab_invD(5) [OF M(1), of pg nxt] hdr none by (auto simp: domIff)
    next
      case (Num_remaining r)
      then show ?thesis using orphan_invD(1,2) [OF slab_invD(3) [OF M(1)]] hdr unfolding st by simp
    qed
  qed
  moreover have "page_hdrs (heap s) = Map.empty \<and> elts (heap s) = Map.empty"
    if nil: "held s = {} \<and> pending s = {} \<and> orphaning s = {}"
  proof -
    have "dom (page_hdrs (heap s)) = {}"
    proof (rule ccontr)
      assume "dom (page_hdrs (heap s)) \<noteq> {}"
      then obtain pg where "pg \<in> dom (page_hdrs (heap s))" by (meson ex_in_conv)
      from pages [OF this] show False using nil by (auto simp: unat_eq_0)
    qed
    moreover from this have "dom (elts (heap s)) = {}" using slab_invD(1) [OF M(1)] by (simp add: memory_inv_def)
    ultimately show ?thesis by simp
  qed
  ultimately show ?thesis by blast
qed

text \<open>
  C21: In every reachable state in which a pool is not inside a call, consider a call on it while the other
  threads stand still. With the mutex of the parent free, every call returns: an allocation gives an
  object nobody holds, and fails only without memory for a page; a free of any object in use
  returns; the destruction leaves the pool empty and without a parent. With the mutex held by the
  destruction of another pool, an allocation returns exactly when the free list of the pool is not empty,
  a free exactly when the object belongs to the pool, and a destruction does not; these calls block.
\<close>

theorem slab_calls_return:
  assumes "parent_ok par" "reachable par s" "phases s p = Some Idle"
  defines "locked \<equiv> mutex s \<noteq> None"
  shows "(\<forall>page. page = NULL \<or> malloc_ok par (heap s) page \<longrightarrow>
      (if locked \<and> map_option pool_free (pools (heap s) p) = Some NULL then slab_alloc locked par (heap s) p page = None
       else \<exists>obj h'. slab_alloc locked par (heap s) p page = Some (Inr (obj, h')) \<and> (page \<noteq> NULL \<longrightarrow> obj \<noteq> NULL) \<and>
         (obj \<noteq> NULL \<longrightarrow> obj \<notin> held s))) \<and>
    (\<forall>obj\<in>held s.
       if locked \<and> \<not> own_object (heap s) p obj then slab_free locked par (heap s) p obj = None
       else \<exists>h'. slab_free locked par (heap s) p obj = Some (Inr h')) \<and>
    (if locked then slab_destroy_child locked par (heap s) p = None
     else \<exists>h'. slab_destroy_child locked par (heap s) p = Some (Inr h') \<and>
       pools h' p = Some \<lparr>pool_parent = NULL, pool_pages = NULL, pool_free = NULL, pool_migrated = NULL\<rparr>)"
proof -
  obtain st FL MG PL where inv: "machine_inv par s st FL MG PL" using reachable_inv [OF assms(1,2)] .
  note M = machine_invD [OF inv] and C = control_invD [OF machine_invD(2) [OF inv]]
  obtain q where q: "pools (heap s) p = Some q" using phase_pool [OF M(2) assms(3)] by blast
  have nn: "pool_parent q \<noteq> NULL" using q C(8) by (auto simp: ran_def)
  have destroy: "if locked then slab_destroy_child locked par (heap s) p = None
     else \<exists>h'. slab_destroy_child locked par (heap s) p = Some (Inr h') \<and>
       pools h' p = Some \<lparr>pool_parent = NULL, pool_pages = NULL, pool_free = NULL, pool_migrated = NULL\<rparr>"
    using slab_destroy_child_returns [OF assms(1) M(1) q nn] q nn
    by (cases locked) (simp_all add: slab_destroy_child_def read_pool_def under_mutex_def)
  have pf: "map_option pool_free (pools (heap s) p) = Some NULL \<longleftrightarrow> pool_free q = NULL" using q by simp
  show ?thesis unfolding C(1) pf
  proof (intro conjI allI impI ballI)
    fix page assume "page = NULL \<or> malloc_ok par (heap s) page"
    then show "if locked \<and> pool_free q = NULL then slab_alloc locked par (heap s) p page = None
       else \<exists>obj h'. slab_alloc locked par (heap s) p page = Some (Inr (obj, h')) \<and> (page \<noteq> NULL \<longrightarrow> obj \<noteq> NULL) \<and>
         (obj \<noteq> NULL \<longrightarrow> obj \<notin> (\<lambda>e. e + elt_header_size) ` {e. st e = Held})"
      by (rule slab_alloc_returns [OF assms(1) M(1) q])
  next
    fix obj assume "obj \<in> (\<lambda>e. e + elt_header_size) ` {e. st e = Held}"
    then obtain e where e: "obj = e + elt_header_size" "st e = Held" by blast
    show "if locked \<and> \<not> own_object (heap s) p obj then slab_free locked par (heap s) p obj = None
       else \<exists>h'. slab_free locked par (heap s) p obj = Some (Inr h')"
      unfolding e(1) by (rule slab_free_returns [OF assms(1) M(1) q e(2)])
  qed (rule destroy)
qed

section \<open>Witnesses\<close>

text \<open>
  Two objects of eight bytes to a page. One pool allocates both and is destroyed; a second pool
  then frees them.
\<close>

definition example_parent :: slab_parent_pool where
  "example_parent = slab_create_parent 8 2"

lemma example_parent_eq: "example_parent = \<lparr>element_size = 32, num_elements = 2\<rparr>"
  by (simp add: example_parent_def slab_create_parent_def)

lemma example_parent_ok: "parent_ok example_parent"
  by (simp add: example_parent_eq parent_ok_def)

fun run_calls :: "slab_parent_pool \<Rightarrow> slab_call list \<Rightarrow> slab_state \<Rightarrow> c_error + slab_state" where
  "run_calls par [] s = Inr s"
| "run_calls par (c # cs) s = (if enabled par s c then bind_result (exec par c s) (run_calls par cs) else Inl Assertion)"

lemma run_calls_reach: "run_calls par cs s = Inr s' \<Longrightarrow> slab_reach par s0 s \<Longrightarrow> slab_reach par s0 s'"
proof (induction cs arbitrary: s)
  case (Cons c cs)
  then show ?case
    by (cases "exec par c s") (auto split: if_splits intro: slab_reach.step)
qed simp

definition taking_state :: slab_state where
  "taking_state = \<lparr>heap =
     \<lparr>elts = [4104 \<mapsto> \<lparr>elt_next = 0, owner = 8, magic = SLAB_MAGIC_FREE\<rparr>,
              4136 \<mapsto> \<lparr>elt_next = 4104, owner = 8, magic = SLAB_MAGIC_FREE\<rparr>],
      page_hdrs = [4096 \<mapsto> Next 0],
      pools = [8 \<mapsto> \<lparr>pool_parent = 16, pool_pages = 4096, pool_free = 4136, pool_migrated = 0\<rparr>]\<rparr>,
     phases = [8 \<mapsto> Taking], mutex = None, held = {}, pending = {}, orphaning = {}\<rparr>"

lemmas machine_simps = enabled_def exec_def destroy_turn_def finish_loop_def start_def example_parent_eq

lemmas slab_simps = slab_create_child_def set_pool_def set_elt_def set_page_def read_pool_def read_elt_def
  slab_refill_def slab_add_new_page_def slab_get_element_def slab_take_def page_elements_def Let_def

lemma add_two: "add_elements par p pg 0 2 h = add_elements par p pg 0 (Suc (Suc 0)) h"
  "orphan_elements par pg 0 2 h = orphan_elements par pg 0 (Suc (Suc 0)) h"
  by (simp_all only: numeral_2_eq_2)

lemma taking_run: "run_calls example_parent [Create 8 16, Refill 8 4096] start = Inr taking_state"
proof -
  have c: "run_calls example_parent [Create 8 16, Refill 8 4096] start = run_calls example_parent [Refill 8 4096]
    (start\<lparr>heap := slab_create_child (heap start) 8 16, phases := [8 \<mapsto> Idle]\<rparr>)"
    by (simp add: enabled_def exec_def start_def)
  show ?thesis unfolding c
    by (simp add: enabled_def exec_def slab_simps machine_simps malloc_ok_def page_ok_def taking_state_def add_two)
qed

definition both_held_state :: slab_state where
  "both_held_state = \<lparr>heap =
     \<lparr>elts = [4136 \<mapsto> \<lparr>elt_next = 4104, owner = 8, magic = SLAB_MAGIC_ALLOCATED\<rparr>,
              4104 \<mapsto> \<lparr>elt_next = 0, owner = 8, magic = SLAB_MAGIC_ALLOCATED\<rparr>],
      page_hdrs = [4096 \<mapsto> Next 0],
      pools = [8 \<mapsto> \<lparr>pool_parent = 16, pool_pages = 4096, pool_free = 0, pool_migrated = 0\<rparr>]\<rparr>,
     phases = [8 \<mapsto> Idle], mutex = None, held = {4128, 4160}, pending = {}, orphaning = {}\<rparr>"

definition orphaned_state :: slab_state where
  "orphaned_state = \<lparr>heap =
     \<lparr>elts = [4104 \<mapsto> \<lparr>elt_next = 0, owner = 4097, magic = SLAB_MAGIC_ALLOCATED\<rparr>,
              4136 \<mapsto> \<lparr>elt_next = 4104, owner = 4097, magic = SLAB_MAGIC_ALLOCATED\<rparr>],
      page_hdrs = [4096 \<mapsto> Num_remaining 2], pools = Map.empty\<rparr>,
     phases = Map.empty, mutex = None, held = {4128, 4160}, pending = {}, orphaning = {}\<rparr>"

lemma both_held_run: "run_calls example_parent [Take 8, Refill 8 0, Take 8] taking_state = Inr both_held_state"
  by (simp add: slab_simps machine_simps taking_state_def both_held_state_def)

lemma orphaned_run: "run_calls example_parent [Destroy 8, Destroy_turn 8, Destroy_turn 8, Destroy_turn 8, Destroy_turn 8]
   both_held_state = Inr orphaned_state"
  by (simp add: slab_simps machine_simps both_held_state_def orphaned_state_def destroy_page_def destroy_migrated_def
     destroy_free_def add_two)

lemma example_reachable:
  "reachable example_parent taking_state" "reachable example_parent both_held_state" "reachable example_parent orphaned_state"
proof -
  show t: "reachable example_parent taking_state" by (rule run_calls_reach [OF taking_run slab_reach.refl])
  show b: "reachable example_parent both_held_state" by (rule run_calls_reach [OF both_held_run t])
  show "reachable example_parent orphaned_state" by (rule run_calls_reach [OF orphaned_run b])
qed

theorem slab_interleaving_safe_witness:
  "enabled example_parent both_held_state (Free_begin 8 4128) \<and>
   (\<exists>s'. exec example_parent (Free_begin 8 4128) both_held_state = Inr s')"
proof -
  have en: "enabled example_parent both_held_state (Free_begin 8 4128)" by (simp add: enabled_def both_held_state_def)
  show ?thesis using slab_interleaving_safe [OF example_parent_ok example_reachable(2) en] en by blast
qed

theorem slab_objects_disjoint_witness:
  "object_block example_parent 4128 \<inter> object_block example_parent 4160 = {} \<and>
   (\<exists>pg\<in>dom (page_hdrs (heap both_held_state)). object_block example_parent 4128 \<subseteq> page_block example_parent pg)"
proof -
  have h: "4128 \<in> held both_held_state" "4160 \<in> held both_held_state" by (simp_all add: both_held_state_def)
  have "(4128 :: ptr) \<noteq> 4160" by simp
  then show ?thesis
    using slab_objects_disjoint [OF example_parent_ok example_reachable(2), THEN conjunct1, THEN bspec, OF h(1)] h(2) by blast
qed

theorem slab_no_leak_witness:
  "phases orphaned_state = Map.empty \<and> (\<exists>r. page_hdrs (heap orphaned_state) 4096 = Some (Num_remaining r) \<and> 0 < r \<and>
     unat r = card {e \<in> elements example_parent 4096. e + 24 \<in> held orphaned_state \<or> e \<in> pending orphaned_state \<or>
       e \<in> orphaning orphaned_state})"
proof -
  have p: "phases orphaned_state = Map.empty" "4096 \<in> dom (page_hdrs (heap orphaned_state))"
    by (simp_all add: orphaned_state_def)
  show ?thesis
    using slab_no_leak [OF example_parent_ok example_reachable(3) p(1), THEN conjunct1, THEN bspec, OF p(2)] p(1) by blast
qed

theorem slab_calls_return_witness:
  "phases both_held_state 8 = Some Idle \<and> mutex both_held_state = None \<and>
   (\<exists>h'. slab_free False example_parent (heap both_held_state) 8 4128 = Some (Inr h')) \<and>
   (\<exists>h'. slab_destroy_child False example_parent (heap both_held_state) 8 = Some (Inr h'))"
proof -
  have p: "phases both_held_state 8 = Some Idle" "4128 \<in> held both_held_state" "mutex both_held_state = None"
    by (simp_all add: both_held_state_def)
  show ?thesis using slab_calls_return [OF example_parent_ok example_reachable(2) p(1)] p by auto
qed

end
