(* ===== verification/Futex.thy ===== *)
theory Futex
  imports Mesa_Prelude
begin

text \<open>
  Threads and the Linux futex behind \<^verbatim>\<open>src/util/futex.h\<close>. \<^verbatim>\<open>futex_wait\<close> compares the word with the
  expected value and puts the caller to sleep in one atomic action; \<^verbatim>\<open>futex_wake\<close> wakes as many
  sleepers as asked for, or all if there are fewer. Which ones is the choice of the kernel.
\<close>

type_synonym thread = nat

definition futex_blocks :: "u32 \<Rightarrow> u32 \<Rightarrow> bool" where
  "futex_blocks val expected \<longleftrightarrow> val = expected"

definition futex_wakes :: "thread set \<Rightarrow> nat \<Rightarrow> thread set \<Rightarrow> bool" where
  "futex_wakes sleepers count woken \<longleftrightarrow>
     woken \<subseteq> sleepers \<and> finite woken \<and> card woken \<le> count \<and> (card woken < count \<longrightarrow> woken = sleepers)"

lemma futex_wakes_one: "futex_wakes S 1 W \<Longrightarrow> S \<noteq> {} \<Longrightarrow> W \<noteq> {}"
  by (auto simp: futex_wakes_def)

text \<open>Sums over threads of which one moves.\<close>

lemma sum_thread:
  fixes f :: "'a \<Rightarrow> nat"
  assumes "finite T" "t \<in> T"
  shows "(\<Sum>a\<in>T. f ((g(t := x)) a)) + f (g t) = (\<Sum>a\<in>T. f (g a)) + f x"
proof -
  have "(\<Sum>a\<in>T. f ((g(t := x)) a)) = f x + (\<Sum>a\<in>T - {t}. f ((g(t := x)) a))"
    using sum.remove [OF assms, of "\<lambda>a. f ((g(t := x)) a)"] by simp
  also have "(\<Sum>a\<in>T - {t}. f ((g(t := x)) a)) = (\<Sum>a\<in>T - {t}. f (g a))" by (rule sum.cong) auto
  finally show ?thesis using sum.remove [OF assms, of "\<lambda>a. f (g a)"] by simp
qed

end
