(* ===== verification/Simple_Mtx.thy ===== *)
theory Simple_Mtx
  imports Futex
begin

text \<open>
  \<^verbatim>\<open>src/util/simple_mtx.h\<close>: the mutex of three states (free, taken, taken with waiters) over a futex.
  Each atomic instruction of \<^verbatim>\<open>simple_mtx_lock\<close> and \<^verbatim>\<open>simple_mtx_unlock\<close> is one step of the calling
  thread, and steps of different threads interleave freely.
\<close>

section \<open>The code\<close>

text \<open>Where a thread is: outside, before the \<^verbatim>\<open>compare_and_swap\<close>, before a \<^verbatim>\<open>test_and_set\<close>, before
  \<^verbatim>\<open>futex_wait\<close>, asleep in it, in the critical section, and in \<^verbatim>\<open>simple_mtx_unlock\<close> before the store
  and before \<^verbatim>\<open>futex_wake\<close>.\<close>

datatype mtx_pc = Outside | Try | Swap | Wait | Asleep | Holding | Store | Wake

record mtx_state =
  mtx_val :: u32
  mtx_pcs :: "thread \<Rightarrow> mtx_pc"

definition simple_mtx_init :: mtx_state where
  "simple_mtx_init = \<lparr>mtx_val = 0, mtx_pcs = (\<lambda>_. Outside)\<rparr>"

text \<open>The instructions: the new value of the word and where the thread goes on.\<close>

definition lock_compare_and_swap :: "u32 \<Rightarrow> u32 \<times> mtx_pc" where
  "lock_compare_and_swap val =
     (let c = val; val = (if val = 0 then 1 else val)
      in (val, if c \<noteq> 0 then if c \<noteq> 2 then Swap else Wait else Holding))"

definition lock_test_and_set :: "u32 \<Rightarrow> u32 \<times> mtx_pc" where
  "lock_test_and_set val = (let c = val in (2, if c \<noteq> 0 then Wait else Holding))"

definition lock_futex_wait :: "u32 \<Rightarrow> u32 \<times> mtx_pc" where
  "lock_futex_wait val = (val, if futex_blocks val 2 then Asleep else Swap)"

definition unlock_fetch_and_sub :: "u32 \<Rightarrow> u32 \<times> mtx_pc" where
  "unlock_fetch_and_sub val = (let c = val in (val - 1, if c \<noteq> 1 then Store else Outside))"

definition unlock_store :: "u32 \<Rightarrow> u32 \<times> mtx_pc" where
  "unlock_store val = (0, Wake)"

fun mtx_instruction :: "mtx_pc \<Rightarrow> (u32 \<Rightarrow> u32 \<times> mtx_pc) option" where
  "mtx_instruction Try = Some lock_compare_and_swap"
| "mtx_instruction Swap = Some lock_test_and_set"
| "mtx_instruction Wait = Some lock_futex_wait"
| "mtx_instruction Holding = Some unlock_fetch_and_sub"
| "mtx_instruction Store = Some unlock_store"
| "mtx_instruction _ = None"

definition asleep :: "mtx_state \<Rightarrow> thread set" where
  "asleep s = {t. mtx_pcs s t = Asleep}"

text \<open>
  Steps inside the functions. A thread in the critical section leaves it by the first
  instruction of \<^verbatim>\<open>simple_mtx_unlock\<close>.
\<close>

inductive mtx_run :: "mtx_state \<Rightarrow> mtx_state \<Rightarrow> bool" where
  instruction: "mtx_instruction (mtx_pcs s t) = Some f \<Longrightarrow> f (mtx_val s) = (val, pc) \<Longrightarrow>
    mtx_run s \<lparr>mtx_val = val, mtx_pcs = (mtx_pcs s)(t := pc)\<rparr>"
| wake: "mtx_pcs s t = Wake \<Longrightarrow> futex_wakes (asleep s) 1 W \<Longrightarrow>
    mtx_run s (s\<lparr>mtx_pcs := (\<lambda>a. if a \<in> W then Swap else ((mtx_pcs s)(t := Outside)) a)\<rparr>)"

text \<open>Steps from outside: a call of \<^verbatim>\<open>simple_mtx_lock\<close>, and a return of \<^verbatim>\<open>futex_wait\<close> without a wake.\<close>

inductive mtx_env :: "mtx_state \<Rightarrow> mtx_state \<Rightarrow> bool" where
  call_lock: "mtx_pcs s t = Outside \<Longrightarrow> mtx_env s (s\<lparr>mtx_pcs := (mtx_pcs s)(t := Try)\<rparr>)"
| interrupted: "mtx_pcs s t = Asleep \<Longrightarrow> mtx_env s (s\<lparr>mtx_pcs := (mtx_pcs s)(t := Swap)\<rparr>)"

inductive mtx_reachable :: "mtx_state \<Rightarrow> bool" where
  init: "mtx_reachable simple_mtx_init"
| run: "mtx_reachable s \<Longrightarrow> mtx_run s s' \<Longrightarrow> mtx_reachable s'"
| env: "mtx_reachable s \<Longrightarrow> mtx_env s s' \<Longrightarrow> mtx_reachable s'"

inductive_cases mtx_runE: "mtx_run s s'"
inductive_cases mtx_envE: "mtx_env s s'"

lemmas mtx_instruction_defs = lock_compare_and_swap_def lock_test_and_set_def lock_futex_wait_def
  unlock_fetch_and_sub_def unlock_store_def futex_blocks_def Let_def

section \<open>The invariant\<close>

text \<open>A thread owns the mutex from the instruction that takes it to the store that gives it back.\<close>

definition owners :: "mtx_state \<Rightarrow> thread set" where
  "owners s = {t. mtx_pcs s t \<in> {Holding, Store}}"

text \<open>Threads that will wake a sleeper or set the value to 2, which makes the owner do so.\<close>

definition alarms :: "mtx_state \<Rightarrow> thread set" where
  "alarms s = {t. mtx_pcs s t \<in> {Swap, Store, Wake}}"

text \<open>
  The word is 0 exactly if nobody owns the mutex, and at most one thread does. If a thread
  sleeps, the owner will find the value 2, or an alarm is under way.
\<close>

definition mtx_inv :: "mtx_state \<Rightarrow> bool" where
  "mtx_inv s \<longleftrightarrow> (if mtx_val s = 0 then owners s = {} else mtx_val s \<in> {1, 2} \<and> is_singleton (owners s)) \<and>
     (asleep s \<noteq> {} \<longrightarrow> mtx_val s = 2 \<or> alarms s \<noteq> {})"

lemma mtx_inv_init: "mtx_inv simple_mtx_init"
  by (simp add: mtx_inv_def simple_mtx_init_def owners_def asleep_def)

lemma moved:
  "owners \<lparr>mtx_val = val, mtx_pcs = (mtx_pcs s)(t := pc)\<rparr> =
     (if pc \<in> {Holding, Store} then insert t (owners s) else owners s - {t})"
  "asleep \<lparr>mtx_val = val, mtx_pcs = (mtx_pcs s)(t := pc)\<rparr> = (if pc = Asleep then insert t (asleep s) else asleep s - {t})"
  "alarms \<lparr>mtx_val = val, mtx_pcs = (mtx_pcs s)(t := pc)\<rparr> =
     (if pc \<in> {Swap, Store, Wake} then insert t (alarms s) else alarms s - {t})"
  by (auto simp: owners_def asleep_def alarms_def)

lemma owner_alone: "is_singleton S \<Longrightarrow> t \<in> S \<Longrightarrow> S = {t}"
  by (auto elim: is_singletonE)

lemma mtx_inv_instruction:
  assumes inv: "mtx_inv s" and f: "mtx_instruction (mtx_pcs s t) = Some f" "f (mtx_val s) = (val, pc)"
  shows "mtx_inv \<lparr>mtx_val = val, mtx_pcs = (mtx_pcs s)(t := pc)\<rparr>"
proof -
  have t: "t \<in> owners s \<longleftrightarrow> mtx_pcs s t \<in> {Holding, Store}" "t \<in> asleep s \<longleftrightarrow> mtx_pcs s t = Asleep"
    "t \<in> alarms s \<longleftrightarrow> mtx_pcs s t \<in> {Swap, Store, Wake}" by (simp_all add: owners_def asleep_def alarms_def)
  consider "mtx_val s = 0" | "mtx_val s = 1" | "mtx_val s = 2" using inv by (auto simp: mtx_inv_def split: if_splits)
  then show ?thesis
  proof cases
    case 1
    have "owners s = {}" "asleep s \<noteq> {} \<longrightarrow> alarms s \<noteq> {}" using inv 1 by (auto simp: mtx_inv_def)
    then show ?thesis using f 1 t unfolding mtx_inv_def moved
      by (cases "mtx_pcs s t") (auto simp: mtx_instruction_defs is_singleton_def)
  next
    case 2
    have o: "is_singleton (owners s)" "asleep s \<noteq> {} \<longrightarrow> alarms s \<noteq> {}" using inv 2 by (auto simp: mtx_inv_def)
    then show ?thesis using f 2 t owner_alone [OF o(1), of t] unfolding mtx_inv_def moved
      by (cases "mtx_pcs s t") (auto simp: mtx_instruction_defs)
  next
    case 3
    have o: "is_singleton (owners s)" using inv 3 by (auto simp: mtx_inv_def)
    then show ?thesis using f 3 t owner_alone [OF o, of t] unfolding mtx_inv_def moved
      by (cases "mtx_pcs s t") (auto simp: mtx_instruction_defs)
  qed
qed

lemma mtx_inv_wake:
  assumes inv: "mtx_inv s" and t: "mtx_pcs s t = Wake" and W: "futex_wakes (asleep s) 1 W"
  shows "mtx_inv (s\<lparr>mtx_pcs := (\<lambda>a. if a \<in> W then Swap else ((mtx_pcs s)(t := Outside)) a)\<rparr>)"
proof -
  let ?s = "s\<lparr>mtx_pcs := (\<lambda>a. if a \<in> W then Swap else ((mtx_pcs s)(t := Outside)) a)\<rparr>"
  have sub: "W \<subseteq> asleep s" using W by (simp add: futex_wakes_def)
  have "owners ?s = owners s" "asleep ?s = asleep s - W" "W \<subseteq> alarms ?s"
    using sub t by (auto simp: owners_def asleep_def alarms_def)
  then show ?thesis using inv futex_wakes_one [OF W] by (auto simp: mtx_inv_def)
qed

lemma mtx_inv_env: "mtx_env s s' \<Longrightarrow> mtx_inv s \<Longrightarrow> mtx_inv s'"
proof (induction rule: mtx_env.induct)
  case (call_lock s t)
  then have "owners (s\<lparr>mtx_pcs := (mtx_pcs s)(t := Try)\<rparr>) = owners s" "asleep (s\<lparr>mtx_pcs := (mtx_pcs s)(t := Try)\<rparr>) = asleep s"
    "alarms (s\<lparr>mtx_pcs := (mtx_pcs s)(t := Try)\<rparr>) = alarms s" by (auto simp: owners_def asleep_def alarms_def)
  then show ?case using call_lock(2) by (auto simp: mtx_inv_def split: if_splits)
next
  case (interrupted s t)
  then have "owners (s\<lparr>mtx_pcs := (mtx_pcs s)(t := Swap)\<rparr>) = owners s" "t \<in> alarms (s\<lparr>mtx_pcs := (mtx_pcs s)(t := Swap)\<rparr>)"
    by (auto simp: owners_def alarms_def)
  then show ?case using interrupted by (auto simp: mtx_inv_def)
qed

lemma mtx_inv_run: "mtx_run s s' \<Longrightarrow> mtx_inv s \<Longrightarrow> mtx_inv s'"
  by (erule mtx_runE) (auto intro: mtx_inv_instruction mtx_inv_wake)

lemma mtx_reachable_inv: "mtx_reachable s \<Longrightarrow> mtx_inv s"
  by (induction rule: mtx_reachable.induct) (auto intro: mtx_inv_init mtx_inv_run mtx_inv_env)

section \<open>Progress\<close>

text \<open>
  Two sums over the threads: how far they are from leaving the mutex, and how far the waiting
  ones are from falling asleep, which depends on whether the value is 2.
\<close>

fun life :: "mtx_pc \<Rightarrow> nat" where
  "life Outside = 0" | "life Wake = 1" | "life Store = 2" | "life Holding = 3" | "life _ = 4"

fun spin :: "bool \<Rightarrow> mtx_pc \<Rightarrow> nat" where
  "spin True Try = 3" | "spin True Swap = 2" | "spin True Wait = 1"
| "spin False Try = 5" | "spin False Wait = 4" | "spin False Swap = 3"
| "spin _ _ = 0"

definition mtx_order :: "thread set \<Rightarrow> (mtx_state \<times> mtx_state) set" where
  "mtx_order T = inv_image (less_than <*lex*> less_than)
     (\<lambda>s. (\<Sum>t\<in>T. life (mtx_pcs s t), \<Sum>t\<in>T. spin (mtx_val s = 2) (mtx_pcs s t)))"

lemma wf_mtx_order: "wf (mtx_order T)"
  by (auto simp: mtx_order_def)

lemma spin_le: "spin True pc \<le> spin False pc"
  by (cases pc) auto

text \<open>A thread that moves closer to leaving, or to sleep.\<close>

lemma mtx_order_instruction:
  assumes inv: "mtx_inv s" and T: "finite T" "t \<in> T"
    and f: "mtx_instruction (mtx_pcs s t) = Some f" "f (mtx_val s) = (val, pc)"
  shows "(\<lparr>mtx_val = val, mtx_pcs = (mtx_pcs s)(t := pc)\<rparr>, s) \<in> mtx_order T"
proof -
  let ?l = "\<lambda>g. \<Sum>a\<in>T. life (g a)" and ?s = "\<lambda>b g. \<Sum>a\<in>T. spin b (g a)"
  have L: "?l ((mtx_pcs s)(t := pc)) + life (mtx_pcs s t) = ?l (mtx_pcs s) + life pc" by (rule sum_thread [OF T])
  have S: "?s b ((mtx_pcs s)(t := pc)) + spin b (mtx_pcs s t) = ?s b (mtx_pcs s) + spin b pc" for b
    by (rule sum_thread [OF T])
  have mono: "?s True (mtx_pcs s) \<le> ?s False (mtx_pcs s)" by (rule sum_mono) (rule spin_le)
  have v: "mtx_val s \<in> {0, 1, 2}" using inv by (auto simp: mtx_inv_def split: if_splits)
  have "life pc < life (mtx_pcs s t) \<or> life pc = life (mtx_pcs s t) \<and>
      (val = mtx_val s \<and> spin (val = 2) pc < spin (val = 2) (mtx_pcs s t) \<or>
       val = 2 \<and> mtx_val s \<noteq> 2 \<and> spin True pc < spin True (mtx_pcs s t))"
    using f v by (cases "mtx_pcs s t") (auto simp: mtx_instruction_defs)
  then show ?thesis
    using L S [of True] S [of "mtx_val s = 2"] mono by (auto simp: mtx_order_def)
qed

lemma mtx_order_wake:
  assumes T: "finite T" "t \<in> T" and t: "mtx_pcs s t = Wake" and W: "futex_wakes (asleep s) 1 W"
  shows "(s\<lparr>mtx_pcs := (\<lambda>a. if a \<in> W then Swap else ((mtx_pcs s)(t := Outside)) a)\<rparr>, s) \<in> mtx_order T"
proof -
  have sub: "W \<subseteq> asleep s" using W by (simp add: futex_wakes_def)
  have "(\<Sum>a\<in>T. life (if a \<in> W then Swap else ((mtx_pcs s)(t := Outside)) a)) = (\<Sum>a\<in>T. life (((mtx_pcs s)(t := Outside)) a))"
    using sub t by (intro sum.cong) (auto simp: asleep_def)
  then show ?thesis
    using sum_thread [OF T, of life "mtx_pcs s" Outside] t by (simp add: mtx_order_def)
qed

lemma mtx_run_order:
  assumes "mtx_run s s'" "mtx_inv s" "finite T" "\<forall>t. t \<notin> T \<longrightarrow> mtx_pcs s t = Outside"
  shows "(s', s) \<in> mtx_order T" "\<forall>t. t \<notin> T \<longrightarrow> mtx_pcs s' t = Outside"
proof -
  have in_T: "t \<in> T" if "mtx_pcs s t \<noteq> Outside" for t using assms(4) that by blast
  show "(s', s) \<in> mtx_order T"
    using assms(1)
  proof (cases rule: mtx_run.cases)
    case (instruction t f val pc)
    then have "t \<in> T" using in_T by force
    then show ?thesis using instruction mtx_order_instruction [OF assms(2,3)] by blast
  next
    case (wake t W)
    then have "t \<in> T" using in_T by simp
    then show ?thesis using wake mtx_order_wake [OF assms(3)] by blast
  qed
  show "\<forall>t. t \<notin> T \<longrightarrow> mtx_pcs s' t = Outside"
    using assms(1)
  proof (cases rule: mtx_run.cases)
    case (instruction t f val pc)
    then have "t \<in> T" using in_T by force
    then show ?thesis using instruction(1) assms(4) by auto
  next
    case (wake t W)
    then have "W \<subseteq> T" using in_T by (auto simp: futex_wakes_def asleep_def)
    then show ?thesis using wake(1) assms(4) by auto
  qed
qed

text \<open>A thread that is neither outside nor asleep has a next step.\<close>

lemma mtx_run_enabled:
  assumes "mtx_pcs s t \<noteq> Outside" "mtx_pcs s t \<noteq> Asleep" "finite (asleep s)"
  shows "\<exists>s'. mtx_run s s'"
proof (cases "mtx_pcs s t = Wake")
  case True
  obtain W where "futex_wakes (asleep s) 1 W"
  proof (cases "asleep s = {}")
    case True
    then show thesis using that [of "{}"] by (simp add: futex_wakes_def)
  next
    case False
    then obtain a where "a \<in> asleep s" by blast
    then show thesis using that [of "{a}"] by (simp add: futex_wakes_def)
  qed
  then show ?thesis using mtx_run.wake [OF True] by blast
next
  case False
  then obtain f where "mtx_instruction (mtx_pcs s t) = Some f" using assms(1,2) by (cases "mtx_pcs s t") auto
  then show ?thesis using mtx_run.instruction by (metis surj_pair)
qed

section \<open>Properties\<close>

text \<open>
  C10: Mutual exclusion: however the atomic instructions of any number of threads interleave, and
  even if waits return without reason, at most one thread is between lock and unlock.
\<close>

theorem simple_mtx_exclusive:
  assumes "mtx_reachable s" "mtx_pcs s t = Holding" "mtx_pcs s t' = Holding"
  shows "t = t' \<and> mtx_val s \<noteq> 0"
proof -
  have inv: "mtx_inv s" by (rule mtx_reachable_inv [OF assms(1)])
  have "t \<in> owners s" "t' \<in> owners s" using assms(2,3) by (simp_all add: owners_def)
  then show ?thesis using inv by (auto simp: mtx_inv_def split: if_splits elim: is_singletonE)
qed

text \<open>
  C11: No wake-up is lost: once no thread calls lock anew, the threads that are inside can run only
  finitely many steps, in whatever order, and they stop only when every one of them has left
  the mutex; none is left asleep.
\<close>

theorem simple_mtx_drains:
  assumes "mtx_reachable s" "finite {t. mtx_pcs s t \<noteq> Outside}"
  shows "\<not> (\<exists>run. run 0 = s \<and> (\<forall>i. mtx_run (run i) (run (Suc i)))) \<and>
    ((\<nexists>s'. mtx_run s s') \<longrightarrow> (\<forall>t. mtx_pcs s t = Outside))"
proof (intro conjI impI notI)
  let ?T = "{t. mtx_pcs s t \<noteq> Outside}"
  have inv: "mtx_inv s" by (rule mtx_reachable_inv [OF assms(1)])
  assume "\<exists>run. run 0 = s \<and> (\<forall>i. mtx_run (run i) (run (Suc i)))"
  then obtain run where run: "run 0 = s" "\<And>i. mtx_run (run i) (run (Suc i))" by blast
  have "mtx_inv (run i) \<and> (\<forall>t. t \<notin> ?T \<longrightarrow> mtx_pcs (run i) t = Outside)" for i
  proof (induction i)
    case 0
    then show ?case using run(1) inv by simp
  next
    case (Suc i)
    then show ?case using mtx_inv_run [OF run(2)] mtx_run_order(2) [OF run(2) _ assms(2)] by blast
  qed
  then have "(run (Suc i), run i) \<in> mtx_order ?T" for i using mtx_run_order(1) [OF run(2) _ assms(2)] by blast
  then show False using wf_mtx_order [of ?T] unfolding wf_iff_no_infinite_down_chain by blast
next
  have inv: "mtx_inv s" by (rule mtx_reachable_inv [OF assms(1)])
  have fin: "finite (asleep s)" by (rule finite_subset [OF _ assms(2)]) (auto simp: asleep_def)
  assume stuck: "\<nexists>s'. mtx_run s s'"
  then have rest: "mtx_pcs s t \<in> {Outside, Asleep}" for t using mtx_run_enabled [OF _ _ fin] by blast
  then have "owners s = {}" "alarms s = {}" unfolding owners_def alarms_def by (metis (mono_tags, lifting) Collect_empty_eq empty_iff insert_iff mtx_pc.distinct)+
  then have "asleep s = {}" using inv by (auto simp: mtx_inv_def is_singleton_def split: if_splits)
  then show "\<forall>t. mtx_pcs s t = Outside" using rest by (auto simp: asleep_def)
qed

section \<open>Witnesses\<close>

text \<open>Two threads compete: the second waits until the first leaves.\<close>

definition contended :: mtx_state where
  "contended = \<lparr>mtx_val = 2, mtx_pcs = (\<lambda>_. Outside)(0 := Holding, 1 := Asleep)\<rparr>"

lemma mtx_runI:
  assumes "mtx_reachable s" "mtx_instruction (mtx_pcs s t) = Some f" "f (mtx_val s) = (val, pc)"
    "s' = \<lparr>mtx_val = val, mtx_pcs = (mtx_pcs s)(t := pc)\<rparr>"
  shows "mtx_reachable s'"
  using mtx_reachable.run [OF assms(1) mtx_run.instruction [OF assms(2,3)]] assms(4) by simp

lemma contended_reachable: "mtx_reachable contended"
proof -
  have "mtx_reachable \<lparr>mtx_val = 0, mtx_pcs = (\<lambda>_. Outside)(0 := Try)\<rparr>"
    using mtx_reachable.env [OF mtx_reachable.init mtx_env.call_lock, of 0] by (simp add: simple_mtx_init_def)
  then have "mtx_reachable \<lparr>mtx_val = 1, mtx_pcs = (\<lambda>_. Outside)(0 := Holding)\<rparr>"
    by (rule mtx_runI [where t = 0 and f = lock_compare_and_swap]) (auto simp: lock_compare_and_swap_def)
  from mtx_reachable.env [OF this mtx_env.call_lock, of 1]
  have "mtx_reachable \<lparr>mtx_val = 1, mtx_pcs = (\<lambda>_. Outside)(0 := Holding, 1 := Try)\<rparr>" by simp
  then have "mtx_reachable \<lparr>mtx_val = 1, mtx_pcs = (\<lambda>_. Outside)(0 := Holding, 1 := Swap)\<rparr>"
    by (rule mtx_runI [where t = 1 and f = lock_compare_and_swap]) (auto simp: lock_compare_and_swap_def)
  then have "mtx_reachable \<lparr>mtx_val = 2, mtx_pcs = (\<lambda>_. Outside)(0 := Holding, 1 := Wait)\<rparr>"
    by (rule mtx_runI [where t = 1 and f = lock_test_and_set]) (auto simp: lock_test_and_set_def)
  then show ?thesis unfolding contended_def
    by (rule mtx_runI [where t = 1 and f = lock_futex_wait]) (auto simp: lock_futex_wait_def futex_blocks_def)
qed

theorem simple_mtx_exclusive_witness:
  "mtx_pcs contended 0 = Holding \<and> mtx_val contended \<noteq> 0"
  using simple_mtx_exclusive [OF contended_reachable, of 0 0] by (simp add: contended_def)

theorem simple_mtx_drains_witness:
  "mtx_pcs contended 1 = Asleep \<and> \<not> (\<exists>run. run 0 = contended \<and> (\<forall>i. mtx_run (run i) (run (Suc i)))) \<and>
   (\<exists>s'. mtx_run contended s')"
proof -
  have one: "mtx_pcs contended 1 = Asleep" by (simp add: contended_def)
  have "{t. mtx_pcs contended t \<noteq> Outside} \<subseteq> {0, 1}" by (auto simp: contended_def)
  then have fin: "finite {t. mtx_pcs contended t \<noteq> Outside}" using finite_subset by blast
  show ?thesis using simple_mtx_drains [OF contended_reachable fin] one by (metis mtx_pc.distinct(7))
qed

end
