(* ===== verification/Queue_Fence.thy ===== *)
theory Queue_Fence
  imports Futex
begin

text \<open>
  The fence of \<^verbatim>\<open>src/util/u_queue.h\<close> and \<^verbatim>\<open>u_queue.c\<close> in its futex form: threads wait for a job to
  complete, with or without a timeout. Each access to the word is one step of a thread. The word is
  0 when the fence is signalled, 1 when it is not, and 2 when it is not and may have waiters.
\<close>

section \<open>The code\<close>

text \<open>
  Where a thread is: outside; in \<^verbatim>\<open>util_queue_fence_wait\<close> (with the flag whether it has a timeout)
  before the first test, before reading the word in \<^verbatim>\<open>do_futex_fence_wait\<close>, before the \<^verbatim>\<open>cmpxchg\<close>,
  before \<^verbatim>\<open>futex_wait\<close> and asleep in it; returned, with the result; and in \<^verbatim>\<open>util_queue_fence_signal\<close>
  before \<^verbatim>\<open>futex_wake\<close>.
\<close>

datatype fence_pc = Out | Check bool | Read bool | Cmpxchg bool | Futex_wait bool | Sleeping bool
  | Returned bool | Signal_wake

text \<open>\<open>armed\<close> records that a reset has not been followed by a signal yet.\<close>

record fence_state =
  fence_val :: u32
  fence_pcs :: "thread \<Rightarrow> fence_pc"
  armed :: bool

definition util_queue_fence_init :: fence_state where
  "util_queue_fence_init = \<lparr>fence_val = 0, fence_pcs = (\<lambda>_. Out), armed = False\<rparr>"

definition util_queue_fence_is_signalled :: "u32 \<Rightarrow> bool" where
  "util_queue_fence_is_signalled val \<longleftrightarrow> val = 0"

text \<open>The accesses of a waiting thread: the new word and where the thread goes on.\<close>

definition fence_check :: "bool \<Rightarrow> u32 \<Rightarrow> u32 \<times> fence_pc" where
  "fence_check timeout val =
     (val, if \<not> util_queue_fence_is_signalled val then Read timeout else Returned True)"

definition fence_read :: "bool \<Rightarrow> u32 \<Rightarrow> u32 \<times> fence_pc" where
  "fence_read timeout val =
     (let v = val in (val, if v \<noteq> 0 then if v \<noteq> 2 then Cmpxchg timeout else Futex_wait timeout else Returned True))"

definition fence_cmpxchg :: "bool \<Rightarrow> u32 \<Rightarrow> u32 \<times> fence_pc" where
  "fence_cmpxchg timeout val =
     (let v = val; val = (if val = 1 then 2 else val)
      in (val, if v = 0 then Returned True else Futex_wait timeout))"

definition fence_futex_wait :: "bool \<Rightarrow> u32 \<Rightarrow> u32 \<times> fence_pc" where
  "fence_futex_wait timeout val = (val, if futex_blocks val 2 then Sleeping timeout else Read timeout)"

fun fence_access :: "fence_pc \<Rightarrow> (u32 \<Rightarrow> u32 \<times> fence_pc) option" where
  "fence_access (Check timeout) = Some (fence_check timeout)"
| "fence_access (Read timeout) = Some (fence_read timeout)"
| "fence_access (Cmpxchg timeout) = Some (fence_cmpxchg timeout)"
| "fence_access (Futex_wait timeout) = Some (fence_futex_wait timeout)"
| "fence_access _ = None"

text \<open>\<open>None\<close> is a failed assertion.\<close>

definition util_queue_fence_signal :: "u32 \<Rightarrow> (u32 \<times> fence_pc) option" where
  "util_queue_fence_signal val =
     (if val = 0 then None else Some (0, if val = 2 then Signal_wake else Out))"

definition util_queue_fence_reset :: "u32 \<Rightarrow> u32 option" where
  "util_queue_fence_reset val = (if val = 0 then Some 1 else None)"

definition sleeping :: "fence_state \<Rightarrow> thread set" where
  "sleeping s = {t. \<exists>b. fence_pcs s t = Sleeping b}"

text \<open>Waiting, or about to wait.\<close>

definition waiting :: "fence_state \<Rightarrow> thread \<Rightarrow> bool" where
  "waiting s t \<longleftrightarrow> (\<exists>b. fence_pcs s t \<in> {Check b, Read b, Cmpxchg b, Futex_wait b, Sleeping b})"

definition set_timeout :: "fence_pc \<Rightarrow> bool" where
  "set_timeout pc \<longleftrightarrow> pc = Sleeping True"

abbreviation INT_MAX :: nat where
  "INT_MAX \<equiv> 2147483647"

text \<open>Steps inside the functions; a sleeper with a timeout may run into it.\<close>

inductive fence_run :: "fence_state \<Rightarrow> fence_state \<Rightarrow> bool" where
  access: "fence_access (fence_pcs s t) = Some f \<Longrightarrow> f (fence_val s) = (val, pc) \<Longrightarrow>
    fence_run s (s\<lparr>fence_val := val, fence_pcs := (fence_pcs s)(t := pc)\<rparr>)"
| wake: "fence_pcs s t = Signal_wake \<Longrightarrow> futex_wakes (sleeping s) INT_MAX W \<Longrightarrow>
    fence_run s (s\<lparr>fence_pcs := (\<lambda>a. if a \<in> W then Read (set_timeout (fence_pcs s a)) else ((fence_pcs s)(t := Out)) a)\<rparr>)"
| timed_out: "fence_pcs s t = Sleeping True \<Longrightarrow>
    fence_run s (s\<lparr>fence_pcs := (fence_pcs s)(t := Returned False)\<rparr>)"

text \<open>
  Calls. The fence is signalled once after each reset, and it is reset only while no thread waits
  for it.
\<close>

inductive fence_call :: "thread set \<Rightarrow> fence_state \<Rightarrow> fence_state \<Rightarrow> bool" for T where
  call_wait: "t \<in> T \<Longrightarrow> fence_pcs s t \<in> {Out, Returned b} \<Longrightarrow>
    fence_call T s (s\<lparr>fence_pcs := (fence_pcs s)(t := Check timeout)\<rparr>)"
| call_signal: "t \<in> T \<Longrightarrow> fence_pcs s t \<in> {Out, Returned b} \<Longrightarrow> armed s \<Longrightarrow>
    util_queue_fence_signal (fence_val s) = Some (val, pc) \<Longrightarrow>
    fence_call T s (s\<lparr>fence_val := val, fence_pcs := (fence_pcs s)(t := pc), armed := False\<rparr>)"
| call_reset: "\<not> armed s \<Longrightarrow> \<forall>t. \<not> waiting s t \<Longrightarrow> util_queue_fence_reset (fence_val s) = Some val \<Longrightarrow>
    fence_call T s (s\<lparr>fence_val := val, armed := True\<rparr>)"
| interrupted: "fence_pcs s t = Sleeping b \<Longrightarrow>
    fence_call T s (s\<lparr>fence_pcs := (fence_pcs s)(t := Read b)\<rparr>)"

text \<open>\<open>T\<close> are the threads of the program.\<close>

inductive fence_reachable :: "thread set \<Rightarrow> fence_state \<Rightarrow> bool" for T where
  init: "fence_reachable T util_queue_fence_init"
| run: "fence_reachable T s \<Longrightarrow> fence_run s s' \<Longrightarrow> fence_reachable T s'"
| call: "fence_reachable T s \<Longrightarrow> fence_call T s s' \<Longrightarrow> fence_reachable T s'"

lemmas fence_access_defs = fence_check_def fence_read_def fence_cmpxchg_def fence_futex_wait_def
  futex_blocks_def util_queue_fence_is_signalled_def Let_def

section \<open>The invariant\<close>

definition waking :: "fence_state \<Rightarrow> thread set" where
  "waking s = {t. fence_pcs s t = Signal_wake}"

definition fence_inv :: "thread set \<Rightarrow> fence_state \<Rightarrow> bool" where
  "fence_inv T s \<longleftrightarrow> (\<forall>t. t \<notin> T \<longrightarrow> fence_pcs s t = Out) \<and> fence_val s \<in> {0, 1, 2} \<and> (armed s \<longleftrightarrow> fence_val s \<noteq> 0) \<and>
     (sleeping s \<noteq> {} \<longrightarrow> fence_val s = 2 \<or> waking s \<noteq> {})"

lemma fence_moved:
  "sleeping (s\<lparr>fence_val := val, fence_pcs := (fence_pcs s)(t := pc)\<rparr>) =
     (if \<exists>b. pc = Sleeping b then insert t (sleeping s) else sleeping s - {t})"
  "waking (s\<lparr>fence_val := val, fence_pcs := (fence_pcs s)(t := pc)\<rparr>) =
     (if pc = Signal_wake then insert t (waking s) else waking s - {t})"
  by (auto simp: sleeping_def waking_def)

lemma fence_thread: "fence_inv T s \<Longrightarrow> fence_pcs s t \<noteq> Out \<Longrightarrow> t \<in> T"
  by (auto simp: fence_inv_def)

lemma fence_access_inv:
  assumes inv: "fence_inv T s" and f: "fence_access (fence_pcs s t) = Some f" "f (fence_val s) = (val, pc)"
  shows "fence_inv T (s\<lparr>fence_val := val, fence_pcs := (fence_pcs s)(t := pc)\<rparr>)"
proof -
  have t: "t \<notin> sleeping s" "t \<notin> waking s" using f(1) by (auto simp: sleeping_def waking_def)
  have "t \<in> T" using fence_thread [OF inv] f(1) by force
  then show ?thesis
    using inv f t unfolding fence_inv_def fence_moved
    by (cases "fence_pcs s t") (auto simp: fence_access_defs split: if_splits)
qed

lemma all_woken:
  assumes inv: "fence_inv T s" and T: "finite T" "card T < INT_MAX" and W: "futex_wakes (sleeping s) INT_MAX W"
  shows "W = sleeping s"
proof -
  have "sleeping s \<subseteq> T" using fence_thread [OF inv] by (auto simp: sleeping_def)
  then have "card (sleeping s) < INT_MAX" "finite (sleeping s)"
    using card_mono [OF T(1)] T finite_subset by (meson le_less_trans)+
  moreover from this have "card W \<le> card (sleeping s)" using W card_mono [of "sleeping s" W] by (simp add: futex_wakes_def)
  ultimately show ?thesis using W by (simp add: futex_wakes_def)
qed

lemma fence_run_inv:
  assumes "fence_run s s'" and inv: "fence_inv T s" and T: "finite T" "card T < INT_MAX"
  shows "fence_inv T s'"
  using assms(1)
proof (cases rule: fence_run.cases)
  case (access t f val pc)
  then show ?thesis using fence_access_inv [OF inv] by blast
next
  case (wake t W)
  have "W = sleeping s" by (rule all_woken [OF inv T wake(3)])
  then have "sleeping s' = {}" unfolding wake(1) by (auto simp: sleeping_def)
  moreover have "\<forall>a. a \<notin> T \<longrightarrow> fence_pcs s' a = Out"
    using inv \<open>W = sleeping s\<close> fence_thread [OF inv] unfolding wake(1) by (auto simp: fence_inv_def sleeping_def)
  ultimately show ?thesis using inv unfolding wake(1) by (simp add: fence_inv_def)
next
  case (timed_out t)
  then have "waking s' = waking s" "sleeping s' \<subseteq> sleeping s" "t \<in> T"
    using fence_thread [OF inv, of t] by (auto simp: waking_def sleeping_def)
  then show ?thesis using inv unfolding timed_out(1) by (auto simp: fence_inv_def)
qed

lemma fence_call_inv:
  assumes "fence_call T s s'" and inv: "fence_inv T s"
  shows "fence_inv T s'"
  using assms(1)
proof (cases rule: fence_call.cases)
  case (call_wait t b timeout)
  then have "waking s' = waking s" "sleeping s' = sleeping s" by (auto simp: waking_def sleeping_def)
  then show ?thesis using inv call_wait(2) unfolding call_wait(1) by (auto simp: fence_inv_def)
next
  case (call_signal t b val pc)
  have "fence_val s \<noteq> 0" using call_signal(4) inv by (simp add: fence_inv_def)
  then have v: "val = 0" "pc = (if fence_val s = 2 then Signal_wake else Out)"
    using call_signal(5) by (simp_all add: util_queue_fence_signal_def)
  have "sleeping s' = sleeping s" "waking s' = (if pc = Signal_wake then insert t (waking s) else waking s)"
    using call_signal(3) v unfolding call_signal(1) by (auto simp: sleeping_def waking_def)
  then show ?thesis using inv v call_signal(2) unfolding call_signal(1) by (auto simp: fence_inv_def)
next
  case (call_reset val)
  then have "sleeping s' = {}" "val = 1" by (auto simp: sleeping_def waiting_def util_queue_fence_reset_def split: if_splits)
  then show ?thesis using inv unfolding call_reset(1) by (simp add: fence_inv_def)
next
  case (interrupted t b)
  then have "waking s' = waking s" "sleeping s' \<subseteq> sleeping s" "t \<in> T"
    using fence_thread [OF inv, of t] by (auto simp: waking_def sleeping_def)
  then show ?thesis using inv unfolding interrupted(1) by (auto simp: fence_inv_def)
qed

lemma fence_reachable_inv:
  assumes "finite T" "card T < INT_MAX"
  shows "fence_reachable T s \<Longrightarrow> fence_inv T s"
proof (induction rule: fence_reachable.induct)
  case init
  show ?case by (simp add: fence_inv_def util_queue_fence_init_def sleeping_def)
qed (use fence_run_inv assms fence_call_inv in blast)+

section \<open>Progress\<close>

fun fence_rank :: "fence_pc \<Rightarrow> nat" where
  "fence_rank (Check b) = 4" | "fence_rank (Cmpxchg b) = 4" | "fence_rank (Futex_wait b) = 3" | "fence_rank (Read b) = 2"
| "fence_rank (Sleeping b) = 1" | "fence_rank _ = 0"

definition fence_order :: "thread set \<Rightarrow> (fence_state \<times> fence_state) set" where
  "fence_order T = inv_image (less_than <*lex*> less_than)
     (\<lambda>s. (\<Sum>t\<in>T. of_bool (fence_pcs s t = Signal_wake), \<Sum>t\<in>T. fence_rank (fence_pcs s t)))"

lemma wf_fence_order: "wf (fence_order T)"
  by (auto simp: fence_order_def)

text \<open>While the fence is signalled every step brings the waiting threads closer to their return.\<close>

lemma fence_run_order:
  assumes "fence_run s s'" and inv: "fence_inv T s" and T: "finite T" and v: "fence_val s = 0"
  shows "(s', s) \<in> fence_order T \<and> fence_val s' = 0"
  using assms(1)
proof (cases rule: fence_run.cases)
  case (access t f val pc)
  have t: "t \<in> T" using fence_thread [OF inv] access(2) by force
  have "val = 0" "fence_rank pc < fence_rank (fence_pcs s t)" "pc \<noteq> Signal_wake" "fence_pcs s t \<noteq> Signal_wake"
    using access(2,3) v by (cases "fence_pcs s t"; auto simp: fence_access_defs)+
  then show ?thesis
    using sum_thread [OF T t, of "\<lambda>pc. of_bool (pc = Signal_wake)" "fence_pcs s" pc]
      sum_thread [OF T t, of fence_rank "fence_pcs s" pc] unfolding access(1) by (auto simp: fence_order_def)
next
  case (wake t W)
  have t: "t \<in> T" using fence_thread [OF inv] wake(2) by force
  have W: "W \<subseteq> sleeping s" using wake(3) by (simp add: futex_wakes_def)
  have "(\<Sum>a\<in>T. of_bool (fence_pcs s' a = Signal_wake)) = (\<Sum>a\<in>T. of_bool (((fence_pcs s)(t := Out)) a = Signal_wake) :: nat)"
    using W unfolding wake(1) by (intro sum.cong) (auto simp: sleeping_def)
  then show ?thesis
    using sum_thread [OF T t, of "\<lambda>pc. of_bool (pc = Signal_wake)" "fence_pcs s" Out] wake(2) v unfolding wake(1)
    by (simp add: fence_order_def)
next
  case (timed_out t)
  have t: "t \<in> T" using fence_thread [OF inv] timed_out(2) by force
  show ?thesis
    using sum_thread [OF T t, of "\<lambda>pc. of_bool (pc = Signal_wake)" "fence_pcs s" "Returned False"]
      sum_thread [OF T t, of fence_rank "fence_pcs s" "Returned False"] timed_out(2) v unfolding timed_out(1)
    by (simp add: fence_order_def)
qed


lemma fence_run_enabled:
  assumes "waiting s t" "fence_pcs s t \<notin> {Sleeping True, Sleeping False}"
  shows "\<exists>s'. fence_run s s'"
proof -
  obtain f where "fence_access (fence_pcs s t) = Some f" using assms by (auto simp: waiting_def)
  then show ?thesis using fence_run.access by (metis surj_pair)
qed

lemma fence_stuck:
  assumes inv: "fence_inv T s" and T: "finite T" "card T < INT_MAX" and v: "fence_val s = 0" and stuck: "\<nexists>s'. fence_run s s'"
  shows "\<not> waiting s t"
proof -
  have "waking s = {}"
  proof (rule ccontr)
    assume "waking s \<noteq> {}"
    then obtain a where a: "fence_pcs s a = Signal_wake" by (auto simp: waking_def)
    have "sleeping s \<subseteq> T" using fence_thread [OF inv] by (auto simp: sleeping_def)
    then have "futex_wakes (sleeping s) INT_MAX (sleeping s)"
      using T card_mono [OF T(1), of "sleeping s"] finite_subset by (auto simp: futex_wakes_def)
    then show False using fence_run.wake [OF a] stuck by blast
  qed
  then have "sleeping s = {}" using inv v by (auto simp: fence_inv_def)
  moreover from this have "fence_pcs s t \<notin> {Sleeping True, Sleeping False}" by (auto simp: sleeping_def)
  ultimately show ?thesis using fence_run_enabled stuck by blast
qed

section \<open>Properties\<close>

text \<open>
  C12: A wait on a fence that reports success returns only after the fence was signalled. If the fence is
  signalled once after each reset and not reset under waiters, the assertions of signal and
  reset hold. Once it is signalled, whatever the order of steps, the waiting threads take only
  finitely many, and when no step is left none of them waits or sleeps.
\<close>

theorem util_queue_fence_correct:
  assumes "finite T" "card T < INT_MAX" "fence_reachable T s"
  shows "(\<forall>s' t. fence_run s s' \<and> fence_pcs s t \<noteq> Returned True \<and> fence_pcs s' t = Returned True \<longrightarrow>
      util_queue_fence_is_signalled (fence_val s) \<and> \<not> armed s) \<and>
    (if armed s then util_queue_fence_signal (fence_val s) \<noteq> None else util_queue_fence_reset (fence_val s) \<noteq> None) \<and>
    (util_queue_fence_is_signalled (fence_val s) \<longrightarrow>
      \<not> (\<exists>run. run 0 = s \<and> (\<forall>i. fence_run (run i) (run (Suc i)))) \<and>
      ((\<nexists>s'. fence_run s s') \<longrightarrow> (\<forall>t. \<not> waiting s t)))"
proof (intro conjI allI impI notI)
  have inv: "fence_inv T s" by (rule fence_reachable_inv [OF assms])
  show "if armed s then util_queue_fence_signal (fence_val s) \<noteq> None else util_queue_fence_reset (fence_val s) \<noteq> None"
    using inv by (auto simp: fence_inv_def util_queue_fence_signal_def util_queue_fence_reset_def)
  {
    fix s' t assume "fence_run s s' \<and> fence_pcs s t \<noteq> Returned True \<and> fence_pcs s' t = Returned True"
    then have r: "fence_run s s'" "fence_pcs s t \<noteq> Returned True" "fence_pcs s' t = Returned True" by auto
    have "fence_val s = 0"
      using r(1)
    proof (cases rule: fence_run.cases)
      case (access a f val pc)
      then have "pc = Returned True" "fence_access (fence_pcs s a) = Some f" using r(2,3) by (auto split: if_splits)
      then show ?thesis using access(3) by (cases "fence_pcs s a") (auto simp: fence_access_defs split: if_splits)
    qed (use r(2,3) in \<open>auto split: if_splits\<close>)
    then show "util_queue_fence_is_signalled (fence_val s)" "armed s \<Longrightarrow> False"
      using inv by (simp_all add: fence_inv_def util_queue_fence_is_signalled_def)
  }
  assume "util_queue_fence_is_signalled (fence_val s)"
  then have v: "fence_val s = 0" by (simp add: util_queue_fence_is_signalled_def)
  {
    fix t assume "\<nexists>s'. fence_run s s'" "waiting s t"
    then show False using fence_stuck [OF inv assms(1,2) v] by blast
  }
  assume "\<exists>run. run 0 = s \<and> (\<forall>i. fence_run (run i) (run (Suc i)))"
  then obtain run where run: "run 0 = s" "\<And>i. fence_run (run i) (run (Suc i))" by blast
  have "fence_inv T (run i) \<and> fence_val (run i) = 0" for i
  proof (induction i)
    case (Suc i)
    then show ?case using fence_run_inv [OF run(2) _ assms(1,2)] fence_run_order [OF run(2) _ assms(1)] by blast
  qed (use run(1) inv v in simp)
  then have "(run (Suc i), run i) \<in> fence_order T" for i using fence_run_order [OF run(2) _ assms(1)] by blast
  then show False using wf_fence_order [of T] unfolding wf_iff_no_infinite_down_chain by blast
qed

section \<open>Witnesses\<close>

text \<open>Thread 1 waits asleep for a fence that thread 0 has just signalled.\<close>

definition signalled_state :: fence_state where
  "signalled_state = \<lparr>fence_val = 0, fence_pcs = (\<lambda>_. Out)(0 := Signal_wake, 1 := Sleeping False), armed = False\<rparr>"

lemma fence_runI:
  assumes "fence_reachable T s" "fence_access (fence_pcs s t) = Some f" "f (fence_val s) = (val, pc)"
    "s' = s\<lparr>fence_val := val, fence_pcs := (fence_pcs s)(t := pc)\<rparr>"
  shows "fence_reachable T s'"
  using fence_reachable.run [OF assms(1) fence_run.access [OF assms(2,3)]] assms(4) by simp

lemma signalled_reachable: "fence_reachable {0, 1} signalled_state"
proof -
  let ?s = "\<lambda>v pc. \<lparr>fence_val = v, fence_pcs = (\<lambda>_. Out)(1 := pc), armed = True\<rparr>"
  have "fence_reachable {0, 1} \<lparr>fence_val = 1, fence_pcs = (\<lambda>_. Out), armed = True\<rparr>"
    using fence_reachable.call [OF fence_reachable.init fence_call.call_reset, of 1 "{0, 1}"]
    by (simp add: util_queue_fence_init_def util_queue_fence_reset_def waiting_def)
  from fence_reachable.call [OF this fence_call.call_wait, of 1 True False]
  have "fence_reachable {0, 1} (?s 1 (Check False))" by simp
  then have "fence_reachable {0, 1} (?s 1 (Read False))"
    by (rule fence_runI [where t = 1 and f = "fence_check False"]) (auto simp: fence_access_defs)
  then have "fence_reachable {0, 1} (?s 1 (Cmpxchg False))"
    by (rule fence_runI [where t = 1 and f = "fence_read False"]) (auto simp: fence_access_defs)
  then have "fence_reachable {0, 1} (?s 2 (Futex_wait False))"
    by (rule fence_runI [where t = 1 and f = "fence_cmpxchg False"]) (auto simp: fence_access_defs)
  then have "fence_reachable {0, 1} (?s 2 (Sleeping False))"
    by (rule fence_runI [where t = 1 and f = "fence_futex_wait False"]) (auto simp: fence_access_defs)
  from fence_reachable.call [OF this fence_call.call_signal, of 0 True 0 Signal_wake]
  show ?thesis by (simp add: util_queue_fence_signal_def signalled_state_def fun_upd_twist)
qed

theorem util_queue_fence_correct_witness:
  "waiting signalled_state 1 \<and> \<not> (\<exists>run. run 0 = signalled_state \<and> (\<forall>i. fence_run (run i) (run (Suc i)))) \<and>
   (\<exists>s'. fence_run signalled_state s')"
proof -
  have w: "waiting signalled_state 1" "util_queue_fence_is_signalled (fence_val signalled_state)"
    by (auto simp: waiting_def signalled_state_def util_queue_fence_is_signalled_def)
  have "card {0, 1 :: thread} < INT_MAX" by simp
  from util_queue_fence_correct [OF _ this signalled_reachable] w show ?thesis by blast
qed

end
