(* ===== verification/Job_Queue.thy ===== *)
theory Job_Queue
  imports Futex "HOL-Library.Multiset" "HOL-Library.Monad_Syntax"
begin

text \<open>
  \<^verbatim>\<open>src/util/u_queue.c\<close> and \<^verbatim>\<open>u_queue.h\<close>: the queue of jobs that worker threads execute. This theory has the
  critical sections of the queue, which run under its lock, on the ring buffer, and shows that
  the ring is a first-in-first-out list. A fence is seen through its contract, a flag that says
  whether it is signalled. The sizes and indices, of type \<^verbatim>\<open>int\<close> and \<^verbatim>\<open>unsigned\<close> in the code, are natural
  numbers: a ring of \<open>2 ^ 31\<close> jobs, where they would overflow, takes 64 GB of memory, and allocations
  are taken to succeed.
\<close>

section \<open>Data\<close>

record util_queue_job =
  job_ptr :: ptr
  job_fence :: ptr
  job_execute :: ptr
  job_cleanup :: ptr

abbreviation null_job :: util_queue_job where
  "null_job \<equiv> \<lparr>job_ptr = NULL, job_fence = NULL, job_execute = NULL, job_cleanup = NULL\<rparr>"

record util_queue =
  resize_if_full :: bool
  num_queued :: nat
  kill_threads :: bool
  max_jobs :: nat
  write_idx :: nat
  read_idx :: nat
  jobs :: "util_queue_job list"

text \<open>The ring of a new queue; \<^verbatim>\<open>calloc\<close> gives cleared slots.\<close>

definition util_queue_init :: "nat \<Rightarrow> bool \<Rightarrow> util_queue" where
  "util_queue_init n resize =
     \<lparr>resize_if_full = resize, num_queued = 0, kill_threads = False, max_jobs = n, write_idx = 0, read_idx = 0,
      jobs = replicate n null_job\<rparr>"

section \<open>Sections under the lock\<close>

text \<open>
  \<open>None\<close> is a failed assertion or an access outside the array of jobs.
\<close>

definition slot :: "util_queue \<Rightarrow> nat \<Rightarrow> util_queue_job option" where
  "slot q i = (if i < length (jobs q) then Some (jobs q ! i) else None)"

text \<open>A worker takes the oldest job and clears its slot.\<close>

definition take_job :: "util_queue \<Rightarrow> (util_queue_job \<times> util_queue) option" where
  "take_job q = do {
     job \<leftarrow> slot q (read_idx q);
     Some (job, q\<lparr>jobs := (jobs q)[read_idx q := null_job], read_idx := (read_idx q + 1) mod max_jobs q,
                  num_queued := num_queued q - 1\<rparr>)
   }"

text \<open>The loop of a worker that terminates: it signals the fences of the jobs left.\<close>

partial_function (option) exit_loop ::
  "util_queue \<Rightarrow> (ptr \<Rightarrow> bool) \<Rightarrow> nat \<Rightarrow> (util_queue \<times> (ptr \<Rightarrow> bool)) option"
where
  "exit_loop q signalled i =
     (if i \<noteq> write_idx q then do {
        job \<leftarrow> slot q i;
        if job_ptr job \<noteq> NULL
        then if signalled (job_fence job) then None
             else exit_loop (q\<lparr>jobs := (jobs q)[i := job\<lparr>job_ptr := NULL\<rparr>]\<rparr>) (signalled(job_fence job := True)) ((i + 1) mod max_jobs q)
        else exit_loop q signalled ((i + 1) mod max_jobs q)
      } else Some (q, signalled))"

definition thread_exit :: "util_queue \<Rightarrow> (ptr \<Rightarrow> bool) \<Rightarrow> (util_queue \<times> (ptr \<Rightarrow> bool)) option" where
  "thread_exit q signalled = do {
     (q, signalled) \<leftarrow> exit_loop q signalled (read_idx q);
     Some (q\<lparr>read_idx := write_idx q, num_queued := 0\<rparr>, signalled)
   }"

text \<open>The loop that copies the queued jobs into the larger array, of which \<open>acc\<close> is the written
  part.\<close>

partial_function (option) copy_jobs :: "util_queue \<Rightarrow> nat \<Rightarrow> nat \<Rightarrow> util_queue_job list \<Rightarrow> util_queue_job list option" where
  "copy_jobs q new_max_jobs i acc =
     (if \<not> length acc < new_max_jobs then None
      else do {
        job \<leftarrow> slot q i;
        let i = (i + 1) mod max_jobs q;
        if i \<noteq> write_idx q then copy_jobs q new_max_jobs i (acc @ [job]) else Some (acc @ [job])
      })"

definition resize_queue :: "util_queue \<Rightarrow> util_queue option" where
  "resize_queue q = do {
     let new_max_jobs = max_jobs q + 8;
     copied \<leftarrow> copy_jobs q new_max_jobs (read_idx q) [];
     if length copied \<noteq> num_queued q then None
     else Some (q\<lparr>jobs := copied @ replicate (new_max_jobs - length copied) null_job, read_idx := 0,
                  write_idx := length copied, max_jobs := new_max_jobs\<rparr>)
   }"

definition put_job :: "util_queue \<Rightarrow> util_queue_job \<Rightarrow> util_queue option" where
  "put_job q job = do {
     old \<leftarrow> slot q (write_idx q);
     if job_ptr old \<noteq> NULL then None
     else Some (q\<lparr>jobs := (jobs q)[write_idx q := job], write_idx := (write_idx q + 1) mod max_jobs q,
                  num_queued := num_queued q + 1\<rparr>)
   }"

text \<open>The loop of \<^verbatim>\<open>util_queue_drop_job\<close>: the slot with the fence.\<close>

partial_function (option) find_job :: "util_queue \<Rightarrow> ptr \<Rightarrow> nat \<Rightarrow> nat option option" where
  "find_job q fence i =
     (if i \<noteq> write_idx q then do {
        job \<leftarrow> slot q i;
        if job_fence job = fence then Some (Some i) else find_job q fence ((i + 1) mod max_jobs q)
      } else Some None)"

text \<open>The result is the job that was removed, if any.\<close>

definition drop_locked :: "util_queue \<Rightarrow> ptr \<Rightarrow> (util_queue_job option \<times> util_queue) option" where
  "drop_locked q fence = do {
     found \<leftarrow> find_job q fence (read_idx q);
     case found of
       None \<Rightarrow> Some (None, q)
     | Some i \<Rightarrow> do { job \<leftarrow> slot q i; Some (Some job, q\<lparr>jobs := (jobs q)[i := null_job]\<rparr>) }
   }"

section \<open>The ring as a list\<close>

definition ring_at :: "util_queue \<Rightarrow> nat \<Rightarrow> nat" where
  "ring_at q k = (read_idx q + k) mod max_jobs q"

definition contents :: "util_queue \<Rightarrow> util_queue_job list" where
  "contents q = map (\<lambda>k. jobs q ! ring_at q k) [0..<num_queued q]"

definition ring_wf :: "util_queue \<Rightarrow> bool" where
  "ring_wf q \<longleftrightarrow> 0 < max_jobs q \<and> length (jobs q) = max_jobs q \<and> read_idx q < max_jobs q \<and>
     num_queued q \<le> max_jobs q \<and> write_idx q = ring_at q (num_queued q) \<and>
     (\<forall>k. num_queued q \<le> k \<and> k < max_jobs q \<longrightarrow> job_ptr (jobs q ! ring_at q k) = NULL)"

lemma ring_wfD:
  assumes "ring_wf q"
  shows "0 < max_jobs q" "length (jobs q) = max_jobs q" "read_idx q < max_jobs q" "num_queued q \<le> max_jobs q"
    "write_idx q = ring_at q (num_queued q)" "ring_at q k < max_jobs q"
    "num_queued q \<le> k \<Longrightarrow> k < max_jobs q \<Longrightarrow> job_ptr (jobs q ! ring_at q k) = NULL"
  using assms by (simp_all add: ring_wf_def ring_at_def)

lemma length_ring_contents [simp]: "length (contents q) = num_queued q"
  by (simp add: contents_def)

lemma contents_nth: "k < num_queued q \<Longrightarrow> contents q ! k = jobs q ! ring_at q k"
  by (simp add: contents_def)

lemma shift_mod_inject:
  assumes "(r + j) mod m = (r + k) mod m" "j < m" "k < (m :: nat)"
  shows "j = k"
proof -
  have le: "j = k" if eq: "(r + k) mod m = (r + j) mod m" and le: "j \<le> k" and k: "k < m" for j k
  proof -
    have "m dvd (r + k) - (r + j)" by (rule iffD1 [OF mod_eq_dvd_iff_nat [OF add_left_mono [OF le]] eq])
    then have "m dvd k - j" by simp
    then have "k - j = 0" using k dvd_imp_le [of m "k - j"] by linarith
    then show "j = k" using le by simp
  qed
  show ?thesis
  proof (cases "j \<le> k")
    case True
    show ?thesis by (rule le [OF assms(1) [symmetric] True assms(3)])
  next
    case False
    then have "k \<le> j" by simp
    from le [OF assms(1) this assms(2)] show ?thesis by simp
  qed
qed

lemma ring_at_inject: "ring_wf q \<Longrightarrow> j < max_jobs q \<Longrightarrow> k < max_jobs q \<Longrightarrow> ring_at q j = ring_at q k \<longleftrightarrow> j = k"
  unfolding ring_at_def by (rule iffI, erule (2) shift_mod_inject) simp

lemma ring_at_0: "ring_wf q \<Longrightarrow> ring_at q 0 = read_idx q"
  by (simp add: ring_at_def ring_wf_def)

lemma ring_at_Suc: "Suc (ring_at q k) mod max_jobs q = ring_at q (Suc k)"
  by (simp add: ring_at_def mod_Suc_eq)

lemma slot_ring: "ring_wf q \<Longrightarrow> slot q (ring_at q k) = Some (jobs q ! ring_at q k)"
  by (simp add: slot_def ring_wfD)

text \<open>The part of a queue no operation on jobs changes.\<close>

definition same_setup :: "util_queue \<Rightarrow> util_queue \<Rightarrow> bool" where
  "same_setup q q' \<longleftrightarrow> kill_threads q' = kill_threads q \<and> resize_if_full q' = resize_if_full q"

lemma same_setup_refl: "same_setup q q"
  by (simp add: same_setup_def)

lemma take_job_contents:
  assumes wf: "ring_wf q" and n: "0 < num_queued q"
  shows "\<exists>q'. take_job q = Some (hd (contents q), q') \<and> ring_wf q' \<and> contents q' = tl (contents q) \<and>
    max_jobs q' = max_jobs q \<and> num_queued q' = num_queued q - 1 \<and> same_setup q q'"
proof -
  note w = ring_wfD [OF wf]
  let ?q = "q\<lparr>jobs := (jobs q)[read_idx q := null_job], read_idx := (read_idx q + 1) mod max_jobs q,
    num_queued := num_queued q - 1\<rparr>"
  have at: "ring_at ?q k = ring_at q (Suc k)" for k
    by (simp add: ring_at_def mod_add_left_eq)
  have read: "ring_at q k = read_idx q \<longleftrightarrow> k = 0" if "k < max_jobs q" for k
    using ring_at_inject [OF wf that w(1)] ring_at_0 [OF wf] by simp
  have old: "jobs ?q ! ring_at q k = (if k = 0 then null_job else jobs q ! ring_at q k)" if "k < max_jobs q" for k
    using read [OF that] w(2,3) by (auto simp: nth_list_update)
  have "contents ?q = tl (contents q)"
  proof (rule nth_equalityI)
    fix k assume "k < length (contents ?q)"
    then have k: "k < num_queued q - 1" by simp
    then have "contents ?q ! k = jobs q ! ring_at q (Suc k)"
      using contents_nth [of k ?q] old [of "Suc k"] w(4) unfolding at by simp
    then show "contents ?q ! k = tl (contents q) ! k"
      using k contents_nth [of "Suc k" q] by (simp add: nth_tl)
  qed simp
  moreover have "hd (contents q) = jobs q ! read_idx q"
    using contents_nth [OF n] ring_at_0 [OF wf] n by (simp add: hd_conv_nth flip: length_greater_0_conv)
  moreover have "ring_wf ?q"
  proof -
    have "job_ptr (jobs ?q ! ring_at ?q k) = NULL" if "num_queued q - 1 \<le> k" "k < max_jobs q" for k
    proof (cases "Suc k < max_jobs q")
      case True
      then show ?thesis using old [OF True] w(7) [of "Suc k"] that unfolding at by simp
    next
      case False
      then have "Suc k = max_jobs q" using that(2) by simp
      then have "ring_at q (Suc k) = ring_at q 0" by (simp add: ring_at_def)
      then show ?thesis using old [of 0] w(1) unfolding at by simp
    qed
    moreover have "write_idx ?q = ring_at ?q (num_queued ?q)" unfolding at using w(5) n by simp
    ultimately show ?thesis using w(1-4) by (simp add: ring_wf_def)
  qed
  moreover have "take_job q = Some (jobs q ! read_idx q, ?q)" using w(2,3) by (simp add: take_job_def slot_def)
  ultimately show ?thesis by (simp add: same_setup_def)
qed

lemma put_job_contents:
  assumes wf: "ring_wf q" and n: "num_queued q < max_jobs q"
  shows "\<exists>q'. put_job q job = Some q' \<and> ring_wf q' \<and> contents q' = contents q @ [job] \<and>
    max_jobs q' = max_jobs q \<and> num_queued q' = num_queued q + 1 \<and> same_setup q q'"
proof -
  note w = ring_wfD [OF wf]
  let ?q = "q\<lparr>jobs := (jobs q)[write_idx q := job], write_idx := (write_idx q + 1) mod max_jobs q,
    num_queued := num_queued q + 1\<rparr>"
  have at: "ring_at ?q k = ring_at q k" for k by (simp add: ring_at_def)
  have new: "jobs ?q ! ring_at q k = (if k = num_queued q then job else jobs q ! ring_at q k)" if "k < max_jobs q" for k
    using ring_at_inject [OF wf that n] w(2,5) w(6) [of k] by (auto simp: nth_list_update)
  have "contents ?q = contents q @ [job]"
  proof (rule nth_equalityI)
    fix k assume "k < length (contents ?q)"
    then have k: "k < num_queued q + 1" by simp
    then have "contents ?q ! k = (if k = num_queued q then job else jobs q ! ring_at q k)"
      using contents_nth [of k ?q] new [of k] n unfolding at by simp
    then show "contents ?q ! k = (contents q @ [job]) ! k"
      using k contents_nth [of k q] by (auto simp: nth_append)
  qed simp
  moreover have "ring_wf ?q"
  proof -
    have "job_ptr (jobs ?q ! ring_at ?q k) = NULL" if "num_queued q + 1 \<le> k" "k < max_jobs q" for k
      using new [OF that(2)] w(7) [of k] that unfolding at by simp
    moreover have "write_idx ?q = ring_at ?q (num_queued ?q)" unfolding at using w(5) ring_at_Suc [of q "num_queued q"] by simp
    ultimately show ?thesis using w(1-4) n by (simp add: ring_wf_def)
  qed
  moreover have "put_job q job = Some ?q"
    using w(2,5) w(6) [of "num_queued q"] w(7) [of "num_queued q"] n by (simp add: put_job_def slot_def)
  ultimately show ?thesis by (simp add: same_setup_def)
qed

text \<open>The loops meet the write position exactly at the end of the contents, unless the ring is
  full.\<close>

lemma ring_end: "ring_wf q \<Longrightarrow> num_queued q < max_jobs q \<Longrightarrow> k \<le> num_queued q \<Longrightarrow> ring_at q k = write_idx q \<longleftrightarrow> k = num_queued q"
  using ring_at_inject [of q k "num_queued q"] by (simp add: ring_wfD)

lemma ring_full: "ring_wf q \<Longrightarrow> num_queued q = max_jobs q \<Longrightarrow> write_idx q = read_idx q"
  by (simp add: ring_wf_def ring_at_def)

lemma copy_jobs_contents:
  assumes wf: "ring_wf q" and full: "num_queued q = max_jobs q"
  shows "k < num_queued q \<Longrightarrow> length acc = k \<Longrightarrow> copy_jobs q (max_jobs q + 8) (ring_at q k) acc = Some (acc @ drop k (contents q))"
proof (induction "num_queued q - k" arbitrary: k acc)
  case (Suc m)
  note w = ring_wfD [OF wf]
  have job: "drop k (contents q) = jobs q ! ring_at q k # drop (Suc k) (contents q)"
    using Suc.prems(1) contents_nth [OF Suc.prems(1)] by (simp add: Cons_nth_drop_Suc [symmetric])
  have last: "ring_at q (Suc k) = write_idx q \<longleftrightarrow> Suc k = num_queued q"
  proof (cases "Suc k = num_queued q")
    case True
    then show ?thesis using w(5) by simp
  next
    case False
    then have "Suc k < max_jobs q" using Suc.prems(1) full by simp
    then show ?thesis using ring_at_inject [OF wf _ w(1), of "Suc k"] ring_full [OF wf full] ring_at_0 [OF wf] False by simp
  qed
  show ?case
  proof (cases "Suc k = num_queued q")
    case True
    then show ?thesis using Suc.prems full last slot_ring [OF wf, of k] job
      by (subst copy_jobs.simps) (simp add: ring_at_Suc Let_def)
  next
    case False
    then have "m = num_queued q - Suc k" "Suc k < num_queued q" using Suc.hyps(2) Suc.prems(1) by auto
    then have "copy_jobs q (max_jobs q + 8) (ring_at q (Suc k)) (acc @ [jobs q ! ring_at q k]) =
        Some ((acc @ [jobs q ! ring_at q k]) @ drop (Suc k) (contents q))"
      using Suc.hyps(1) Suc.prems(2) by simp
    then show ?thesis using Suc.prems full last slot_ring [OF wf, of k] job False
      by (subst copy_jobs.simps) (simp add: ring_at_Suc Let_def)
  qed
qed simp

lemma resize_queue_contents:
  assumes wf: "ring_wf q" and full: "num_queued q = max_jobs q"
  shows "\<exists>q'. resize_queue q = Some q' \<and> ring_wf q' \<and> contents q' = contents q \<and>
    max_jobs q' = max_jobs q + 8 \<and> num_queued q' = num_queued q \<and> same_setup q q'"
proof -
  note w = ring_wfD [OF wf]
  let ?m = "max_jobs q"
  let ?q = "q\<lparr>jobs := contents q @ replicate 8 null_job, read_idx := 0, write_idx := ?m, max_jobs := ?m + 8\<rparr>"
  have "copy_jobs q (?m + 8) (read_idx q) [] = Some (contents q)"
    using copy_jobs_contents [OF wf full, of 0 "[]"] w(1) full ring_at_0 [OF wf] by simp
  then have run: "resize_queue q = Some ?q" using full by (simp add: resize_queue_def)
  have at: "ring_at ?q k = k" if "k < ?m + 8" for k using that by (simp add: ring_at_def)
  have "contents ?q = contents q"
    by (rule nth_equalityI) (use at full contents_nth [of _ ?q] in \<open>auto simp: nth_append\<close>)
  moreover have "ring_wf ?q"
    using w(1) full at by (auto simp: ring_wf_def nth_append)
  ultimately show ?thesis using run by (simp add: same_setup_def)
qed

lemma find_job_contents:
  assumes wf: "ring_wf q" and n: "num_queued q < max_jobs q"
  shows "k \<le> num_queued q \<Longrightarrow> find_job q f (ring_at q k) =
    Some (map_option (ring_at q) (find (\<lambda>j. job_fence (contents q ! j) = f) [k..<num_queued q]))"
proof (induction "num_queued q - k" arbitrary: k)
  case 0
  then show ?case using ring_wfD(5) [OF wf] by (subst find_job.simps) simp
next
  case (Suc m)
  then have k: "k < num_queued q" by simp
  have ih: "find_job q f (ring_at q (Suc k)) =
      Some (map_option (ring_at q) (find (\<lambda>j. job_fence (contents q ! j) = f) [Suc k..<num_queued q]))"
    using Suc.hyps k by simp
  have "[k..<num_queued q] = k # [Suc k..<num_queued q]" using k by (rule upt_conv_Cons)
  then show ?case
    using k ring_end [OF wf n, of k] slot_ring [OF wf, of k] contents_nth [OF k] ih
    by (subst find_job.simps) (simp add: ring_at_Suc)
qed

lemma contents_update:
  assumes wf: "ring_wf q" and k: "k < num_queued q"
  shows "contents (q\<lparr>jobs := (jobs q)[ring_at q k := job]\<rparr>) = (contents q)[k := job]"
    "ring_wf (q\<lparr>jobs := (jobs q)[ring_at q k := job]\<rparr>)"
proof -
  let ?q = "q\<lparr>jobs := (jobs q)[ring_at q k := job]\<rparr>"
  note w = ring_wfD [OF wf]
  have at: "ring_at ?q j = ring_at q j" for j by (simp add: ring_at_def)
  have new: "jobs ?q ! ring_at q j = (if j = k then job else jobs q ! ring_at q j)" if "j < max_jobs q" for j
    using ring_at_inject [OF wf that, of k] k w(2,4) w(6) [of j] by (auto simp: nth_list_update)
  show "contents ?q = (contents q)[k := job]"
  proof (rule nth_equalityI)
    fix j assume "j < length (contents ?q)"
    then have j: "j < num_queued q" by simp
    then show "contents ?q ! j = (contents q)[k := job] ! j"
      using contents_nth [of j ?q] contents_nth [of j q] new [of j] w(4) unfolding at by (simp add: nth_list_update)
  qed simp
  have "job_ptr (jobs ?q ! ring_at ?q j) = NULL" if "num_queued q \<le> j" "j < max_jobs q" for j
    using new [OF that(2)] w(7) [OF that] k that unfolding at by simp
  then show "ring_wf ?q" using w(1-5) at by (simp add: ring_wf_def)
qed

text \<open>
  Dropping a job clears the first entry with its fence; in a full ring the loop does not run.
\<close>

lemma drop_locked_contents:
  assumes wf: "ring_wf q"
  shows "if num_queued q < max_jobs q \<and> (\<exists>job\<in>set (contents q). job_fence job = f)
    then \<exists>k q'. k < num_queued q \<and> job_fence (contents q ! k) = f \<and> drop_locked q f = Some (Some (contents q ! k), q') \<and>
      ring_wf q' \<and> contents q' = (contents q)[k := null_job] \<and> max_jobs q' = max_jobs q \<and> num_queued q' = num_queued q \<and>
      same_setup q q'
    else drop_locked q f = Some (None, q)"
proof (cases "num_queued q < max_jobs q")
  case False
  then have "num_queued q = max_jobs q" using ring_wfD(4) [OF wf] by simp
  then have "find_job q f (read_idx q) = Some None" using ring_full [OF wf] by (subst find_job.simps) simp
  then show ?thesis using False by (simp add: drop_locked_def)
next
  case True
  let ?found = "find (\<lambda>j. job_fence (contents q ! j) = f) [0..<num_queued q]"
  have run: "find_job q f (read_idx q) = Some (map_option (ring_at q) ?found)"
    using find_job_contents [OF wf True, of 0] ring_at_0 [OF wf] by simp
  show ?thesis
  proof (cases ?found)
    case None
    then have "\<not> (\<exists>job\<in>set (contents q). job_fence job = f)"
      by (auto simp: find_None_iff in_set_conv_nth)
    then show ?thesis using run None by (simp add: drop_locked_def)
  next
    case (Some k)
    then have k: "k < num_queued q" "job_fence (contents q ! k) = f" by (auto simp: find_Some_iff)
    have "drop_locked q f = Some (Some (contents q ! k), q\<lparr>jobs := (jobs q)[ring_at q k := null_job]\<rparr>)"
      using run Some slot_ring [OF wf, of k] contents_nth [OF k(1)] by (simp add: drop_locked_def)
    moreover have "\<exists>job\<in>set (contents q). job_fence job = f" using k nth_mem [of k "contents q"] by auto
    ultimately show ?thesis using True k contents_update [OF wf k(1), of null_job]
      by (auto simp: same_setup_def intro!: exI [of _ k])
  qed
qed

definition live_fences :: "util_queue_job list \<Rightarrow> ptr list" where
  "live_fences js = map job_fence (filter (\<lambda>job. job_ptr job \<noteq> NULL) js)"

lemma live_fences_simps [simp]:
  "live_fences [] = []" "live_fences (job # js) = (if job_ptr job \<noteq> NULL then job_fence job # live_fences js else live_fences js)"
  "live_fences (js @ js') = live_fences js @ live_fences js'"
  by (simp_all add: live_fences_def)

definition exited :: "util_queue \<Rightarrow> nat \<Rightarrow> util_queue \<Rightarrow> bool" where
  "exited q k q' \<longleftrightarrow> ring_wf q' \<and> num_queued q' = num_queued q \<and> max_jobs q' = max_jobs q \<and> same_setup q q' \<and>
     (\<forall>j<num_queued q. job_ptr (contents q' ! j) = (if k \<le> j then NULL else job_ptr (contents q ! j)))"

lemma exit_loop_contents:
  "ring_wf q \<Longrightarrow> num_queued q < max_jobs q \<Longrightarrow> k \<le> num_queued q \<Longrightarrow> distinct (live_fences (drop k (contents q))) \<Longrightarrow>
   \<forall>f\<in>set (live_fences (drop k (contents q))). \<not> sig f \<Longrightarrow>
   \<exists>q'. exit_loop q sig (ring_at q k) = Some (q', \<lambda>f. sig f \<or> f \<in> set (live_fences (drop k (contents q)))) \<and> exited q k q'"
proof (induction "num_queued q - k" arbitrary: q sig k)
  case 0
  then have "ring_at q k = write_idx q" using ring_end [of q k] by simp
  then show ?case using 0 by (subst exit_loop.simps) (auto simp: same_setup_refl exited_def)
next
  case (Suc m)
  then have k: "k < num_queued q" and m: "m = num_queued q - Suc k" by simp_all
  let ?job = "contents q ! k"
  have drop: "drop k (contents q) = ?job # drop (Suc k) (contents q)" using k by (simp add: Cons_nth_drop_Suc)
  have run: "exit_loop q sig (ring_at q k) =
      (if job_ptr ?job \<noteq> NULL
       then if sig (job_fence ?job) then None
            else exit_loop (q\<lparr>jobs := (jobs q)[ring_at q k := ?job\<lparr>job_ptr := NULL\<rparr>]\<rparr>) (sig(job_fence ?job := True)) (ring_at q (Suc k))
       else exit_loop q sig (ring_at q (Suc k)))"
    using ring_end [OF Suc.prems(1,2), of k] k slot_ring [OF Suc.prems(1), of k] contents_nth [OF k]
    by (subst exit_loop.simps) (simp add: ring_at_Suc)
  show ?case
  proof (cases "job_ptr ?job = NULL")
    case True
    obtain q' where q': "exit_loop q sig (ring_at q (Suc k)) = Some (q', \<lambda>f. sig f \<or> f \<in> set (live_fences (drop (Suc k) (contents q))))"
      "exited q (Suc k) q'"
      using Suc.hyps(1) [of q "Suc k" sig] m Suc.prems k True drop by auto
    have "exited q k q'" using q'(2) True k by (auto simp: exited_def not_less_eq_eq le_Suc_eq)
    then show ?thesis using run True q'(1) drop by auto
  next
    case False
    let ?q = "q\<lparr>jobs := (jobs q)[ring_at q k := ?job\<lparr>job_ptr := NULL\<rparr>]\<rparr>" and ?sig = "sig(job_fence ?job := True)"
    note U = contents_update [OF Suc.prems(1) k, of "?job\<lparr>job_ptr := NULL\<rparr>"]
    have rest: "drop (Suc k) (contents ?q) = drop (Suc k) (contents q)" by (simp add: U)
    have at: "ring_at ?q (Suc k) = ring_at q (Suc k)" by (simp add: ring_at_def)
    obtain q' where q': "exit_loop ?q ?sig (ring_at ?q (Suc k)) = Some (q', \<lambda>f. ?sig f \<or> f \<in> set (live_fences (drop (Suc k) (contents ?q))))"
      "exited ?q (Suc k) q'"
    proof -
      have "distinct (live_fences (drop (Suc k) (contents ?q)))" "\<forall>f\<in>set (live_fences (drop (Suc k) (contents ?q))). \<not> ?sig f"
        using Suc.prems(4,5) False unfolding rest drop by auto
      moreover have "m = num_queued ?q - Suc k" "num_queued ?q < max_jobs ?q" "Suc k \<le> num_queued ?q" using m k Suc.prems(2) by simp_all
      ultimately show thesis using Suc.hyps(1) [OF _ U(2)] that by blast
    qed
    have "exited q k q'" using q'(2) k by (auto simp: exited_def same_setup_def U nth_list_update)
    moreover have "(\<lambda>f. ?sig f \<or> f \<in> set (live_fences (drop (Suc k) (contents q)))) = (\<lambda>f. sig f \<or> f \<in> set (live_fences (drop k (contents q))))"
      using False unfolding drop by auto
    ultimately show ?thesis using run False q'(1) Suc.prems(5) drop unfolding rest at by auto
  qed
qed

lemma ring_at_surj:
  assumes "ring_wf q" "i < max_jobs q"
  obtains k where "k < max_jobs q" "i = ring_at q k"
proof -
  let ?m = "max_jobs q"
  have "(read_idx q + (i + (?m - read_idx q)) mod ?m) mod ?m = (read_idx q + (i + (?m - read_idx q))) mod ?m"
    by (rule mod_add_right_eq)
  also have "read_idx q + (i + (?m - read_idx q)) = i + ?m" using ring_wfD(3) [OF assms(1)] by simp
  finally have "i = ring_at q ((i + (?m - read_idx q)) mod ?m)" using assms(2) by (simp add: ring_at_def)
  then show thesis using that assms(2) by (metis mod_less_divisor less_nat_zero_code neq0_conv)
qed

lemma thread_exit_contents:
  assumes wf: "ring_wf q" and n: "num_queued q < max_jobs q" and live: "distinct (live_fences (contents q))"
    "\<forall>f\<in>set (live_fences (contents q)). \<not> sig f"
  shows "\<exists>q'. thread_exit q sig = Some (q', \<lambda>f. sig f \<or> f \<in> set (live_fences (contents q))) \<and> ring_wf q' \<and>
    contents q' = [] \<and> max_jobs q' = max_jobs q \<and> num_queued q' = 0 \<and> same_setup q q'"
proof -
  obtain q1 where q1: "exit_loop q sig (read_idx q) = Some (q1, \<lambda>f. sig f \<or> f \<in> set (live_fences (contents q)))" "exited q 0 q1"
    using exit_loop_contents [OF wf n, of 0 sig] live ring_at_0 [OF wf] by auto
  let ?q = "q1\<lparr>read_idx := write_idx q1, num_queued := 0\<rparr>"
  have wf1: "ring_wf q1" using q1(2) by (simp add: exited_def)
  note w = ring_wfD [OF wf1]
  have "job_ptr (jobs q1 ! i) = NULL" if i: "i < max_jobs q1" for i
  proof -
    obtain k where k: "k < max_jobs q1" "i = ring_at q1 k" by (rule ring_at_surj [OF wf1 i])
    then show ?thesis using q1(2) w(7) [of k] contents_nth [of k q1] by (cases "k < num_queued q1") (auto simp: exited_def)
  qed
  then have "ring_wf ?q" using w(1,2,5) w(6) [of "num_queued q1"] by (simp add: ring_wf_def ring_at_def)
  then show ?thesis using q1 by (auto simp: thread_exit_def exited_def same_setup_def contents_def)
qed

text \<open>In a full ring the loop does not run: no fence is signalled, and the jobs stay in their slots.\<close>

lemma thread_exit_full:
  assumes "ring_wf q" "num_queued q = max_jobs q"
  shows "thread_exit q sig = Some (q\<lparr>num_queued := 0\<rparr>, sig)"
  using ring_full [OF assms] by (simp add: thread_exit_def exit_loop.simps)

section \<open>Properties\<close>

text \<open>
  C40: The ring buffer of a queue is a first-in-first-out list: taking a job gives the oldest one and
  leaves the others, adding puts the job last, and growing a full ring keeps all jobs in their
  order and makes room; none of these fails an assertion or leaves the array.
\<close>

theorem util_queue_fifo:
  assumes "ring_wf q"
  shows "(0 < num_queued q \<longrightarrow> (\<exists>q'. take_job q = Some (hd (contents q), q') \<and> ring_wf q' \<and> contents q' = tl (contents q))) \<and>
    (num_queued q < max_jobs q \<longrightarrow> (\<exists>q'. put_job q job = Some q' \<and> ring_wf q' \<and> contents q' = contents q @ [job])) \<and>
    (num_queued q = max_jobs q \<longrightarrow>
      (\<exists>q'. resize_queue q = Some q' \<and> ring_wf q' \<and> contents q' = contents q \<and> num_queued q' < max_jobs q'))"
proof (intro conjI impI)
  assume n: "num_queued q = max_jobs q"
  obtain q' where "resize_queue q = Some q'" "ring_wf q'" "contents q' = contents q" "max_jobs q' = max_jobs q + 8" "num_queued q' = num_queued q"
    using resize_queue_contents [OF assms n] by blast
  then show "\<exists>q'. resize_queue q = Some q' \<and> ring_wf q' \<and> contents q' = contents q \<and> num_queued q' < max_jobs q'" using n by simp
qed (use take_job_contents [OF assms] put_job_contents [OF assms] in blast)+

section \<open>Witness\<close>

text \<open>A full ring of two slots whose oldest job is in the second one.\<close>

definition wrapped :: util_queue where
  "wrapped = (util_queue_init 2 True)\<lparr>num_queued := 2, read_idx := 1, write_idx := 1,
     jobs := [null_job\<lparr>job_ptr := 8, job_fence := 8\<rparr>, null_job\<lparr>job_ptr := 7, job_fence := 7\<rparr>]\<rparr>"

theorem util_queue_fifo_witness:
  "map job_ptr (contents wrapped) = [7, 8] \<and> (\<exists>q. resize_queue wrapped = Some q \<and> map job_ptr (contents q) = [7, 8])"
proof -
  have wf: "ring_wf wrapped" by (auto simp: wrapped_def util_queue_init_def ring_wf_def ring_at_def)
  have jobs: "map job_ptr (contents wrapped) = [7, 8]"
    by (simp add: wrapped_def util_queue_init_def contents_def ring_at_def upt_rec)
  have "num_queued wrapped = max_jobs wrapped" by (simp add: wrapped_def util_queue_init_def)
  then obtain q where "resize_queue wrapped = Some q" "contents q = contents wrapped" using util_queue_fifo [OF wf] by blast
  then show ?thesis using jobs by simp
qed

end
