(* ===== verification/Job_Machine.thy ===== *)
theory Job_Machine
  imports Job_Queue
begin

text \<open>
  Worker threads and clients of \<^verbatim>\<open>src/util/u_queue.c\<close>, interleaved. A step is what a thread does under
  the lock of the queue, or one action outside of it: executing a job, signalling a fence,
  calling a cleanup. A thread that waits for a condition variable sleeps until it is signalled,
  and then tests its condition anew.
\<close>

section \<open>Threads\<close>

datatype worker_pc = W_lock | W_wait | W_recheck | W_execute util_queue_job | W_signal util_queue_job
  | W_cleanup util_queue_job | W_exit | W_done

datatype client_pc = C_out | C_wait_space util_queue_job | C_recheck util_queue_job
  | C_drop_lock ptr | C_drop_signal ptr | C_fence_wait ptr

text \<open>What became of the job that was last added with a fence: it waits, it was executed (how
  often), dropped, or left behind by terminating threads.\<close>

datatype outcome = Unused | Waiting | Executed nat | Dropped | Abandoned

record queue_state =
  queue :: util_queue
  signalled :: "ptr \<Rightarrow> bool"
  workers :: "thread \<Rightarrow> worker_pc"
  clients :: "thread \<Rightarrow> client_pc"
  outcomes :: "ptr \<Rightarrow> outcome"

text \<open>\<^verbatim>\<open>cnd_signal\<close> wakes at least one of the sleeping threads.\<close>

definition cond_signals :: "thread set \<Rightarrow> thread set \<Rightarrow> bool" where
  "cond_signals sleepers woken \<longleftrightarrow> woken \<subseteq> sleepers \<and> (sleepers \<noteq> {} \<longrightarrow> woken \<noteq> {})"

definition queue_sleepers :: "queue_state \<Rightarrow> thread set" where
  "queue_sleepers s = {w. workers s w = W_wait}"

definition space_sleepers :: "queue_state \<Rightarrow> thread set" where
  "space_sleepers s = {c. \<exists>job. clients s c = C_wait_space job}"

definition wake_workers :: "thread set \<Rightarrow> (thread \<Rightarrow> worker_pc) \<Rightarrow> thread \<Rightarrow> worker_pc" where
  "wake_workers W ws = (\<lambda>w. if w \<in> W then W_recheck else ws w)"

definition wake_clients :: "thread set \<Rightarrow> (thread \<Rightarrow> client_pc) \<Rightarrow> thread \<Rightarrow> client_pc" where
  "wake_clients W cs = (\<lambda>c. case cs c of C_wait_space job \<Rightarrow> if c \<in> W then C_recheck job else cs c | _ \<Rightarrow> cs c)"

section \<open>The parts of the functions\<close>

text \<open>
  \<^verbatim>\<open>util_queue_thread_func\<close>: the test of the waiting loop with what follows it under the lock, and
  the section from its beginning.
\<close>

definition worker_poll :: "util_queue \<Rightarrow> (worker_pc \<times> util_queue) option" where
  "worker_poll q =
     (if \<not> kill_threads q \<and> num_queued q = 0 then Some (W_wait, q)
      else if kill_threads q then Some (W_exit, q)
      else do {
        (job, q) \<leftarrow> take_job q;
        Some (if job_ptr job \<noteq> NULL then W_execute job else W_lock, q)
      })"

definition worker_lock :: "util_queue \<Rightarrow> (worker_pc \<times> util_queue) option" where
  "worker_lock q = (if \<not> num_queued q \<le> max_jobs q then None else worker_poll q)"

text \<open>\<^verbatim>\<open>util_queue_add_job\<close>: to its end or to the wait for space, and the test after a wake-up.\<close>

definition util_queue_add_job ::
  "util_queue \<Rightarrow> (ptr \<Rightarrow> bool) \<Rightarrow> util_queue_job \<Rightarrow> (client_pc \<times> util_queue \<times> (ptr \<Rightarrow> bool)) option"
where
  "util_queue_add_job q sig job =
     (if kill_threads q then Some (C_out, q, sig)
      else if \<not> sig (job_fence job) then None
      else let sig = sig(job_fence job := False)
           in if \<not> num_queued q \<le> max_jobs q then None
              else if num_queued q = max_jobs q
              then if resize_if_full q
                   then do { q \<leftarrow> resize_queue q; q \<leftarrow> put_job q job; Some (C_out, q, sig) }
                   else Some (C_wait_space job, q, sig)
              else do { q \<leftarrow> put_job q job; Some (C_out, q, sig) })"

definition add_recheck :: "util_queue \<Rightarrow> util_queue_job \<Rightarrow> (client_pc \<times> util_queue) option" where
  "add_recheck q job =
     (if num_queued q = max_jobs q then Some (C_wait_space job, q)
      else do { q \<leftarrow> put_job q job; Some (C_out, q) })"

text \<open>The actions. Those with a set of threads end in a signal of a condition variable, which wakes
  these threads.\<close>

datatype queue_call =
    Poll thread "thread set"
  | Execute thread
  | Signal thread
  | Cleanup thread
  | Exit thread
  | Recheck thread "thread set"
  | Drop_locked thread
  | Drop_signal thread
  | Wait_done thread
  | Add thread util_queue_job "thread set"
  | Drop thread ptr
  | Fence_wait thread ptr
  | Kill
  | Worker_wakes thread
  | Client_wakes thread

text \<open>
  When an action can happen. What clients have to respect in their calls is here too: a job and its
  fence are not null, and the fence is signalled when the job is added. The threads of a queue are
  numbered below \<open>N\<close>, the clients below \<open>M\<close>.
\<close>

definition queue_enabled :: "nat \<Rightarrow> nat \<Rightarrow> queue_state \<Rightarrow> queue_call \<Rightarrow> bool" where
  "queue_enabled N M s c = (case c of
      Poll w W \<Rightarrow> w < N \<and> workers s w \<in> {W_lock, W_recheck} \<and> cond_signals (space_sleepers s) W
    | Execute w \<Rightarrow> w < N \<and> (\<exists>job. workers s w = W_execute job)
    | Signal w \<Rightarrow> w < N \<and> (\<exists>job. workers s w = W_signal job)
    | Cleanup w \<Rightarrow> w < N \<and> (\<exists>job. workers s w = W_cleanup job)
    | Exit w \<Rightarrow> w < N \<and> workers s w = W_exit
    | Recheck c W \<Rightarrow> c < M \<and> (\<exists>job. clients s c = C_recheck job) \<and> cond_signals (queue_sleepers s) W
    | Drop_locked c \<Rightarrow> c < M \<and> (\<exists>fence. clients s c = C_drop_lock fence)
    | Drop_signal c \<Rightarrow> c < M \<and> (\<exists>fence. clients s c = C_drop_signal fence)
    | Wait_done c \<Rightarrow> c < M \<and> (\<exists>fence. clients s c = C_fence_wait fence \<and> signalled s fence)
    | Add c job W \<Rightarrow> c < M \<and> clients s c = C_out \<and> cond_signals (queue_sleepers s) W \<and>
        job_ptr job \<noteq> NULL \<and> job_fence job \<noteq> NULL \<and> signalled s (job_fence job)
    | Drop c fence \<Rightarrow> c < M \<and> clients s c = C_out \<and> fence \<noteq> NULL
    | Fence_wait c fence \<Rightarrow> c < M \<and> clients s c = C_out
    | Kill \<Rightarrow> \<not> kill_threads (queue s)
    | Worker_wakes w \<Rightarrow> workers s w = W_wait
    | Client_wakes c \<Rightarrow> (\<exists>job. clients s c = C_wait_space job))"

definition exec_poll :: "thread \<Rightarrow> thread set \<Rightarrow> queue_state \<Rightarrow> queue_state option" where
  "exec_poll w W s = do {
     (pc, q) \<leftarrow> (if workers s w = W_lock then worker_lock (queue s) else worker_poll (queue s));
     Some (s\<lparr>queue := q, workers := (workers s)(w := pc),
             clients := if pc \<in> {W_wait, W_exit} then clients s else wake_clients W (clients s)\<rparr>)
   }"

definition exec_execute :: "thread \<Rightarrow> queue_state \<Rightarrow> queue_state option" where
  "exec_execute w s = (case workers s w of
      W_execute job \<Rightarrow> Some (s\<lparr>workers := (workers s)(w := W_signal job),
        outcomes := (outcomes s)(job_fence job :=
          (case outcomes s (job_fence job) of Executed n \<Rightarrow> Executed (Suc n) | _ \<Rightarrow> Executed 1))\<rparr>)
    | _ \<Rightarrow> None)"

definition exec_signal :: "thread \<Rightarrow> queue_state \<Rightarrow> queue_state option" where
  "exec_signal w s = (case workers s w of
      W_signal job \<Rightarrow>
        if signalled s (job_fence job) then None
        else Some (s\<lparr>signalled := (signalled s)(job_fence job := True),
          workers := (workers s)(w := if job_cleanup job \<noteq> NULL then W_cleanup job else W_lock)\<rparr>)
    | _ \<Rightarrow> None)"

definition exec_exit :: "thread \<Rightarrow> queue_state \<Rightarrow> queue_state option" where
  "exec_exit w s = do {
     (q, sig) \<leftarrow> thread_exit (queue s) (signalled s);
     Some (s\<lparr>queue := q, signalled := sig, workers := (workers s)(w := W_done),
             outcomes := (\<lambda>f. if sig f \<and> \<not> signalled s f then Abandoned else outcomes s f)\<rparr>)
   }"

definition exec_recheck :: "thread \<Rightarrow> thread set \<Rightarrow> queue_state \<Rightarrow> queue_state option" where
  "exec_recheck c W s = (case clients s c of
      C_recheck job \<Rightarrow> do {
        (pc, q) \<leftarrow> add_recheck (queue s) job;
        Some (s\<lparr>queue := q, clients := (clients s)(c := pc),
                workers := if pc = C_out then wake_workers W (workers s) else workers s\<rparr>)
      }
    | _ \<Rightarrow> None)"

definition exec_add :: "thread \<Rightarrow> util_queue_job \<Rightarrow> thread set \<Rightarrow> queue_state \<Rightarrow> queue_state option" where
  "exec_add c job W s = do {
     (pc, q, sig) \<leftarrow> util_queue_add_job (queue s) (signalled s) job;
     Some (if kill_threads (queue s) then s
           else s\<lparr>queue := q, signalled := sig, clients := (clients s)(c := pc),
                  workers := if pc = C_out then wake_workers W (workers s) else workers s,
                  outcomes := (outcomes s)(job_fence job := Waiting)\<rparr>)
   }"

text \<open>\<^verbatim>\<open>util_queue_drop_job\<close> in three parts.\<close>

definition exec_drop :: "thread \<Rightarrow> ptr \<Rightarrow> queue_state \<Rightarrow> queue_state option" where
  "exec_drop c fence s =
     Some (if signalled s fence then s else s\<lparr>clients := (clients s)(c := C_drop_lock fence)\<rparr>)"

definition exec_drop_locked :: "thread \<Rightarrow> queue_state \<Rightarrow> queue_state option" where
  "exec_drop_locked c s = (case clients s c of
      C_drop_lock fence \<Rightarrow> do {
        (removed, q) \<leftarrow> drop_locked (queue s) fence;
        Some (case removed of
            None \<Rightarrow> s\<lparr>clients := (clients s)(c := C_fence_wait fence)\<rparr>
          | Some job \<Rightarrow> s\<lparr>queue := q, clients := (clients s)(c := C_drop_signal fence),
                          outcomes := (outcomes s)(fence := Dropped)\<rparr>)
      }
    | _ \<Rightarrow> None)"

definition exec_drop_signal :: "thread \<Rightarrow> queue_state \<Rightarrow> queue_state option" where
  "exec_drop_signal c s = (case clients s c of
      C_drop_signal fence \<Rightarrow>
        if signalled s fence then None
        else Some (s\<lparr>signalled := (signalled s)(fence := True), clients := (clients s)(c := C_out)\<rparr>)
    | _ \<Rightarrow> None)"

text \<open>\<^verbatim>\<open>util_queue_killall_and_wait\<close>: the section under the lock, whose broadcast wakes every sleeping
  worker.\<close>

definition exec_kill :: "queue_state \<Rightarrow> queue_state option" where
  "exec_kill s = Some (s\<lparr>queue := (queue s)\<lparr>kill_threads := True\<rparr>, workers := wake_workers (queue_sleepers s) (workers s)\<rparr>)"

definition queue_exec :: "queue_call \<Rightarrow> queue_state \<Rightarrow> queue_state option" where
  "queue_exec c s = (case c of
      Poll w W \<Rightarrow> exec_poll w W s
    | Execute w \<Rightarrow> exec_execute w s
    | Signal w \<Rightarrow> exec_signal w s
    | Cleanup w \<Rightarrow> Some (s\<lparr>workers := (workers s)(w := W_lock)\<rparr>)
    | Exit w \<Rightarrow> exec_exit w s
    | Recheck c W \<Rightarrow> exec_recheck c W s
    | Drop_locked c \<Rightarrow> exec_drop_locked c s
    | Drop_signal c \<Rightarrow> exec_drop_signal c s
    | Wait_done c \<Rightarrow> Some (s\<lparr>clients := (clients s)(c := C_out)\<rparr>)
    | Add c job W \<Rightarrow> exec_add c job W s
    | Drop c fence \<Rightarrow> exec_drop c fence s
    | Fence_wait c fence \<Rightarrow> Some (s\<lparr>clients := (clients s)(c := C_fence_wait fence)\<rparr>)
    | Kill \<Rightarrow> exec_kill s
    | Worker_wakes w \<Rightarrow> Some (s\<lparr>workers := (workers s)(w := W_recheck)\<rparr>)
    | Client_wakes c \<Rightarrow> Some (s\<lparr>clients := wake_clients {c} (clients s)\<rparr>))"

text \<open>A new queue with \<open>N\<close> workers.\<close>

definition queue_start :: "nat \<Rightarrow> nat \<Rightarrow> bool \<Rightarrow> queue_state" where
  "queue_start N sz resize =
     \<lparr>queue = util_queue_init sz resize, signalled = (\<lambda>_. True), workers = (\<lambda>w. if w < N then W_lock else W_done),
      clients = (\<lambda>_. C_out), outcomes = (\<lambda>_. Unused)\<rparr>"

text \<open>
  \<^verbatim>\<open>util_queue_killall_and_wait\<close> can be called at any time, but the code copes with it only when the ring is not full
  and no client is waiting in \<^verbatim>\<open>util_queue_add_job\<close> for a free slot: in a full ring the loop that signals
  the remaining jobs does not run, and nobody wakes the client (\<open>kill_full_ring\<close> below). The runs
  considered are those in which the queue is destroyed in an orderly way.
\<close>

definition orderly :: "queue_state \<Rightarrow> queue_call \<Rightarrow> bool" where
  "orderly s c \<longleftrightarrow> (c = Kill \<longrightarrow> num_queued (queue s) < max_jobs (queue s) \<and>
     (\<forall>a job. clients s a \<noteq> C_wait_space job \<and> clients s a \<noteq> C_recheck job))"

inductive queue_reachable :: "nat \<Rightarrow> nat \<Rightarrow> nat \<Rightarrow> bool \<Rightarrow> queue_state \<Rightarrow> bool" for N M sz resize where
  start: "queue_reachable N M sz resize (queue_start N sz resize)"
| step: "queue_reachable N M sz resize s \<Longrightarrow> queue_enabled N M s c \<Longrightarrow> orderly s c \<Longrightarrow> queue_exec c s = Some s' \<Longrightarrow>
    queue_reachable N M sz resize s'"

section \<open>The balance of fences\<close>

text \<open>
  Every fence that is not signalled is held in exactly one place: by a job in the ring, by a
  worker that has the job, by a client that has yet to put it into the ring or has taken it out.
  The item tells the fence and what became of its job so far.
\<close>

fun worker_item :: "worker_pc \<Rightarrow> (ptr \<times> outcome) multiset" where
  "worker_item (W_execute job) = {#(job_fence job, Waiting)#}"
| "worker_item (W_signal job) = {#(job_fence job, Executed 1)#}"
| "worker_item _ = {#}"

fun client_item :: "client_pc \<Rightarrow> (ptr \<times> outcome) multiset" where
  "client_item (C_wait_space job) = {#(job_fence job, Waiting)#}"
| "client_item (C_recheck job) = {#(job_fence job, Waiting)#}"
| "client_item (C_drop_signal fence) = {#(fence, Dropped)#}"
| "client_item _ = {#}"

definition ring_items :: "util_queue \<Rightarrow> (ptr \<times> outcome) multiset" where
  "ring_items q = image_mset (\<lambda>f. (f, Waiting)) (mset (live_fences (contents q)))"

definition balanced :: "(ptr \<times> outcome) multiset \<Rightarrow> (ptr \<Rightarrow> bool) \<Rightarrow> (ptr \<Rightarrow> outcome) \<Rightarrow> bool" where
  "balanced A sig out \<longleftrightarrow> (\<forall>f x. count A (f, x) = of_bool (\<not> sig f \<and> out f = x)) \<and>
     (\<forall>f. sig f \<longrightarrow> out f \<in> {Unused, Executed 1, Dropped, Abandoned})"

lemma balanced_count: "balanced A sig out \<Longrightarrow> count A (f, x) = of_bool (\<not> sig f \<and> out f = x)"
  by (simp add: balanced_def)

lemma balanced_member:
  assumes "balanced (A + {#(f, x)#}) sig out"
  shows "\<not> sig f \<and> out f = x"
proof (rule ccontr)
  assume "\<not> (\<not> sig f \<and> out f = x)"
  then show False using balanced_count [OF assms, of f x] by (auto simp: of_bool_def)
qed

lemma balanced_change:
  assumes b: "balanced (A + {#(f, x)#}) sig out"
  shows "balanced (A + {#(f, y)#}) sig (out(f := y))"
proof -
  note m = balanced_member [OF b]
  have "count (A + {#(f, y)#}) (g, z) = of_bool (\<not> sig g \<and> (out(f := y)) g = z)" for g z
    using balanced_count [OF b, of g z] m by (cases "g = f") (auto split: if_splits)
  then show ?thesis using b m by (auto simp: balanced_def)
qed

lemma balanced_remove:
  assumes b: "balanced (A + {#(f, x)#}) sig out" and x: "out' f \<in> {Unused, Executed 1, Dropped, Abandoned}" "\<forall>g. g \<noteq> f \<longrightarrow> out' g = out g"
  shows "balanced A (sig(f := True)) out'"
proof -
  note m = balanced_member [OF b]
  have c: "count (A + {#(f, x)#}) (g, z) = of_bool (\<not> sig g \<and> out g = z)" for g z using b by (simp add: balanced_def)
  have "count A (g, z) = of_bool (\<not> (sig(f := True)) g \<and> out' g = z)" for g z
    using c [of g z] m x(2) by (cases "g = f") (auto split: if_splits)
  then show ?thesis using b x by (auto simp: balanced_def)
qed

lemma balanced_add:
  assumes b: "balanced A sig out" and f: "sig f"
  shows "balanced (A + {#(f, x)#}) (sig(f := False)) (out(f := x))"
proof -
  have c: "count A (g, z) = of_bool (\<not> sig g \<and> out g = z)" for g z using b by (simp add: balanced_def)
  have "count (A + {#(f, x)#}) (g, z) = of_bool (\<not> (sig(f := False)) g \<and> (out(f := x)) g = z)" for g z
    using c [of g z] f by (cases "g = f") auto
  then show ?thesis using b by (auto simp: balanced_def)
qed

text \<open>Items of several jobs that all wait.\<close>

lemma balanced_waiting:
  assumes "balanced (A + image_mset (\<lambda>f. (f, Waiting)) (mset fs)) sig out"
  shows "distinct fs" "f \<in> set fs \<Longrightarrow> \<not> sig f"
proof -
  have c: "count A (f, Waiting) + count_list fs f \<le> 1" for f
  proof -
    have "count (image_mset (\<lambda>f. (f, Waiting)) (mset fs)) (f, Waiting) = count_list fs f"
      by (induction fs) auto
    moreover have "count (A + image_mset (\<lambda>f. (f, Waiting)) (mset fs)) (f, Waiting) \<le> 1"
      using assms by (simp add: balanced_def)
    ultimately show ?thesis by simp
  qed
  then have "count_list fs f \<le> 1" for f using add_leE by blast
  then show "distinct fs"
  proof (induction fs)
    case (Cons g fs)
    have "count_list fs f \<le> 1" for f using Cons.prems [of f] by (simp split: if_splits)
    moreover have "count_list fs g = 0" using Cons.prems [of g] by simp
    ultimately show ?case using Cons.IH by (simp add: count_list_0_iff)
  qed simp
  assume "f \<in> set fs"
  then obtain B where "mset fs = B + {#f#}" by (metis in_multiset_in_set add.commute insert_DiffM add_mset_add_single)
  then show "\<not> sig f" using balanced_member [of "A + image_mset (\<lambda>f. (f, Waiting)) B" f Waiting sig out] assms by (simp add: ac_simps)
qed

lemma balanced_abandon:
  "balanced (A + image_mset (\<lambda>f. (f, Waiting)) (mset fs)) sig out \<Longrightarrow>
   balanced A (\<lambda>f. sig f \<or> f \<in> set fs) (\<lambda>f. if f \<in> set fs then Abandoned else out f)"
proof (induction fs arbitrary: sig out)
  case (Cons g fs)
  have "balanced ((A + image_mset (\<lambda>f. (f, Waiting)) (mset fs)) + {#(g, Waiting)#}) sig out"
    using Cons.prems by (simp add: ac_simps)
  from balanced_remove [OF this, of "out(g := Abandoned)"]
  have "balanced (A + image_mset (\<lambda>f. (f, Waiting)) (mset fs)) (sig(g := True)) (out(g := Abandoned))" by simp
  from Cons.IH [OF this]
  have "balanced A (\<lambda>f. (sig(g := True)) f \<or> f \<in> set fs) (\<lambda>f. if f \<in> set fs then Abandoned else (out(g := Abandoned)) f)" .
  moreover have "(\<lambda>f. (sig(g := True)) f \<or> f \<in> set fs) = (\<lambda>f. sig f \<or> f \<in> set (g # fs))" by auto
  moreover have "(\<lambda>f. if f \<in> set fs then Abandoned else (out(g := Abandoned)) f) = (\<lambda>f. if f \<in> set (g # fs) then Abandoned else out f)"
    by auto
  ultimately show ?case by simp
qed simp

text \<open>One thread moves.\<close>

lemma sum_items:
  fixes item :: "'pc \<Rightarrow> 'x multiset"
  assumes "t < (n :: nat)"
  obtains B where "(\<Sum>a<n. item (pcs a)) = B + item (pcs t)" "\<And>pc. (\<Sum>a<n. item ((pcs(t := pc)) a)) = B + item pc"
proof -
  have s: "(\<Sum>a<n. item (f a)) = (\<Sum>a\<in>{..<n} - {t}. item (f a)) + item (f t)" for f :: "nat \<Rightarrow> 'pc"
    using sum.remove [of "{..<n}" t "\<lambda>a. item (f a)"] assms by (simp add: add.commute)
  have "(\<Sum>a\<in>{..<n} - {t}. item ((pcs(t := pc)) a)) = (\<Sum>a\<in>{..<n} - {t}. item (pcs a))" for pc
    by (rule sum.cong) auto
  then show thesis using that s [of pcs] s [of "pcs(t := pc)" for pc] by simp
qed

definition items :: "nat \<Rightarrow> nat \<Rightarrow> util_queue \<Rightarrow> (thread \<Rightarrow> worker_pc) \<Rightarrow> (thread \<Rightarrow> client_pc) \<Rightarrow> (ptr \<times> outcome) multiset" where
  "items N M q ws cs = ring_items q + (\<Sum>w<N. worker_item (ws w)) + (\<Sum>c<M. client_item (cs c))"

lemma items_worker:
  assumes "w < N"
  obtains B where "\<And>q. items N M q ws cs = B + worker_item (ws w) + ring_items q"
    "\<And>q pc. items N M q (ws(w := pc)) cs = B + worker_item pc + ring_items q"
proof -
  obtain B where "(\<Sum>a<N. worker_item (ws a)) = B + worker_item (ws w)"
    "\<And>pc. (\<Sum>a<N. worker_item ((ws(w := pc)) a)) = B + worker_item pc" by (rule sum_items [OF assms, where item = worker_item and pcs = ws]) blast
  then show thesis by (intro that [of "B + (\<Sum>c<M. client_item (cs c))"]) (simp_all add: items_def ac_simps)
qed

lemma items_client:
  assumes "c < M"
  obtains B where "\<And>q. items N M q ws cs = B + client_item (cs c) + ring_items q"
    "\<And>q pc. items N M q ws (cs(c := pc)) = B + client_item pc + ring_items q"
proof -
  obtain B where "(\<Sum>a<M. client_item (cs a)) = B + client_item (cs c)"
    "\<And>pc. (\<Sum>a<M. client_item ((cs(c := pc)) a)) = B + client_item pc" by (rule sum_items [OF assms, where item = client_item and pcs = cs]) blast
  then show thesis by (intro that [of "B + (\<Sum>w<N. worker_item (ws w))"]) (simp_all add: items_def ac_simps)
qed

lemma items_wake_workers: "W \<subseteq> {w. ws w = W_wait} \<Longrightarrow> items N M q (wake_workers W ws) cs = items N M q ws cs"
proof -
  assume "W \<subseteq> {w. ws w = W_wait}"
  then have "worker_item (wake_workers W ws w) = worker_item (ws w)" for w by (auto simp: wake_workers_def)
  then show ?thesis by (simp add: items_def)
qed

lemma items_wake_clients: "items N M q ws (wake_clients W cs) = items N M q ws cs"
proof -
  have "client_item (wake_clients W cs c) = client_item (cs c)" for c by (cases "cs c") (auto simp: wake_clients_def)
  then show ?thesis by (simp add: items_def)
qed

text \<open>Items of the ring when jobs enter and leave.\<close>

lemma ring_items_take:
  "contents q \<noteq> [] \<Longrightarrow> contents q' = tl (contents q) \<Longrightarrow>
   ring_items q = ring_items q' + (if job_ptr (hd (contents q)) \<noteq> NULL then {#(job_fence (hd (contents q)), Waiting)#} else {#})"
  by (cases "contents q") (auto simp: ring_items_def)

lemma ring_items_put:
  "contents q' = contents q @ [job] \<Longrightarrow> job_ptr job \<noteq> NULL \<Longrightarrow> ring_items q' = ring_items q + {#(job_fence job, Waiting)#}"
  by (simp add: ring_items_def)

lemma ring_items_drop:
  assumes "k < length (contents q)" "contents q' = (contents q)[k := null_job]" "job_ptr (contents q ! k) \<noteq> NULL"
  shows "ring_items q = ring_items q' + {#(job_fence (contents q ! k), Waiting)#}"
proof -
  have "contents q = take k (contents q) @ contents q ! k # drop (Suc k) (contents q)"
    using assms(1) by (rule id_take_nth_drop)
  moreover have "contents q' = take k (contents q) @ null_job # drop (Suc k) (contents q)"
    using assms(1,2) by (simp add: upd_conv_take_nth_drop)
  ultimately have "mset (live_fences (contents q)) = mset (live_fences (contents q')) + {#job_fence (contents q ! k)#}"
    using assms(3) by (metis (no_types, lifting) live_fences_simps(2,3) mset.simps(2) mset_append union_mset_add_mset_right add_mset_add_single util_queue_job.select_convs(1))
  then show ?thesis by (simp add: ring_items_def)
qed

section \<open>The invariant\<close>

definition recheckers :: "(thread \<Rightarrow> client_pc) \<Rightarrow> thread set" where
  "recheckers cs = {c. \<exists>job. cs c = C_recheck job}"

definition space_waiters :: "(thread \<Rightarrow> client_pc) \<Rightarrow> thread set" where
  "space_waiters cs = {c. \<exists>job. cs c = C_wait_space job}"

text \<open>
  Nobody sleeps for nothing: while jobs are queued a worker is awake, and while a client sleeps
  for space the free slots are promised to clients that are awake; no client waits for space in
  a queue that grows. When the threads are to
  terminate, no worker sleeps, no client is about to add a job, and the first worker to go empties
  the ring.
\<close>

definition wake_inv :: "nat \<Rightarrow> util_queue \<Rightarrow> (thread \<Rightarrow> worker_pc) \<Rightarrow> (thread \<Rightarrow> client_pc) \<Rightarrow> bool" where
  "wake_inv N q ws cs \<longleftrightarrow>
     (if kill_threads q
      then num_queued q < max_jobs q \<and> space_waiters cs = {} \<and> recheckers cs = {} \<and> (\<forall>w. ws w \<noteq> W_wait) \<and>
           ((\<exists>w<N. ws w = W_done) \<longrightarrow> num_queued q = 0)
      else (\<forall>w<N. ws w \<noteq> W_exit \<and> ws w \<noteq> W_done) \<and> (0 < num_queued q \<longrightarrow> (\<exists>w<N. ws w \<noteq> W_wait)) \<and>
           (space_waiters cs \<noteq> {} \<longrightarrow> max_jobs q \<le> num_queued q + card (recheckers cs)) \<and>
           (resize_if_full q \<longrightarrow> space_waiters cs = {} \<and> recheckers cs = {}))"

fun client_ok :: "client_pc \<Rightarrow> bool" where
  "client_ok (C_wait_space job) \<longleftrightarrow> job_ptr job \<noteq> NULL \<and> job_fence job \<noteq> NULL"
| "client_ok (C_recheck job) \<longleftrightarrow> job_ptr job \<noteq> NULL \<and> job_fence job \<noteq> NULL"
| "client_ok (C_drop_lock f) \<longleftrightarrow> f \<noteq> NULL"
| "client_ok _ \<longleftrightarrow> True"

definition thread_inv :: "nat \<Rightarrow> nat \<Rightarrow> util_queue \<Rightarrow> (thread \<Rightarrow> worker_pc) \<Rightarrow> (thread \<Rightarrow> client_pc) \<Rightarrow> bool" where
  "thread_inv N M q ws cs \<longleftrightarrow> ring_wf q \<and> (\<forall>w. N \<le> w \<longrightarrow> ws w = W_done) \<and> (\<forall>c. M \<le> c \<longrightarrow> cs c = C_out) \<and>
     (\<forall>job\<in>set (contents q). job_ptr job = NULL \<longleftrightarrow> job_fence job = NULL) \<and> (\<forall>c. client_ok (cs c))"

definition queue_inv :: "nat \<Rightarrow> nat \<Rightarrow> queue_state \<Rightarrow> bool" where
  "queue_inv N M s \<longleftrightarrow> thread_inv N M (queue s) (workers s) (clients s) \<and>
     balanced (items N M (queue s) (workers s) (clients s)) (signalled s) (outcomes s) \<and>
     wake_inv N (queue s) (workers s) (clients s)"

lemma queue_invI:
  assumes "thread_inv N M (queue s) (workers s) (clients s)"
    "balanced (items N M (queue s) (workers s) (clients s)) (signalled s) (outcomes s)"
    "wake_inv N (queue s) (workers s) (clients s)"
  shows "queue_inv N M s"
  using assms by (simp add: queue_inv_def)

lemma queue_invD:
  assumes "queue_inv N M s"
  shows "thread_inv N M (queue s) (workers s) (clients s)"
    "balanced (items N M (queue s) (workers s) (clients s)) (signalled s) (outcomes s)"
    "wake_inv N (queue s) (workers s) (clients s)" "ring_wf (queue s)"
  using assms by (simp_all add: queue_inv_def thread_inv_def)

lemma finite_recheckers: "thread_inv N M q ws cs \<Longrightarrow> finite (recheckers cs)"
proof -
  assume "thread_inv N M q ws cs"
  then have "recheckers cs \<subseteq> {..<M}" by (auto simp: thread_inv_def recheckers_def not_less [symmetric])
  then show ?thesis using finite_subset by blast
qed

lemma woken_client:
  "wake_clients W cs c = C_wait_space job \<longleftrightarrow> c \<notin> W \<and> cs c = C_wait_space job"
  "wake_clients W cs c = C_recheck job \<longleftrightarrow> cs c = C_recheck job \<or> c \<in> W \<and> cs c = C_wait_space job"
  by (cases "cs c"; auto simp: wake_clients_def)+

lemma woken_clients:
  assumes "W \<subseteq> space_waiters cs"
  shows "space_waiters (wake_clients W cs) = space_waiters cs - W" "recheckers (wake_clients W cs) = recheckers cs \<union> W"
  using assms by (auto simp: space_waiters_def recheckers_def woken_client)

lemma client_ok_wake: "client_ok (wake_clients W cs c) \<longleftrightarrow> client_ok (cs c)"
  by (cases "cs c") (auto simp: wake_clients_def)

lemma wake_clients_out: "wake_clients W cs c = C_out \<longleftrightarrow> cs c = C_out"
  by (cases "cs c") (auto simp: wake_clients_def)

section \<open>Every step keeps the invariant\<close>

lemma thread_inv_worker: "thread_inv N M q ws cs \<Longrightarrow> w < N \<Longrightarrow> thread_inv N M q (ws(w := pc)) cs"
  by (simp add: thread_inv_def)

lemma thread_inv_client: "thread_inv N M q ws cs \<Longrightarrow> c < M \<Longrightarrow> client_ok pc \<Longrightarrow> thread_inv N M q ws (cs(c := pc))"
  by (simp add: thread_inv_def)

lemma thread_inv_queue:
  "thread_inv N M q ws cs \<Longrightarrow> ring_wf q' \<Longrightarrow> \<forall>job\<in>set (contents q'). job \<in> set (contents q) \<or> (job_ptr job = NULL \<longleftrightarrow> job_fence job = NULL) \<Longrightarrow>
   thread_inv N M q' ws cs"
  unfolding thread_inv_def by blast

lemma thread_inv_wake_clients: "thread_inv N M q ws cs \<Longrightarrow> thread_inv N M q ws (wake_clients W cs)"
  by (simp add: thread_inv_def client_ok_wake wake_clients_out)

lemma thread_inv_wake_workers: "thread_inv N M q ws cs \<Longrightarrow> W \<subseteq> {w. ws w = W_wait} \<Longrightarrow> thread_inv N M q (wake_workers W ws) cs"
  by (auto simp: thread_inv_def wake_workers_def)

lemmas thread_inv_intros = thread_inv_worker thread_inv_client thread_inv_wake_clients thread_inv_wake_workers

text \<open>A waiting worker holds no job, and a step of a worker or client elsewhere does not matter to
  those who sleep.\<close>

lemma wake_inv_worker:
  "wake_inv N q ws cs \<Longrightarrow> pc \<noteq> W_wait \<Longrightarrow> pc \<noteq> W_exit \<or> kill_threads q \<Longrightarrow> pc \<noteq> W_done \<Longrightarrow> wake_inv N q (ws(w := pc)) cs"
  by (auto simp: wake_inv_def split: if_splits)

lemma client_sets_update:
  "space_waiters (cs(c := pc)) = (if \<exists>job. pc = C_wait_space job then insert c (space_waiters cs) else space_waiters cs - {c})"
  "recheckers (cs(c := pc)) = (if \<exists>job. pc = C_recheck job then insert c (recheckers cs) else recheckers cs - {c})"
  by (auto simp: space_waiters_def recheckers_def)

lemma wake_inv_client:
  assumes "wake_inv N q ws cs" "c \<notin> space_waiters cs" "c \<notin> recheckers cs"
    "\<forall>job. pc \<noteq> C_wait_space job \<and> pc \<noteq> C_recheck job"
  shows "wake_inv N q ws (cs(c := pc))"
  using assms by (simp add: wake_inv_def client_sets_update)

lemma execute_step:
  assumes inv: "queue_inv N M s" and w: "w < N" and pc: "workers s w = W_execute job"
  shows "\<exists>s'. exec_execute w s = Some s' \<and> queue_inv N M s'"
proof -
  note i = queue_invD [OF inv]
  let ?f = "job_fence job" and ?q = "queue s"
  obtain B where B: "items N M ?q (workers s) (clients s) = B + worker_item (workers s w) + ring_items ?q"
    "\<And>pc. items N M ?q ((workers s)(w := pc)) (clients s) = B + worker_item pc + ring_items ?q"
    by (rule items_worker [OF w, where ws = "workers s" and cs = "clients s"]) blast
  have b: "balanced ((B + ring_items ?q) + {#(?f, Waiting)#}) (signalled s) (outcomes s)"
    using i(2) pc by (simp add: B ac_simps)
  have "balanced (items N M ?q ((workers s)(w := W_signal job)) (clients s)) (signalled s) ((outcomes s)(?f := Executed 1))"
    using balanced_change [OF b, of "Executed 1"] by (simp add: B ac_simps)
  then show ?thesis
    using balanced_member [OF b] pc i w
    by (auto simp: exec_execute_def intro!: queue_invI thread_inv_intros wake_inv_worker)
qed

lemma signal_step:
  assumes inv: "queue_inv N M s" and w: "w < N" and pc: "workers s w = W_signal job"
  shows "\<exists>s'. exec_signal w s = Some s' \<and> queue_inv N M s'"
proof -
  note i = queue_invD [OF inv]
  let ?f = "job_fence job" and ?q = "queue s"
  obtain B where B: "items N M ?q (workers s) (clients s) = B + worker_item (workers s w) + ring_items ?q"
    "\<And>pc. items N M ?q ((workers s)(w := pc)) (clients s) = B + worker_item pc + ring_items ?q"
    by (rule items_worker [OF w, where ws = "workers s" and cs = "clients s"]) blast
  have b: "balanced ((B + ring_items ?q) + {#(?f, Executed 1)#}) (signalled s) (outcomes s)"
    using i(2) pc by (simp add: B ac_simps)
  note m = balanced_member [OF b]
  have "balanced (B + ring_items ?q) ((signalled s)(?f := True)) (outcomes s)"
    using balanced_remove [OF b, of "outcomes s"] m by simp
  then have "balanced (items N M ?q ((workers s)(w := pc)) (clients s)) ((signalled s)(?f := True)) (outcomes s)"
    if "pc \<in> {W_cleanup job, W_lock}" for pc using that by (auto simp: B)
  then show ?thesis
    using m pc i w
    by (auto simp: exec_signal_def intro!: queue_invI thread_inv_intros wake_inv_worker)
qed

lemma cleanup_step:
  assumes inv: "queue_inv N M s" and w: "w < N" and pc: "workers s w = W_cleanup job"
  shows "queue_inv N M (s\<lparr>workers := (workers s)(w := W_lock)\<rparr>)"
proof -
  note i = queue_invD [OF inv]
  obtain B where B: "items N M (queue s) (workers s) (clients s) = B + worker_item (workers s w) + ring_items (queue s)"
    "\<And>pc. items N M (queue s) ((workers s)(w := pc)) (clients s) = B + worker_item pc + ring_items (queue s)"
    by (rule items_worker [OF w, where ws = "workers s" and cs = "clients s"]) blast
  show ?thesis using i w pc by (auto simp: B intro!: queue_invI thread_inv_intros wake_inv_worker)
qed

lemma items_idle_worker:
  assumes "w < N" "worker_item (ws w) = {#}" "worker_item pc = {#}"
  shows "items N M q (ws(w := pc)) cs = items N M q ws cs"
proof -
  obtain B where "\<And>q. items N M q ws cs = B + worker_item (ws w) + ring_items q"
    "\<And>q pc. items N M q (ws(w := pc)) cs = B + worker_item pc + ring_items q"
    by (rule items_worker [OF assms(1), where ws = ws and cs = cs]) blast
  then show ?thesis using assms by simp
qed

lemma items_idle_client:
  assumes "c < M" "client_item (cs c) = {#}" "client_item pc = {#}"
  shows "items N M q ws (cs(c := pc)) = items N M q ws cs"
proof -
  obtain B where "\<And>q. items N M q ws cs = B + client_item (cs c) + ring_items q"
    "\<And>q pc. items N M q ws (cs(c := pc)) = B + client_item pc + ring_items q"
    by (rule items_client [OF assms(1), where ws = ws and cs = cs]) blast
  then show ?thesis using assms by simp
qed

text \<open>Taking a job frees a slot, and the signal that follows promises it to a sleeping client.\<close>

lemma wake_inv_take:
  assumes t: "thread_inv N M q ws cs" and inv: "wake_inv N q ws cs" and k: "\<not> kill_threads q" "0 < num_queued q"
    and q': "max_jobs q' = max_jobs q" "num_queued q' = num_queued q - 1" "same_setup q q'"
    and W: "cond_signals (space_waiters cs) W" and w: "w < N" and pc: "pc \<noteq> W_wait" "pc \<noteq> W_exit" "pc \<noteq> W_done"
  shows "wake_inv N q' (ws(w := pc)) (wake_clients W cs)"
proof -
  have sub: "W \<subseteq> space_waiters cs" using W by (simp add: cond_signals_def)
  have kill: "\<not> kill_threads q'" "resize_if_full q' = resize_if_full q" using q' k by (simp_all add: same_setup_def)
  have r: "recheckers cs = {} \<and> W = {} \<and> space_waiters cs = {}" if "resize_if_full q" using that inv k sub by (auto simp: wake_inv_def)
  have "max_jobs q' \<le> num_queued q' + card (recheckers cs \<union> W)" if ne: "space_waiters cs - W \<noteq> {}"
  proof -
    have "W \<noteq> {}" "max_jobs q \<le> num_queued q + card (recheckers cs)"
      using ne W inv k by (auto simp: cond_signals_def wake_inv_def)
    moreover have "W \<inter> recheckers cs = {}" using sub by (auto simp: space_waiters_def recheckers_def)
    moreover have fin: "finite (recheckers cs)" by (rule finite_recheckers [OF t])
    moreover have "finite W"
      using finite_recheckers [OF thread_inv_wake_clients [OF t, of W]] woken_clients [OF sub] by simp
    ultimately have "card (recheckers cs \<union> W) = card (recheckers cs) + card W" "0 < card W"
      by (simp_all add: card_Un_disjoint inf_commute card_gt_0_iff)
    then show ?thesis using \<open>max_jobs q \<le> num_queued q + card (recheckers cs)\<close> q' k by linarith
  qed
  moreover have "\<forall>v<N. (ws(w := pc)) v \<noteq> W_exit \<and> (ws(w := pc)) v \<noteq> W_done" using inv k pc by (simp add: wake_inv_def)
  moreover have "\<exists>v<N. (ws(w := pc)) v \<noteq> W_wait" using w pc by auto
  ultimately show ?thesis using kill r unfolding wake_inv_def woken_clients [OF sub] by simp
qed

lemma take_step:
  assumes inv: "queue_inv N M s" and w: "w < N" and pc: "workers s w \<in> {W_lock, W_recheck}"
    and W: "cond_signals (space_waiters (clients s)) W" and k: "\<not> kill_threads (queue s)" "0 < num_queued (queue s)"
  shows "\<exists>pc q. worker_poll (queue s) = Some (pc, q) \<and> pc \<noteq> W_wait \<and> pc \<noteq> W_exit \<and>
    queue_inv N M (s\<lparr>queue := q, workers := (workers s)(w := pc), clients := wake_clients W (clients s)\<rparr>)"
proof -
  note i = queue_invD [OF inv]
  obtain q' where q': "take_job (queue s) = Some (hd (contents (queue s)), q')" "ring_wf q'" "contents q' = tl (contents (queue s))"
    "max_jobs q' = max_jobs (queue s)" "num_queued q' = num_queued (queue s) - 1" "same_setup (queue s) q'"
    using take_job_contents [OF i(4) k(2)] by blast
  let ?job = "hd (contents (queue s))"
  define pc' where "pc' = (if job_ptr ?job \<noteq> NULL then W_execute ?job else W_lock)"
  have poll: "worker_poll (queue s) = Some (pc', q')" using k q'(1) by (simp add: worker_poll_def pc'_def)
  have pc': "pc' \<noteq> W_wait" "pc' \<noteq> W_exit" "pc' \<noteq> W_done" by (simp_all add: pc'_def)
  obtain B where B: "\<And>q. items N M q (workers s) (clients s) = B + worker_item (workers s w) + ring_items q"
    "\<And>q pc. items N M q ((workers s)(w := pc)) (clients s) = B + worker_item pc + ring_items q"
    by (rule items_worker [OF w, where ws = "workers s" and cs = "clients s"]) blast
  have ne: "contents (queue s) \<noteq> []" using k(2) length_ring_contents [of "queue s"] by force
  have "worker_item (workers s w) = {#}" using pc by auto
  then have "items N M q' ((workers s)(w := pc')) (wake_clients W (clients s)) = items N M (queue s) (workers s) (clients s)"
    using ring_items_take [OF ne q'(3)] by (simp add: items_wake_clients B pc'_def ac_simps)
  moreover have "thread_inv N M q' ((workers s)(w := pc')) (wake_clients W (clients s))"
    using ne q'(3) by (intro thread_inv_intros thread_inv_queue [OF i(1) q'(2)] w) (auto dest: list.set_sel(2))
  moreover have "wake_inv N q' ((workers s)(w := pc')) (wake_clients W (clients s))"
    by (rule wake_inv_take [OF i(1,3) k q'(4-6) W w pc'])
  ultimately show ?thesis using poll pc' i(2) by (auto intro!: queue_invI)
qed

lemma poll_step:
  assumes inv: "queue_inv N M s" and w: "w < N" and pc: "workers s w \<in> {W_lock, W_recheck}"
    and W: "cond_signals (space_sleepers s) W"
  shows "\<exists>s'. exec_poll w W s = Some s' \<and> queue_inv N M s'"
proof -
  note i = queue_invD [OF inv]
  have lock: "worker_lock (queue s) = worker_poll (queue s)" using ring_wfD(4) [OF i(4)] by (simp add: worker_lock_def)
  have idle: "worker_item (workers s w) = {#}" using pc by auto
  have W': "cond_signals (space_waiters (clients s)) W" using W by (simp add: space_sleepers_def space_waiters_def)
  consider (sleep) "\<not> kill_threads (queue s)" "num_queued (queue s) = 0" | (exit) "kill_threads (queue s)"
    | (take) "\<not> kill_threads (queue s)" "0 < num_queued (queue s)" by blast
  then show ?thesis
  proof cases
    case sleep
    have "wake_inv N (queue s) ((workers s)(w := W_wait)) (clients s)" using i(3) sleep by (simp add: wake_inv_def)
    then show ?thesis using sleep i(1,2) w
      by (auto simp: exec_poll_def lock worker_poll_def items_idle_worker [OF w, where ws = "workers s", OF idle] intro!: queue_invI thread_inv_intros)
  next
    case exit
    then show ?thesis using i(1-3) w
      by (auto simp: exec_poll_def lock worker_poll_def items_idle_worker [OF w, where ws = "workers s", OF idle] intro!: queue_invI thread_inv_intros wake_inv_worker)
  next
    case take
    then show ?thesis using take_step [OF inv w pc W' take] by (auto simp: exec_poll_def lock)
  qed
qed

lemma exit_step:
  assumes inv: "queue_inv N M s" and w: "w < N" and pc: "workers s w = W_exit"
  shows "\<exists>s'. exec_exit w s = Some s' \<and> queue_inv N M s'"
proof -
  note i = queue_invD [OF inv]
  have k: "kill_threads (queue s)" "num_queued (queue s) < max_jobs (queue s)" using i(3) w pc by (auto simp: wake_inv_def split: if_splits)
  let ?fs = "live_fences (contents (queue s))"
  obtain B where B: "\<And>q. items N M q (workers s) (clients s) = B + worker_item (workers s w) + ring_items q"
    "\<And>q pc. items N M q ((workers s)(w := pc)) (clients s) = B + worker_item pc + ring_items q"
    by (rule items_worker [OF w, where ws = "workers s" and cs = "clients s"]) blast
  have b: "balanced (B + image_mset (\<lambda>f. (f, Waiting)) (mset ?fs)) (signalled s) (outcomes s)"
    using i(2) pc by (simp add: B ring_items_def)
  note live = balanced_waiting [OF b]
  obtain q' where q': "thread_exit (queue s) (signalled s) = Some (q', \<lambda>f. signalled s f \<or> f \<in> set ?fs)" "ring_wf q'"
    "contents q' = []" "max_jobs q' = max_jobs (queue s)" "num_queued q' = 0" "same_setup (queue s) q'"
    using thread_exit_contents [OF i(4) k(2) live(1)] live(2) by blast
  have out: "(\<lambda>f. if (signalled s f \<or> f \<in> set ?fs) \<and> \<not> signalled s f then Abandoned else outcomes s f) =
      (\<lambda>f. if f \<in> set ?fs then Abandoned else outcomes s f)" using live(2) by auto
  have "ring_items q' = {#}" using q'(3) by (simp add: ring_items_def)
  then have "balanced (items N M q' ((workers s)(w := W_done)) (clients s)) (\<lambda>f. signalled s f \<or> f \<in> set ?fs)
      (\<lambda>f. if f \<in> set ?fs then Abandoned else outcomes s f)" using balanced_abandon [OF b] by (simp add: B)
  moreover have "thread_inv N M q' ((workers s)(w := W_done)) (clients s)"
    using q'(3) by (intro thread_inv_intros thread_inv_queue [OF i(1) q'(2)] w) simp
  moreover have "wake_inv N q' ((workers s)(w := W_done)) (clients s)"
    using i(3) k q'(4-6) by (auto simp: wake_inv_def same_setup_def)
  ultimately show ?thesis using q'(1) by (auto simp: exec_exit_def out intro!: queue_invI)
qed

text \<open>Putting a job into the ring uses the slot promised to the client, and the signal that follows
  wakes a worker when all of them sleep.\<close>

lemma wake_inv_put:
  assumes inv: "wake_inv N q ws cs" and k: "\<not> kill_threads q" and q': "max_jobs q' = max_jobs q" "num_queued q' = num_queued q + 1"
    "same_setup q q'" and t: "thread_inv N M q ws cs" and N: "0 < N" and W: "cond_signals {w. ws w = W_wait} W"
  shows "wake_inv N q' (wake_workers W ws) (cs(c := C_out))"
proof -
  have kill: "\<not> kill_threads q'" "resize_if_full q' = resize_if_full q" using q' k by (simp_all add: same_setup_def)
  have awake: "\<exists>w<N. wake_workers W ws w \<noteq> W_wait"
  proof (cases "W = {}")
    case True
    then show ?thesis using W N by (auto simp: cond_signals_def wake_workers_def)
  next
    case False
    then obtain w where w: "w \<in> W" by blast
    then have "ws w = W_wait" using W by (auto simp: cond_signals_def)
    then have "w < N" using t by (metis thread_inv_def not_le worker_pc.distinct(25))
    then show ?thesis using w by (auto simp: wake_workers_def)
  qed
  have "card (recheckers cs) \<le> Suc (card (recheckers cs - {c}))"
    by (cases "c \<in> recheckers cs") (simp_all add: card_Suc_Diff1 [OF finite_recheckers [OF t]])
  then have "max_jobs q' \<le> num_queued q' + card (recheckers cs - {c})" if "space_waiters cs - {c} \<noteq> {}"
  proof -
    have "max_jobs q \<le> num_queued q + card (recheckers cs)" using that inv k by (auto simp: wake_inv_def)
    then show ?thesis using \<open>card (recheckers cs) \<le> _\<close> q' by linarith
  qed
  moreover have "\<forall>v<N. wake_workers W ws v \<noteq> W_exit \<and> wake_workers W ws v \<noteq> W_done" using inv k by (simp add: wake_inv_def wake_workers_def)
  moreover have "recheckers cs = {} \<and> space_waiters cs = {}" if "resize_if_full q" using that inv k by (simp add: wake_inv_def)
  ultimately show ?thesis using kill awake unfolding wake_inv_def client_sets_update by simp
qed

lemma put_step:
  assumes inv: "queue_inv N M s" and c: "c < M" and k: "\<not> kill_threads (queue s)" and N: "0 < N"
    and b: "\<And>B. (\<And>q pc. items N M q (workers s) ((clients s)(c := pc)) = B + client_item pc + ring_items q) \<Longrightarrow>
      balanced (B + {#(job_fence job, Waiting)#} + ring_items (queue s)) sig out"
    and job: "job_ptr job \<noteq> NULL" "job_fence job \<noteq> NULL" and W: "cond_signals (queue_sleepers s) W"
    and q': "ring_wf q'" "contents q' = contents (queue s) @ [job]" "num_queued q' = num_queued (queue s) + 1" "same_setup (queue s) q'"
      "wake_inv N q' (wake_workers W (workers s)) ((clients s)(c := C_out))"
  shows "queue_inv N M (s\<lparr>queue := q', signalled := sig, clients := (clients s)(c := C_out), workers := wake_workers W (workers s), outcomes := out\<rparr>)"
proof -
  note i = queue_invD [OF inv]
  have W': "W \<subseteq> {w. workers s w = W_wait}" using W by (simp add: cond_signals_def queue_sleepers_def)
  obtain B where B: "\<And>q pc. items N M q (workers s) ((clients s)(c := pc)) = B + client_item pc + ring_items q"
    by (rule items_client [OF c, where ws = "workers s" and cs = "clients s"]) blast
  have "balanced (items N M q' (wake_workers W (workers s)) ((clients s)(c := C_out))) sig out"
    using b [OF B] ring_items_put [OF q'(2) job(1)] by (simp add: items_wake_workers [OF W'] B ac_simps)
  moreover have "thread_inv N M q' (wake_workers W (workers s)) ((clients s)(c := C_out))"
    using q'(2) job by (intro thread_inv_intros thread_inv_queue [OF i(1) q'(1)] c W') simp_all
  ultimately show ?thesis using q'(5) by (intro queue_invI) simp_all
qed

lemma recheck_step:
  assumes inv: "queue_inv N M s" and c: "c < M" and pc: "clients s c = C_recheck job"
    and W: "cond_signals (queue_sleepers s) W" and N: "0 < N"
  shows "\<exists>s'. exec_recheck c W s = Some s' \<and> queue_inv N M s'"
proof -
  note i = queue_invD [OF inv]
  have k: "\<not> kill_threads (queue s)" using i(3) pc by (auto simp: wake_inv_def recheckers_def split: if_splits)
  have ok: "client_ok (clients s c)" using i(1) by (simp add: thread_inv_def)
  then have job: "job_ptr job \<noteq> NULL" "job_fence job \<noteq> NULL" using pc by simp_all
  obtain B where B: "\<And>q. items N M q (workers s) (clients s) = B + client_item (clients s c) + ring_items q"
    "\<And>q pc. items N M q (workers s) ((clients s)(c := pc)) = B + client_item pc + ring_items q"
    by (rule items_client [OF c, where ws = "workers s" and cs = "clients s"]) blast
  show ?thesis
  proof (cases "num_queued (queue s) = max_jobs (queue s)")
    case True
    have "\<not> resize_if_full (queue s)" using i(3) k pc by (auto simp: wake_inv_def recheckers_def)
    then have "wake_inv N (queue s) (workers s) ((clients s)(c := C_wait_space job))"
      using i(3) k True by (simp add: wake_inv_def)
    then show ?thesis using True i(1,2) c pc job
      by (auto simp: exec_recheck_def add_recheck_def B intro!: queue_invI thread_inv_intros)
  next
    case False
    then have n: "num_queued (queue s) < max_jobs (queue s)" using ring_wfD(4) [OF i(4)] by simp
    obtain q' where q': "put_job (queue s) job = Some q'" "ring_wf q'" "contents q' = contents (queue s) @ [job]"
      "max_jobs q' = max_jobs (queue s)" "num_queued q' = num_queued (queue s) + 1" "same_setup (queue s) q'"
      using put_job_contents [OF i(4) n] by blast
    have b: "balanced (B' + {#(job_fence job, Waiting)#} + ring_items (queue s)) (signalled s) (outcomes s)"
      if "\<And>q pc. items N M q (workers s) ((clients s)(c := pc)) = B' + client_item pc + ring_items q" for B'
    proof -
      have "items N M (queue s) (workers s) (clients s) = B' + client_item (clients s c) + ring_items (queue s)"
        using that [of "queue s" "clients s c"] by (simp only: fun_upd_triv)
      then show ?thesis using i(2) pc by simp
    qed
    have "wake_inv N q' (wake_workers W (workers s)) ((clients s)(c := C_out))"
      using wake_inv_put [OF i(3) k q'(4-6) i(1) N, of W c] W by (simp add: queue_sleepers_def)
    from put_step [OF inv c k N b job W q'(2,3,5,6) this] show ?thesis
      using False q'(1) pc by (auto simp: exec_recheck_def add_recheck_def)
  qed
qed

lemma add_step:
  assumes inv: "queue_inv N M s" and c: "c < M" and pc: "clients s c = C_out" and job: "job_ptr job \<noteq> NULL" "job_fence job \<noteq> NULL"
    and sig: "signalled s (job_fence job)" and W: "cond_signals (queue_sleepers s) W" and N: "0 < N"
  shows "\<exists>s'. exec_add c job W s = Some s' \<and> queue_inv N M s'"
proof (cases "kill_threads (queue s)")
  case True
  then show ?thesis using inv by (simp add: exec_add_def util_queue_add_job_def)
next
  case k: False
  note i = queue_invD [OF inv]
  let ?q = "queue s" and ?sig = "(signalled s)(job_fence job := False)" and ?out = "(outcomes s)(job_fence job := Waiting)"
  have le: "num_queued ?q \<le> max_jobs ?q" by (rule ring_wfD(4) [OF i(4)])
  have b: "balanced (B' + {#(job_fence job, Waiting)#} + ring_items ?q) ?sig ?out"
    if "\<And>q pc. items N M q (workers s) ((clients s)(c := pc)) = B' + client_item pc + ring_items q" for B'
  proof -
    have "items N M ?q (workers s) (clients s) = B' + client_item (clients s c) + ring_items ?q"
      using that [of ?q "clients s c"] by (simp only: fun_upd_triv)
    then show ?thesis using balanced_add [OF i(2) sig, of Waiting] pc by (simp add: ac_simps)
  qed
  have put: "\<exists>q'. put_job q job = Some q' \<and> queue_inv N M (s\<lparr>queue := q', signalled := ?sig, clients := (clients s)(c := C_out),
      workers := wake_workers W (workers s), outcomes := ?out\<rparr>)"
    if q: "ring_wf q" "contents q = contents ?q" "num_queued q = num_queued ?q" "same_setup ?q q" "num_queued q < max_jobs q"
      "wake_inv N q (workers s) (clients s)" "thread_inv N M q (workers s) (clients s)" for q
  proof -
    obtain q' where q': "put_job q job = Some q'" "ring_wf q'" "contents q' = contents q @ [job]"
      "max_jobs q' = max_jobs q" "num_queued q' = num_queued q + 1" "same_setup q q'"
      using put_job_contents [OF q(1,5)] by blast
    have kq: "\<not> kill_threads q" using k q(4) by (simp add: same_setup_def)
    have "wake_inv N q' (wake_workers W (workers s)) ((clients s)(c := C_out))"
      using wake_inv_put [OF q(6) kq q'(4-6) q(7) N, of W c] W by (simp add: queue_sleepers_def)
    moreover have "same_setup ?q q'" using q(4) q'(6) by (simp add: same_setup_def)
    ultimately show ?thesis using put_step [OF inv c k N b job W q'(2)] q' q by simp
  qed
  consider (room) "num_queued ?q < max_jobs ?q" | (grow) "num_queued ?q = max_jobs ?q" "resize_if_full ?q"
    | (full) "num_queued ?q = max_jobs ?q" "\<not> resize_if_full ?q" using le by linarith
  then show ?thesis
  proof cases
    case room
    then show ?thesis using put [OF i(4) _ _ same_setup_refl room i(3,1)] k sig
      by (auto simp: exec_add_def util_queue_add_job_def)
  next
    case full
    obtain B where B: "\<And>q pc. items N M q (workers s) ((clients s)(c := pc)) = B + client_item pc + ring_items q"
      by (rule items_client [OF c, where ws = "workers s" and cs = "clients s"]) blast
    have "wake_inv N ?q (workers s) ((clients s)(c := C_wait_space job))" using i(3) k full by (simp add: wake_inv_def)
    then show ?thesis using full k sig i(1) c job b [OF B]
      by (auto simp: exec_add_def util_queue_add_job_def B intro!: queue_invI thread_inv_intros)
  next
    case grow
    obtain q where q: "resize_queue ?q = Some q" "ring_wf q" "contents q = contents ?q"
      "max_jobs q = max_jobs ?q + 8" "num_queued q = num_queued ?q" "same_setup ?q q"
      using resize_queue_contents [OF i(4) grow(1)] by blast
    have "wake_inv N q (workers s) (clients s)" using i(3) k grow(2) q(5,6) by (simp add: wake_inv_def same_setup_def)
    moreover have "thread_inv N M q (workers s) (clients s)" using i(1) q(2,3) by (simp add: thread_inv_def)
    moreover have "num_queued q < max_jobs q" using q(4,5) grow(1) by simp
    ultimately show ?thesis using put [OF q(2,3,5,6)] grow q(1) k sig by (auto simp: exec_add_def util_queue_add_job_def)
  qed
qed

lemma drop_locked_step:
  assumes inv: "queue_inv N M s" and c: "c < M" and pc: "clients s c = C_drop_lock f"
  shows "\<exists>s'. exec_drop_locked c s = Some s' \<and> queue_inv N M s'"
proof -
  note i = queue_invD [OF inv]
  let ?q = "queue s"
  have "client_ok (clients s c)" using i(1) by (simp add: thread_inv_def)
  then have f: "f \<noteq> NULL" using pc by simp
  have away: "c \<notin> space_waiters (clients s)" "c \<notin> recheckers (clients s)" using pc by (simp_all add: space_waiters_def recheckers_def)
  have idle: "client_item (clients s c) = {#}" using pc by simp
  note d = drop_locked_contents [OF i(4), of f]
  show ?thesis
  proof (cases "num_queued ?q < max_jobs ?q \<and> (\<exists>job\<in>set (contents ?q). job_fence job = f)")
    case False
    then have "drop_locked ?q f = Some (None, ?q)" using d by (simp split: if_splits)
    moreover have "queue_inv N M (s\<lparr>clients := (clients s)(c := C_fence_wait f)\<rparr>)"
      using i away c
      by (auto simp: items_idle_client [OF c, where cs = "clients s", OF idle] intro!: queue_invI thread_inv_intros wake_inv_client)
    ultimately show ?thesis using pc by (simp add: exec_drop_locked_def)
  next
    case True
    then obtain k q' where q': "k < num_queued ?q" "job_fence (contents ?q ! k) = f"
      "drop_locked ?q f = Some (Some (contents ?q ! k), q')" "ring_wf q'" "contents q' = (contents ?q)[k := null_job]"
      "max_jobs q' = max_jobs ?q" "num_queued q' = num_queued ?q" "same_setup ?q q'"
      using d by (simp split: if_splits) blast
    have "contents ?q ! k \<in> set (contents ?q)" using q'(1) by simp
    then have ptr: "job_ptr (contents ?q ! k) \<noteq> NULL" using i(1) q'(2) f by (auto simp: thread_inv_def)
    obtain B where B: "\<And>q. items N M q (workers s) (clients s) = B + client_item (clients s c) + ring_items q"
      "\<And>q pc. items N M q (workers s) ((clients s)(c := pc)) = B + client_item pc + ring_items q"
      by (rule items_client [OF c, where ws = "workers s" and cs = "clients s"]) blast
    have b: "balanced ((B + ring_items q') + {#(f, Waiting)#}) (signalled s) (outcomes s)"
      using i(2) ring_items_drop [of k ?q q'] q' ptr by (simp add: B idle ac_simps)
    have "balanced (items N M q' (workers s) ((clients s)(c := C_drop_signal f))) (signalled s) ((outcomes s)(f := Dropped))"
      using balanced_change [OF b, of Dropped] by (simp add: B ac_simps)
    moreover have "thread_inv N M q' (workers s) ((clients s)(c := C_drop_signal f))"
      using q'(5) by (intro thread_inv_intros thread_inv_queue [OF i(1) q'(4)] c) (auto dest: set_update_subset_insert [THEN subsetD])
    moreover have "wake_inv N q' (workers s) (clients s)" using i(3) q'(6-8) by (simp add: wake_inv_def same_setup_def)
    then have "wake_inv N q' (workers s) ((clients s)(c := C_drop_signal f))" by (rule wake_inv_client) (use away in simp_all)
    ultimately have "queue_inv N M (s\<lparr>queue := q', clients := (clients s)(c := C_drop_signal f), outcomes := (outcomes s)(f := Dropped)\<rparr>)"
      by (intro queue_invI) simp_all
    then show ?thesis using pc q'(3) by (simp add: exec_drop_locked_def)
  qed
qed

lemma drop_signal_step:
  assumes inv: "queue_inv N M s" and c: "c < M" and pc: "clients s c = C_drop_signal f"
  shows "\<exists>s'. exec_drop_signal c s = Some s' \<and> queue_inv N M s'"
proof -
  note i = queue_invD [OF inv]
  have away: "c \<notin> space_waiters (clients s)" "c \<notin> recheckers (clients s)" using pc by (simp_all add: space_waiters_def recheckers_def)
  obtain B where B: "\<And>q. items N M q (workers s) (clients s) = B + client_item (clients s c) + ring_items q"
    "\<And>q pc. items N M q (workers s) ((clients s)(c := pc)) = B + client_item pc + ring_items q"
    by (rule items_client [OF c, where ws = "workers s" and cs = "clients s"]) blast
  have b: "balanced ((B + ring_items (queue s)) + {#(f, Dropped)#}) (signalled s) (outcomes s)"
    using i(2) pc by (simp add: B ac_simps)
  note m = balanced_member [OF b]
  have "balanced (items N M (queue s) (workers s) ((clients s)(c := C_out))) ((signalled s)(f := True)) (outcomes s)"
    using balanced_remove [OF b, of "outcomes s"] m by (simp add: B)
  then show ?thesis using pc m i away c
    by (auto simp: exec_drop_signal_def intro!: queue_invI thread_inv_intros wake_inv_client)
qed

text \<open>Between two calls, and from a call to the end of a wait.\<close>

lemma idle_client_step:
  assumes inv: "queue_inv N M s" and c: "c < M" and pc: "clients s c = C_out \<or> clients s c = C_fence_wait f"
    and pc': "pc' = C_out \<or> pc' = C_fence_wait g \<or> pc' = C_drop_lock g \<and> g \<noteq> NULL"
  shows "queue_inv N M (s\<lparr>clients := (clients s)(c := pc')\<rparr>)"
proof -
  note i = queue_invD [OF inv]
  have away: "c \<notin> space_waiters (clients s)" "c \<notin> recheckers (clients s)" using pc by (auto simp: space_waiters_def recheckers_def)
  have idle: "client_item (clients s c) = {#}" using pc by auto
  show ?thesis using i away c pc' idle
    by (auto simp: items_idle_client [OF c] intro!: queue_invI thread_inv_intros wake_inv_client)
qed

lemma kill_step:
  assumes inv: "queue_inv N M s" and n: "\<not> kill_threads (queue s)" "num_queued (queue s) < max_jobs (queue s)"
    "\<forall>a job. clients s a \<noteq> C_wait_space job \<and> clients s a \<noteq> C_recheck job"
  shows "queue_inv N M (s\<lparr>queue := (queue s)\<lparr>kill_threads := True\<rparr>, workers := wake_workers (queue_sleepers s) (workers s)\<rparr>)"
proof -
  note i = queue_invD [OF inv]
  let ?q = "(queue s)\<lparr>kill_threads := True\<rparr>"
  have same: "contents ?q = contents (queue s)" "ring_wf ?q = ring_wf (queue s)"
    by (simp_all add: contents_def ring_wf_def ring_at_def)
  have "items N M ?q = items N M (queue s)" by (simp add: items_def ring_items_def same fun_eq_iff)
  moreover have "wake_inv N ?q (wake_workers (queue_sleepers s) (workers s)) (clients s)"
    using n i(3) by (auto simp: wake_inv_def wake_workers_def queue_sleepers_def space_waiters_def recheckers_def)
  moreover have "thread_inv N M ?q (workers s) (clients s)" using i(1) by (simp add: thread_inv_def same)
  ultimately show ?thesis using i(2)
    by (intro queue_invI) (simp_all add: items_wake_workers queue_sleepers_def thread_inv_wake_workers)
qed

lemma worker_wakes_step:
  assumes inv: "queue_inv N M s" and pc: "workers s w = W_wait"
  shows "queue_inv N M (s\<lparr>workers := (workers s)(w := W_recheck)\<rparr>)"
proof -
  note i = queue_invD [OF inv]
  have "w < N" using i(1) pc by (metis thread_inv_def not_le worker_pc.distinct(25))
  then show ?thesis using i pc
    by (auto simp: items_idle_worker intro!: queue_invI thread_inv_intros wake_inv_worker)
qed

lemma client_wakes_step:
  assumes inv: "queue_inv N M s" and pc: "clients s c = C_wait_space job"
  shows "queue_inv N M (s\<lparr>clients := wake_clients {c} (clients s)\<rparr>)"
proof -
  note i = queue_invD [OF inv]
  have c: "{c} \<subseteq> space_waiters (clients s)" using pc by (auto simp: space_waiters_def)
  have "card (recheckers (clients s)) \<le> card (recheckers (clients s) \<union> {c})"
    using finite_recheckers [OF i(1)] by (intro card_mono) auto
  then have "wake_inv N (queue s) (workers s) (wake_clients {c} (clients s))"
    using i(3) c unfolding wake_inv_def woken_clients [OF c] by (auto split: if_splits)
  then show ?thesis using i(1,2)
    by (intro queue_invI) (simp_all add: items_wake_clients thread_inv_wake_clients)
qed

theorem queue_step:
  assumes inv: "queue_inv N M s" and N: "0 < N" and c: "queue_enabled N M s c" "orderly s c"
  shows "\<exists>s'. queue_exec c s = Some s' \<and> queue_inv N M s'"
  using assms
  by (cases c) (auto simp: queue_enabled_def orderly_def queue_exec_def exec_drop_def exec_kill_def poll_step execute_step signal_step cleanup_step exit_step
      recheck_step drop_locked_step drop_signal_step add_step kill_step worker_wakes_step client_wakes_step
      intro: idle_client_step)

lemma queue_start_inv: "0 < sz \<Longrightarrow> queue_inv N M (queue_start N sz resize)"
  by (simp add: queue_inv_def queue_start_def thread_inv_def items_def ring_items_def balanced_def wake_inv_def
      space_waiters_def recheckers_def util_queue_init_def contents_def ring_wf_def ring_at_def)

lemma queue_reachable_inv: "queue_reachable N M sz resize s \<Longrightarrow> 0 < N \<Longrightarrow> 0 < sz \<Longrightarrow> queue_inv N M s"
proof (induction rule: queue_reachable.induct)
  case start
  then show ?case by (simp add: queue_start_inv)
next
  case (step s c s')
  then show ?case using queue_step [of N M s c] by auto
qed

section \<open>The queue comes to rest\<close>

text \<open>The steps threads do on their own, when no client calls a function anew.\<close>

fun own_call :: "queue_call \<Rightarrow> bool" where
  "own_call (Add _ _ _) = False"
| "own_call (Drop _ _) = False"
| "own_call (Fence_wait _ _) = False"
| "own_call Kill = False"
| "own_call (Worker_wakes _) = False"
| "own_call (Client_wakes _) = False"
| "own_call _ = True"

lemma own_call_orderly: "own_call c \<Longrightarrow> orderly s c"
  by (cases c) (simp_all add: orderly_def)

definition own_step :: "nat \<Rightarrow> nat \<Rightarrow> queue_state \<Rightarrow> queue_state \<Rightarrow> bool" where
  "own_step N M s s' \<longleftrightarrow> (\<exists>c. own_call c \<and> queue_enabled N M s c \<and> queue_exec c s = Some s')"

text \<open>The work that is left, and the threads that are about to test a condition.\<close>

fun worker_work :: "worker_pc \<Rightarrow> nat" where
  "worker_work (W_execute _) = 5"
| "worker_work (W_signal _) = 4"
| "worker_work (W_cleanup _) = 3"
| "worker_work W_exit = 1"
| "worker_work W_done = 0"
| "worker_work _ = 2"

fun client_work :: "client_pc \<Rightarrow> nat" where
  "client_work (C_wait_space _) = 5"
| "client_work (C_recheck _) = 5"
| "client_work (C_drop_lock _) = 3"
| "client_work (C_drop_signal _) = 2"
| "client_work (C_fence_wait _) = 1"
| "client_work C_out = 0"

fun worker_awake :: "worker_pc \<Rightarrow> nat" where
  "worker_awake W_lock = 1"
| "worker_awake W_recheck = 1"
| "worker_awake _ = 0"

fun client_awake :: "client_pc \<Rightarrow> nat" where
  "client_awake (C_recheck _) = 1"
| "client_awake _ = 0"

definition work :: "nat \<Rightarrow> nat \<Rightarrow> queue_state \<Rightarrow> nat" where
  "work N M s = 4 * num_queued (queue s) + (\<Sum>w<N. worker_work (workers s w)) + (\<Sum>c<M. client_work (clients s c))"

definition awake :: "nat \<Rightarrow> nat \<Rightarrow> queue_state \<Rightarrow> nat" where
  "awake N M s = (\<Sum>w<N. worker_awake (workers s w)) + (\<Sum>c<M. client_awake (clients s c))"

definition queue_order :: "nat \<Rightarrow> nat \<Rightarrow> (queue_state \<times> queue_state) set" where
  "queue_order N M = inv_image (less_than <*lex*> less_than) (\<lambda>s. (work N M s, awake N M s))"

lemma wf_queue_order: "wf (queue_order N M)"
  unfolding queue_order_def by (intro wf_inv_image wf_lex_prod wf_less_than)

lemma queue_orderI: "work N M s' < work N M s \<or> work N M s' = work N M s \<and> awake N M s' < awake N M s \<Longrightarrow> (s', s) \<in> queue_order N M"
  by (auto simp: queue_order_def)

lemma worker_sums:
  assumes "(w :: nat) < N"
  shows "(\<Sum>a<N. worker_work ((ws(w := pc)) a)) + worker_work (ws w) = (\<Sum>a<N. worker_work (ws a)) + worker_work pc"
    "(\<Sum>a<N. worker_awake ((ws(w := pc)) a)) + worker_awake (ws w) = (\<Sum>a<N. worker_awake (ws a)) + worker_awake pc"
  by (rule sum_thread [OF finite_lessThan iffD2 [OF lessThan_iff assms]])+

lemma client_sums:
  assumes "(c :: nat) < M"
  shows "(\<Sum>a<M. client_work ((cs(c := pc)) a)) + client_work (cs c) = (\<Sum>a<M. client_work (cs a)) + client_work pc"
    "(\<Sum>a<M. client_awake ((cs(c := pc)) a)) + client_awake (cs c) = (\<Sum>a<M. client_awake (cs a)) + client_awake pc"
  by (rule sum_thread [OF finite_lessThan iffD2 [OF lessThan_iff assms]])+

lemma wake_work:
  "(\<Sum>a<M. client_work (wake_clients W cs a)) = (\<Sum>a<M. client_work (cs a))"
  "W \<subseteq> {w. ws w = W_wait} \<Longrightarrow> (\<Sum>a<N. worker_work (wake_workers W ws a)) = (\<Sum>a<N. worker_work (ws a))"
proof -
  have "client_work (wake_clients W cs a) = client_work (cs a)" for a by (cases "cs a") (auto simp: wake_clients_def)
  then show "(\<Sum>a<M. client_work (wake_clients W cs a)) = (\<Sum>a<M. client_work (cs a))" by simp
  assume "W \<subseteq> {w. ws w = W_wait}"
  then have "worker_work (wake_workers W ws a) = worker_work (ws a)" for a by (auto simp: wake_workers_def)
  then show "(\<Sum>a<N. worker_work (wake_workers W ws a)) = (\<Sum>a<N. worker_work (ws a))" by simp
qed

lemma poll_order:
  assumes inv: "queue_inv N M s" and w: "w < N" and pc: "workers s w \<in> {W_lock, W_recheck}" and s': "exec_poll w W s = Some s'"
  shows "(s', s) \<in> queue_order N M"
proof -
  note i = queue_invD [OF inv]
  note ws = worker_sums [OF w, where ws = "workers s"]
  have lock: "worker_lock (queue s) = worker_poll (queue s)" using ring_wfD(4) [OF i(4)] by (simp add: worker_lock_def)
  have old: "worker_work (workers s w) = 2" "worker_awake (workers s w) = 1" using pc by auto
  consider (sleep) "\<not> kill_threads (queue s)" "num_queued (queue s) = 0" | (exit) "kill_threads (queue s)"
    | (take) "\<not> kill_threads (queue s)" "0 < num_queued (queue s)" by blast
  then show ?thesis
  proof cases
    case sleep
    then have "s' = s\<lparr>workers := (workers s)(w := W_wait)\<rparr>" using s' by (auto simp: exec_poll_def lock worker_poll_def split: if_splits)
    then show ?thesis using ws [of W_wait] old by (intro queue_orderI) (simp add: work_def awake_def)
  next
    case exit
    then have "s' = s\<lparr>workers := (workers s)(w := W_exit)\<rparr>" using s' by (auto simp: exec_poll_def lock worker_poll_def split: if_splits)
    then show ?thesis using ws [of W_exit] old by (intro queue_orderI) (simp add: work_def awake_def)
  next
    case take
    obtain q' where q': "take_job (queue s) = Some (hd (contents (queue s)), q')" "num_queued q' = num_queued (queue s) - 1"
      using take_job_contents [OF i(4) take(2)] by blast
    define pc' where "pc' = (if job_ptr (hd (contents (queue s))) \<noteq> NULL then W_execute (hd (contents (queue s))) else W_lock)"
    have "s' = s\<lparr>queue := q', workers := (workers s)(w := pc'), clients := wake_clients W (clients s)\<rparr>"
      using s' take q'(1) by (auto simp: exec_poll_def lock worker_poll_def pc'_def split: if_splits)
    moreover have "worker_work pc' \<le> 5" by (simp add: pc'_def)
    ultimately show ?thesis using ws(1) [of pc'] old q'(2) take(2) by (intro queue_orderI disjI1) (simp add: work_def wake_work)
  qed
qed

lemma recheck_order:
  assumes inv: "queue_inv N M s" and c: "c < M" and pc: "clients s c = C_recheck job"
    and W: "cond_signals (queue_sleepers s) W" and s': "exec_recheck c W s = Some s'"
  shows "(s', s) \<in> queue_order N M"
proof -
  note i = queue_invD [OF inv]
  note cs = client_sums [OF c, where cs = "clients s"]
  have W': "W \<subseteq> {w. workers s w = W_wait}" using W by (simp add: cond_signals_def queue_sleepers_def)
  show ?thesis
  proof (cases "num_queued (queue s) = max_jobs (queue s)")
    case True
    then have "s' = s\<lparr>clients := (clients s)(c := C_wait_space job)\<rparr>" using s' pc by (simp add: exec_recheck_def add_recheck_def)
    then show ?thesis using cs [of "C_wait_space job"] pc by (intro queue_orderI) (simp add: work_def awake_def)
  next
    case False
    then have n: "num_queued (queue s) < max_jobs (queue s)" using ring_wfD(4) [OF i(4)] by simp
    obtain q' where q': "put_job (queue s) job = Some q'" "num_queued q' = num_queued (queue s) + 1"
      using put_job_contents [OF i(4) n] by blast
    have "s' = s\<lparr>queue := q', clients := (clients s)(c := C_out), workers := wake_workers W (workers s)\<rparr>"
      using s' pc False q'(1) by (simp add: exec_recheck_def add_recheck_def)
    then show ?thesis using cs(1) [of C_out] pc q'(2) by (intro queue_orderI) (simp add: work_def wake_work W')
  qed
qed

lemma exit_order:
  assumes inv: "queue_inv N M s" and w: "w < N" and pc: "workers s w = W_exit" and s': "exec_exit w s = Some s'"
  shows "(s', s) \<in> queue_order N M"
proof -
  obtain q sig where q: "thread_exit (queue s) (signalled s) = Some (q, sig)" "queue s' = q" "workers s' = (workers s)(w := W_done)" "clients s' = clients s"
    using s' by (auto simp: exec_exit_def split: bind_splits)
  have "num_queued q = 0" using q(1) by (auto simp: thread_exit_def split: bind_splits)
  then show ?thesis using worker_sums(1) [OF w, of "workers s" W_done] pc q(2-4) by (intro queue_orderI) (simp add: work_def)
qed

lemma drop_locked_order:
  assumes inv: "queue_inv N M s" and c: "c < M" and pc: "clients s c = C_drop_lock f" and s': "exec_drop_locked c s = Some s'"
  shows "(s', s) \<in> queue_order N M"
proof -
  note d = drop_locked_contents [OF queue_invD(4) [OF inv], of f]
  obtain pc' q where q: "queue s' = q" "num_queued q = num_queued (queue s)" "workers s' = workers s"
    "clients s' = (clients s)(c := pc')" "client_work pc' \<le> 2"
  proof (cases "num_queued (queue s) < max_jobs (queue s) \<and> (\<exists>job\<in>set (contents (queue s)). job_fence job = f)")
    case True
    then obtain k q' where "drop_locked (queue s) f = Some (Some (contents (queue s) ! k), q')" "num_queued q' = num_queued (queue s)"
      using d by (simp split: if_splits) blast
    then show thesis using s' pc that [of q' "C_drop_signal f"] by (auto simp: exec_drop_locked_def)
  next
    case False
    then have "drop_locked (queue s) f = Some (None, queue s)" using d by (simp split: if_splits)
    then show thesis using s' pc that [of "queue s" "C_fence_wait f"] by (auto simp: exec_drop_locked_def)
  qed
  then show ?thesis using client_sums(1) [OF c, of "clients s" pc'] pc by (intro queue_orderI) (simp add: work_def)
qed

lemma worker_order:
  assumes w: "w < N" and s': "queue s' = queue s" "clients s' = clients s" "workers s' = (workers s)(w := pc)"
    and pc: "worker_work pc < worker_work (workers s w)"
  shows "(s', s) \<in> queue_order N M"
  using worker_sums(1) [OF w, of "workers s" pc] s' pc by (intro queue_orderI) (simp add: work_def)

lemma client_order:
  assumes c: "c < M" and s': "queue s' = queue s" "workers s' = workers s" "clients s' = (clients s)(c := pc)"
    and pc: "client_work pc < client_work (clients s c)"
  shows "(s', s) \<in> queue_order N M"
  using client_sums(1) [OF c, of "clients s" pc] s' pc by (intro queue_orderI) (simp add: work_def)

lemma items_executed: "(f, Executed n) \<in># items N M q ws cs \<Longrightarrow> n = 1"
proof -
  have w: "(f, Executed n) \<in># worker_item pc \<Longrightarrow> n = 1" for pc by (cases pc) auto
  have c: "(f, Executed n) \<notin># client_item pc" for pc by (cases pc) auto
  assume "(f, Executed n) \<in># items N M q ws cs"
  then show ?thesis using w c by (auto simp: items_def ring_items_def set_mset_sum)
qed

lemma own_step_order:
  assumes inv: "queue_inv N M s" and step: "own_step N M s s'"
  shows "(s', s) \<in> queue_order N M"
proof -
  obtain c where c: "own_call c" "queue_enabled N M s c" "queue_exec c s = Some s'" using step by (auto simp: own_step_def)
  then show ?thesis
  proof (cases c)
    case (Execute w)
    then obtain job where "w < N" "workers s w = W_execute job" using c(2) by (auto simp: queue_enabled_def)
    then show ?thesis using Execute c(3) by (intro worker_order [of w _ _ _ "W_signal job"]) (auto simp: queue_exec_def exec_execute_def)
  next
    case (Signal w)
    then obtain job where "w < N" "workers s w = W_signal job" using c(2) by (auto simp: queue_enabled_def)
    then show ?thesis using Signal c(3)
      by (intro worker_order [of w _ _ _ "if job_cleanup job \<noteq> NULL then W_cleanup job else W_lock"])
        (auto simp: queue_exec_def exec_signal_def split: if_splits)
  next
    case (Cleanup w)
    then obtain job where "w < N" "workers s w = W_cleanup job" using c(2) by (auto simp: queue_enabled_def)
    then show ?thesis using Cleanup c(3) by (intro worker_order [of w _ _ _ W_lock]) (auto simp: queue_exec_def)
  next
    case (Drop_signal d)
    then obtain f where "d < M" "clients s d = C_drop_signal f" using c(2) by (auto simp: queue_enabled_def)
    then show ?thesis using Drop_signal c(3)
      by (intro client_order [of d _ _ _ C_out]) (auto simp: queue_exec_def exec_drop_signal_def split: if_splits)
  next
    case (Wait_done d)
    then obtain f where "d < M" "clients s d = C_fence_wait f" using c(2) by (auto simp: queue_enabled_def)
    then show ?thesis using Wait_done c(3) by (intro client_order [of d _ _ _ C_out]) (auto simp: queue_exec_def)
  qed (use inv in \<open>auto simp: queue_enabled_def queue_exec_def intro: poll_order recheck_order exit_order drop_locked_order\<close>)
qed

lemma own_step_inv: "queue_inv N M s \<Longrightarrow> 0 < N \<Longrightarrow> own_step N M s s' \<Longrightarrow> queue_inv N M s'"
  unfolding own_step_def using queue_step own_call_orderly by fastforce

lemma own_stepI: "queue_inv N M s \<Longrightarrow> 0 < N \<Longrightarrow> own_call c \<Longrightarrow> queue_enabled N M s c \<Longrightarrow> \<exists>s'. own_step N M s s'"
  unfolding own_step_def using queue_step own_call_orderly by blast

text \<open>A state in which no thread can go on by itself.\<close>

lemma rest_workers:
  assumes inv: "queue_inv N M s" and N: "0 < N" and stuck: "\<nexists>s'. own_step N M s s'" and w: "w < N"
  shows "workers s w \<in> {W_wait, W_done}"
proof -
  have "\<not> queue_enabled N M s c" if "own_call c" for c using own_stepI [OF inv N that] stuck by blast
  from this [of "Poll w (space_sleepers s)"] this [of "Execute w"] this [of "Signal w"] this [of "Cleanup w"] this [of "Exit w"]
  show ?thesis using w by (cases "workers s w") (auto simp: queue_enabled_def cond_signals_def)
qed

lemma rest_clients:
  assumes inv: "queue_inv N M s" and N: "0 < N" and stuck: "\<nexists>s'. own_step N M s s'" and c: "c < M"
  shows "clients s c = C_out \<or> (\<exists>job. clients s c = C_wait_space job) \<or> (\<exists>f. clients s c = C_fence_wait f \<and> \<not> signalled s f)"
proof -
  have "\<not> queue_enabled N M s d" if "own_call d" for d using own_stepI [OF inv N that] stuck by blast
  from this [of "Recheck c (queue_sleepers s)"] this [of "Drop_locked c"] this [of "Drop_signal c"] this [of "Wait_done c"]
  show ?thesis using c by (cases "clients s c") (auto simp: queue_enabled_def cond_signals_def)
qed

lemma rest_queue:
  assumes inv: "queue_inv N M s" and N: "0 < N" and stuck: "\<nexists>s'. own_step N M s s'"
  shows "num_queued (queue s) = 0" "space_waiters (clients s) = {}" "kill_threads (queue s) \<Longrightarrow> w < N \<Longrightarrow> workers s w = W_done"
proof -
  note i = queue_invD [OF inv] and W = rest_workers [OF inv N stuck] and C = rest_clients [OF inv N stuck]
  have r: "recheckers (clients s) = {}"
  proof -
    have "clients s c \<noteq> C_recheck job" for c job using C [of c] i(1) by (cases "c < M") (auto simp: thread_inv_def)
    then show ?thesis by (simp add: recheckers_def)
  qed
  show n: "num_queued (queue s) = 0"
  proof (cases "kill_threads (queue s)")
    case True
    then show ?thesis using i(3) W [OF N] N by (auto simp: wake_inv_def)
  next
    case False
    then show ?thesis using i(3) W by (fastforce simp: wake_inv_def)
  qed
  show "space_waiters (clients s) = {}"
    using i(3) n r ring_wfD(1) [OF i(4)] by (auto simp: wake_inv_def split: if_splits)
  show "workers s w = W_done" if "kill_threads (queue s)" "w < N" using that i(3) W by (auto simp: wake_inv_def)
qed

lemma rest_fences:
  assumes inv: "queue_inv N M s" and N: "0 < N" and stuck: "\<nexists>s'. own_step N M s s'"
  shows "signalled s f"
proof -
  note i = queue_invD [OF inv] and q = rest_queue [OF inv N stuck]
  have "worker_item (workers s w) = {#}" if "w < N" for w using rest_workers [OF inv N stuck that] by auto
  moreover have "client_item (clients s c) = {#}" if "c < M" for c
    using rest_clients [OF inv N stuck that] q(2) by (auto simp: space_waiters_def)
  moreover have "contents (queue s) = []" using q(1) by (simp add: contents_def)
  ultimately have "items N M (queue s) (workers s) (clients s) = {#}" by (simp add: items_def ring_items_def)
  then show ?thesis using balanced_count [OF i(2), of f "outcomes s f"] by (cases "signalled s f") auto
qed

section \<open>Properties\<close>

text \<open>
  C13: The assertions of the queue hold and the jobs are handled once: however worker threads and
  clients interleave, as long as the queue is destroyed when its ring is not full and no client is
  waiting to add a job, no step fails an assertion or touches the ring outside of its array; a job
  is executed at most once, and a fence is signalled only after its job was executed, dropped, or
  given up by the termination of the threads.
\<close>

theorem util_queue_safe:
  assumes "queue_reachable N M sz resize s" "0 < N" "0 < sz"
  shows "(\<forall>c. queue_enabled N M s c \<longrightarrow> queue_exec c s \<noteq> None) \<and> (\<forall>f n. outcomes s f = Executed n \<longrightarrow> n = 1) \<and>
    (\<forall>f. signalled s f \<longrightarrow> outcomes s f \<in> {Unused, Executed 1, Dropped, Abandoned})"
proof -
  have inv: "queue_inv N M s" by (rule queue_reachable_inv [OF assms])
  have b: "balanced (items N M (queue s) (workers s) (clients s)) (signalled s) (outcomes s)" by (rule queue_invD(2) [OF inv])
  have "n = 1" if "outcomes s f = Executed n" for f n
  proof (cases "signalled s f")
    case True
    then show ?thesis using b that by (auto simp: balanced_def)
  next
    case False
    then have "(f, Executed n) \<in># items N M (queue s) (workers s) (clients s)" using balanced_count [OF b, of f "Executed n"] that by (simp add: count_greater_zero_iff [symmetric] del: count_greater_zero_iff)
    then show ?thesis by (rule items_executed)
  qed
  moreover have "queue_exec c s \<noteq> None" if "queue_enabled N M s c" for c
    using queue_step [OF inv assms(2) that] by (cases "c = Kill") (auto simp: orderly_def queue_exec_def exec_kill_def)
  ultimately show ?thesis using b by (auto simp: balanced_def)
qed

text \<open>
  C14: As long as the queue is destroyed, if at all, when its ring is not full and no client is waiting to add a job, no job
  is forgotten and nobody sleeps forever: once clients start no new call, the threads can do only finitely many steps, in whatever order, and they stop only when the ring is empty,
  every fence is signalled and every client has returned from its call; when the threads were told
  to terminate, all of them have.
\<close>

theorem util_queue_drains:
  assumes "queue_reachable N M sz resize s" "0 < N" "0 < sz"
  shows "\<not> (\<exists>run. run 0 = s \<and> (\<forall>i. own_step N M (run i) (run (Suc i)))) \<and>
    ((\<nexists>s'. own_step N M s s') \<longrightarrow> num_queued (queue s) = 0 \<and> (\<forall>f. signalled s f) \<and> (\<forall>c. clients s c = C_out) \<and>
       (kill_threads (queue s) \<longrightarrow> (\<forall>w. workers s w = W_done)))"
proof (intro conjI impI notI)
  have inv: "queue_inv N M s" by (rule queue_reachable_inv [OF assms])
  assume "\<exists>run. run 0 = s \<and> (\<forall>i. own_step N M (run i) (run (Suc i)))"
  then obtain run where run: "run 0 = s" "\<And>i. own_step N M (run i) (run (Suc i))" by blast
  have "queue_inv N M (run i)" for i using run inv own_step_inv [OF _ assms(2)] by (induction i) auto
  then have "(run (Suc i), run i) \<in> queue_order N M" for i using own_step_order run(2) by blast
  then show False using wf_queue_order [of N M] unfolding wf_iff_no_infinite_down_chain by blast
next
  have inv: "queue_inv N M s" by (rule queue_reachable_inv [OF assms])
  assume stuck: "\<nexists>s'. own_step N M s s'"
  note q = rest_queue [OF inv assms(2) stuck] and f = rest_fences [OF inv assms(2) stuck]
  have t: "thread_inv N M (queue s) (workers s) (clients s)" by (rule queue_invD(1) [OF inv])
  show "num_queued (queue s) = 0" "\<forall>f. signalled s f" using q f by simp_all
  show "\<forall>c. clients s c = C_out"
  proof
    fix c show "clients s c = C_out"
      using rest_clients [OF inv assms(2) stuck, of c] f q(2) t by (cases "c < M") (auto simp: thread_inv_def space_waiters_def)
  qed
  show "\<forall>w. workers s w = W_done" if "kill_threads (queue s)"
    using q(3) [OF that] t by (auto simp: thread_inv_def not_le [symmetric])
qed

section \<open>Witnesses\<close>

text \<open>A queue of one slot, one worker and two clients: the second client waits for space.\<close>

definition first_job :: util_queue_job where
  "first_job = \<lparr>job_ptr = 1, job_fence = 1, job_execute = 3, job_cleanup = NULL\<rparr>"

definition second_job :: util_queue_job where
  "second_job = \<lparr>job_ptr = 2, job_fence = 2, job_execute = 3, job_cleanup = NULL\<rparr>"

definition crowded :: queue_state where
  "crowded = \<lparr>queue = (util_queue_init 1 False)\<lparr>num_queued := 1, jobs := [first_job]\<rparr>, signalled = (\<lambda>_. True)(1 := False, 2 := False),
     workers = (\<lambda>w. if w < 1 then W_lock else W_done), clients = (\<lambda>_. C_out)(1 := C_wait_space second_job),
     outcomes = (\<lambda>_. Unused)(1 := Waiting, 2 := Waiting)\<rparr>"

lemma crowded_reachable: "queue_reachable 1 2 1 False crowded"
proof -
  let ?s = "\<lparr>queue = (util_queue_init 1 False)\<lparr>num_queued := 1, jobs := [first_job]\<rparr>, signalled = (\<lambda>_. True)(1 := False),
     workers = (\<lambda>w. if w < 1 then W_lock else W_done), clients = (\<lambda>_. C_out), outcomes = (\<lambda>_. Unused)(1 := Waiting)\<rparr>"
  have "queue_reachable 1 2 1 False ?s"
    by (rule queue_reachable.step [OF queue_reachable.start, where c = "Add 0 first_job {}"])
      (auto simp: queue_enabled_def orderly_def queue_start_def cond_signals_def queue_sleepers_def first_job_def queue_exec_def exec_add_def
        util_queue_add_job_def util_queue_init_def put_job_def slot_def  wake_workers_def fun_eq_iff)
  then show ?thesis
    by (rule queue_reachable.step [where c = "Add 1 second_job {}"])
      (auto simp: crowded_def queue_enabled_def orderly_def cond_signals_def queue_sleepers_def second_job_def queue_exec_def exec_add_def
        util_queue_add_job_def util_queue_init_def  fun_eq_iff)
qed

text \<open>
  Destroying this queue now strands it: the worker terminates, the job in the ring is neither executed
  nor is its fence signalled, and the second client sleeps for good.
\<close>

fun run_queue :: "nat \<Rightarrow> nat \<Rightarrow> queue_call list \<Rightarrow> queue_state \<Rightarrow> queue_state option" where
  "run_queue N M [] s = Some s"
| "run_queue N M (c # cs) s = (if queue_enabled N M s c then Option.bind (queue_exec c s) (run_queue N M cs) else None)"

definition stranded :: queue_state where
  "stranded = crowded\<lparr>queue := (queue crowded)\<lparr>kill_threads := True, num_queued := 0\<rparr>, workers := (\<lambda>_. W_done)\<rparr>"

lemma kill_full_ring:
  "run_queue 1 2 [Kill, Poll 0 {1}, Exit 0] crowded = Some stranded"
  "\<nexists>s'. own_step 1 2 stranded s'" "\<not> signalled stranded 1" "clients stranded 1 = C_wait_space second_job"
proof -
  have ring: "ring_wf ((queue crowded)\<lparr>kill_threads := True\<rparr>)" "num_queued (queue crowded) = max_jobs (queue crowded)"
    by (simp_all add: crowded_def util_queue_init_def ring_wf_def ring_at_def)
  from thread_exit_full [OF ring(1)] ring(2)
  have exit: "thread_exit ((queue crowded)\<lparr>kill_threads := True\<rparr>) sig = Some ((queue crowded)\<lparr>kill_threads := True, num_queued := 0\<rparr>, sig)" for sig
    by simp
  let ?k = "crowded\<lparr>queue := (queue crowded)\<lparr>kill_threads := True\<rparr>\<rparr>"
  have w: "workers crowded = (\<lambda>w. if w < 1 then W_lock else W_done)" "clients crowded = (\<lambda>_. C_out)(1 := C_wait_space second_job)"
    by (simp_all add: crowded_def)
  have "exec_kill crowded = Some ?k"
    by (simp add: exec_kill_def crowded_def wake_workers_def queue_sleepers_def fun_eq_iff)
  moreover have "exec_poll 0 {1} ?k = Some (?k\<lparr>workers := (workers crowded)(0 := W_exit)\<rparr>)"
    by (simp add: exec_poll_def w worker_lock_def worker_poll_def ring(2))
  moreover have "exec_exit 0 (?k\<lparr>workers := (workers crowded)(0 := W_exit)\<rparr>) = Some stranded"
    by (simp add: exec_exit_def exit stranded_def w fun_eq_iff)
  ultimately show "run_queue 1 2 [Kill, Poll 0 {1}, Exit 0] crowded = Some stranded"
    by (auto simp: queue_exec_def queue_enabled_def w cond_signals_def space_sleepers_def crowded_def util_queue_init_def)
  show "\<not> signalled stranded 1" "clients stranded 1 = C_wait_space second_job"
    by (simp_all add: stranded_def crowded_def)
  have "\<not> queue_enabled 1 2 stranded c" if "own_call c" for c
    using that by (cases c) (auto simp: queue_enabled_def stranded_def crowded_def split: if_splits)
  then show "\<nexists>s'. own_step 1 2 stranded s'" by (auto simp: own_step_def)
qed

theorem util_queue_safe_witness:
  "clients crowded 1 = C_wait_space second_job \<and> queue_exec (Poll 0 {1}) crowded \<noteq> None"
proof -
  have "queue_enabled 1 2 crowded (Poll 0 {1})"
    by (auto simp: queue_enabled_def crowded_def cond_signals_def space_sleepers_def)
  then show ?thesis using util_queue_safe [OF crowded_reachable] by (simp add: crowded_def)
qed

theorem util_queue_drains_witness:
  "\<not> signalled crowded 1 \<and> \<not> (\<exists>run. run 0 = crowded \<and> (\<forall>i. own_step 1 2 (run i) (run (Suc i)))) \<and> (\<exists>s'. own_step 1 2 crowded s')"
proof -
  have one: "\<not> signalled crowded 1" by (simp add: crowded_def)
  show ?thesis using util_queue_drains [OF crowded_reachable] one by (metis zero_less_one)
qed

end
