(* ===== verification/Spec2Isabelle.thy ===== *)
theory Spec2Isabelle
  imports Umath Fast_Idiv Vma Mesa_Set Register_Graph Blob Bigmath Crc32 U_Vector Slab_Machine Simple_Mtx Queue_Fence Job_Machine
begin

text \<open>
  This development verifies the data structures and integer algorithms on which the Mesa 3D drivers
  and compilers rest: most of what \<^verbatim>\<open>src/util\<close> holds that is neither an interface to the operating
  system nor floating-point arithmetic, and the serialization buffer of \<^verbatim>\<open>src/compiler\<close>. Paths below
  are relative to the root of the repository.

  \<^bold>\<open>Conventions.\<close> C integers are words of their width (\<open>u8\<close>, \<open>u32\<close>, \<open>u64\<close>, a pointer is a \<open>u64\<close>),
  so arithmetic wraps where the C code wraps; an array index or a loop counter is a natural number
  where the code's bound keeps it far from a wrap. Structures are records and enumerations are
  datatypes. A function that can fail an assertion or touch memory it does not own returns
  \<open>None\<close>, or \<open>Inl Assertion\<close> and \<open>Inl Bad_access\<close> in the theories over \<^theory_text>\<open>C_Memory\<close>; that such
  results do not occur is then a theorem. Memory allocation is a parameter that may fail wherever
  the code handles failure. Loops without an evident bound are partial functions or functions
  with a termination proof, and that they return is proved. Callbacks (hash, equality, register
  selection) are parameters with the laws their callers must keep as hypotheses. The build is the
  64-bit one, with assertions enabled.

  \<^bold>\<open>Theories and components.\<close>

    \<^item> \<^theory_text>\<open>Mesa_Prelude\<close>: names of the C types, the collections \<open>word_bits\<close> and \<open>no_wrap\<close>, and shared facts
      about words, lists and finite sets. \<^theory_text>\<open>C_Memory\<close>: blocks of bytes, the allocator, bounds-checked
      copies.
    \<^item> \<^theory_text>\<open>Bitscan\<close> (\<^verbatim>\<open>src/util/bitscan.c\<close>, \<^verbatim>\<open>bitscan.h\<close>): find-first-set, last-bit queries and the loops
      that consume a mask bit by bit. They end and visit the set bits in order.
    \<^item> \<^theory_text>\<open>Umath\<close> (\<^verbatim>\<open>src/util/u_math.h\<close>): logarithms, powers of two, bit counts, reversals, alignment,
      mip sizes and the classification of floating-point patterns, each against a mathematical
      definition.
    \<^item> \<^theory_text>\<open>Bitset\<close> (\<^verbatim>\<open>src/util/bitset.h\<close>): bit sets as word arrays, specified by the locale \<open>bitset_ops\<close> of
      finite sets and interpreted on the macros; the iteration; the range macros with the
      boundary cases in which they do nothing.
    \<^item> \<^theory_text>\<open>Fast_Idiv\<close> (\<^verbatim>\<open>src/util/fast_idiv_by_const.c\<close>, \<^verbatim>\<open>.h\<close>): the search for magic numbers and the
      sequences that use them. For every divisor the search ends and the sequence computes the
      quotient of every numerator.
    \<^item> \<^theory_text>\<open>Vma\<close> (\<^verbatim>\<open>src/util/vma.c\<close>): the heap of address ranges. Locale \<open>range_allocator\<close> states the
      contract over sets of addresses; the client theorems are proved in it and hold of the code
      through the interpretation \<open>vma\<close>.
    \<^item> \<^theory_text>\<open>Probing\<close>, \<^theory_text>\<open>Map_Interface\<close>, \<^theory_text>\<open>Hash_Table\<close>, \<^theory_text>\<open>Mesa_Set\<close> (\<^verbatim>\<open>src/util/hash_table.c\<close>, \<^verbatim>\<open>set.c\<close>): the double
      hashing loop over prime-sized tables is studied once in \<^theory_text>\<open>Probing\<close> (locales \<open>keys\<close> and
      \<open>slot_table\<close>); the contract of a finite map is the locale \<open>bounded_map\<close>; table and set are
      sublocales of both. The set is moreover the table with null data, slot for slot.
    \<^item> \<^theory_text>\<open>Register_Allocate\<close>, \<^theory_text>\<open>Register_Graph\<close> (\<^verbatim>\<open>src/util/register_allocate.c\<close>): the first holds the code
      and the phases of the colouring, the second the register sets and graphs the interface
      builds, as inductive predicates, and the end-to-end theorems: \<open>driver_set\<close> and \<open>driver_graph\<close> for
      soundness, \<open>reg_set\<close> and \<open>reg_graph\<close>, with complete conflict lists and computed q values, for the
      guarantee on trivially colorable graphs.
    \<^item> \<^theory_text>\<open>Blob\<close> (\<^verbatim>\<open>src/compiler/blob.c\<close>, \<^verbatim>\<open>blob.h\<close>): writer and reader of serialized data.
    \<^item> \<^theory_text>\<open>Bigmath\<close> (\<^verbatim>\<open>src/util/bigmath.h\<close>) and \<^theory_text>\<open>Crc32\<close> (\<^verbatim>\<open>src/util/crc32.c\<close>): multi-word arithmetic against
      natural numbers; the table-driven checksum against the bitwise shift register.
    \<^item> \<^theory_text>\<open>U_Vector\<close> (\<^verbatim>\<open>src/util/u_vector.c\<close>, \<^verbatim>\<open>u_vector.h\<close>): the growing circular buffer refines a queue, the
      locale \<open>fifo\<close>.
    \<^item> \<^theory_text>\<open>Slab\<close>, \<^theory_text>\<open>Slab_Invariant\<close>, \<^theory_text>\<open>Slab_Machine\<close> (\<^verbatim>\<open>src/util/slab.c\<close>, \<^verbatim>\<open>slab.h\<close>): the code on an explicit memory,
      the invariant of lists, pages and owners with its preservation by each atomic part, and
      the machine that interleaves the parts of any number of threads. A whole call run while the
      other threads stand still blocks (\<open>under_mutex\<close>) when it needs a mutex that is held.
    \<^item> \<^theory_text>\<open>Futex\<close> and \<^theory_text>\<open>Simple_Mtx\<close> (\<^verbatim>\<open>src/util/simple_mtx.h\<close>): the three-state futex mutex, with every
      atomic access a step of a thread. It excludes, and no wake-up is lost.
    \<^item> \<^theory_text>\<open>Queue_Fence\<close> (\<^verbatim>\<open>src/util/u_queue.h\<close>, \<^verbatim>\<open>u_queue.c\<close>): the futex fence on which clients of a job queue
      wait, at the same grain.
    \<^item> \<^theory_text>\<open>Job_Queue\<close>, \<^theory_text>\<open>Job_Machine\<close> (\<^verbatim>\<open>src/util/u_queue.c\<close>): the ring buffer of jobs as a list, and the
      machine of worker threads and clients. Its steps are the sections under the lock of the
      queue and the actions outside of it. The invariant balances every fence that is not
      signalled against the one place that holds it, and says who is awake while there is work;
      a measure shows that the queue drains. Both hold for an orderly destruction (\<open>orderly\<close>), with a ring
      that is not full and no client waiting for a slot; \<open>kill_full_ring\<close> is a run without it that
      strands a client.

  The components meet where the code makes them meet: the register allocator works on \<^theory_text>\<open>Bitset\<close>,
  the set and the 64-bit table are the hash table, the job queue uses the fence through the flag it
  implements, \<^theory_text>\<open>Blob\<close> and \<^theory_text>\<open>U_Vector\<close> use the alignment and
  power-of-two facts of \<^theory_text>\<open>Umath\<close>.

  \<^bold>\<open>Bounds.\<close> The hash table theorems cover 65536 insertions: growth goes through the table of primes,
  and the sizes up to that number are checked to be twin primes, which the double hashing needs. The counters
  stay exact also when, after that, every allocation fails and the table fills up. A register set has at
  most 2^31 registers and a graph at most 2^31 nodes, since \<^verbatim>\<open>ra_simplify\<close> counts them with an \<^verbatim>\<open>int\<close>, and the
  number of nodes times the largest q value is below 2^32 - 1, so that no sum of q values wraps. The ring of
  the job queue is below 2^31 jobs.
  The slab theorems assume that a page stays below 4 GB (\<open>parent_ok\<close>), since the code multiplies in
  32 bits. The circular buffer is a queue until its 32-bit counters wrap, that is for less than
  2^31 bytes added; beyond, assertions of the code fail. No theorem uses fuel: each loop is proved
  to end.

  \<^bold>\<open>Not modelled.\<close> Of the modelled files: spill costs of the register allocator and the rest of
  \<^verbatim>\<open>u_math.h\<close>, which compute in floating point; branches for 32-bit pointers; compiler builtins in place
  of which the portable branches stand. Of the job queue: \<^verbatim>\<open>util_queue_finish\<close>, the creation of threads and
  the list of queues to stop at exit. Of \<^verbatim>\<open>src/util\<close>: \<^verbatim>\<open>ralloc\<close>, the disk cache, the configuration
  parser and the operating system wrappers. Everything else of the repository (the GLSL, NIR and
  SPIR-V compilers, the OpenGL front end, the Gallium, AMD, Intel, Broadcom and Freedreno drivers,
  window systems and loaders) depends on generated tables, devices or display servers; its use of
  the components above is through the interfaces whose contracts are proved here.
\<close>

end
